(* ===== verification/Hw_Prelude.thy ===== *)
theory Hw_Prelude
  imports Main "HOL-Library.Word"
begin

text \<open>
  Shared vocabulary of the development. The sources are written in Amaranth, a hardware
  description language embedded in Python; this theory fixes the reading of its values.
  A value of known width is a list of bits, least significant first (\<open>bits\<close>): a
  concatenation \<^verbatim>\<open>Cat(a, b)\<close> is list append, a slice \<^verbatim>\<open>v[a:b]\<close> is \<open>bslice\<close>,
  a constant \<^verbatim>\<open>C(v, w)\<close> is \<open>to_bits w v\<close>. Data-path values of the register width are
  \<^typ>\<open>'a::len word\<close>, with \<^verbatim>\<open>xlen\<close> the length of \<^typ>\<open>'a\<close>.
\<close>

unbundle bit_operations_syntax

named_theorems hw_simps \<open>unfolding rules of combinational definitions\<close>
named_theorems bits_simps \<open>evaluation rules for bit lists\<close>

type_synonym bits = "bool list"

text \<open>Python exceptions raised while the core is configured or elaborated.\<close>

datatype py_error = ValueError | RuntimeError | AttributeError | IndexError | OtherException

section \<open>Bit lists\<close>

fun to_bits :: "nat \<Rightarrow> nat \<Rightarrow> bits" where
  "to_bits 0 v = []"
| "to_bits (Suc w) v = odd v # to_bits w (v div 2)"

fun of_bits :: "bits \<Rightarrow> nat" where
  "of_bits [] = 0"
| "of_bits (b # bs) = of_bool b + 2 * of_bits bs"

definition bslice :: "nat \<Rightarrow> nat \<Rightarrow> bits \<Rightarrow> bits" where
  "bslice lo hi v = take (hi - lo) (drop lo v)"

definition bitn :: "bits \<Rightarrow> nat \<Rightarrow> bool" where
  "bitn v i = (i < length v \<and> v ! i)"

definition any :: "bits \<Rightarrow> bool" where
  "any v = list_ex (\<lambda>b. b) v"

definition zext :: "nat \<Rightarrow> bits \<Rightarrow> bits" where
  "zext w v = take w (v @ replicate (w - length v) False)"

definition sext :: "nat \<Rightarrow> bits \<Rightarrow> bits" where
  "sext w v = take w (v @ replicate (w - length v) (v \<noteq> [] \<and> last v))"

lemma to_bits_numeral [simp, bits_simps]:
  "to_bits (numeral k) v = odd v # to_bits (pred_numeral k) (v div 2)"
  by (simp add: numeral_eq_Suc)

lemma length_to_bits [simp]: "length (to_bits w v) = w"
  by (induction w arbitrary: v) auto

lemma of_bits_to_bits [simp]: "of_bits (to_bits w v) = v mod 2 ^ w"
proof (induction w arbitrary: v)
  case (Suc w)
  have "v mod 2 ^ Suc w = v mod 2 + 2 * (v div 2 mod 2 ^ w)"
    by (simp add: mod_mult2_eq)
  then show ?case by (simp add: Suc mod_2_eq_odd)
qed simp

lemma to_bits_of_bits: "to_bits (length v) (of_bits v) = v"
  by (induction v) (auto simp: div_mult_self1)

lemma of_bits_less: "of_bits v < 2 ^ length v"
  by (induction v) auto

lemma of_bits_append: "of_bits (a @ b) = of_bits a + 2 ^ length a * of_bits b"
  by (induction a) (auto simp: algebra_simps)

lemma of_bits_inject: "length a = length b \<Longrightarrow> of_bits a = of_bits b \<longleftrightarrow> a = b"
  by (metis to_bits_of_bits)

lemma to_bits_inject:
  "a < 2 ^ w \<Longrightarrow> b < 2 ^ w \<Longrightarrow> to_bits w a = to_bits w b \<longleftrightarrow> a = b"
  by (metis of_bits_to_bits mod_less)

lemma length_bslice [simp]: "length (bslice lo hi v) = min (length v - lo) (hi - lo)"
  by (simp add: bslice_def min.commute)

lemma length_zext [simp]: "length (zext w v) = w"
  by (simp add: zext_def)

lemma length_sext [simp]: "length (sext w v) = w"
  by (simp add: sext_def)

lemma bslice_append_left [simp]: "hi \<le> length a \<Longrightarrow> bslice lo hi (a @ b) = bslice lo hi a"
  by (cases "lo \<le> hi") (auto simp: bslice_def)

lemma bslice_append_right [simp]:
  "length a \<le> lo \<Longrightarrow> bslice lo hi (a @ b) = bslice (lo - length a) (hi - length a) b"
  by (auto simp: bslice_def)

lemma bslice_full [simp]: "length v \<le> hi \<Longrightarrow> bslice 0 hi v = v"
  by (simp add: bslice_def)

lemma any_eq: "any v \<longleftrightarrow> True \<in> set v"
  by (auto simp: any_def list_ex_iff)

lemma any_iff_of_bits: "any v \<longleftrightarrow> of_bits v \<noteq> 0"
  by (induction v) (auto simp: any_def)

lemmas bslice_eval = bslice_def take_Cons' drop_Cons'

section \<open>Expanding a list of known length\<close>

lemma length_Suc_conv_D: "length v = Suc n \<Longrightarrow> \<exists>b bs. v = b # bs \<and> length bs = n"
  by (cases v) auto

lemma expand_16:
  assumes "length v = 16"
  obtains a0 a1 a2 a3 a4 a5 a6 a7 a8 a9 a10 a11 a12 a13 a14 a15
  where "v = [a0, a1, a2, a3, a4, a5, a6, a7, a8, a9, a10, a11, a12, a13, a14, a15]"
  using assms by (auto simp: numeral_eq_Suc length_Suc_conv)

section \<open>One-hot selection\<close>

text \<open>
  \<^verbatim>\<open>OneHotSwitch\<close> selects a case by a one-hot signal. A function signal is the list of the
  functions whose bit is set; the switch is defined where exactly one is, and \<^const>\<open>None\<close>
  outside its contract.
\<close>

definition one_hot_switch :: "'f list \<Rightarrow> ('f \<Rightarrow> 'r) \<Rightarrow> 'r option" where
  "one_hot_switch fs body = (case fs of [f] \<Rightarrow> Some (body f) | _ \<Rightarrow> None)"

lemma one_hot_switch_single [simp]: "one_hot_switch [f] body = Some (body f)"
  by (simp add: one_hot_switch_def)

section \<open>Words and bit lists\<close>

definition bits_to_word :: "bits \<Rightarrow> 'a::len word" where
  "bits_to_word v = of_nat (of_bits v)"

definition word_to_bits :: "'a::len word \<Rightarrow> bits" where
  "word_to_bits w = to_bits LENGTH('a) (unat w)"

lemma bits_to_word_word_to_bits [simp]: "bits_to_word (word_to_bits w) = w"
proof -
  have "unat w < 2 ^ LENGTH('a)" by (rule unsigned_less)
  then show ?thesis by (simp add: bits_to_word_def word_to_bits_def)
qed

lemma nth_to_bits: "n < w \<Longrightarrow> to_bits w v ! n = bit v n"
proof (induction w arbitrary: v n)
  case (Suc w)
  then show ?case by (cases n) (simp_all add: bit_0 bit_Suc)
qed simp

lemma bit_of_bits: "bit (of_bits v) n \<longleftrightarrow> n < length v \<and> v ! n"
proof (induction v arbitrary: n)
  case (Cons b v)
  then show ?case by (cases n) (simp_all add: bit_0 bit_Suc)
qed simp

lemma length_word_to_bits [simp]: "length (word_to_bits (w :: 'a::len word)) = LENGTH('a)"
  by (simp add: word_to_bits_def)

lemma nth_word_to_bits [simp]: "n < LENGTH('a) \<Longrightarrow> word_to_bits (w :: 'a::len word) ! n = bit w n"
  by (simp add: word_to_bits_def nth_to_bits bit_unsigned_iff)

lemma bit_bits_to_word: "bit (bits_to_word v :: 'a::len word) n \<longleftrightarrow> n < LENGTH('a) \<and> n < length v \<and> v ! n"
  by (simp add: bits_to_word_def bit_of_nat_iff bit_of_bits)

lemma word_to_bits_bits_to_word: "length v = LENGTH('a) \<Longrightarrow> word_to_bits (bits_to_word v :: 'a::len word) = v"
  by (rule nth_equalityI) (simp_all add: bit_bits_to_word)

lemma length_concat_uniform:
  "(\<And>i. i < m \<Longrightarrow> length (f i) = k) \<Longrightarrow> length (concat (map f [0..<m])) = m * k"
  by (induction m) auto

lemma nth_concat_uniform:
  "(\<And>i. i < m \<Longrightarrow> length (f i) = k) \<Longrightarrow> n < m * k \<Longrightarrow> concat (map f [0..<m]) ! n = f (n div k) ! (n mod k)"
proof (induction m)
  case (Suc m)
  then have len: "length (concat (map f [0..<m])) = m * k" by (intro length_concat_uniform) simp
  show ?case
  proof (cases "n < m * k")
    case True
    then show ?thesis using Suc len by (simp add: nth_append)
  next
    case False
    then have "n div k = m" using Suc.prems(2) by (intro div_nat_eqI) (auto simp: algebra_simps)
    moreover from this have "n mod k = n - m * k" by (simp add: modulo_nat_def)
    ultimately show ?thesis using False len by (simp add: nth_append)
  qed
qed simp
end
