(* ===== verification/Isa_Consts.thy ===== *)
theory Isa_Consts
  imports Hw_Prelude
begin

text \<open>
  The architectural constants of \<^verbatim>\<open>coreblocks/arch/isa_consts.py\<close>: each Python enum is a
  datatype of its members with the function giving a member's value. A later name with the
  value of an earlier member is, as in Python, an alias of that member: an abbreviation.
\<close>

section \<open>Instruction fields\<close>

datatype InstrType =
  InstrType_R | InstrType_I | InstrType_S | InstrType_B | InstrType_U | InstrType_J

primrec instr_type_value :: "InstrType \<Rightarrow> nat" where
  "instr_type_value InstrType_R = 0"
| "instr_type_value InstrType_I = 1"
| "instr_type_value InstrType_S = 2"
| "instr_type_value InstrType_B = 3"
| "instr_type_value InstrType_U = 4"
| "instr_type_value InstrType_J = 5"

datatype (plugins only: size code) Opcode =
  Opcode_LOAD | Opcode_LOAD_FP | Opcode_MISC_MEM | Opcode_OP_IMM | Opcode_AUIPC
  | Opcode_OP_IMM_32 | Opcode_STORE | Opcode_STORE_FP | Opcode_AMO | Opcode_OP | Opcode_LUI
  | Opcode_OP32 | Opcode_BRANCH | Opcode_JALR | Opcode_JAL | Opcode_SYSTEM | Opcode_RESERVED

primrec opcode_value :: "Opcode \<Rightarrow> nat" where
  "opcode_value Opcode_LOAD = 0"
| "opcode_value Opcode_LOAD_FP = 1"
| "opcode_value Opcode_MISC_MEM = 3"
| "opcode_value Opcode_OP_IMM = 4"
| "opcode_value Opcode_AUIPC = 5"
| "opcode_value Opcode_OP_IMM_32 = 6"
| "opcode_value Opcode_STORE = 8"
| "opcode_value Opcode_STORE_FP = 9"
| "opcode_value Opcode_AMO = 11"
| "opcode_value Opcode_OP = 12"
| "opcode_value Opcode_LUI = 13"
| "opcode_value Opcode_OP32 = 14"
| "opcode_value Opcode_BRANCH = 24"
| "opcode_value Opcode_JALR = 25"
| "opcode_value Opcode_JAL = 27"
| "opcode_value Opcode_SYSTEM = 28"
| "opcode_value Opcode_RESERVED = 31"

datatype Funct3 =
  F3_JALR | F3_BNE | F3_W | F3_D | F3_BLT | F3_BGE | F3_BLTU | F3_BGEU

primrec funct3 :: "Funct3 \<Rightarrow> nat" where
  "funct3 F3_JALR = 0"
| "funct3 F3_BNE = 1"
| "funct3 F3_W = 2"
| "funct3 F3_D = 3"
| "funct3 F3_BLT = 4"
| "funct3 F3_BGE = 5"
| "funct3 F3_BLTU = 6"
| "funct3 F3_BGEU = 7"

abbreviation "F3_BEQ \<equiv> F3_JALR"
abbreviation "F3_B \<equiv> F3_JALR"
abbreviation "F3_ADD \<equiv> F3_JALR"
abbreviation "F3_SUB \<equiv> F3_JALR"
abbreviation "F3_FENCE \<equiv> F3_JALR"
abbreviation "F3_PRIV \<equiv> F3_JALR"
abbreviation "F3_MUL \<equiv> F3_JALR"
abbreviation "F3_MULW \<equiv> F3_JALR"
abbreviation "F3_EINSTRACCESSFAULT \<equiv> F3_JALR"
abbreviation "F3_H \<equiv> F3_BNE"
abbreviation "F3_SLL \<equiv> F3_BNE"
abbreviation "F3_FENCEI \<equiv> F3_BNE"
abbreviation "F3_CSRRW \<equiv> F3_BNE"
abbreviation "F3_MULH \<equiv> F3_BNE"
abbreviation "F3_BCLR \<equiv> F3_BNE"
abbreviation "F3_BINV \<equiv> F3_BNE"
abbreviation "F3_BSET \<equiv> F3_BNE"
abbreviation "F3_CLZ \<equiv> F3_BNE"
abbreviation "F3_CPOP \<equiv> F3_BNE"
abbreviation "F3_CTZ \<equiv> F3_BNE"
abbreviation "F3_ROL \<equiv> F3_BNE"
abbreviation "F3_SEXTB \<equiv> F3_BNE"
abbreviation "F3_SEXTH \<equiv> F3_BNE"
abbreviation "F3_CLMUL \<equiv> F3_BNE"
abbreviation "F3_EILLEGALINSTR \<equiv> F3_BNE"
abbreviation "F3_SLT \<equiv> F3_W"
abbreviation "F3_CSRRS \<equiv> F3_W"
abbreviation "F3_MULHSU \<equiv> F3_W"
abbreviation "F3_SH1ADD \<equiv> F3_W"
abbreviation "F3_XPERM4 \<equiv> F3_W"
abbreviation "F3_CLMULR \<equiv> F3_W"
abbreviation "F3_EBREAKPOINT \<equiv> F3_W"
abbreviation "F3_SLTU \<equiv> F3_D"
abbreviation "F3_CSRRC \<equiv> F3_D"
abbreviation "F3_MULHU \<equiv> F3_D"
abbreviation "F3_CLMULH \<equiv> F3_D"
abbreviation "F3_EINSTRPAGEFAULT \<equiv> F3_D"
abbreviation "F3_BU \<equiv> F3_BLT"
abbreviation "F3_XOR \<equiv> F3_BLT"
abbreviation "F3_DIV \<equiv> F3_BLT"
abbreviation "F3_DIVW \<equiv> F3_BLT"
abbreviation "F3_SH2ADD \<equiv> F3_BLT"
abbreviation "F3_XPERM8 \<equiv> F3_BLT"
abbreviation "F3_MIN \<equiv> F3_BLT"
abbreviation "F3_XNOR \<equiv> F3_BLT"
abbreviation "F3_ZEXTH \<equiv> F3_BLT"
abbreviation "F3_HU \<equiv> F3_BGE"
abbreviation "F3_SR \<equiv> F3_BGE"
abbreviation "F3_CSRRWI \<equiv> F3_BGE"
abbreviation "F3_DIVU \<equiv> F3_BGE"
abbreviation "F3_DIVUW \<equiv> F3_BGE"
abbreviation "F3_BEXT \<equiv> F3_BGE"
abbreviation "F3_ORCB \<equiv> F3_BGE"
abbreviation "F3_REV8 \<equiv> F3_BGE"
abbreviation "F3_ROR \<equiv> F3_BGE"
abbreviation "F3_MINU \<equiv> F3_BGE"
abbreviation "F3_CZEROEQZ \<equiv> F3_BGE"
abbreviation "F3_OR \<equiv> F3_BLTU"
abbreviation "F3_CSRRSI \<equiv> F3_BLTU"
abbreviation "F3_REM \<equiv> F3_BLTU"
abbreviation "F3_REMW \<equiv> F3_BLTU"
abbreviation "F3_SH3ADD \<equiv> F3_BLTU"
abbreviation "F3_MAX \<equiv> F3_BLTU"
abbreviation "F3_ORN \<equiv> F3_BLTU"
abbreviation "F3_AND \<equiv> F3_BGEU"
abbreviation "F3_CSRRCI \<equiv> F3_BGEU"
abbreviation "F3_REMU \<equiv> F3_BGEU"
abbreviation "F3_REMUW \<equiv> F3_BGEU"
abbreviation "F3_ANDN \<equiv> F3_BGEU"
abbreviation "F3_MAXU \<equiv> F3_BGEU"
abbreviation "F3_CZERONEZ \<equiv> F3_BGEU"

datatype (plugins only: size code) Funct7 =
  F7_SL | F7_MULDIV | F7_ZEXTH | F7_MAX | F7_CZERO | F7_LR | F7_SFENCEVMA | F7_SC | F7_SH1ADD
  | F7_BSET | F7_SA | F7_BCLR | F7_ROL | F7_BINV | F7_AMOMIN | F7_AMOMAX | F7_AMOMINU
  | F7_AMOMAXU

primrec funct7 :: "Funct7 \<Rightarrow> nat" where
  "funct7 F7_SL = 0"
| "funct7 F7_MULDIV = 1"
| "funct7 F7_ZEXTH = 4"
| "funct7 F7_MAX = 5"
| "funct7 F7_CZERO = 7"
| "funct7 F7_LR = 8"
| "funct7 F7_SFENCEVMA = 9"
| "funct7 F7_SC = 12"
| "funct7 F7_SH1ADD = 16"
| "funct7 F7_BSET = 20"
| "funct7 F7_SA = 32"
| "funct7 F7_BCLR = 36"
| "funct7 F7_ROL = 48"
| "funct7 F7_BINV = 52"
| "funct7 F7_AMOMIN = 64"
| "funct7 F7_AMOMAX = 80"
| "funct7 F7_AMOMINU = 96"
| "funct7 F7_AMOMAXU = 112"

abbreviation "F7_SLT \<equiv> F7_SL"
abbreviation "F7_ADD \<equiv> F7_SL"
abbreviation "F7_XOR \<equiv> F7_SL"
abbreviation "F7_OR \<equiv> F7_SL"
abbreviation "F7_AND \<equiv> F7_SL"
abbreviation "F7_AMOADD \<equiv> F7_SL"
abbreviation "F7_AMOSWAP \<equiv> F7_ZEXTH"
abbreviation "F7_MIN \<equiv> F7_MAX"
abbreviation "F7_CLMUL \<equiv> F7_MAX"
abbreviation "F7_SH2ADD \<equiv> F7_SH1ADD"
abbreviation "F7_SH3ADD \<equiv> F7_SH1ADD"
abbreviation "F7_AMOXOR \<equiv> F7_SH1ADD"
abbreviation "F7_ORCB \<equiv> F7_BSET"
abbreviation "F7_XPERM \<equiv> F7_BSET"
abbreviation "F7_SUB \<equiv> F7_SA"
abbreviation "F7_ANDN \<equiv> F7_SA"
abbreviation "F7_ORN \<equiv> F7_SA"
abbreviation "F7_XNOR \<equiv> F7_SA"
abbreviation "F7_AMOOR \<equiv> F7_SA"
abbreviation "F7_BEXT \<equiv> F7_BCLR"
abbreviation "F7_ROR \<equiv> F7_ROL"
abbreviation "F7_SEXTB \<equiv> F7_ROL"
abbreviation "F7_SEXTH \<equiv> F7_ROL"
abbreviation "F7_CPOP \<equiv> F7_ROL"
abbreviation "F7_CLZ \<equiv> F7_ROL"
abbreviation "F7_CTZ \<equiv> F7_ROL"
abbreviation "F7_AMOAND \<equiv> F7_ROL"
abbreviation "F7_REV8 \<equiv> F7_BINV"

datatype (plugins only: size code) Funct12 =
  F12_ECALL | F12_EBREAK | F12_SRET | F12_MRET | F12_WFI | F12_CPOP | F12_CLZ | F12_CTZ
  | F12_ORCB | F12_REV8_32 | F12_REV8_64 | F12_SEXTB | F12_SEXTH | F12_ZEXTH

primrec funct12 :: "Funct12 \<Rightarrow> nat" where
  "funct12 F12_ECALL = 0"
| "funct12 F12_EBREAK = 1"
| "funct12 F12_SRET = 258"
| "funct12 F12_MRET = 770"
| "funct12 F12_WFI = 261"
| "funct12 F12_CPOP = 1538"
| "funct12 F12_CLZ = 1536"
| "funct12 F12_CTZ = 1537"
| "funct12 F12_ORCB = 647"
| "funct12 F12_REV8_32 = 1688"
| "funct12 F12_REV8_64 = 1720"
| "funct12 F12_SEXTB = 1540"
| "funct12 F12_SEXTH = 1541"
| "funct12 F12_ZEXTH = 128"

datatype (plugins only: size code) Registers =
  Reg_X0 | Reg_X1 | Reg_X2 | Reg_X3 | Reg_X4 | Reg_X5 | Reg_X6 | Reg_X7 | Reg_X8 | Reg_X9
  | Reg_X10 | Reg_X11 | Reg_X12 | Reg_X13 | Reg_X14 | Reg_X15 | Reg_X16 | Reg_X17 | Reg_X18
  | Reg_X19 | Reg_X20 | Reg_X21 | Reg_X22 | Reg_X23 | Reg_X24 | Reg_X25 | Reg_X26 | Reg_X27
  | Reg_X28 | Reg_X29 | Reg_X30 | Reg_X31

primrec reg :: "Registers \<Rightarrow> nat" where
  "reg Reg_X0 = 0"
| "reg Reg_X1 = 1"
| "reg Reg_X2 = 2"
| "reg Reg_X3 = 3"
| "reg Reg_X4 = 4"
| "reg Reg_X5 = 5"
| "reg Reg_X6 = 6"
| "reg Reg_X7 = 7"
| "reg Reg_X8 = 8"
| "reg Reg_X9 = 9"
| "reg Reg_X10 = 10"
| "reg Reg_X11 = 11"
| "reg Reg_X12 = 12"
| "reg Reg_X13 = 13"
| "reg Reg_X14 = 14"
| "reg Reg_X15 = 15"
| "reg Reg_X16 = 16"
| "reg Reg_X17 = 17"
| "reg Reg_X18 = 18"
| "reg Reg_X19 = 19"
| "reg Reg_X20 = 20"
| "reg Reg_X21 = 21"
| "reg Reg_X22 = 22"
| "reg Reg_X23 = 23"
| "reg Reg_X24 = 24"
| "reg Reg_X25 = 25"
| "reg Reg_X26 = 26"
| "reg Reg_X27 = 27"
| "reg Reg_X28 = 28"
| "reg Reg_X29 = 29"
| "reg Reg_X30 = 30"
| "reg Reg_X31 = 31"

abbreviation "Reg_ZERO \<equiv> Reg_X0"
abbreviation "Reg_RA \<equiv> Reg_X1"
abbreviation "Reg_SP \<equiv> Reg_X2"
abbreviation "Reg_GP \<equiv> Reg_X3"
abbreviation "Reg_TP \<equiv> Reg_X4"
abbreviation "Reg_T0 \<equiv> Reg_X5"
abbreviation "Reg_T1 \<equiv> Reg_X6"
abbreviation "Reg_T2 \<equiv> Reg_X7"
abbreviation "Reg_S0 \<equiv> Reg_X8"
abbreviation "Reg_FP \<equiv> Reg_X8"
abbreviation "Reg_S1 \<equiv> Reg_X9"
abbreviation "Reg_A0 \<equiv> Reg_X10"
abbreviation "Reg_A1 \<equiv> Reg_X11"
abbreviation "Reg_A2 \<equiv> Reg_X12"
abbreviation "Reg_A3 \<equiv> Reg_X13"
abbreviation "Reg_A4 \<equiv> Reg_X14"
abbreviation "Reg_A5 \<equiv> Reg_X15"
abbreviation "Reg_A6 \<equiv> Reg_X16"
abbreviation "Reg_A7 \<equiv> Reg_X17"
abbreviation "Reg_S2 \<equiv> Reg_X18"
abbreviation "Reg_S3 \<equiv> Reg_X19"
abbreviation "Reg_S4 \<equiv> Reg_X20"
abbreviation "Reg_S5 \<equiv> Reg_X21"
abbreviation "Reg_S6 \<equiv> Reg_X22"
abbreviation "Reg_S7 \<equiv> Reg_X23"
abbreviation "Reg_S8 \<equiv> Reg_X24"
abbreviation "Reg_S9 \<equiv> Reg_X25"
abbreviation "Reg_S10 \<equiv> Reg_X26"
abbreviation "Reg_S11 \<equiv> Reg_X27"
abbreviation "Reg_T3 \<equiv> Reg_X28"
abbreviation "Reg_T4 \<equiv> Reg_X29"
abbreviation "Reg_T5 \<equiv> Reg_X30"
abbreviation "Reg_T6 \<equiv> Reg_X31"

datatype FenceTarget =
  FenceTarget_MEM_W | FenceTarget_MEM_R | FenceTarget_DEV_O | FenceTarget_DEV_I

primrec fence_target_value :: "FenceTarget \<Rightarrow> nat" where
  "fence_target_value FenceTarget_MEM_W = 1"
| "fence_target_value FenceTarget_MEM_R = 2"
| "fence_target_value FenceTarget_DEV_O = 4"
| "fence_target_value FenceTarget_DEV_I = 8"

datatype FenceFm =
  FenceFm_NONE | FenceFm_TSO

primrec fence_fm_value :: "FenceFm \<Rightarrow> nat" where
  "fence_fm_value FenceFm_NONE = 0"
| "fence_fm_value FenceFm_TSO = 8"

section \<open>Traps and privilege\<close>

datatype (plugins only: size code) ExceptionCause =
  Cause_INSTRUCTION_ADDRESS_MISALIGNED | Cause_INSTRUCTION_ACCESS_FAULT
  | Cause_ILLEGAL_INSTRUCTION | Cause_BREAKPOINT | Cause_LOAD_ADDRESS_MISALIGNED
  | Cause_LOAD_ACCESS_FAULT | Cause_STORE_ADDRESS_MISALIGNED | Cause_STORE_ACCESS_FAULT
  | Cause_ENVIRONMENT_CALL_FROM_U | Cause_ENVIRONMENT_CALL_FROM_S
  | Cause_ENVIRONMENT_CALL_FROM_M | Cause_INSTRUCTION_PAGE_FAULT | Cause_LOAD_PAGE_FAULT
  | Cause_STORE_PAGE_FAULT | Cause_COREBLOCKS_ASYNC_INTERRUPT

primrec cause_value :: "ExceptionCause \<Rightarrow> nat" where
  "cause_value Cause_INSTRUCTION_ADDRESS_MISALIGNED = 0"
| "cause_value Cause_INSTRUCTION_ACCESS_FAULT = 1"
| "cause_value Cause_ILLEGAL_INSTRUCTION = 2"
| "cause_value Cause_BREAKPOINT = 3"
| "cause_value Cause_LOAD_ADDRESS_MISALIGNED = 4"
| "cause_value Cause_LOAD_ACCESS_FAULT = 5"
| "cause_value Cause_STORE_ADDRESS_MISALIGNED = 6"
| "cause_value Cause_STORE_ACCESS_FAULT = 7"
| "cause_value Cause_ENVIRONMENT_CALL_FROM_U = 8"
| "cause_value Cause_ENVIRONMENT_CALL_FROM_S = 9"
| "cause_value Cause_ENVIRONMENT_CALL_FROM_M = 11"
| "cause_value Cause_INSTRUCTION_PAGE_FAULT = 12"
| "cause_value Cause_LOAD_PAGE_FAULT = 13"
| "cause_value Cause_STORE_PAGE_FAULT = 15"
| "cause_value Cause_COREBLOCKS_ASYNC_INTERRUPT = 24"

definition ExceptionCause_members :: "ExceptionCause list" where
  "ExceptionCause_members =
    [Cause_INSTRUCTION_ADDRESS_MISALIGNED, Cause_INSTRUCTION_ACCESS_FAULT, Cause_ILLEGAL_INSTRUCTION, Cause_BREAKPOINT, Cause_LOAD_ADDRESS_MISALIGNED, Cause_LOAD_ACCESS_FAULT, Cause_STORE_ADDRESS_MISALIGNED, Cause_STORE_ACCESS_FAULT, Cause_ENVIRONMENT_CALL_FROM_U, Cause_ENVIRONMENT_CALL_FROM_S, Cause_ENVIRONMENT_CALL_FROM_M, Cause_INSTRUCTION_PAGE_FAULT, Cause_LOAD_PAGE_FAULT, Cause_STORE_PAGE_FAULT, Cause_COREBLOCKS_ASYNC_INTERRUPT]"

text \<open>The member whose Python name starts with an underscore is internal to the core.\<close>

definition cause_internal :: "ExceptionCause \<Rightarrow> bool" where
  "cause_internal c = (c = Cause_COREBLOCKS_ASYNC_INTERRUPT)"

definition smode_delegable_mask :: "nat \<Rightarrow> nat" where
  "smode_delegable_mask xlen =
     fold (\<lambda>cause mask.
       if cause_internal cause then mask
       else if cause = Cause_ENVIRONMENT_CALL_FROM_M then mask
       else mask OR push_bit (cause_value cause) 1) ExceptionCause_members 0"

datatype PrivilegeLevel =
  Priv_USER | Priv_SUPERVISOR | Priv_MACHINE

primrec priv_value :: "PrivilegeLevel \<Rightarrow> nat" where
  "priv_value Priv_USER = 0"
| "priv_value Priv_SUPERVISOR = 1"
| "priv_value Priv_MACHINE = 3"

datatype TrapVectorMode =
  TrapVector_DIRECT | TrapVector_VECTORED

primrec trap_vector_mode_value :: "TrapVectorMode \<Rightarrow> nat" where
  "trap_vector_mode_value TrapVector_DIRECT = 0"
| "trap_vector_mode_value TrapVector_VECTORED = 1"

datatype InterruptCauseNumber =
  Interrupt_SSI | Interrupt_MSI | Interrupt_STI | Interrupt_MTI | Interrupt_SEI | Interrupt_MEI

primrec interrupt_cause_value :: "InterruptCauseNumber \<Rightarrow> nat" where
  "interrupt_cause_value Interrupt_SSI = 1"
| "interrupt_cause_value Interrupt_MSI = 3"
| "interrupt_cause_value Interrupt_STI = 5"
| "interrupt_cause_value Interrupt_MTI = 7"
| "interrupt_cause_value Interrupt_SEI = 9"
| "interrupt_cause_value Interrupt_MEI = 11"

datatype HPMEvent =
  HPM_NO_EVENT | HPM_BRANCH_MISPREDICTION

primrec hpm_event_value :: "HPMEvent \<Rightarrow> nat" where
  "hpm_event_value HPM_NO_EVENT = 0"
| "hpm_event_value HPM_BRANCH_MISPREDICTION = 1"

datatype XlenEncoding =
  XlenEncoding_W32 | XlenEncoding_W64 | XlenEncoding_W128

primrec xlen_encoding_value :: "XlenEncoding \<Rightarrow> nat" where
  "xlen_encoding_value XlenEncoding_W32 = 1"
| "xlen_encoding_value XlenEncoding_W64 = 2"
| "xlen_encoding_value XlenEncoding_W128 = 3"

definition from_xlen :: "nat \<Rightarrow> py_error + XlenEncoding" where
  "from_xlen xlen =
     (if xlen = 32 then Inr XlenEncoding_W32 else if xlen = 64 then Inr XlenEncoding_W64
      else if xlen = 128 then Inr XlenEncoding_W128 else Inl OtherException)"

datatype (plugins only: size code) MisaExtension =
  Misa_A | Misa_B | Misa_C | Misa_D | Misa_E | Misa_F | Misa_G | Misa_H | Misa_I | Misa_J
  | Misa_K | Misa_L | Misa_M | Misa_N | Misa_O | Misa_P | Misa_Q | Misa_R | Misa_S | Misa_T
  | Misa_U | Misa_V | Misa_W | Misa_X | Misa_Y | Misa_Z

primrec misa_bit :: "MisaExtension \<Rightarrow> nat" where
  "misa_bit Misa_A = 1"
| "misa_bit Misa_B = 2"
| "misa_bit Misa_C = 4"
| "misa_bit Misa_D = 8"
| "misa_bit Misa_E = 16"
| "misa_bit Misa_F = 32"
| "misa_bit Misa_G = 64"
| "misa_bit Misa_H = 128"
| "misa_bit Misa_I = 256"
| "misa_bit Misa_J = 512"
| "misa_bit Misa_K = 1024"
| "misa_bit Misa_L = 2048"
| "misa_bit Misa_M = 4096"
| "misa_bit Misa_N = 8192"
| "misa_bit Misa_O = 16384"
| "misa_bit Misa_P = 32768"
| "misa_bit Misa_Q = 65536"
| "misa_bit Misa_R = 131072"
| "misa_bit Misa_S = 262144"
| "misa_bit Misa_T = 524288"
| "misa_bit Misa_U = 1048576"
| "misa_bit Misa_V = 2097152"
| "misa_bit Misa_W = 4194304"
| "misa_bit Misa_X = 8388608"
| "misa_bit Misa_Y = 16777216"
| "misa_bit Misa_Z = 33554432"

datatype PMPAFlagEncoding =
  PMPA_OFF | PMPA_TOR | PMPA_NA4 | PMPA_NAPOT

primrec pmp_a_value :: "PMPAFlagEncoding \<Rightarrow> nat" where
  "pmp_a_value PMPA_OFF = 0"
| "pmp_a_value PMPA_TOR = 1"
| "pmp_a_value PMPA_NA4 = 2"
| "pmp_a_value PMPA_NAPOT = 3"

section \<open>Address translation modes\<close>

datatype SatpMode =
  Satp_BARE | Satp_SV32 | Satp_SV39 | Satp_SV48 | Satp_SV57 | Satp_SV64

primrec satp_mode_value :: "SatpMode \<Rightarrow> nat" where
  "satp_mode_value Satp_BARE = 0"
| "satp_mode_value Satp_SV32 = 1"
| "satp_mode_value Satp_SV39 = 8"
| "satp_mode_value Satp_SV48 = 9"
| "satp_mode_value Satp_SV57 = 10"
| "satp_mode_value Satp_SV64 = 11"

definition valid_modes :: "nat \<Rightarrow> py_error + SatpMode list" where
  "valid_modes xlen =
     (if xlen = 32 then Inr [Satp_BARE, Satp_SV32]
      else if xlen = 64 then Inr [Satp_BARE, Satp_SV39, Satp_SV48, Satp_SV57, Satp_SV64]
      else Inl ValueError)"

definition bits_per_page_table_level :: "nat \<Rightarrow> nat" where
  "bits_per_page_table_level xlen = (if xlen = 32 then 10 else 9)"

fun level_count :: "SatpMode \<Rightarrow> py_error + nat" where
  "level_count Satp_BARE = Inr 0"
| "level_count Satp_SV32 = Inr 2"
| "level_count Satp_SV39 = Inr 3"
| "level_count Satp_SV48 = Inr 4"
| "level_count Satp_SV57 = Inr 5"
| "level_count Satp_SV64 = Inl ValueError"

definition vpn_bits :: "SatpMode \<Rightarrow> py_error + nat" where
  "vpn_bits mode =
     (if mode = Satp_BARE then Inl ValueError
      else
        let xlen = (if mode \<in> set [Satp_BARE, Satp_SV32] then 32 else 64)
        in (case level_count mode of Inl e \<Rightarrow> Inl e
            | Inr n \<Rightarrow> Inr (bits_per_page_table_level xlen * n)))"

fun mode_dependencies :: "SatpMode \<Rightarrow> py_error + SatpMode list" where
  "mode_dependencies Satp_BARE = Inr []"
| "mode_dependencies Satp_SV32 = Inr []"
| "mode_dependencies Satp_SV39 = Inr []"
| "mode_dependencies Satp_SV48 = Inr [Satp_SV39]"
| "mode_dependencies Satp_SV57 = Inr [Satp_SV48]"
| "mode_dependencies Satp_SV64 = Inl ValueError"

text \<open>Field widths of \<^verbatim>\<open>satp\<close>, least significant field first: ppn, asid, mode.\<close>

definition SatpLayout :: "nat \<Rightarrow> py_error + (string \<times> nat) list" where
  "SatpLayout xlen =
     (if xlen = 32 then Inr [(''ppn'', 22), (''asid'', 9), (''mode'', 1)]
      else if xlen = 64 then Inr [(''ppn'', 44), (''asid'', 16), (''mode'', 4)]
      else Inl ValueError)"

definition PMPCfgLayout :: "(string \<times> nat) list" where
  "PMPCfgLayout =
     [(''R'', 1), (''W'', 1), (''X'', 1), (''A'', 2), (''reserved'', 2), (''L'', 1)]"

definition PAGE_SIZE_LOG :: nat where
  "PAGE_SIZE_LOG = 12"

definition PAGE_SIZE :: nat where
  "PAGE_SIZE = push_bit PAGE_SIZE_LOG 1"

section \<open>Ranges of the enum values\<close>

lemma opcode_value_less: "opcode_value opc < 2 ^ 5"
  by (cases opc) auto

lemma opcode_value_inject: "opcode_value a = opcode_value b \<longleftrightarrow> a = b"
  by (cases a; cases b) auto

lemma funct3_less: "funct3 f < 2 ^ 3"
  by (cases f) auto

lemma funct7_less: "funct7 f < 2 ^ 7"
  by (cases f) auto

lemma funct12_less: "funct12 f < 2 ^ 12"
  by (cases f) auto

lemma reg_less: "reg r < 2 ^ 5"
  by (cases r) auto

lemmas isa_const_bounds = opcode_value_less funct3_less funct7_less funct12_less reg_less

lemma satp_layout_width:
  "SatpLayout xlen = Inr fields \<Longrightarrow> sum_list (map snd fields) = xlen"
  by (auto simp: SatpLayout_def split: if_splits)

lemma vpn_bits_translated:
  "vpn_bits m = Inr n \<Longrightarrow> \<exists>l. level_count m = Inr l \<and> 0 < l \<and> n = (if m = Satp_SV32 then 10 else 9) * l"
  by (cases m) (auto simp: vpn_bits_def bits_per_page_table_level_def)

end
