(* ===== verification/Isa.thy ===== *)
theory Isa
  imports Isa_Consts
begin

text \<open>
  The ISA configuration of \<^verbatim>\<open>coreblocks/arch/isa.py\<close>: the extension flags, their implications
  and requirements, and the constructor of class \<^verbatim>\<open>ISA\<close>, which either raises or yields a
  consistent configuration. A value of the flag enum is the set of its single-bit members.
\<close>

section \<open>Extensions\<close>

datatype (plugins only: size code) Extension =
  Ext_E | Ext_I | Ext_M | Ext_A | Ext_F | Ext_D | Ext_Q | Ext_L | Ext_C | Ext_B | Ext_J | Ext_T
  | Ext_P | Ext_V | Ext_N | Ext_ZICNTR | Ext_ZICOND | Ext_ZICSR | Ext_ZIFENCEI | Ext_ZIHINTNTL
  | Ext_ZIHINTPAUSE | Ext_ZIHPM | Ext_ZMMUL | Ext_ZAAMO | Ext_ZALRSC | Ext_ZAM | Ext_ZFH
  | Ext_ZFHMIN | Ext_ZFINX | Ext_ZDINX | Ext_ZHINX | Ext_ZBA | Ext_ZCA | Ext_ZCF | Ext_ZCD
  | Ext_ZCB | Ext_ZBB | Ext_ZBC | Ext_ZBKX | Ext_ZBS | Ext_ZTSO | Ext_XINTMACHINEMODE
  | Ext_XINTSUPERVISOR

definition Extension_members :: "Extension list" where
  "Extension_members =
    [Ext_E, Ext_I, Ext_M, Ext_A, Ext_F, Ext_D, Ext_Q, Ext_L, Ext_C, Ext_B, Ext_J, Ext_T
     , Ext_P, Ext_V, Ext_N, Ext_ZICNTR, Ext_ZICOND, Ext_ZICSR, Ext_ZIFENCEI, Ext_ZIHINTNTL
     , Ext_ZIHINTPAUSE, Ext_ZIHPM, Ext_ZMMUL, Ext_ZAAMO, Ext_ZALRSC, Ext_ZAM, Ext_ZFH
     , Ext_ZFHMIN, Ext_ZFINX, Ext_ZDINX, Ext_ZHINX, Ext_ZBA, Ext_ZCA, Ext_ZCF, Ext_ZCD
     , Ext_ZCB, Ext_ZBB, Ext_ZBC, Ext_ZBKX, Ext_ZBS, Ext_ZTSO, Ext_XINTMACHINEMODE
     , Ext_XINTSUPERVISOR]"

definition Extension_G :: "Extension set" where
  "Extension_G = {Ext_I, Ext_M, Ext_A, Ext_F, Ext_D, Ext_ZICSR, Ext_ZIFENCEI}"

primrec extension_name :: "Extension \<Rightarrow> string" where
  "extension_name Ext_E = ''e''"
| "extension_name Ext_I = ''i''"
| "extension_name Ext_M = ''m''"
| "extension_name Ext_A = ''a''"
| "extension_name Ext_F = ''f''"
| "extension_name Ext_D = ''d''"
| "extension_name Ext_Q = ''q''"
| "extension_name Ext_L = ''l''"
| "extension_name Ext_C = ''c''"
| "extension_name Ext_B = ''b''"
| "extension_name Ext_J = ''j''"
| "extension_name Ext_T = ''t''"
| "extension_name Ext_P = ''p''"
| "extension_name Ext_V = ''v''"
| "extension_name Ext_N = ''n''"
| "extension_name Ext_ZICNTR = ''zicntr''"
| "extension_name Ext_ZICOND = ''zicond''"
| "extension_name Ext_ZICSR = ''zicsr''"
| "extension_name Ext_ZIFENCEI = ''zifencei''"
| "extension_name Ext_ZIHINTNTL = ''zihintntl''"
| "extension_name Ext_ZIHINTPAUSE = ''zihintpause''"
| "extension_name Ext_ZIHPM = ''zihpm''"
| "extension_name Ext_ZMMUL = ''zmmul''"
| "extension_name Ext_ZAAMO = ''zaamo''"
| "extension_name Ext_ZALRSC = ''zalrsc''"
| "extension_name Ext_ZAM = ''zam''"
| "extension_name Ext_ZFH = ''zfh''"
| "extension_name Ext_ZFHMIN = ''zfhmin''"
| "extension_name Ext_ZFINX = ''zfinx''"
| "extension_name Ext_ZDINX = ''zdinx''"
| "extension_name Ext_ZHINX = ''zhinx''"
| "extension_name Ext_ZBA = ''zba''"
| "extension_name Ext_ZCA = ''zca''"
| "extension_name Ext_ZCF = ''zcf''"
| "extension_name Ext_ZCD = ''zcd''"
| "extension_name Ext_ZCB = ''zcb''"
| "extension_name Ext_ZBB = ''zbb''"
| "extension_name Ext_ZBC = ''zbc''"
| "extension_name Ext_ZBKX = ''zbkx''"
| "extension_name Ext_ZBS = ''zbs''"
| "extension_name Ext_ZTSO = ''ztso''"
| "extension_name Ext_XINTMACHINEMODE = ''xintmachinemode''"
| "extension_name Ext_XINTSUPERVISOR = ''xintsupervisor''"

definition extension_requirements :: "(Extension \<times> Extension set) list" where
  "extension_requirements =
    [(Ext_D, {Ext_F}), (Ext_Q, {Ext_D}), (Ext_ZAM, {Ext_A}), (Ext_ZFH, {Ext_F}),
     (Ext_ZFHMIN, {Ext_F}), (Ext_ZFINX, {Ext_F}), (Ext_ZDINX, {Ext_D}), (Ext_ZHINX, {Ext_ZFH}),
     (Ext_ZCF, {Ext_F, Ext_ZCA}), (Ext_ZCD, {Ext_D, Ext_ZCA}), (Ext_ZCB, {Ext_ZCA})]"

definition extension_implications :: "(Extension \<times> Extension set) list" where
  "extension_implications =
    [(Ext_F, {Ext_ZICSR}), (Ext_M, {Ext_ZMMUL}), (Ext_A, {Ext_ZAAMO, Ext_ZALRSC}),
     (Ext_B, {Ext_ZBA, Ext_ZBB, Ext_ZBS})]"

definition get_c_extension_expansion :: "Extension set \<Rightarrow> nat \<Rightarrow> Extension set" where
  "get_c_extension_expansion exts xlen =
     {Ext_ZCA} \<union> (if Ext_F \<in> exts \<and> xlen = 32 then {Ext_ZCF} else {})
       \<union> (if Ext_D \<in> exts then {Ext_ZCD} else {})"

definition extension_only_implies :: "Extension set" where
  "extension_only_implies = {Ext_A, Ext_B}"

section \<open>The ISA class\<close>

record isa =
  xlen :: nat
  xlen_log :: nat
  extensions :: "Extension set"
  reg_cnt :: nat
  reg_cnt_log :: nat
  ilen :: nat
  ilen_bytes :: nat
  ilen_log :: nat
  reg_field_bits :: nat
  csr_alen :: nat

fun bit_length :: "nat \<Rightarrow> nat" where
  "bit_length n = (if n = 0 then 0 else Suc (bit_length (n div 2)))"

declare bit_length.simps [simp del]

lemma less_exp_bit_length: "n < 2 ^ bit_length n"
proof (induction n rule: less_induct)
  case (less n)
  show ?case
  proof (cases "n = 0")
    case False
    then have "n div 2 < 2 ^ bit_length (n div 2)" by (intro less.IH) simp
    then show ?thesis using False by (subst bit_length.simps) simp
  qed (simp add: bit_length.simps)
qed

definition apply_implications :: "Extension set \<Rightarrow> Extension set" where
  "apply_implications exts =
     fold (\<lambda>(ext, imply) es. if ext \<in> es then es \<union> imply else es) extension_implications exts"

definition apply_c_alias :: "nat \<Rightarrow> Extension set \<Rightarrow> Extension set" where
  "apply_c_alias xl exts =
     (let c_alias_mask = get_c_extension_expansion exts xl;
          exts1 = (if Ext_C \<in> exts then exts \<union> c_alias_mask else exts)
      in if c_alias_mask \<subseteq> exts1 then exts1 \<union> {Ext_C} else exts1)"

definition requirements_met :: "Extension set \<Rightarrow> bool" where
  "requirements_met exts =
     list_all (\<lambda>(ext, reqs). \<not> (ext \<in> exts \<and> list_ex (\<lambda>r. r \<in> reqs \<and> r \<notin> exts) Extension_members))
       extension_requirements"

definition mk_ISA :: "Extension set \<Rightarrow> nat \<Rightarrow> py_error + isa" where
  "mk_ISA exts xl =
     (if xl \<notin> {32, 64, 128} then Inl RuntimeError
      else if exts \<inter> {Ext_I, Ext_E} = {} then Inl RuntimeError
      else if Ext_E \<in> exts \<and> xl \<noteq> 32 then Inl RuntimeError
      else
        let exts1 = apply_c_alias xl (apply_implications exts) in
        if Ext_ZCF \<in> exts1 \<and> xl \<noteq> 32 then Inl RuntimeError
        else if \<not> requirements_met exts1 then Inl RuntimeError
        else
          let rc = (if Ext_E \<in> exts1 \<and> Ext_I \<notin> exts1 then 16 else 32)
          in Inr \<lparr>xlen = xl, xlen_log = bit_length xl - 1, extensions = exts1, reg_cnt = rc,
                  reg_cnt_log = bit_length rc - 1, ilen = 32, ilen_bytes = 32 div 8,
                  ilen_log = bit_length 32 - 1, reg_field_bits = 5, csr_alen = 12\<rparr>)"

section \<open>ISA strings\<close>

fun isa_string_loop :: "Extension set \<Rightarrow> bool \<Rightarrow> bool \<Rightarrow> Extension list \<Rightarrow> string" where
  "isa_string_loop exts skip_internal multi [] = []"
| "isa_string_loop exts skip_internal multi (e # es) =
     (if e \<in> exts \<and> \<not> (skip_internal \<and> take 4 (extension_name e) = ''xint'')
      then (if multi then ''_'' else []) @ extension_name e
             @ isa_string_loop exts skip_internal (1 < length (extension_name e)) es
      else isa_string_loop exts skip_internal multi es)"

text \<open>The decimal digits of the supported widths; \<open>str()\<close> of any other width is not needed.\<close>

fun xlen_string :: "nat \<Rightarrow> string" where
  "xlen_string n = (if n < 10 then [char_of (48 + n)] else xlen_string (n div 10) @ [char_of (48 + n mod 10)])"

declare xlen_string.simps [simp del]

definition gen_isa_string :: "Extension set \<Rightarrow> nat \<Rightarrow> bool \<Rightarrow> string" where
  "gen_isa_string exts isa_xlen skip_internal =
     (if Extension_G \<subseteq> exts
      then ''rv'' @ xlen_string isa_xlen @ ''g''
             @ isa_string_loop (exts - Extension_G) skip_internal False Extension_members
      else ''rv'' @ xlen_string isa_xlen
             @ isa_string_loop exts skip_internal False Extension_members)"

definition gen_str :: "isa \<Rightarrow> bool \<Rightarrow> bool \<Rightarrow> string" where
  "gen_str i skip_internal skip_implied =
     (let implied =
        fold (\<lambda>(ext, imply) acc. if ext \<in> extensions i then acc \<union> imply else acc)
             extension_implications {}
        \<union> (if Ext_C \<in> extensions i then get_c_extension_expansion (extensions i) (xlen i) else {})
      in gen_isa_string (if skip_implied then extensions i - implied else extensions i)
           (xlen i) skip_internal)"

section \<open>Consistency of a constructed ISA\<close>

lemmas isa_tables = extension_implications_def extension_requirements_def
  get_c_extension_expansion_def

lemma Extension_members_complete: "e \<in> set Extension_members"
  by (cases e) (simp_all add: Extension_members_def)

lemma list_ex_members: "list_ex P Extension_members \<longleftrightarrow> (\<exists>r. P r)"
  using Extension_members_complete by (auto simp only: list_ex_iff)

lemma requirements_met_iff:
  "requirements_met exts \<longleftrightarrow> (\<forall>(ext, reqs) \<in> set extension_requirements. ext \<in> exts \<longrightarrow> reqs \<subseteq> exts)"
  unfolding requirements_met_def list_ex_members list_all_iff by blast

lemma apply_implications_eq:
  "apply_implications exts = exts \<union> (if Ext_F \<in> exts then {Ext_ZICSR} else {})
     \<union> (if Ext_M \<in> exts then {Ext_ZMMUL} else {})
     \<union> (if Ext_A \<in> exts then {Ext_ZAAMO, Ext_ZALRSC} else {})
     \<union> (if Ext_B \<in> exts then {Ext_ZBA, Ext_ZBB, Ext_ZBS} else {})"
  by (auto simp: apply_implications_def extension_implications_def)

lemma apply_c_alias_eq:
  "apply_c_alias xl exts =
     exts \<union> (if Ext_C \<in> exts \<or> get_c_extension_expansion exts xl \<subseteq> exts
             then insert Ext_C (get_c_extension_expansion exts xl) else {})"
  by (auto simp: apply_c_alias_def Let_def)

lemma bit_length_32 [simp]: "bit_length 32 = 6"
  by (simp add: bit_length.simps)

lemma bit_length_16 [simp]: "bit_length 16 = 5"
  by (simp add: bit_length.simps)

lemma bit_length_64 [simp]: "bit_length 64 = 7"
  by (simp add: bit_length.simps)

lemma bit_length_128 [simp]: "bit_length 128 = 8"
  by (simp add: bit_length.simps)

lemma apply_keeps_base:
  "Ext_I \<in> apply_c_alias xl (apply_implications exts) \<longleftrightarrow> Ext_I \<in> exts"
  "Ext_E \<in> apply_c_alias xl (apply_implications exts) \<longleftrightarrow> Ext_E \<in> exts"
  by (simp_all add: apply_implications_eq apply_c_alias_eq get_c_extension_expansion_def)

lemma mk_ISA_Inr:
  "mk_ISA exts xl = Inr i \<longleftrightarrow>
     xl \<in> {32, 64, 128} \<and> exts \<inter> {Ext_I, Ext_E} \<noteq> {} \<and> (Ext_E \<in> exts \<longrightarrow> xl = 32) \<and>
     (Ext_ZCF \<in> apply_c_alias xl (apply_implications exts) \<longrightarrow> xl = 32) \<and>
     requirements_met (apply_c_alias xl (apply_implications exts)) \<and>
     i = \<lparr>xlen = xl, xlen_log = bit_length xl - 1,
          extensions = apply_c_alias xl (apply_implications exts),
          reg_cnt = (if Ext_E \<in> exts \<and> Ext_I \<notin> exts then 16 else 32),
          reg_cnt_log = (if Ext_E \<in> exts \<and> Ext_I \<notin> exts then 4 else 5), ilen = 32,
          ilen_bytes = 4, ilen_log = 5, reg_field_bits = 5, csr_alen = 12\<rparr>"
  unfolding mk_ISA_def Let_def apply_keeps_base
  by (simp del: insert_iff Int_insert_right Int_insert_left split: if_split) blast

lemma mk_ISA_register_space:
  assumes "mk_ISA exts xl = Inr i"
  shows "reg_cnt i = 2 ^ reg_cnt_log i" "xlen i = 2 ^ xlen_log i"
  using assms unfolding mk_ISA_Inr by auto

lemma implications_closed:
  "(ext, imply) \<in> set extension_implications \<Longrightarrow> ext \<in> apply_c_alias xl (apply_implications exts) \<Longrightarrow>
   imply \<subseteq> apply_c_alias xl (apply_implications exts)"
  by (auto simp: apply_implications_eq apply_c_alias_eq isa_tables split: if_splits)

lemma alias_closed:
  "Ext_C \<in> apply_c_alias xl exts \<longleftrightarrow>
   get_c_extension_expansion (apply_c_alias xl exts) xl \<subseteq> apply_c_alias xl exts"
  by (auto simp: apply_c_alias_eq get_c_extension_expansion_def split: if_splits)

lemma apply_c_alias_fix:
  "Ext_C \<in> E \<longleftrightarrow> get_c_extension_expansion E xl \<subseteq> E \<Longrightarrow> apply_c_alias xl E = E"
  unfolding apply_c_alias_eq by auto

lemma fold_implications_fix:
  "(\<And>ext imply. (ext, imply) \<in> set tab \<Longrightarrow> ext \<in> E \<Longrightarrow> imply \<subseteq> E) \<Longrightarrow>
   fold (\<lambda>(ext, imply) es. if ext \<in> es then es \<union> imply else es) tab E = E"
proof (induction tab)
  case (Cons p tab)
  obtain ext imply where p: "p = (ext, imply)" by (cases p)
  then have "(if ext \<in> E then E \<union> imply else E) = E" using Cons.prems [of ext imply] by auto
  then show ?case using Cons p by auto
qed simp

lemma apply_idem:
  "apply_c_alias xl (apply_implications (apply_c_alias xl (apply_implications exts))) =
   apply_c_alias xl (apply_implications exts)"
proof -
  let ?E = "apply_c_alias xl (apply_implications exts)"
  have "apply_implications ?E = ?E"
    unfolding apply_implications_def [of ?E] by (rule fold_implications_fix) (rule implications_closed)
  then show ?thesis using apply_c_alias_fix [OF alias_closed] by simp
qed

text \<open>
  C1. An ISA that the constructor accepts is consistent: it keeps the requested extensions, is closed
  under the implication table, meets every requirement of the requirement table, has C exactly
  when it has the compressed subsets C stands for, and its register count and width are the powers
  of two its logarithms say. Constructing an ISA again from its own extensions gives the same ISA.
\<close>

theorem isa_consistent:
  assumes "mk_ISA exts xl = Inr i"
  shows "exts \<subseteq> extensions i \<and>
    (\<forall>(ext, imply) \<in> set extension_implications. ext \<in> extensions i \<longrightarrow> imply \<subseteq> extensions i) \<and>
    (\<forall>(ext, reqs) \<in> set extension_requirements. ext \<in> extensions i \<longrightarrow> reqs \<subseteq> extensions i) \<and>
    (Ext_C \<in> extensions i \<longleftrightarrow> get_c_extension_expansion (extensions i) xl \<subseteq> extensions i) \<and>
    reg_cnt i = 2 ^ reg_cnt_log i \<and> xlen i = 2 ^ xlen_log i \<and>
    mk_ISA (extensions i) xl = Inr i"
proof -
  let ?e = "apply_c_alias xl (apply_implications exts)"
  have i: "extensions i = ?e" and req: "requirements_met ?e"
    using assms by (simp_all add: mk_ISA_Inr)
  have "exts \<subseteq> ?e" by (auto simp: apply_implications_eq apply_c_alias_eq)
  moreover have "mk_ISA ?e xl = Inr i"
    using assms unfolding mk_ISA_Inr apply_idem by (auto simp: apply_keeps_base)
  ultimately show ?thesis
    using implications_closed [of _ _ xl exts] req [unfolded requirements_met_iff]
      mk_ISA_register_space [OF assms] alias_closed [of xl "apply_implications exts"]
    unfolding i by blast
qed

theorem isa_consistent_witness:
  "\<exists>i. mk_ISA {Ext_I, Ext_M, Ext_C} 32 = Inr i \<and> {Ext_ZMMUL, Ext_ZCA} \<subseteq> extensions i \<and>
     mk_ISA (extensions i) 32 = Inr i"
proof -
  obtain i where i: "mk_ISA {Ext_I, Ext_M, Ext_C} 32 = Inr i"
    unfolding mk_ISA_Inr
    by (auto simp: requirements_met_iff isa_tables apply_implications_eq apply_c_alias_eq)
  then have "{Ext_ZMMUL, Ext_ZCA} \<subseteq> extensions i"
    by (simp add: mk_ISA_Inr apply_implications_eq apply_c_alias_eq get_c_extension_expansion_def)
  with i isa_consistent [OF i] show ?thesis by blast
qed

end
