(* ===== verification/Instr_Encode.thy ===== *)
theory Instr_Encode
  imports Isa
begin

text \<open>
  The instruction formats of \<^verbatim>\<open>coreblocks/params/instr.py\<close>: fields that scatter a value over
  bit positions of the instruction, the six formats built from them, and the lemmas that
  every format is 32 bits wide and that the fields can be read back at their positions.
\<close>

section \<open>Fields\<close>

record field =
  f_base :: "nat list"
  f_size :: "nat list"
  f_signed :: bool
  f_offset :: nat
  f_static :: "bits option"

definition mk_field :: "nat list \<Rightarrow> nat list \<Rightarrow> bool \<Rightarrow> nat \<Rightarrow> field" where
  "mk_field bs ss sg off = \<lparr>f_base = bs, f_size = ss, f_signed = sg, f_offset = off, f_static = None\<rparr>"

definition field_width :: "field \<Rightarrow> nat" where
  "field_width f = sum_list (f_size f) + f_offset f"

text \<open>
  Assigning a field: overwriting a static field raises; an enum member or integer becomes a
  constant of the field's width; a hardware value must have exactly that width, and must not
  be signed where the field is not.
\<close>

datatype field_arg = IntArg nat | ValueArg bits bool

definition field_set :: "field \<Rightarrow> field_arg \<Rightarrow> py_error + bits" where
  "field_set f a =
     (if f_static f \<noteq> None then Inl AttributeError
      else case a of
        IntArg n \<Rightarrow> Inr (to_bits (field_width f) n)
      | ValueArg v sg \<Rightarrow>
          (if length v \<noteq> field_width f then Inl AttributeError
           else if sg \<and> \<not> f_signed f then Inl AttributeError
           else Inr v))"

text \<open>Reading a field: the static value, the assigned one, or zero of the field's width.\<close>

definition field_get :: "field \<Rightarrow> bits option \<Rightarrow> bits" where
  "field_get f stored =
     (case f_static f of Some v \<Rightarrow> v
      | None \<Rightarrow> (case stored of Some v \<Rightarrow> v | None \<Rightarrow> to_bits (field_width f) 0))"

fun parts_loop :: "nat \<Rightarrow> nat list \<Rightarrow> bits \<Rightarrow> bits list" where
  "parts_loop offset [] v = []"
| "parts_loop offset (s # ss) v = bslice offset (offset + s) v # parts_loop (offset + s) ss v"

definition get_parts :: "field \<Rightarrow> bits \<Rightarrow> bits list" where
  "get_parts f v = parts_loop (f_offset f) (f_size f) v"

definition as_value :: "(field \<times> bits) list \<Rightarrow> bits" where
  "as_value fs = concat (map snd (sort_key fst
     (concat (map (\<lambda>(f, v). zip (f_base f) (get_parts f v)) fs))))"

section \<open>Formats\<close>

definition opcode_field :: field where
  "opcode_field = mk_field [0] [7] False 0"

definition funct3_field :: field where
  "funct3_field = mk_field [12] [3] False 0"

definition funct7_field :: field where
  "funct7_field = mk_field [25] [7] False 0"

definition rd_field :: field where
  "rd_field = mk_field [7] [5] False 0"

definition rs1_field :: field where
  "rs1_field = mk_field [15] [5] False 0"

definition rs2_field :: field where
  "rs2_field = mk_field [20] [5] False 0"

definition imm_I_field :: field where
  "imm_I_field = mk_field [20] [12] True 0"

definition imm_S_field :: field where
  "imm_S_field = mk_field [7, 25] [5, 7] True 0"

definition imm_B_field :: field where
  "imm_B_field = mk_field [8, 25, 7, 31] [4, 6, 1, 1] True 1"

definition imm_U_field :: field where
  "imm_U_field = mk_field [12] [20] True 12"

definition imm_J_field :: field where
  "imm_J_field = mk_field [21, 20, 12, 31] [10, 1, 8, 1] True 1"

definition illegal_field :: field where
  "illegal_field = (mk_field [7] [25] False 0)\<lparr>f_static := Some (replicate 25 True)\<rparr>"

definition opcode_bits :: "Opcode \<Rightarrow> bits" where
  "opcode_bits opc = to_bits 2 3 @ to_bits 5 (opcode_value opc)"

definition RTypeInstr :: "Opcode \<Rightarrow> bits \<Rightarrow> bits \<Rightarrow> bits \<Rightarrow> bits \<Rightarrow> bits \<Rightarrow> bits" where
  "RTypeInstr opc f3 f7 rd rs1 rs2 = as_value
     [(rd_field, rd), (rs1_field, rs1), (rs2_field, rs2), (funct3_field, f3),
      (opcode_field, opcode_bits opc), (funct7_field, f7)]"

definition ITypeInstr :: "Opcode \<Rightarrow> bits \<Rightarrow> bits \<Rightarrow> bits \<Rightarrow> bits \<Rightarrow> bits" where
  "ITypeInstr opc f3 rd rs1 imm = as_value
     [(rd_field, rd), (rs1_field, rs1), (imm_I_field, imm), (funct3_field, f3),
      (opcode_field, opcode_bits opc)]"

definition STypeInstr :: "Opcode \<Rightarrow> bits \<Rightarrow> bits \<Rightarrow> bits \<Rightarrow> bits \<Rightarrow> bits" where
  "STypeInstr opc f3 rs1 rs2 imm = as_value
     [(rs1_field, rs1), (rs2_field, rs2), (imm_S_field, imm), (funct3_field, f3),
      (opcode_field, opcode_bits opc)]"

definition BTypeInstr :: "Opcode \<Rightarrow> bits \<Rightarrow> bits \<Rightarrow> bits \<Rightarrow> bits \<Rightarrow> bits" where
  "BTypeInstr opc f3 rs1 rs2 imm = as_value
     [(rs1_field, rs1), (rs2_field, rs2), (imm_B_field, imm), (funct3_field, f3),
      (opcode_field, opcode_bits opc)]"

definition UTypeInstr :: "Opcode \<Rightarrow> bits \<Rightarrow> bits \<Rightarrow> bits" where
  "UTypeInstr opc rd imm = as_value
     [(rd_field, rd), (imm_U_field, imm), (opcode_field, opcode_bits opc)]"

definition JTypeInstr :: "Opcode \<Rightarrow> bits \<Rightarrow> bits \<Rightarrow> bits" where
  "JTypeInstr opc rd imm = as_value
     [(rd_field, rd), (imm_J_field, imm), (opcode_field, opcode_bits opc)]"

definition IllegalInstr :: bits where
  "IllegalInstr = as_value
     [(illegal_field, field_get illegal_field None), (opcode_field, opcode_bits Opcode_RESERVED)]"

definition EBreakInstr :: bits where
  "EBreakInstr = ITypeInstr Opcode_SYSTEM (to_bits 3 (funct3 F3_PRIV)) (to_bits 5 (reg Reg_ZERO))
     (to_bits 5 (reg Reg_ZERO)) (to_bits 12 (funct12 F12_EBREAK))"

section \<open>The formats as bit strings\<close>

lemmas field_defs = mk_field_def opcode_field_def funct3_field_def funct7_field_def rd_field_def
  rs1_field_def rs2_field_def imm_I_field_def imm_S_field_def imm_B_field_def imm_U_field_def
  imm_J_field_def illegal_field_def

lemma length_opcode_bits [simp]: "length (opcode_bits opc) = 7"
  by (simp add: opcode_bits_def)

text \<open>The pieces of each format in increasing position, as the sorted parts concatenate.\<close>

lemma RType_layout:
  assumes "length f3 = 3" "length f7 = 7" "length rd = 5" "length rs1 = 5" "length rs2 = 5"
  shows "RTypeInstr opc f3 f7 rd rs1 rs2 = opcode_bits opc @ rd @ f3 @ rs1 @ rs2 @ f7"
  using assms by (simp add: RTypeInstr_def as_value_def get_parts_def field_defs)

lemma IType_layout:
  assumes "length f3 = 3" "length rd = 5" "length rs1 = 5" "length imm = 12"
  shows "ITypeInstr opc f3 rd rs1 imm = opcode_bits opc @ rd @ f3 @ rs1 @ imm"
  using assms by (simp add: ITypeInstr_def as_value_def get_parts_def field_defs)

lemma SType_layout:
  assumes "length f3 = 3" "length rs1 = 5" "length rs2 = 5" "length imm = 12"
  shows "STypeInstr opc f3 rs1 rs2 imm =
    opcode_bits opc @ bslice 0 5 imm @ f3 @ rs1 @ rs2 @ bslice 5 12 imm"
  using assms by (simp add: STypeInstr_def as_value_def get_parts_def field_defs)

lemma BType_layout:
  assumes "length f3 = 3" "length rs1 = 5" "length rs2 = 5" "length imm = 13"
  shows "BTypeInstr opc f3 rs1 rs2 imm =
    opcode_bits opc @ bslice 11 12 imm @ bslice 1 5 imm @ f3 @ rs1 @ rs2 @ bslice 5 11 imm @ bslice 12 13 imm"
  using assms by (simp add: BTypeInstr_def as_value_def get_parts_def field_defs)

lemma UType_layout:
  assumes "length rd = 5" "length imm = 32"
  shows "UTypeInstr opc rd imm = opcode_bits opc @ rd @ bslice 12 32 imm"
  using assms by (simp add: UTypeInstr_def as_value_def get_parts_def field_defs)

lemma JType_layout:
  assumes "length rd = 5" "length imm = 21"
  shows "JTypeInstr opc rd imm =
    opcode_bits opc @ rd @ bslice 12 20 imm @ bslice 11 12 imm @ bslice 1 11 imm @ bslice 20 21 imm"
  using assms by (simp add: JTypeInstr_def as_value_def get_parts_def field_defs)

lemmas instr_layouts = RType_layout IType_layout SType_layout BType_layout UType_layout JType_layout

lemma IllegalInstr_bits: "IllegalInstr = replicate 32 True"
  by code_simp

lemma EBreak_bits: "EBreakInstr = to_bits 32 0x00100073"
  by (simp add: EBreakInstr_def IType_layout opcode_bits_def)

lemma field_set_width:
  "field_set f a = Inr v \<Longrightarrow> length v = field_width f"
  by (auto simp: field_set_def split: if_splits field_arg.splits)

end
