(* ===== verification/Rvc.thy ===== *)
theory Rvc
  imports Instr_Encode
begin

text \<open>
  The expansion of compressed instructions, \<^verbatim>\<open>coreblocks/frontend/decoder/rvc.py\<close>. The class
  \<^verbatim>\<open>InstrDecompress\<close> is a combinational function of the 16-bit input; the generator's
  parameters are the extension set \<open>exts\<close> and the register width \<open>xl\<close>. An alternative is an
  instruction with its validity; one written without validity in the source is always valid.
  The length check of \<^verbatim>\<open>instr_mux\<close> is an elaboration-time check of constant lists, all of which
  have the length their selector asks for.
\<close>

type_synonym decoded_instr = "bits \<times> bool"

abbreviation "f3b f \<equiv> to_bits 3 (funct3 f)"
abbreviation "f7b f \<equiv> to_bits 7 (funct7 f)"
abbreviation "f12b f \<equiv> to_bits 12 (funct12 f)"
abbreviation "regb r \<equiv> to_bits 5 (reg r)"

definition is_instr_compressed :: "bits \<Rightarrow> bool" where
  "is_instr_compressed instr = (bslice 0 2 instr \<noteq> to_bits 2 3)"

definition decompr_reg :: "bits \<Rightarrow> bits" where
  "decompr_reg rvc_reg = rvc_reg @ to_bits 2 1"

definition instr_mux :: "bits \<Rightarrow> decoded_instr list \<Rightarrow> decoded_instr" where
  "instr_mux sel inputs = inputs ! of_bits sel"

definition illegal_alt :: decoded_instr where
  "illegal_alt = (IllegalInstr, False)"

definition quadrant_0 :: "Extension set \<Rightarrow> nat \<Rightarrow> bits \<Rightarrow> decoded_instr list" where
  "quadrant_0 exts xl i =
   (let rs1 = decompr_reg (bslice 7 10 i);
        rs2 = decompr_reg (bslice 2 5 i);
        rd = decompr_reg (bslice 2 5 i);
        addi4spn_imm = to_bits 2 0 @ bslice 6 7 i @ bslice 5 6 i @ bslice 11 13 i @ bslice 7 11 i
          @ to_bits 2 0;
        lsd_imm = to_bits 3 0 @ bslice 10 13 i @ bslice 5 7 i @ to_bits 4 0;
        lsw_imm = to_bits 2 0 @ bslice 6 7 i @ bslice 10 13 i @ bslice 5 6 i @ to_bits 5 0;
        addi4spn = (ITypeInstr Opcode_OP_IMM (f3b F3_ADD) rd (regb Reg_SP) addi4spn_imm,
          any addi4spn_imm);
        zcb_uimm2 = bslice 6 7 i @ bslice 5 6 i @ to_bits 10 0;
        zcb_uimm1 = to_bits 1 0 @ bslice 5 6 i @ to_bits 10 0;
        lbu = (ITypeInstr Opcode_LOAD (f3b F3_BU) rd rs1 zcb_uimm2, True);
        lhu = (ITypeInstr Opcode_LOAD (f3b F3_HU) rd rs1 zcb_uimm1, True);
        lh = (ITypeInstr Opcode_LOAD (f3b F3_H) rd rs1 zcb_uimm1, True);
        sb = (STypeInstr Opcode_STORE (f3b F3_B) rs1 rs2 zcb_uimm2, True);
        sh = (STypeInstr Opcode_STORE (f3b F3_H) rs1 rs2 zcb_uimm1, \<not> bitn i 6);
        zcb_q0 = (if Ext_ZCB \<in> exts
          then instr_mux (bslice 10 13 i)
            [lbu, instr_mux (bslice 6 7 i) [lhu, lh], sb, sh, illegal_alt, illegal_alt, illegal_alt,
             illegal_alt]
          else illegal_alt);
        fld = (if Ext_ZCD \<in> exts
          then (ITypeInstr Opcode_LOAD_FP (f3b F3_D) rd rs1 lsd_imm, True) else illegal_alt);
        fsd = (if Ext_ZCD \<in> exts
          then (STypeInstr Opcode_STORE_FP (f3b F3_D) rs1 rs2 lsd_imm, True) else illegal_alt);
        lw = (ITypeInstr Opcode_LOAD (f3b F3_W) rd rs1 lsw_imm, True);
        sw = (STypeInstr Opcode_STORE (f3b F3_W) rs1 rs2 lsw_imm, True);
        flw = (if Ext_ZCF \<in> exts
          then (ITypeInstr Opcode_LOAD_FP (f3b F3_W) rd rs1 lsw_imm, True) else illegal_alt);
        fsw = (if Ext_ZCF \<in> exts
          then (STypeInstr Opcode_STORE_FP (f3b F3_W) rs1 rs2 lsw_imm, True) else illegal_alt);
        ld = (if xl = 64
          then (ITypeInstr Opcode_LOAD (f3b F3_D) rd rs1 lsd_imm, True) else illegal_alt);
        sd = (if xl = 64
          then (STypeInstr Opcode_STORE (f3b F3_D) rs1 rs2 lsd_imm, True) else illegal_alt)
    in [addi4spn, fld, lw, if xl = 32 then flw else ld, zcb_q0, fsd, sw,
        if xl = 32 then fsw else sd])"

definition quadrant_1 :: "Extension set \<Rightarrow> nat \<Rightarrow> bits \<Rightarrow> decoded_instr list" where
  "quadrant_1 exts xl i =
   (let rd_rs1 = decompr_reg (bslice 7 10 i);
        rs2 = decompr_reg (bslice 2 5 i);
        rd = bslice 7 12 i;
        addi_imm = bslice 2 7 i @ replicate 7 (bitn i 12);
        addi16sp_imm = to_bits 4 0 @ bslice 6 7 i @ bslice 2 3 i @ bslice 5 6 i @ bslice 3 5 i
          @ replicate 3 (bitn i 12);
        lui_imm = to_bits 12 0 @ bslice 2 7 i @ replicate 15 (bitn i 12);
        j_imm = to_bits 1 0 @ bslice 3 6 i @ bslice 11 12 i @ bslice 2 3 i @ bslice 7 8 i
          @ bslice 6 7 i @ bslice 9 11 i @ bslice 8 9 i @ replicate 10 (bitn i 12);
        b_imm = to_bits 1 0 @ bslice 3 5 i @ bslice 10 12 i @ bslice 2 3 i @ bslice 5 7 i
          @ replicate 5 (bitn i 12);
        shamt = bslice 2 7 i @ bslice 12 13 i;
        addi = (ITypeInstr Opcode_OP_IMM (f3b F3_ADD) rd rd addi_imm, True);
        addiw = (ITypeInstr Opcode_OP_IMM_32 (f3b F3_ADD) rd rd addi_imm, any rd);
        addi16sp = (ITypeInstr Opcode_OP_IMM (f3b F3_ADD) (regb Reg_SP) (regb Reg_SP) addi16sp_imm,
          any addi16sp_imm);
        li = (ITypeInstr Opcode_OP_IMM (f3b F3_ADD) rd (regb Reg_ZERO) addi_imm, True);
        liu = (UTypeInstr Opcode_LUI rd lui_imm, any lui_imm);
        jal = (JTypeInstr Opcode_JAL (regb Reg_RA) j_imm, True);
        j = (JTypeInstr Opcode_JAL (regb Reg_ZERO) j_imm, True);
        beqz = (BTypeInstr Opcode_BRANCH (f3b F3_BEQ) rd_rs1 (regb Reg_ZERO) b_imm, True);
        bnez = (BTypeInstr Opcode_BRANCH (f3b F3_BNE) rd_rs1 (regb Reg_ZERO) b_imm, True);
        shamt_ok = (if xl = 32 then \<not> bitn shamt 5 else True);
        srli = (RTypeInstr Opcode_OP_IMM (f3b F3_SR) (to_bits 7 (funct7 F7_SL OR of_bool (bitn shamt 5)))
          rd_rs1 rd_rs1 (bslice 0 5 shamt), shamt_ok);
        srai = (RTypeInstr Opcode_OP_IMM (f3b F3_SR) (to_bits 7 (funct7 F7_SA OR of_bool (bitn shamt 5)))
          rd_rs1 rd_rs1 (bslice 0 5 shamt), shamt_ok);
        andi = (ITypeInstr Opcode_OP_IMM (f3b F3_AND) rd_rs1 rd_rs1 addi_imm, True);
        sub = (RTypeInstr Opcode_OP (f3b F3_SUB) (f7b F7_SUB) rd_rs1 rd_rs1 rs2, True);
        xor = (RTypeInstr Opcode_OP (f3b F3_XOR) (f7b F7_XOR) rd_rs1 rd_rs1 rs2, True);
        or' = (RTypeInstr Opcode_OP (f3b F3_OR) (f7b F7_OR) rd_rs1 rd_rs1 rs2, True);
        and' = (RTypeInstr Opcode_OP (f3b F3_AND) (f7b F7_AND) rd_rs1 rd_rs1 rs2, True);
        rtype0 = instr_mux (bslice 5 7 i) [sub, xor, or', and'];
        zext_b = (ITypeInstr Opcode_OP_IMM (f3b F3_AND) rd_rs1 rd_rs1 (to_bits 12 255), True);
        sext_b = (ITypeInstr Opcode_OP_IMM (f3b F3_SEXTB) rd_rs1 rd_rs1 (f12b F12_SEXTB),
          Ext_ZBB \<in> exts);
        zext_h = (RTypeInstr Opcode_OP (f3b F3_ZEXTH) (f7b F7_ZEXTH) rd_rs1 rd_rs1 (regb Reg_ZERO),
          Ext_ZBB \<in> exts);
        sext_h = (ITypeInstr Opcode_OP_IMM (f3b F3_SEXTH) rd_rs1 rd_rs1 (f12b F12_SEXTH),
          Ext_ZBB \<in> exts);
        zext_w = illegal_alt;
        not' = (ITypeInstr Opcode_OP_IMM (f3b F3_XOR) rd_rs1 rd_rs1 (replicate 12 True), True);
        mul = (RTypeInstr Opcode_OP (f3b F3_MUL) (f7b F7_MULDIV) rd_rs1 rd_rs1 rs2,
          Ext_ZMMUL \<in> exts \<or> Ext_M \<in> exts);
        zcb_group = (if Ext_ZCB \<in> exts
          then instr_mux (bslice 5 7 i)
            [illegal_alt, illegal_alt, mul,
             instr_mux (bslice 2 5 i)
               [zext_b, sext_b, zext_h, sext_h, zext_w, not', illegal_alt, illegal_alt]]
          else illegal_alt);
        subw = (RTypeInstr Opcode_OP32 (f3b F3_SUB) (to_bits 7 (funct3 F3_SUB)) rd_rs1 rd_rs1 rs2,
          \<not> bitn i 6);
        addw = (RTypeInstr Opcode_OP32 (f3b F3_ADD) (to_bits 7 (funct3 F3_ADD)) rd_rs1 rd_rs1 rs2,
          \<not> bitn i 6);
        w = instr_mux (bslice 5 6 i) [subw, addw];
        rtype_hi = instr_mux (bslice 6 7 i) [w, zcb_group];
        rtype = instr_mux (bslice 12 13 i) [rtype0, if xl \<noteq> 32 then rtype_hi else zcb_group]
    in [addi, if xl = 32 then jal else addiw, li,
        instr_mux [rd = regb Reg_SP] [liu, addi16sp],
        instr_mux (bslice 10 12 i) [srli, srai, andi, rtype], j, beqz, bnez])"

definition quadrant_2 :: "Extension set \<Rightarrow> nat \<Rightarrow> bits \<Rightarrow> decoded_instr list" where
  "quadrant_2 exts xl i =
   (let rd_rs1 = bslice 7 12 i;
        rs2 = bslice 2 7 i;
        shamt = bslice 2 7 i @ bslice 12 13 i;
        ldsp_imm = to_bits 3 0 @ bslice 5 7 i @ bslice 12 13 i @ bslice 2 5 i @ to_bits 3 0;
        lwsp_imm = to_bits 2 0 @ bslice 4 7 i @ bslice 12 13 i @ bslice 2 4 i @ to_bits 4 0;
        sdsp_imm = to_bits 3 0 @ bslice 10 13 i @ bslice 7 10 i @ to_bits 3 0;
        swsp_imm = to_bits 2 0 @ bslice 9 13 i @ bslice 7 9 i @ to_bits 4 0;
        slli = (RTypeInstr Opcode_OP_IMM (f3b F3_SLL) (to_bits 7 (funct7 F7_SL OR of_bool (bitn shamt 5)))
          rd_rs1 rd_rs1 (bslice 0 5 shamt), if xl = 32 then \<not> bitn shamt 5 else True);
        zcd = (xl = 32 \<or> xl = 64) \<and> Ext_ZCD \<in> exts;
        fldsp = (if zcd then (ITypeInstr Opcode_LOAD_FP (f3b F3_D) rd_rs1 (regb Reg_SP) ldsp_imm, True)
          else illegal_alt);
        fsdsp = (if zcd then (STypeInstr Opcode_STORE_FP (f3b F3_D) (regb Reg_SP) rs2 sdsp_imm, True)
          else illegal_alt);
        lwsp = (ITypeInstr Opcode_LOAD (f3b F3_W) rd_rs1 (regb Reg_SP) lwsp_imm, any rd_rs1);
        swsp = (STypeInstr Opcode_STORE (f3b F3_W) (regb Reg_SP) rs2 swsp_imm, True);
        flwsp = (if Ext_ZCF \<in> exts
          then (ITypeInstr Opcode_LOAD_FP (f3b F3_W) rd_rs1 (regb Reg_SP) lwsp_imm, True)
          else illegal_alt);
        fswsp = (if Ext_ZCF \<in> exts
          then (STypeInstr Opcode_STORE_FP (f3b F3_W) (regb Reg_SP) rs2 swsp_imm, True)
          else illegal_alt);
        ldsp = (ITypeInstr Opcode_LOAD (f3b F3_D) rd_rs1 (regb Reg_SP) ldsp_imm, True);
        sdsp = (STypeInstr Opcode_STORE (f3b F3_D) (regb Reg_SP) rs2 sdsp_imm, True);
        jr = (ITypeInstr Opcode_JALR (f3b F3_JALR) (regb Reg_ZERO) rd_rs1 (to_bits 12 0), any rd_rs1);
        jalr = (ITypeInstr Opcode_JALR (f3b F3_JALR) (regb Reg_RA) rd_rs1 (to_bits 12 0), True);
        ebreak = (EBreakInstr, True);
        mv = (RTypeInstr Opcode_OP (f3b F3_ADD) (f7b F7_ADD) rd_rs1 (regb Reg_ZERO) rs2, True);
        add = (RTypeInstr Opcode_OP (f3b F3_ADD) (f7b F7_ADD) rd_rs1 rd_rs1 rs2, True);
        jr_mv = instr_mux [any rs2] [jr, mv];
        ebreak_jalr = instr_mux [any rd_rs1] [ebreak, jalr];
        ebreak_jalr_add = instr_mux [any rs2] [ebreak_jalr, add]
    in [slli, fldsp, lwsp, if xl = 32 then flwsp else ldsp,
        instr_mux (bslice 12 13 i) [jr_mv, ebreak_jalr_add], fsdsp, swsp,
        if xl = 32 then fswsp else sdsp])"

definition decompress_alt :: "Extension set \<Rightarrow> nat \<Rightarrow> bits \<Rightarrow> decoded_instr" where
  "decompress_alt exts xl i =
   (let f3 = bslice 13 16 i in
    instr_mux (bslice 0 2 i)
      [instr_mux f3 (quadrant_0 exts xl i), instr_mux f3 (quadrant_1 exts xl i),
       instr_mux f3 (quadrant_2 exts xl i), illegal_alt])"

definition instr_decompress :: "Extension set \<Rightarrow> nat \<Rightarrow> bits \<Rightarrow> bits" where
  "instr_decompress exts xl i =
   (let res = decompress_alt exts xl i in if snd res then fst res else zext 32 i)"

section \<open>Every alternative is a 32-bit instruction\<close>

definition wf_alt :: "decoded_instr \<Rightarrow> bool" where
  "wf_alt d = (length (fst d) = 32 \<and> bslice 0 2 (fst d) = [True, True])"

lemma opcode_bits_low: "bslice 0 2 (opcode_bits opc @ v) = [True, True]"
  by (simp add: opcode_bits_def bslice_def)

lemma wf_RType:
  "length f3 = 3 \<Longrightarrow> length f7 = 7 \<Longrightarrow> length rd = 5 \<Longrightarrow> length rs1 = 5 \<Longrightarrow> length rs2 = 5 \<Longrightarrow>
   wf_alt (RTypeInstr opc f3 f7 rd rs1 rs2, ok)"
  by (simp add: wf_alt_def RType_layout opcode_bits_low del: bslice_append_left)

lemma wf_IType:
  "length f3 = 3 \<Longrightarrow> length rd = 5 \<Longrightarrow> length rs1 = 5 \<Longrightarrow> length imm = 12 \<Longrightarrow>
   wf_alt (ITypeInstr opc f3 rd rs1 imm, ok)"
  by (simp add: wf_alt_def IType_layout opcode_bits_low del: bslice_append_left)

lemma wf_SType:
  "length f3 = 3 \<Longrightarrow> length rs1 = 5 \<Longrightarrow> length rs2 = 5 \<Longrightarrow> length imm = 12 \<Longrightarrow>
   wf_alt (STypeInstr opc f3 rs1 rs2 imm, ok)"
  by (simp add: wf_alt_def SType_layout opcode_bits_low del: bslice_append_left)

lemma wf_BType:
  "length f3 = 3 \<Longrightarrow> length rs1 = 5 \<Longrightarrow> length rs2 = 5 \<Longrightarrow> length imm = 13 \<Longrightarrow>
   wf_alt (BTypeInstr opc f3 rs1 rs2 imm, ok)"
  by (simp add: wf_alt_def BType_layout opcode_bits_low del: bslice_append_left)

lemma wf_UType:
  "length rd = 5 \<Longrightarrow> length imm = 32 \<Longrightarrow> wf_alt (UTypeInstr opc rd imm, ok)"
  by (simp add: wf_alt_def UType_layout opcode_bits_low del: bslice_append_left)

lemma wf_JType:
  "length rd = 5 \<Longrightarrow> length imm = 21 \<Longrightarrow> wf_alt (JTypeInstr opc rd imm, ok)"
  by (simp add: wf_alt_def JType_layout opcode_bits_low del: bslice_append_left)

lemma wf_illegal: "wf_alt illegal_alt"
  by (simp add: wf_alt_def illegal_alt_def IllegalInstr_bits bslice_def numeral_eq_Suc)

lemma wf_ebreak: "wf_alt (EBreakInstr, ok)"
  unfolding EBreakInstr_def by (rule wf_IType) simp_all

lemma wf_mux:
  "2 ^ length sel = length inputs \<Longrightarrow> list_all wf_alt inputs \<Longrightarrow> wf_alt (instr_mux sel inputs)"
  using of_bits_less [of sel] by (simp add: instr_mux_def list_all_length)

lemma length_decompr_reg [simp]: "length (decompr_reg v) = length v + 2"
  by (simp add: decompr_reg_def)

lemmas wf_alts = wf_RType wf_IType wf_SType wf_BType wf_UType wf_JType wf_illegal wf_ebreak wf_mux

lemma quadrant_0_wf:
  assumes "length i = 16"
  shows "list_all wf_alt (quadrant_0 exts xl i)" "length (quadrant_0 exts xl i) = 8"
  using assms by (simp_all add: quadrant_0_def Let_def wf_alts)

lemma quadrant_1_wf:
  assumes "length i = 16"
  shows "list_all wf_alt (quadrant_1 exts xl i)" "length (quadrant_1 exts xl i) = 8"
  using assms by (simp_all add: quadrant_1_def Let_def wf_alts)

lemma quadrant_2_wf:
  assumes "length i = 16"
  shows "list_all wf_alt (quadrant_2 exts xl i)" "length (quadrant_2 exts xl i) = 8"
  using assms by (simp_all add: quadrant_2_def Let_def wf_alts)

lemma decompress_alt_wf:
  assumes "length i = 16"
  shows "wf_alt (decompress_alt exts xl i)"
  using quadrant_0_wf [OF assms] quadrant_1_wf [OF assms] quadrant_2_wf [OF assms] assms
  by (simp add: decompress_alt_def Let_def wf_alts)

end
