(* ===== verification/Optypes.thy ===== *)
theory Optypes
  imports Isa
begin

text \<open>
  Operation types and their grouping by extension, \<^verbatim>\<open>coreblocks/arch/optypes.py\<close>.
\<close>

datatype (plugins only: size code) OpType =
  OpType_UNKNOWN | OpType_JAL | OpType_JALR | OpType_BRANCH | OpType_LOAD | OpType_STORE
  | OpType_ATOMIC_MEMORY_OP | OpType_ATOMIC_LR_SC | OpType_ECALL | OpType_EBREAK | OpType_MRET
  | OpType_SRET | OpType_WFI | OpType_FENCE | OpType_FENCEI | OpType_SFENCEVMA | OpType_CSR_REG
  | OpType_CSR_IMM | OpType_EXCEPTION | OpType_ARITHMETIC | OpType_COMPARE | OpType_LOGIC
  | OpType_SHIFT | OpType_AUIPC | OpType_MUL | OpType_DIV_REM | OpType_SINGLE_BIT_MANIPULATION
  | OpType_ADDRESS_GENERATION | OpType_BIT_MANIPULATION | OpType_BIT_ROTATION
  | OpType_UNARY_BIT_MANIPULATION_1 | OpType_UNARY_BIT_MANIPULATION_2
  | OpType_UNARY_BIT_MANIPULATION_3 | OpType_UNARY_BIT_MANIPULATION_4
  | OpType_UNARY_BIT_MANIPULATION_5 | OpType_CROSSBAR_PERMUTATION | OpType_CLMUL | OpType_CZERO

primrec optype_value :: "OpType \<Rightarrow> nat" where
  "optype_value OpType_UNKNOWN = 0"
| "optype_value OpType_JAL = 1"
| "optype_value OpType_JALR = 2"
| "optype_value OpType_BRANCH = 3"
| "optype_value OpType_LOAD = 4"
| "optype_value OpType_STORE = 5"
| "optype_value OpType_ATOMIC_MEMORY_OP = 6"
| "optype_value OpType_ATOMIC_LR_SC = 7"
| "optype_value OpType_ECALL = 8"
| "optype_value OpType_EBREAK = 9"
| "optype_value OpType_MRET = 10"
| "optype_value OpType_SRET = 11"
| "optype_value OpType_WFI = 12"
| "optype_value OpType_FENCE = 13"
| "optype_value OpType_FENCEI = 14"
| "optype_value OpType_SFENCEVMA = 15"
| "optype_value OpType_CSR_REG = 16"
| "optype_value OpType_CSR_IMM = 17"
| "optype_value OpType_EXCEPTION = 18"
| "optype_value OpType_ARITHMETIC = 19"
| "optype_value OpType_COMPARE = 20"
| "optype_value OpType_LOGIC = 21"
| "optype_value OpType_SHIFT = 22"
| "optype_value OpType_AUIPC = 23"
| "optype_value OpType_MUL = 24"
| "optype_value OpType_DIV_REM = 25"
| "optype_value OpType_SINGLE_BIT_MANIPULATION = 26"
| "optype_value OpType_ADDRESS_GENERATION = 27"
| "optype_value OpType_BIT_MANIPULATION = 28"
| "optype_value OpType_BIT_ROTATION = 29"
| "optype_value OpType_UNARY_BIT_MANIPULATION_1 = 30"
| "optype_value OpType_UNARY_BIT_MANIPULATION_2 = 31"
| "optype_value OpType_UNARY_BIT_MANIPULATION_3 = 32"
| "optype_value OpType_UNARY_BIT_MANIPULATION_4 = 33"
| "optype_value OpType_UNARY_BIT_MANIPULATION_5 = 34"
| "optype_value OpType_CROSSBAR_PERMUTATION = 35"
| "optype_value OpType_CLMUL = 36"
| "optype_value OpType_CZERO = 37"

definition impure_optype :: "OpType \<Rightarrow> bool" where
  "impure_optype opt =
     (optype_value OpType_JAL \<le> optype_value opt \<and> optype_value opt < optype_value OpType_ARITHMETIC)"

datatype CfiType = Cfi_INVALID | Cfi_BRANCH | Cfi_JALR | Cfi_JAL

primrec cfi_value :: "CfiType \<Rightarrow> nat" where
  "cfi_value Cfi_INVALID = 0"
| "cfi_value Cfi_BRANCH = 1"
| "cfi_value Cfi_JALR = 2"
| "cfi_value Cfi_JAL = 3"

datatype RasAction = Ras_NONE | Ras_POP | Ras_PUSH | Ras_POP_AND_PUSH

primrec ras_action_value :: "RasAction \<Rightarrow> nat" where
  "ras_action_value Ras_NONE = 0"
| "ras_action_value Ras_POP = 1"
| "ras_action_value Ras_PUSH = 2"
| "ras_action_value Ras_POP_AND_PUSH = 3"

definition has_push :: "RasAction \<Rightarrow> bool" where
  "has_push a = bit (ras_action_value a) 1"

definition has_pop :: "RasAction \<Rightarrow> bool" where
  "has_pop a = bit (ras_action_value a) 0"

definition optypes_by_extensions :: "(Extension \<times> OpType list) list" where
  "optypes_by_extensions =
    [(Ext_I, [OpType_ARITHMETIC, OpType_COMPARE, OpType_LOGIC, OpType_SHIFT, OpType_AUIPC
         , OpType_JAL, OpType_JALR, OpType_BRANCH, OpType_LOAD, OpType_STORE, OpType_FENCE
         , OpType_ECALL, OpType_EBREAK]),
     (Ext_ZIFENCEI, [OpType_FENCEI]),
     (Ext_ZICSR, [OpType_CSR_REG, OpType_CSR_IMM]),
     (Ext_ZMMUL, [OpType_MUL]),
     (Ext_M, [OpType_DIV_REM]),
     (Ext_ZAAMO, [OpType_ATOMIC_MEMORY_OP]),
     (Ext_ZALRSC, [OpType_ATOMIC_LR_SC]),
     (Ext_ZBS, [OpType_SINGLE_BIT_MANIPULATION]),
     (Ext_ZBA, [OpType_ADDRESS_GENERATION]),
     (Ext_ZBB, [OpType_BIT_MANIPULATION, OpType_BIT_ROTATION, OpType_UNARY_BIT_MANIPULATION_1
         , OpType_UNARY_BIT_MANIPULATION_2, OpType_UNARY_BIT_MANIPULATION_3
         , OpType_UNARY_BIT_MANIPULATION_4, OpType_UNARY_BIT_MANIPULATION_5]),
     (Ext_ZBC, [OpType_CLMUL]),
     (Ext_ZBKX, [OpType_CROSSBAR_PERMUTATION]),
     (Ext_ZICOND, [OpType_CZERO]),
     (Ext_XINTMACHINEMODE, [OpType_MRET, OpType_WFI]),
     (Ext_XINTSUPERVISOR, [OpType_SRET, OpType_SFENCEVMA])]"

definition optypes_of :: "Extension \<Rightarrow> OpType list option" where
  "optypes_of ext = map_of optypes_by_extensions ext"

text \<open>
  The implications are collected from the given set in one pass; an extension with
  implications is skipped when it has neither operation types of its own nor is known to
  only imply others.
\<close>

definition resolve_implications :: "Extension set \<Rightarrow> Extension set" where
  "resolve_implications exts =
     exts \<union> fold (\<lambda>ext acc.
       case map_of extension_implications ext of
         Some imply \<Rightarrow>
           if ext \<in> exts \<and> (optypes_of ext \<noteq> None \<or> ext \<in> extension_only_implies)
           then acc \<union> imply else acc
       | None \<Rightarrow> acc) Extension_members {}"

fun collect_optypes ::
  "Extension set \<Rightarrow> bool \<Rightarrow> Extension list \<Rightarrow> OpType set \<Rightarrow> py_error + OpType set" where
  "collect_optypes exts ignore_unsupported [] optypes = Inr optypes"
| "collect_optypes exts ignore_unsupported (ext # es) optypes =
     (if ext \<in> exts
      then (case optypes_of ext of
              Some ops \<Rightarrow> collect_optypes exts ignore_unsupported es (optypes \<union> set ops)
            | None \<Rightarrow> if ignore_unsupported
                     then collect_optypes exts ignore_unsupported es optypes
                     else Inl OtherException)
      else collect_optypes exts ignore_unsupported es optypes)"

definition optypes_required_by_extensions ::
  "Extension set \<Rightarrow> bool \<Rightarrow> bool \<Rightarrow> py_error + OpType set" where
  "optypes_required_by_extensions exts resolve ignore_unsupported =
     collect_optypes (if resolve then resolve_implications exts else exts) ignore_unsupported
       Extension_members {}"

section \<open>Purity and requirements\<close>

lemma optype_value_less: "optype_value opt < 38"
  by (cases opt) simp_all

lemma optype_value_inject: "optype_value a = optype_value b \<Longrightarrow> a = b"
  by (cases a) (cases b; simp)+

lemma has_push_iff [simp]: "has_push a \<longleftrightarrow> a = Ras_PUSH \<or> a = Ras_POP_AND_PUSH"
  by (cases a) (simp_all add: has_push_def bit_0 bit_Suc)

lemma has_pop_iff [simp]: "has_pop a \<longleftrightarrow> a = Ras_POP \<or> a = Ras_POP_AND_PUSH"
  by (cases a) (simp_all add: has_pop_def bit_0)

lemma collect_optypes_Inr:
  "collect_optypes exts ig es acc = Inr opts \<Longrightarrow>
   opts = acc \<union> \<Union> (set ` {ops. \<exists>ext \<in> exts \<inter> set es. optypes_of ext = Some ops})"
proof (induction exts ig es acc rule: collect_optypes.induct)
  case (2 exts ig ext es acc)
  then show ?case
    by (cases "optypes_of ext") (auto split: if_splits)
qed simp

end
