(* ===== verification/Instr_Description.thy ===== *)
theory Instr_Description
  imports Optypes
begin

text \<open>
  The encodings the decoder recognises, grouped by operation type:
  \<^verbatim>\<open>coreblocks/frontend/decoder/instr_description.py\<close>.
\<close>

record encoding =
  enc_opcode :: Opcode
  enc_funct3 :: "Funct3 option"
  enc_funct7 :: "Funct7 option"
  enc_funct12 :: "Funct12 option"
  enc_type_override :: "InstrType option"
  enc_rd_zero :: bool
  enc_rs1_zero :: bool
  enc_rs2_zero :: bool

definition Encoding ::
  "Opcode \<Rightarrow> Funct3 option \<Rightarrow> Funct7 option \<Rightarrow> Funct12 option \<Rightarrow> encoding" where
  "Encoding opc f3 f7 f12 =
     \<lparr>enc_opcode = opc, enc_funct3 = f3, enc_funct7 = f7, enc_funct12 = f12,
      enc_type_override = None, enc_rd_zero = False, enc_rs1_zero = False, enc_rs2_zero = False\<rparr>"

fun instructions_by_optype :: "OpType \<Rightarrow> encoding list" where
  "instructions_by_optype OpType_ARITHMETIC =
    [Encoding Opcode_OP_IMM (Some F3_ADD) None None,
     Encoding Opcode_OP (Some F3_ADD) (Some F7_ADD) None,
     Encoding Opcode_OP (Some F3_ADD) (Some F7_SUB) None,
     Encoding Opcode_LUI None None None]"
| "instructions_by_optype OpType_COMPARE =
    [Encoding Opcode_OP_IMM (Some F3_SLT) None None,
     Encoding Opcode_OP_IMM (Some F3_SLTU) None None,
     Encoding Opcode_OP (Some F3_SLT) (Some F7_SLT) None,
     Encoding Opcode_OP (Some F3_SLTU) (Some F7_SLT) None]"
| "instructions_by_optype OpType_LOGIC =
    [Encoding Opcode_OP_IMM (Some F3_XOR) None None,
     Encoding Opcode_OP_IMM (Some F3_OR) None None,
     Encoding Opcode_OP_IMM (Some F3_AND) None None,
     Encoding Opcode_OP (Some F3_XOR) (Some F7_XOR) None,
     Encoding Opcode_OP (Some F3_OR) (Some F7_OR) None,
     Encoding Opcode_OP (Some F3_AND) (Some F7_AND) None]"
| "instructions_by_optype OpType_SHIFT =
    [Encoding Opcode_OP_IMM (Some F3_SLL) (Some F7_SL) None,
     Encoding Opcode_OP_IMM (Some F3_SR) (Some F7_SL) None,
     Encoding Opcode_OP_IMM (Some F3_SR) (Some F7_SA) None,
     Encoding Opcode_OP (Some F3_SLL) (Some F7_SL) None,
     Encoding Opcode_OP (Some F3_SR) (Some F7_SL) None,
     Encoding Opcode_OP (Some F3_SR) (Some F7_SA) None]"
| "instructions_by_optype OpType_AUIPC =
    [Encoding Opcode_AUIPC None None None]"
| "instructions_by_optype OpType_JAL =
    [Encoding Opcode_JAL None None None]"
| "instructions_by_optype OpType_JALR =
    [Encoding Opcode_JALR (Some F3_JALR) None None]"
| "instructions_by_optype OpType_BRANCH =
    [Encoding Opcode_BRANCH (Some F3_BEQ) None None,
     Encoding Opcode_BRANCH (Some F3_BNE) None None,
     Encoding Opcode_BRANCH (Some F3_BLT) None None,
     Encoding Opcode_BRANCH (Some F3_BGE) None None,
     Encoding Opcode_BRANCH (Some F3_BLTU) None None,
     Encoding Opcode_BRANCH (Some F3_BGEU) None None]"
| "instructions_by_optype OpType_LOAD =
    [Encoding Opcode_LOAD (Some F3_B) None None,
     Encoding Opcode_LOAD (Some F3_BU) None None,
     Encoding Opcode_LOAD (Some F3_H) None None,
     Encoding Opcode_LOAD (Some F3_HU) None None,
     Encoding Opcode_LOAD (Some F3_W) None None]"
| "instructions_by_optype OpType_STORE =
    [Encoding Opcode_STORE (Some F3_B) None None,
     Encoding Opcode_STORE (Some F3_H) None None,
     Encoding Opcode_STORE (Some F3_W) None None]"
| "instructions_by_optype OpType_FENCE =
    [Encoding Opcode_MISC_MEM (Some F3_FENCE) None None]"
| "instructions_by_optype OpType_ECALL =
    [(Encoding Opcode_SYSTEM (Some F3_PRIV) None (Some F12_ECALL))\<lparr>enc_rd_zero := True, enc_rs1_zero := True\<rparr>]"
| "instructions_by_optype OpType_EBREAK =
    [(Encoding Opcode_SYSTEM (Some F3_PRIV) None (Some F12_EBREAK))\<lparr>enc_rd_zero := True, enc_rs1_zero := True\<rparr>]"
| "instructions_by_optype OpType_MRET =
    [(Encoding Opcode_SYSTEM (Some F3_PRIV) None (Some F12_MRET))\<lparr>enc_rd_zero := True, enc_rs1_zero := True\<rparr>]"
| "instructions_by_optype OpType_WFI =
    [(Encoding Opcode_SYSTEM (Some F3_PRIV) None (Some F12_WFI))\<lparr>enc_rd_zero := True, enc_rs1_zero := True\<rparr>]"
| "instructions_by_optype OpType_FENCEI =
    [Encoding Opcode_MISC_MEM (Some F3_FENCEI) None None]"
| "instructions_by_optype OpType_CSR_REG =
    [Encoding Opcode_SYSTEM (Some F3_CSRRW) None None,
     Encoding Opcode_SYSTEM (Some F3_CSRRS) None None,
     Encoding Opcode_SYSTEM (Some F3_CSRRC) None None]"
| "instructions_by_optype OpType_CSR_IMM =
    [Encoding Opcode_SYSTEM (Some F3_CSRRWI) None None,
     Encoding Opcode_SYSTEM (Some F3_CSRRSI) None None,
     Encoding Opcode_SYSTEM (Some F3_CSRRCI) None None]"
| "instructions_by_optype OpType_MUL =
    [Encoding Opcode_OP (Some F3_MUL) (Some F7_MULDIV) None,
     Encoding Opcode_OP (Some F3_MULH) (Some F7_MULDIV) None,
     Encoding Opcode_OP (Some F3_MULHSU) (Some F7_MULDIV) None,
     Encoding Opcode_OP (Some F3_MULHU) (Some F7_MULDIV) None]"
| "instructions_by_optype OpType_DIV_REM =
    [Encoding Opcode_OP (Some F3_DIV) (Some F7_MULDIV) None,
     Encoding Opcode_OP (Some F3_DIVU) (Some F7_MULDIV) None,
     Encoding Opcode_OP (Some F3_REM) (Some F7_MULDIV) None,
     Encoding Opcode_OP (Some F3_REMU) (Some F7_MULDIV) None]"
| "instructions_by_optype OpType_SINGLE_BIT_MANIPULATION =
    [Encoding Opcode_OP (Some F3_BCLR) (Some F7_BCLR) None,
     Encoding Opcode_OP_IMM (Some F3_BCLR) (Some F7_BCLR) None,
     Encoding Opcode_OP (Some F3_BEXT) (Some F7_BEXT) None,
     Encoding Opcode_OP_IMM (Some F3_BEXT) (Some F7_BEXT) None,
     Encoding Opcode_OP (Some F3_BSET) (Some F7_BSET) None,
     Encoding Opcode_OP_IMM (Some F3_BSET) (Some F7_BSET) None,
     Encoding Opcode_OP (Some F3_BINV) (Some F7_BINV) None,
     Encoding Opcode_OP_IMM (Some F3_BINV) (Some F7_BINV) None]"
| "instructions_by_optype OpType_ADDRESS_GENERATION =
    [Encoding Opcode_OP (Some F3_SH1ADD) (Some F7_SH1ADD) None,
     Encoding Opcode_OP (Some F3_SH2ADD) (Some F7_SH2ADD) None,
     Encoding Opcode_OP (Some F3_SH3ADD) (Some F7_SH3ADD) None]"
| "instructions_by_optype OpType_BIT_MANIPULATION =
    [Encoding Opcode_OP (Some F3_ANDN) (Some F7_ANDN) None,
     Encoding Opcode_OP (Some F3_MAX) (Some F7_MAX) None,
     Encoding Opcode_OP (Some F3_MAXU) (Some F7_MAX) None,
     Encoding Opcode_OP (Some F3_MIN) (Some F7_MIN) None,
     Encoding Opcode_OP (Some F3_MINU) (Some F7_MIN) None,
     Encoding Opcode_OP (Some F3_ORN) (Some F7_ORN) None,
     Encoding Opcode_OP (Some F3_XNOR) (Some F7_XNOR) None]"
| "instructions_by_optype OpType_BIT_ROTATION =
    [Encoding Opcode_OP (Some F3_ROL) (Some F7_ROL) None,
     Encoding Opcode_OP (Some F3_ROR) (Some F7_ROR) None,
     Encoding Opcode_OP_IMM (Some F3_ROR) (Some F7_ROR) None]"
| "instructions_by_optype OpType_UNARY_BIT_MANIPULATION_1 =
    [Encoding Opcode_OP_IMM (Some F3_REV8) None (Some F12_REV8_32),
     Encoding Opcode_OP_IMM (Some F3_SEXTB) None (Some F12_SEXTB),
     Encoding Opcode_OP (Some F3_ZEXTH) None (Some F12_ZEXTH)]"
| "instructions_by_optype OpType_UNARY_BIT_MANIPULATION_2 =
    [Encoding Opcode_OP_IMM (Some F3_SEXTH) None (Some F12_SEXTH),
     Encoding Opcode_OP_IMM (Some F3_ORCB) None (Some F12_ORCB)]"
| "instructions_by_optype OpType_UNARY_BIT_MANIPULATION_3 =
    [Encoding Opcode_OP_IMM (Some F3_CLZ) None (Some F12_CLZ)]"
| "instructions_by_optype OpType_UNARY_BIT_MANIPULATION_4 =
    [Encoding Opcode_OP_IMM (Some F3_CTZ) None (Some F12_CTZ)]"
| "instructions_by_optype OpType_UNARY_BIT_MANIPULATION_5 =
    [Encoding Opcode_OP_IMM (Some F3_CPOP) None (Some F12_CPOP)]"
| "instructions_by_optype OpType_CLMUL =
    [Encoding Opcode_OP (Some F3_CLMUL) (Some F7_CLMUL) None,
     Encoding Opcode_OP (Some F3_CLMULH) (Some F7_CLMUL) None,
     Encoding Opcode_OP (Some F3_CLMULR) (Some F7_CLMUL) None]"
| "instructions_by_optype OpType_CROSSBAR_PERMUTATION =
    [Encoding Opcode_OP (Some F3_XPERM4) (Some F7_XPERM) None,
     Encoding Opcode_OP (Some F3_XPERM8) (Some F7_XPERM) None]"
| "instructions_by_optype OpType_SRET =
    [(Encoding Opcode_SYSTEM (Some F3_PRIV) None (Some F12_SRET))\<lparr>enc_rd_zero := True, enc_rs1_zero := True\<rparr>]"
| "instructions_by_optype OpType_SFENCEVMA =
    [(Encoding Opcode_SYSTEM (Some F3_PRIV) (Some F7_SFENCEVMA) None)\<lparr>enc_rd_zero := True, enc_type_override := Some InstrType_R\<rparr>]"
| "instructions_by_optype OpType_CZERO =
    [Encoding Opcode_OP (Some F3_CZEROEQZ) (Some F7_CZERO) None,
     Encoding Opcode_OP (Some F3_CZERONEZ) (Some F7_CZERO) None]"
| "instructions_by_optype OpType_ATOMIC_MEMORY_OP =
    [Encoding Opcode_AMO (Some F3_W) (Some F7_AMOSWAP) None,
     Encoding Opcode_AMO (Some F3_W) (Some F7_AMOADD) None,
     Encoding Opcode_AMO (Some F3_W) (Some F7_AMOAND) None,
     Encoding Opcode_AMO (Some F3_W) (Some F7_AMOOR) None,
     Encoding Opcode_AMO (Some F3_W) (Some F7_AMOXOR) None,
     Encoding Opcode_AMO (Some F3_W) (Some F7_AMOMAXU) None,
     Encoding Opcode_AMO (Some F3_W) (Some F7_AMOMINU) None,
     Encoding Opcode_AMO (Some F3_W) (Some F7_AMOMAX) None,
     Encoding Opcode_AMO (Some F3_W) (Some F7_AMOMIN) None]"
| "instructions_by_optype OpType_ATOMIC_LR_SC =
    [(Encoding Opcode_AMO (Some F3_W) (Some F7_LR) None)\<lparr>enc_rs2_zero := True\<rparr>,
     Encoding Opcode_AMO (Some F3_W) (Some F7_SC) None]"
| "instructions_by_optype _ = []"

text \<open>
  The table has no entry for the remaining operation types; the code looks up only operation
  types that some extension provides, all of which have one.
\<close>

lemma described_optypes:
  "(ext, ops) \<in> set optypes_by_extensions \<Longrightarrow> opt \<in> set ops \<Longrightarrow> instructions_by_optype opt \<noteq> []"
  by (auto simp: optypes_by_extensions_def)

end
