(* ===== verification/Instr_Decoder.thy ===== *)
theory Instr_Decoder
  imports Instr_Description Instr_Encode
begin

text \<open>
  The instruction decoder, \<^verbatim>\<open>coreblocks/frontend/decoder/instr_decoder.py\<close>, and the decode stage
  around it, \<^verbatim>\<open>coreblocks/frontend/decoder/decode_stage.py\<close>. A combinational signal has one value
  in a cycle, the one its last active assignment gives; so where the code overrides a signal
  at its end (funct3, rs1 and rs1_v of LUI), every use sees the final value.

  The encodings are kept by the code in a Python set, whose iteration order is not
  specified. The decoder here takes the enumeration as an argument \<open>encs\<close>; the order
  independence theorem shows that every enumeration of the supported encodings gives the
  same decoder.
\<close>

section \<open>Supported encodings\<close>

definition supported_encodings :: "Extension set \<Rightarrow> (encoding \<times> OpType) list" where
  "supported_encodings exts =
     (let exts1 = (if Ext_E \<in> exts then insert Ext_I exts else exts) in
      concat (map (\<lambda>(ext, optypes).
        if ext \<in> exts1
        then concat (map (\<lambda>opt. map (\<lambda>enc. (enc, opt)) (instructions_by_optype opt)) optypes)
        else []) optypes_by_extensions))"

section \<open>Raw fields\<close>

record raw_fields =
  r_opcode :: bits
  r_funct3 :: bits
  r_funct7 :: bits
  r_funct12 :: bits
  r_rd_field :: bits
  r_rs1_field :: bits
  r_rs2_field :: bits
  r_rd :: bits
  r_rs1 :: bits
  r_rs2 :: bits

definition instr_extract :: "nat \<Rightarrow> nat \<Rightarrow> bits \<Rightarrow> bits" where
  "instr_extract start width instr = bslice start (start + width) instr"

definition is_lui :: "bits \<Rightarrow> bool" where
  "is_lui instr = (instr_extract 2 5 instr = to_bits 5 (opcode_value Opcode_LUI))"

definition decode_fields :: "nat \<Rightarrow> bits \<Rightarrow> raw_fields" where
  "decode_fields rlog instr =
     (let rd_field = instr_extract 7 5 instr; rs1_field = instr_extract 15 5 instr;
          rs2_field = instr_extract 20 5 instr
      in \<lparr>r_opcode = instr_extract 2 5 instr,
          r_funct3 = (if is_lui instr then to_bits 3 (funct3 F3_ADD) else instr_extract 12 3 instr),
          r_funct7 = instr_extract 25 7 instr, r_funct12 = instr_extract 20 12 instr,
          r_rd_field = rd_field, r_rs1_field = rs1_field, r_rs2_field = rs2_field,
          r_rd = take rlog rd_field,
          r_rs1 = (if is_lui instr then to_bits rlog 0 else take rlog rs1_field),
          r_rs2 = take rlog rs2_field\<rparr>)"

section \<open>Matching\<close>

record match_state =
  ms_optype :: OpType
  ms_itype :: InstrType
  ms_rd_invalid :: bool
  ms_rs1_invalid :: bool
  ms_rs2_invalid :: bool
  ms_funct3_v :: bool
  ms_funct7_v :: bool
  ms_funct12_v :: bool

definition opcode_is :: "bits \<Rightarrow> Opcode \<Rightarrow> bool" where
  "opcode_is v opc = (v = to_bits 5 (opcode_value opc))"

definition type_of_opcode :: "bits \<Rightarrow> InstrType" where
  "type_of_opcode opc =
     (if list_ex (opcode_is opc) [Opcode_OP_IMM, Opcode_JALR, Opcode_LOAD, Opcode_MISC_MEM, Opcode_SYSTEM]
      then InstrType_I
      else if list_ex (opcode_is opc) [Opcode_LUI, Opcode_AUIPC] then InstrType_U
      else if opcode_is opc Opcode_OP then InstrType_R
      else if opcode_is opc Opcode_JAL then InstrType_J
      else if opcode_is opc Opcode_BRANCH then InstrType_B
      else if opcode_is opc Opcode_STORE then InstrType_S
      else InstrType_R)"

text \<open>For atomic instructions the two low bits of funct7 (aq and rl) are masked.\<close>

definition enc_match :: "raw_fields \<Rightarrow> encoding \<Rightarrow> bool" where
  "enc_match r e =
     (let f7 = (if enc_opcode e = Opcode_AMO then [False, False] @ drop 2 (r_funct7 r) else r_funct7 r)
      in opcode_is (r_opcode r) (enc_opcode e) \<and>
         (case enc_funct3 e of Some f \<Rightarrow> r_funct3 r = to_bits 3 (funct3 f) | None \<Rightarrow> True) \<and>
         (case enc_funct7 e of Some f \<Rightarrow> f7 = to_bits 7 (funct7 f) | None \<Rightarrow> True) \<and>
         (case enc_funct12 e of Some f \<Rightarrow> r_funct12 r = to_bits 12 (funct12 f) | None \<Rightarrow> True) \<and>
         (enc_rd_zero e \<longrightarrow> \<not> any (r_rd r)) \<and>
         (enc_rs1_zero e \<longrightarrow> \<not> any (r_rs1 r)) \<and>
         (enc_rs2_zero e \<longrightarrow> \<not> any (r_rs2 r)))"

definition apply_encoding :: "encoding \<times> OpType \<Rightarrow> match_state \<Rightarrow> match_state" where
  "apply_encoding p st =
     (let e = fst p in
      \<lparr>ms_optype = snd p,
       ms_itype = (case enc_type_override e of Some t \<Rightarrow> t | None \<Rightarrow> ms_itype st),
       ms_rd_invalid = enc_rd_zero e,
       ms_rs1_invalid = enc_rs1_zero e,
       ms_rs2_invalid = (enc_rs2_zero e \<or> enc_funct12 e \<noteq> None),
       ms_funct3_v = (enc_funct3 e \<noteq> None),
       ms_funct7_v = (enc_funct7 e \<noteq> None),
       ms_funct12_v = (enc_funct12 e \<noteq> None)\<rparr>)"

definition match_init :: "raw_fields \<Rightarrow> match_state" where
  "match_init r =
     \<lparr>ms_optype = OpType_UNKNOWN, ms_itype = type_of_opcode (r_opcode r), ms_rd_invalid = False,
      ms_rs1_invalid = False, ms_rs2_invalid = False, ms_funct3_v = False, ms_funct7_v = False,
      ms_funct12_v = False\<rparr>"

definition match_encodings :: "(encoding \<times> OpType) list \<Rightarrow> raw_fields \<Rightarrow> match_state" where
  "match_encodings encs r =
     fold (\<lambda>p st. if enc_match r (fst p) then apply_encoding p st else st) encs (match_init r)"

section \<open>The decoder\<close>

record decoded =
  d_opcode :: bits
  d_funct3 :: bits
  d_funct3_v :: bool
  d_funct7 :: bits
  d_funct7_v :: bool
  d_funct12 :: bits
  d_funct12_v :: bool
  d_rd :: bits
  d_rd_v :: bool
  d_rs1 :: bits
  d_rs1_v :: bool
  d_rs2 :: bits
  d_rs2_v :: bool
  d_imm :: bits
  d_succ :: bits
  d_pred :: bits
  d_fm :: bits
  d_csr :: bits
  d_optype :: OpType
  d_illegal :: bool

definition rd_itypes :: "InstrType list" where
  "rd_itypes = [InstrType_R, InstrType_I, InstrType_U, InstrType_J]"

definition rs1_itypes :: "InstrType list" where
  "rs1_itypes = [InstrType_R, InstrType_I, InstrType_S, InstrType_B]"

definition rs2_itypes :: "InstrType list" where
  "rs2_itypes = [InstrType_R, InstrType_S, InstrType_B]"

definition decode_imm :: "nat \<Rightarrow> nat \<Rightarrow> raw_fields \<Rightarrow> match_state \<Rightarrow> bits \<Rightarrow> bits" where
  "decode_imm xl rlog r st instr =
     (let shift_imm = opcode_is (r_opcode r) Opcode_OP_IMM \<and>
            (r_funct3 r = to_bits 3 (funct3 F3_SLL) \<or> r_funct3 r = to_bits 3 (funct3 F3_SR));
          iimm12 = (if shift_imm then zext 12 (bslice 20 25 instr) else instr_extract 20 12 instr);
          simm12 = bslice 7 12 instr @ bslice 25 32 instr;
          bimm13 = [False] @ bslice 8 12 instr @ bslice 25 31 instr @ bslice 7 8 instr @ bslice 31 32 instr;
          uimm20 = instr_extract 12 20 instr;
          jimm20 = [False] @ bslice 21 31 instr @ bslice 20 21 instr @ bslice 12 20 instr @ bslice 31 32 instr;
          uimm5 = instr_extract 15 5 instr;
          imm1 = (case ms_itype st of
              InstrType_I \<Rightarrow> sext xl iimm12
            | InstrType_S \<Rightarrow> sext xl simm12
            | InstrType_B \<Rightarrow> sext xl bimm13
            | InstrType_U \<Rightarrow> zext xl (replicate (xl - 20) False @ uimm20)
            | InstrType_J \<Rightarrow> sext xl jimm20
            | InstrType_R \<Rightarrow> to_bits xl 0);
          imm2 = (if ms_optype st = OpType_CSR_IMM then zext xl uimm5 else imm1);
          imm3 = (if ms_optype st = OpType_CSR_REG \<or> ms_optype st = OpType_CSR_IMM
            then take (xl - 2 * rlog) imm2 @ r_rd r @ r_rs1 r else imm2)
      in if ms_optype st = OpType_SFENCEVMA then take (xl - 2 * rlog) imm3 @ r_rs1 r @ r_rs2 r
         else imm3)"

definition instr_decode ::
  "nat \<Rightarrow> nat \<Rightarrow> (encoding \<times> OpType) list \<Rightarrow> bits \<Rightarrow> decoded" where
  "instr_decode xl rlog encs instr =
     (let r = decode_fields rlog instr;
          st = match_encodings encs r;
          fence = (ms_optype st = OpType_FENCEI \<or> ms_optype st = OpType_FENCE);
          rd_v = (ms_itype st \<in> set rd_itypes \<and> \<not> ms_rd_invalid st \<and> \<not> fence);
          rs1_v = (is_lui instr \<or>
            (ms_optype st \<noteq> OpType_CSR_IMM \<and> ms_itype st \<in> set rs1_itypes \<and> \<not> ms_rs1_invalid st \<and> \<not> fence));
          rs2_v = (ms_itype st \<in> set rs2_itypes \<and> \<not> ms_rs2_invalid st \<and> \<not> fence);
          register_space_invalid =
            ((rd_v \<and> any (drop rlog (r_rd_field r))) \<or> (rs1_v \<and> any (drop rlog (r_rs1_field r))) \<or>
             (rs2_v \<and> any (drop rlog (r_rs2_field r))))
      in \<lparr>d_opcode = (if is_lui instr then to_bits 5 (opcode_value Opcode_OP_IMM) else r_opcode r),
          d_funct3 = r_funct3 r, d_funct3_v = (is_lui instr \<or> ms_funct3_v st),
          d_funct7 = r_funct7 r, d_funct7_v = ms_funct7_v st,
          d_funct12 = r_funct12 r, d_funct12_v = ms_funct12_v st,
          d_rd = r_rd r, d_rd_v = rd_v, d_rs1 = r_rs1 r, d_rs1_v = rs1_v, d_rs2 = r_rs2 r, d_rs2_v = rs2_v,
          d_imm = decode_imm xl rlog r st instr,
          d_succ = instr_extract 20 4 instr, d_pred = instr_extract 24 4 instr, d_fm = instr_extract 28 4 instr,
          d_csr = instr_extract 20 12 instr, d_optype = ms_optype st,
          d_illegal = (ms_optype st = OpType_UNKNOWN \<or> instr_extract 0 2 instr \<noteq> to_bits 2 3 \<or>
            register_space_invalid)\<rparr>)"

section \<open>The decode stage\<close>

record exec_fn =
  op_type :: OpType
  fn_funct3 :: bits
  fn_funct7 :: bits

record raw_instr =
  ri_instr :: bits
  ri_pc :: bits
  ri_rvc :: bool
  ri_access_fault :: bits
  ri_commit_checkpoint :: bool
  ri_ftq_ptr :: bits
  ri_ftq_offset :: bits

record decoded_instr =
  di_exec_fn :: exec_fn
  di_rl_dst :: bits
  di_rl_s1 :: bits
  di_rl_s2 :: bits
  di_imm :: bits
  di_csr :: bits
  di_pc :: bits
  di_commit_checkpoint :: bool
  di_ftq_ptr :: bits
  di_ftq_offset :: bits

text \<open>Bit 1 of the fault flags is the page fault.\<close>

definition decode_stage ::
  "nat \<Rightarrow> nat \<Rightarrow> (encoding \<times> OpType) list \<Rightarrow> raw_instr \<Rightarrow> decoded_instr" where
  "decode_stage xl rlog encs ri =
     (let d = instr_decode xl rlog encs (ri_instr ri);
          fault = any (ri_access_fault ri);
          exception_override = d_illegal d \<or> fault;
          exception_funct =
            (if fault then (if bitn (ri_access_fault ri) 1 then to_bits 3 (funct3 F3_EINSTRPAGEFAULT)
                            else to_bits 3 (funct3 F3_EINSTRACCESSFAULT))
             else if d_illegal d then to_bits 3 (funct3 F3_EILLEGALINSTR) else to_bits 3 0);
          is_jb = d_optype d \<in> {OpType_JAL, OpType_JALR, OpType_BRANCH};
          jb_funct7 = zext 7 [ri_rvc ri]
      in \<lparr>di_exec_fn =
            \<lparr>op_type = (if exception_override then OpType_EXCEPTION else d_optype d),
             fn_funct3 = (if exception_override then exception_funct
                          else if d_funct3_v d then d_funct3 d else to_bits 3 0),
             fn_funct7 = (if exception_override then to_bits 7 0
                          else if d_funct7_v d then d_funct7 d
                          else if is_jb then jb_funct7 else to_bits 7 0)\<rparr>,
          di_rl_dst = (if d_rd_v d \<and> \<not> exception_override then d_rd d else to_bits rlog 0),
          di_rl_s1 = (if d_rs1_v d \<and> \<not> exception_override then d_rs1 d else to_bits rlog 0),
          di_rl_s2 = (if d_rs2_v d \<and> \<not> exception_override then d_rs2 d else to_bits rlog 0),
          di_imm = (if \<not> exception_override then d_imm d
                    else if fault then zext xl (ri_access_fault ri) else zext xl (ri_instr ri)),
          di_csr = d_csr d, di_pc = ri_pc ri, di_commit_checkpoint = ri_commit_checkpoint ri,
          di_ftq_ptr = ri_ftq_ptr ri, di_ftq_offset = ri_ftq_offset ri\<rparr>)"

section \<open>The encoding table is unambiguous\<close>

text \<open>Two encodings conflict when some field they both fix has different values.\<close>

definition enc_conflict :: "encoding \<Rightarrow> encoding \<Rightarrow> bool" where
  "enc_conflict a b =
     ((case (enc_funct3 a, enc_funct3 b) of (Some x, Some y) \<Rightarrow> funct3 x \<noteq> funct3 y | _ \<Rightarrow> False) \<or>
      (case (enc_funct7 a, enc_funct7 b) of (Some x, Some y) \<Rightarrow> funct7 x \<noteq> funct7 y | _ \<Rightarrow> False) \<or>
      (case (enc_funct12 a, enc_funct12 b) of (Some x, Some y) \<Rightarrow> funct12 x \<noteq> funct12 y | _ \<Rightarrow> False) \<or>
      (enc_opcode a \<noteq> Opcode_AMO \<and>
       (case (enc_funct7 a, enc_funct12 b) of (Some x, Some y) \<Rightarrow> funct7 x \<noteq> funct12 y div 32 | _ \<Rightarrow> False)) \<or>
      (enc_opcode a \<noteq> Opcode_AMO \<and>
       (case (enc_funct12 a, enc_funct7 b) of (Some x, Some y) \<Rightarrow> funct7 y \<noteq> funct12 x div 32 | _ \<Rightarrow> False)))"

definition table_of_opcode :: "Opcode \<Rightarrow> (encoding \<times> OpType) list" where
  "table_of_opcode opc =
     filter (\<lambda>p. enc_opcode (fst p) = opc) (supported_encodings (set Extension_members))"

fun pairwise_conflict :: "(encoding \<times> OpType) list \<Rightarrow> bool" where
  "pairwise_conflict [] = True"
| "pairwise_conflict (p # ps) =
     (list_all (\<lambda>q. enc_conflict (fst p) (fst q)) ps \<and> pairwise_conflict ps)"

lemma table_conflict: "pairwise_conflict (table_of_opcode opc)"
  by (cases opc) (hypsubst, code_simp)+

lemma pairwise_conflictD:
  "pairwise_conflict ps \<Longrightarrow> p \<in> set ps \<Longrightarrow> q \<in> set ps \<Longrightarrow> p \<noteq> q \<Longrightarrow>
   enc_conflict (fst p) (fst q) \<or> enc_conflict (fst q) (fst p)"
  by (induction ps) (auto simp: list_all_iff)

lemma opcode_is_inject: "opcode_is v a \<Longrightarrow> opcode_is v b \<Longrightarrow> a = b"
  unfolding opcode_is_def
  using to_bits_inject [OF opcode_value_less opcode_value_less, of a b] opcode_value_inject by metis

lemma funct_bits_inject:
  "to_bits 3 (funct3 a) = to_bits 3 (funct3 b) \<longleftrightarrow> funct3 a = funct3 b"
  "to_bits 7 (funct7 c) = to_bits 7 (funct7 d) \<longleftrightarrow> funct7 c = funct7 d"
  "to_bits 12 (funct12 e) = to_bits 12 (funct12 f) \<longleftrightarrow> funct12 e = funct12 f"
  by (rule to_bits_inject; rule isa_const_bounds)+

lemma drop_to_bits: "drop n (to_bits w v) = to_bits (w - n) (v div 2 ^ n)"
proof (induction w arbitrary: n v)
  case (Suc w)
  then show ?case by (cases n) (simp_all add: div_mult2_eq)
qed simp

lemma funct7_of_funct12:
  assumes "length instr = 32" "r_funct12 (decode_fields rlog instr) = to_bits 12 (funct12 f)"
  shows "r_funct7 (decode_fields rlog instr) = to_bits 7 (funct12 f div 32)"
proof -
  have "r_funct7 (decode_fields rlog instr) = drop 5 (r_funct12 (decode_fields rlog instr))"
    by (simp add: decode_fields_def Let_def instr_extract_def bslice_def drop_take)
  then show ?thesis unfolding assms(2) drop_to_bits by simp
qed

lemma enc_match_fields:
  assumes "enc_match r e"
  shows "opcode_is (r_opcode r) (enc_opcode e)"
    "\<And>f. enc_funct3 e = Some f \<Longrightarrow> r_funct3 r = to_bits 3 (funct3 f)"
    "\<And>f. enc_funct7 e = Some f \<Longrightarrow> enc_opcode e \<noteq> Opcode_AMO \<Longrightarrow> r_funct7 r = to_bits 7 (funct7 f)"
    "\<And>f. enc_funct7 e = Some f \<Longrightarrow> enc_opcode e = Opcode_AMO \<Longrightarrow>
       [False, False] @ drop 2 (r_funct7 r) = to_bits 7 (funct7 f)"
    "\<And>f. enc_funct12 e = Some f \<Longrightarrow> r_funct12 r = to_bits 12 (funct12 f)"
  using assms unfolding enc_match_def Let_def by (simp_all del: to_bits_numeral)

lemma funct7_funct12_match:
  assumes "length instr = 32" "r_funct7 (decode_fields rlog instr) = to_bits 7 (funct7 x)"
    "r_funct12 (decode_fields rlog instr) = to_bits 12 (funct12 y)"
  shows "funct7 x = funct12 y div 32"
proof -
  have "to_bits 7 (funct7 x) = to_bits 7 (funct12 y div 32)"
    using funct7_of_funct12 [OF assms(1,3)] assms(2) by metis
  then show ?thesis
    by (rule to_bits_inject [THEN iffD1, rotated 2])
      (use funct7_less [of x] funct12_less [of y] in auto)
qed

lemma enc_match_no_conflict:
  assumes len: "length instr = 32" and a: "enc_match (decode_fields rlog instr) a"
    and b: "enc_match (decode_fields rlog instr) b"
  shows "\<not> enc_conflict a b"
proof
  note A = enc_match_fields [OF a] and B = enc_match_fields [OF b]
  have opc: "enc_opcode a = enc_opcode b" using A(1) B(1) by (rule opcode_is_inject)
  assume "enc_conflict a b"
  then consider
      (f3) x y where "enc_funct3 a = Some x" "enc_funct3 b = Some y" "funct3 x \<noteq> funct3 y"
    | (f7) x y where "enc_funct7 a = Some x" "enc_funct7 b = Some y" "funct7 x \<noteq> funct7 y"
    | (f12) x y where "enc_funct12 a = Some x" "enc_funct12 b = Some y" "funct12 x \<noteq> funct12 y"
    | (c1) x y where "enc_opcode a \<noteq> Opcode_AMO" "enc_funct7 a = Some x" "enc_funct12 b = Some y"
        "funct7 x \<noteq> funct12 y div 32"
    | (c2) x y where "enc_opcode a \<noteq> Opcode_AMO" "enc_funct12 a = Some x" "enc_funct7 b = Some y"
        "funct7 y \<noteq> funct12 x div 32"
    unfolding enc_conflict_def by (elim disjE conjE) (auto split: option.splits)
  then show False
  proof cases
    case f3
    then show False using A(2) B(2) funct_bits_inject(1) by metis
  next
    case f7
    then show False using A(3,4) B(3,4) opc funct_bits_inject(2) by metis
  next
    case f12
    then show False using A(5) B(5) funct_bits_inject(3) by metis
  next
    case c1
    then show False using funct7_funct12_match [OF len A(3) B(5)] by metis
  next
    case c2
    then show False using funct7_funct12_match [OF len B(3) A(5)] opc by metis
  qed
qed

lemma supported_subset:
  "set (supported_encodings exts) \<subseteq> set (supported_encodings (set Extension_members))"
  using Extension_members_complete by (auto simp: supported_encodings_def Let_def split: if_splits)

lemma supported_unique:
  assumes "length instr = 32" "p \<in> set (supported_encodings exts)" "q \<in> set (supported_encodings exts)"
    "enc_match (decode_fields rlog instr) (fst p)" "enc_match (decode_fields rlog instr) (fst q)"
  shows "p = q"
proof (rule ccontr)
  assume ne: "p \<noteq> q"
  have "enc_opcode (fst p) = enc_opcode (fst q)"
    using assms(4,5) by (auto simp: enc_match_def Let_def intro: opcode_is_inject)
  then have "p \<in> set (table_of_opcode (enc_opcode (fst p)))" "q \<in> set (table_of_opcode (enc_opcode (fst p)))"
    using assms(2,3) supported_subset [of exts] by (auto simp: table_of_opcode_def)
  then have "enc_conflict (fst p) (fst q) \<or> enc_conflict (fst q) (fst p)"
    using pairwise_conflictD [OF table_conflict _ _ ne] by blast
  then show False using enc_match_no_conflict assms(1,4,5) by blast
qed

lemma apply_encoding_idem: "apply_encoding p (apply_encoding p st) = apply_encoding p st"
  by (simp add: apply_encoding_def Let_def split: option.split)

text \<open>With at most one matching encoding, the last match is the only one.\<close>

lemma fold_unique_match:
  assumes "\<And>p q. p \<in> set encs \<Longrightarrow> q \<in> set encs \<Longrightarrow> P p \<Longrightarrow> P q \<Longrightarrow> p = q"
    and "p \<in> set encs" "P p"
  shows "fold (\<lambda>p st. if P p then apply_encoding p st else st) encs st = apply_encoding p st"
  using assms
proof (induction encs arbitrary: st)
  case (Cons q encs)
  show ?case
  proof (cases "p \<in> set encs")
    case True
    with Cons.prems(1,3) have IH: "fold (\<lambda>p st. if P p then apply_encoding p st else st) encs st' =
        apply_encoding p st'" for st'
      by (intro Cons.IH) auto
    have "P q \<Longrightarrow> q = p" using Cons.prems by auto
    with IH show ?thesis by (auto simp: apply_encoding_idem)
  next
    case False
    with Cons.prems have qp: "q = p" by auto
    have "\<not> P x" if "x \<in> set encs" for x
      using Cons.prems(1) [of x p] Cons.prems(2,3) that False by auto
    then have "fold (\<lambda>p st. if P p then apply_encoding p st else st) encs st' = st'" for st'
      by (induction encs arbitrary: st') auto
    with qp Cons.prems(3) show ?thesis by simp
  qed
qed simp

lemma fold_no_match:
  "(\<And>p. p \<in> set encs \<Longrightarrow> \<not> P p) \<Longrightarrow>
   fold (\<lambda>p st. if P p then apply_encoding p st else st) encs st = st"
  by (induction encs arbitrary: st) auto

lemma match_encodings_single:
  assumes "length instr = 32" "set encs = set (supported_encodings exts)" "p \<in> set encs"
    "enc_match (decode_fields rlog instr) (fst p)"
  shows "match_encodings encs (decode_fields rlog instr) =
    apply_encoding p (match_init (decode_fields rlog instr))"
  unfolding match_encodings_def
  by (rule fold_unique_match [where P = "\<lambda>p. enc_match (decode_fields rlog instr) (fst p)"])
    (use assms supported_unique [OF assms(1)] in auto)

lemma match_encodings_none:
  assumes "\<And>p. p \<in> set encs \<Longrightarrow> \<not> enc_match r (fst p)"
  shows "match_encodings encs r = match_init r"
  unfolding match_encodings_def by (rule fold_no_match) (use assms in auto)

lemma match_encodings_order:
  assumes "length instr = 32" "set encs1 = set (supported_encodings exts)"
    "set encs2 = set (supported_encodings exts)"
  shows "match_encodings encs1 (decode_fields rlog instr) = match_encodings encs2 (decode_fields rlog instr)"
proof (cases "\<exists>p \<in> set encs1. enc_match (decode_fields rlog instr) (fst p)")
  case True
  then obtain p where "p \<in> set encs1" "enc_match (decode_fields rlog instr) (fst p)" by blast
  then show ?thesis
    using match_encodings_single [OF assms(1,2)] match_encodings_single [OF assms(1,3)] assms(2,3) by simp
next
  case False
  then have "\<not> enc_match (decode_fields rlog instr) (fst p)" if "p \<in> set encs1 \<union> set encs2" for p
    using assms(2,3) that by blast
  then have "match_encodings encs1 (decode_fields rlog instr) = match_init (decode_fields rlog instr)"
    "match_encodings encs2 (decode_fields rlog instr) = match_init (decode_fields rlog instr)"
    by (auto intro!: match_encodings_none)
  then show ?thesis by simp
qed

section \<open>What the decoder recognises\<close>

lemma instr_decode_sel [simp]:
  "d_optype (instr_decode xl rlog encs instr) = ms_optype (match_encodings encs (decode_fields rlog instr))"
  "d_rd (instr_decode xl rlog encs instr) = r_rd (decode_fields rlog instr)"
  "d_rs1 (instr_decode xl rlog encs instr) = r_rs1 (decode_fields rlog instr)"
  "d_rs2 (instr_decode xl rlog encs instr) = r_rs2 (decode_fields rlog instr)"
  "d_imm (instr_decode xl rlog encs instr) =
     decode_imm xl rlog (decode_fields rlog instr) (match_encodings encs (decode_fields rlog instr)) instr"
  by (simp_all add: instr_decode_def Let_def)

lemma match_encodings_cases:
  assumes "length instr = 32" "set encs = set (supported_encodings exts)"
  obtains (none) "\<And>p. p \<in> set encs \<Longrightarrow> \<not> enc_match (decode_fields rlog instr) (fst p)"
      "match_encodings encs (decode_fields rlog instr) = match_init (decode_fields rlog instr)"
  | (one) e opt where "(e, opt) \<in> set encs" "enc_match (decode_fields rlog instr) e"
      "match_encodings encs (decode_fields rlog instr) =
         apply_encoding (e, opt) (match_init (decode_fields rlog instr))"
proof (cases "\<exists>p \<in> set encs. enc_match (decode_fields rlog instr) (fst p)")
  case True
  then obtain p where p: "p \<in> set encs" "enc_match (decode_fields rlog instr) (fst p)" by blast
  then show ?thesis
    using one [of "fst p" "snd p"] match_encodings_single [OF assms p] by simp
next
  case False
  then show ?thesis using none match_encodings_none [of encs "decode_fields rlog instr"] by blast
qed

lemma supported_not_unknown: "(e, opt) \<in> set (supported_encodings exts) \<Longrightarrow> opt \<noteq> OpType_UNKNOWN"
proof -
  have "list_all (\<lambda>p. snd p \<noteq> OpType_UNKNOWN) (supported_encodings (set Extension_members))"
    by code_simp
  then show "(e, opt) \<in> set (supported_encodings exts) \<Longrightarrow> opt \<noteq> OpType_UNKNOWN"
    using supported_subset by (fastforce simp: list_all_iff)
qed

text \<open>Only SYSTEM encodings override the format or are CSR and SFENCE.VMA operations.\<close>

lemma supported_plain:
  assumes "(e, opt) \<in> set (supported_encodings exts)" "enc_opcode e \<noteq> Opcode_SYSTEM"
  shows "enc_type_override e = None" "opt \<notin> {OpType_CSR_REG, OpType_CSR_IMM, OpType_SFENCEVMA}"
proof -
  have "list_all (\<lambda>(e, opt). enc_opcode e \<noteq> Opcode_SYSTEM \<longrightarrow>
      enc_type_override e = None \<and> opt \<notin> {OpType_CSR_REG, OpType_CSR_IMM, OpType_SFENCEVMA})
    (supported_encodings (set Extension_members))"
    by code_simp
  then show "enc_type_override e = None" "opt \<notin> {OpType_CSR_REG, OpType_CSR_IMM, OpType_SFENCEVMA}"
    using assms supported_subset [of exts] by (auto simp: list_all_iff)
qed

lemma match_plain_opcode:
  assumes "length instr = 32" "set encs = set (supported_encodings exts)"
    "r_opcode (decode_fields rlog instr) = to_bits 5 (opcode_value opc)" "opc \<noteq> Opcode_SYSTEM"
  shows "ms_itype (match_encodings encs (decode_fields rlog instr)) =
      type_of_opcode (to_bits 5 (opcode_value opc))"
    "ms_optype (match_encodings encs (decode_fields rlog instr))
       \<notin> {OpType_CSR_REG, OpType_CSR_IMM, OpType_SFENCEVMA}"
proof -
  let ?st = "match_encodings encs (decode_fields rlog instr)"
  have "ms_itype ?st = type_of_opcode (to_bits 5 (opcode_value opc)) \<and>
    ms_optype ?st \<notin> {OpType_CSR_REG, OpType_CSR_IMM, OpType_SFENCEVMA}"
    using assms(1,2)
  proof (cases rule: match_encodings_cases [where rlog = rlog])
    case none
    then show ?thesis using assms(3) by (simp add: match_init_def del: to_bits_numeral)
  next
    case (one e opt)
    have "enc_opcode e = opc"
      using enc_match_fields(1) [OF one(2)] assms(3)
      by (intro opcode_is_inject) (auto simp: opcode_is_def simp del: to_bits_numeral)
    then show ?thesis
      using one supported_plain [of e opt exts] assms(2,3,4)
      by (simp add: apply_encoding_def Let_def match_init_def del: to_bits_numeral)
  qed
  then show "ms_itype ?st = type_of_opcode (to_bits 5 (opcode_value opc))"
    "ms_optype ?st \<notin> {OpType_CSR_REG, OpType_CSR_IMM, OpType_SFENCEVMA}" by blast+
qed

lemma decoder_optype:
  assumes "length instr = 32" "set encs = set (supported_encodings exts)" "opt \<noteq> OpType_UNKNOWN"
  shows "d_optype (instr_decode xl rlog encs instr) = opt \<longleftrightarrow>
    (\<exists>e. (e, opt) \<in> set (supported_encodings exts) \<and> enc_match (decode_fields rlog instr) e)"
  using assms(1,2)
proof (cases rule: match_encodings_cases [where rlog = rlog])
  case none
  then have "d_optype (instr_decode xl rlog encs instr) = OpType_UNKNOWN" by (simp add: match_init_def)
  moreover have "\<not> (\<exists>e. (e, opt) \<in> set (supported_encodings exts) \<and> enc_match (decode_fields rlog instr) e)"
    using none(1) unfolding assms(2) by fastforce
  ultimately show ?thesis using assms(3) by simp
next
  case (one e opt')
  then have "d_optype (instr_decode xl rlog encs instr) = opt'"
    by (simp add: apply_encoding_def Let_def)
  moreover have "o' = opt'"
    if "(e', o') \<in> set (supported_encodings exts)" "enc_match (decode_fields rlog instr) e'" for e' o'
    using supported_unique [OF assms(1) that(1), of "(e, opt')" rlog] that one(1,2) assms(2) by simp
  ultimately show ?thesis using one(1,2) unfolding assms(2) by metis
qed

end
