(* ===== verification/Frontend_Decode.thy ===== *)
theory Frontend_Decode
  imports Rvc Instr_Decoder Isa
begin

text \<open>
  Properties of the decode path: the decoder reads back the fields and immediates of every
  instruction format, every valid expansion of a compressed instruction is one the decoder
  accepts, and the decoder does not depend on the order of its encoding set.
\<close>

section \<open>Reading the formats back\<close>

lemma is_lui_opcode: "is_lui (opcode_bits opc @ v) \<longleftrightarrow> opc = Opcode_LUI"
proof -
  have "instr_extract 2 5 (opcode_bits opc @ v) = to_bits 5 (opcode_value opc)"
    by (simp add: instr_extract_def opcode_bits_def bslice_def)
  then show ?thesis
    unfolding is_lui_def
    using to_bits_inject [OF opcode_value_less opcode_value_less, of opc Opcode_LUI] opcode_value_inject
    by metis
qed

lemma fields_opcode:
  "r_opcode (decode_fields rlog (opcode_bits opc @ v)) = to_bits 5 (opcode_value opc)"
  by (simp add: decode_fields_def Let_def instr_extract_def opcode_bits_def bslice_def)

lemma fields_of_layout:
  assumes "length a = 5" "length f3 = 3" "length b = 5" "length c = 5" "length d = 7"
    "instr = opcode_bits opc @ a @ f3 @ b @ c @ d"
  shows "r_opcode (decode_fields 5 instr) = to_bits 5 (opcode_value opc)"
    "opc \<noteq> Opcode_LUI \<Longrightarrow> r_funct3 (decode_fields 5 instr) = f3"
    "r_funct7 (decode_fields 5 instr) = d" "r_funct12 (decode_fields 5 instr) = c @ d"
    "r_rd_field (decode_fields 5 instr) = a" "r_rs1_field (decode_fields 5 instr) = b"
    "r_rs2_field (decode_fields 5 instr) = c" "r_rd (decode_fields 5 instr) = a"
    "opc \<noteq> Opcode_LUI \<Longrightarrow> r_rs1 (decode_fields 5 instr) = b" "r_rs2 (decode_fields 5 instr) = c"
  using assms is_lui_opcode [of opc "a @ f3 @ b @ c @ d"]
  by (simp_all add: fields_opcode) (simp_all add: decode_fields_def Let_def instr_extract_def)

lemma imm_of_format:
  assumes "length instr = 32" "set encs = set (supported_encodings exts)"
    "r_opcode (decode_fields rlog instr) = to_bits 5 (opcode_value opc)" "opc \<noteq> Opcode_SYSTEM"
    "opc \<noteq> Opcode_OP_IMM"
  shows "d_imm (instr_decode xl rlog encs instr) =
    (case type_of_opcode (to_bits 5 (opcode_value opc)) of
       InstrType_I \<Rightarrow> sext xl (bslice 20 32 instr)
     | InstrType_S \<Rightarrow> sext xl (bslice 7 12 instr @ bslice 25 32 instr)
     | InstrType_B \<Rightarrow> sext xl ([False] @ bslice 8 12 instr @ bslice 25 31 instr @ bslice 7 8 instr @ bslice 31 32 instr)
     | InstrType_U \<Rightarrow> zext xl (replicate (xl - 20) False @ bslice 12 32 instr)
     | InstrType_J \<Rightarrow> sext xl ([False] @ bslice 21 31 instr @ bslice 20 21 instr @ bslice 12 20 instr @ bslice 31 32 instr)
     | InstrType_R \<Rightarrow> to_bits xl 0)"
proof -
  have "\<not> opcode_is (r_opcode (decode_fields rlog instr)) Opcode_OP_IMM"
    using assms(3,5) opcode_is_inject [of "r_opcode (decode_fields rlog instr)" opc Opcode_OP_IMM]
    unfolding opcode_is_def by blast
  then show ?thesis
    using match_plain_opcode [OF assms(1-4)]
    by (simp add: decode_imm_def Let_def instr_extract_def del: to_bits_numeral split: InstrType.split)
qed

lemma imm_roundtrip_S:
  assumes "length f3 = 3" "length rs1 = 5" "length rs2 = 5" "length imm = 12"
    "set encs = set (supported_encodings exts)"
  shows "d_imm (instr_decode xl rlog encs (STypeInstr Opcode_STORE f3 rs1 rs2 imm)) = sext xl imm"
proof -
  obtain i0 i1 i2 i3 i4 i5 i6 i7 i8 i9 i10 i11 where
    imm: "imm = [i0, i1, i2, i3, i4, i5, i6, i7, i8, i9, i10, i11]"
    using assms(4) by (auto simp: numeral_eq_Suc length_Suc_conv)
  have lay: "STypeInstr Opcode_STORE f3 rs1 rs2 imm =
    opcode_bits Opcode_STORE @ bslice 0 5 imm @ f3 @ rs1 @ rs2 @ bslice 5 12 imm"
    using assms by (intro SType_layout)
  show ?thesis
    unfolding lay
    by (subst imm_of_format [OF _ assms(5) fields_opcode])
      (use assms(1-3) imm in \<open>simp_all add: type_of_opcode_def opcode_is_def bslice_def\<close>)
qed

lemma imm_roundtrip_B:
  assumes "length f3 = 3" "length rs1 = 5" "length rs2 = 5" "length imm = 13" "\<not> hd imm"
    "set encs = set (supported_encodings exts)"
  shows "d_imm (instr_decode xl rlog encs (BTypeInstr Opcode_BRANCH f3 rs1 rs2 imm)) = sext xl imm"
proof -
  obtain i0 i1 i2 i3 i4 i5 i6 i7 i8 i9 i10 i11 i12 where
    imm: "imm = [i0, i1, i2, i3, i4, i5, i6, i7, i8, i9, i10, i11, i12]"
    using assms(4) by (auto simp: numeral_eq_Suc length_Suc_conv)
  have lay: "BTypeInstr Opcode_BRANCH f3 rs1 rs2 imm =
    opcode_bits Opcode_BRANCH @ bslice 11 12 imm @ bslice 1 5 imm @ f3 @ rs1 @ rs2 @ bslice 5 11 imm @ bslice 12 13 imm"
    using assms by (intro BType_layout)
  show ?thesis
    unfolding lay
    by (subst imm_of_format [OF _ assms(6) fields_opcode])
      (use assms(1-3,5) imm in \<open>simp_all add: type_of_opcode_def opcode_is_def bslice_def\<close>)
qed

lemma imm_roundtrip_J:
  assumes "length rd = 5" "length imm = 21" "\<not> hd imm" "set encs = set (supported_encodings exts)"
  shows "d_imm (instr_decode xl rlog encs (JTypeInstr Opcode_JAL rd imm)) = sext xl imm"
proof -
  obtain i0 i1 i2 i3 i4 i5 i6 i7 i8 i9 i10 i11 i12 i13 i14 i15 i16 i17 i18 i19 i20 where
    imm: "imm = [i0, i1, i2, i3, i4, i5, i6, i7, i8, i9, i10, i11, i12, i13, i14, i15, i16, i17, i18, i19, i20]"
    using assms(2) by (auto simp: numeral_eq_Suc length_Suc_conv)
  have lay: "JTypeInstr Opcode_JAL rd imm =
    opcode_bits Opcode_JAL @ rd @ bslice 12 20 imm @ bslice 11 12 imm @ bslice 1 11 imm @ bslice 20 21 imm"
    using assms by (intro JType_layout)
  show ?thesis
    unfolding lay
    by (subst imm_of_format [OF _ assms(4) fields_opcode])
      (use assms(1,3) imm in \<open>simp_all add: type_of_opcode_def opcode_is_def bslice_def\<close>)
qed

lemma imm_roundtrip_I:
  assumes "length f3 = 3" "length rd = 5" "length rs1 = 5" "length imm = 12"
    "set encs = set (supported_encodings exts)" "opc \<in> {Opcode_LOAD, Opcode_JALR}"
  shows "d_imm (instr_decode xl rlog encs (ITypeInstr opc f3 rd rs1 imm)) = sext xl imm"
proof -
  have lay: "ITypeInstr opc f3 rd rs1 imm = opcode_bits opc @ rd @ f3 @ rs1 @ imm"
    using assms by (intro IType_layout)
  have ty: "type_of_opcode (to_bits 5 (opcode_value opc)) = InstrType_I"
    "opc \<noteq> Opcode_SYSTEM" "opc \<noteq> Opcode_OP_IMM"
    using assms(6) by (elim insertE emptyE; simp add: type_of_opcode_def opcode_is_def)+
  have "length (opcode_bits opc @ rd @ f3 @ rs1 @ imm) = 32" using assms by simp
  from imm_of_format [OF this assms(5) fields_opcode ty(2,3)] show ?thesis
    using assms(1-4) unfolding lay ty(1) by simp
qed

text \<open>Arithmetic with an immediate: shifts use its five low bits, other operations its sign extension.\<close>

lemma imm_roundtrip_arith:
  assumes "length f3 = 3" "length rd = 5" "length rs1 = 5" "length imm = 12" "set encs = set (supported_encodings exts)"
  shows "d_imm (instr_decode xl rlog encs (ITypeInstr Opcode_OP_IMM f3 rd rs1 imm)) =
    (if f3 = to_bits 3 (funct3 F3_SLL) \<or> f3 = to_bits 3 (funct3 F3_SR) then zext xl (take 5 imm) else sext xl imm)"
proof -
  let ?v = "ITypeInstr Opcode_OP_IMM f3 rd rs1 imm"
  have lay: "?v = opcode_bits Opcode_OP_IMM @ rd @ f3 @ rs1 @ imm" using assms by (intro IType_layout)
  have len: "length ?v = 32" using assms unfolding lay by simp
  have opc: "r_opcode (decode_fields rlog ?v) = to_bits 5 (opcode_value Opcode_OP_IMM)" unfolding lay by (rule fields_opcode)
  have "\<not> is_lui ?v" unfolding lay is_lui_opcode by simp
  then have f3: "r_funct3 (decode_fields rlog ?v) = f3" using assms unfolding lay by (simp add: decode_fields_def Let_def instr_extract_def)
  have bits: "bslice 20 25 ?v = take 5 imm" "instr_extract 20 12 ?v = imm" using assms unfolding lay by (simp_all add: instr_extract_def bslice_def)
  have plain: "ms_itype (match_encodings encs (decode_fields rlog ?v)) = InstrType_I"
    "ms_optype (match_encodings encs (decode_fields rlog ?v)) \<notin> {OpType_CSR_REG, OpType_CSR_IMM, OpType_SFENCEVMA}"
    using match_plain_opcode [OF len assms(5) opc] by (simp_all add: type_of_opcode_def opcode_is_def)
  have pad: "sext xl (zext 12 (take 5 imm)) = zext xl (take 5 imm)"
  proof -
    have "replicate 7 False @ replicate (xl - 12) False = replicate (7 + (xl - 12)) False" by (simp only: replicate_add)
    then show ?thesis using assms(4) by (cases "12 \<le> xl") (simp_all add: sext_def zext_def min_def)
  qed
  show ?thesis
    using plain by (simp add: instr_decode_def decode_imm_def Let_def f3 bits opc opcode_is_def pad del: to_bits_numeral)
qed

lemma imm_roundtrip_U:
  assumes "length rd = 5" "length imm = 32" "20 \<le> xl"
    "set encs = set (supported_encodings exts)" "opc \<in> {Opcode_LUI, Opcode_AUIPC}"
  shows "d_imm (instr_decode xl rlog encs (UTypeInstr opc rd imm)) = replicate (xl - 20) False @ drop 12 imm"
proof -
  have lay: "UTypeInstr opc rd imm = opcode_bits opc @ rd @ bslice 12 32 imm"
    using assms by (intro UType_layout)
  have ty: "type_of_opcode (to_bits 5 (opcode_value opc)) = InstrType_U"
    "opc \<noteq> Opcode_SYSTEM" "opc \<noteq> Opcode_OP_IMM"
    using assms(5) by (elim insertE emptyE; simp add: type_of_opcode_def opcode_is_def)+
  have "length (opcode_bits opc @ rd @ bslice 12 32 imm) = 32" using assms by simp
  from imm_of_format [OF this assms(4) fields_opcode ty(2,3)] show ?thesis
    using assms(1-3) unfolding lay ty(1) by (simp add: zext_def bslice_def)
qed

section \<open>Expanded compressed instructions are decodable\<close>

definition decodable :: "Extension set \<Rightarrow> bits \<Rightarrow> bool" where
  "decodable exts v = (\<exists>(e, opt) \<in> set (supported_encodings exts). enc_match (decode_fields 5 v) e)"

text \<open>The loads and stores of floating-point registers, for which the decoder's table has no encoding.\<close>

definition fp_memory :: "bits \<Rightarrow> bool" where
  "fp_memory v = (bslice 2 7 v \<in> {to_bits 5 (opcode_value Opcode_LOAD_FP), to_bits 5 (opcode_value Opcode_STORE_FP)})"

definition good_alt :: "Extension set \<Rightarrow> Rvc.decoded_instr \<Rightarrow> bool" where
  "good_alt exts d = (snd d \<longrightarrow> decodable exts (fst d) \<or> fp_memory (fst d))"

text \<open>The encodings of an extension, in one list.\<close>

definition encodings_of :: "Extension \<Rightarrow> encoding list" where
  "encodings_of ext = (case optypes_of ext of None \<Rightarrow> []
     | Some ops \<Rightarrow> concat (map instructions_by_optype ops))"

lemma encodings_of_supported:
  assumes "ext \<in> exts" "e \<in> set (encodings_of ext)"
  shows "\<exists>opt. (e, opt) \<in> set (supported_encodings exts)"
proof -
  obtain ops where ops: "optypes_of ext = Some ops"
    using assms(2) by (cases "optypes_of ext") (simp_all add: encodings_of_def)
  then obtain opt where "opt \<in> set ops" "e \<in> set (instructions_by_optype opt)"
    using assms(2) by (auto simp: encodings_of_def)
  moreover have "(ext, ops) \<in> set optypes_by_extensions"
    using ops by (simp add: optypes_of_def map_of_SomeD)
  ultimately have "(e, opt) \<in> set (supported_encodings exts)"
    using assms(1) by (auto simp: supported_encodings_def Let_def intro!: bexI [of _ "(ext, ops)"] bexI [of _ opt])
  then show ?thesis ..
qed

lemma decodable_of:
  assumes "ext \<in> exts" "e \<in> set (encodings_of ext)" "enc_match (decode_fields 5 v) e"
  shows "decodable exts v"
  using encodings_of_supported [OF assms(1,2)] assms(3) by (auto simp: decodable_def)

lemma good_mux:
  "2 ^ length sel = length inputs \<Longrightarrow> list_all (good_alt exts) inputs \<Longrightarrow> good_alt exts (instr_mux sel inputs)"
  using of_bits_less [of sel] by (simp add: instr_mux_def list_all_length)

lemma good_illegal: "good_alt exts illegal_alt"
  by (simp add: good_alt_def illegal_alt_def)

lemma good_invalid: "\<not> ok \<Longrightarrow> good_alt exts (v, ok)"
  by (simp add: good_alt_def)

lemma enc_match_layout:
  assumes "length a = 5" "length f3 = 3" "length b = 5" "length c = 5" "length d = 7" "opc \<noteq> Opcode_LUI"
  shows "enc_match (decode_fields 5 (opcode_bits opc @ a @ f3 @ b @ c @ d)) e \<longleftrightarrow>
    enc_opcode e = opc \<and>
    (case enc_funct3 e of Some f \<Rightarrow> f3 = to_bits 3 (funct3 f) | None \<Rightarrow> True) \<and>
    (case enc_funct7 e of Some f \<Rightarrow>
       (if opc = Opcode_AMO then [False, False] @ drop 2 d else d) = to_bits 7 (funct7 f) | None \<Rightarrow> True) \<and>
    (case enc_funct12 e of Some f \<Rightarrow> c @ d = to_bits 12 (funct12 f) | None \<Rightarrow> True) \<and>
    (enc_rd_zero e \<longrightarrow> \<not> any a) \<and> (enc_rs1_zero e \<longrightarrow> \<not> any b) \<and> (enc_rs2_zero e \<longrightarrow> \<not> any c)"
proof -
  note F = fields_of_layout [OF assms(1-5) refl, of opc]
  have opc: "opcode_is (to_bits 5 (opcode_value opc)) (enc_opcode e) \<longleftrightarrow> enc_opcode e = opc"
    using opcode_is_inject [of "to_bits 5 (opcode_value opc)" opc "enc_opcode e"]
    unfolding opcode_is_def by blast
  show ?thesis
    unfolding enc_match_def Let_def F(1,3,4,8,10) F(2) [OF assms(6)] F(9) [OF assms(6)] opc
    by (cases "enc_opcode e = opc") (simp_all del: to_bits_numeral)
qed

text \<open>One rule per format and kind of encoding.\<close>

lemma good_R7:
  assumes "Encoding opc (Some f) (Some g) None \<in> set (encodings_of ext)" "ext \<in> exts"
    "opc \<noteq> Opcode_LUI" "opc \<noteq> Opcode_AMO" "length rd = 5" "length rs1 = 5" "length rs2 = 5"
  shows "good_alt exts (RTypeInstr opc (f3b f) (f7b g) rd rs1 rs2, ok)"
  unfolding good_alt_def
  by (intro impI disjI1 decodable_of [OF assms(2,1)])
    (use assms(3-7) in \<open>simp add: RType_layout enc_match_layout Encoding_def del: to_bits_numeral\<close>)

lemma good_R12:
  assumes "Encoding opc (Some f) None (Some g) \<in> set (encodings_of ext)" "ext \<in> exts"
    "opc \<noteq> Opcode_LUI" "opc \<noteq> Opcode_AMO" "length rd = 5" "length rs1 = 5" "length rs2 = 5"
    "length f7 = 7" "rs2 @ f7 = f12b g"
  shows "good_alt exts (RTypeInstr opc (f3b f) f7 rd rs1 rs2, ok)"
proof -
  have lay: "RTypeInstr opc (f3b f) f7 rd rs1 rs2 = opcode_bits opc @ rd @ f3b f @ rs1 @ rs2 @ f7"
    using assms(5-8) by (intro RType_layout) simp_all
  have "enc_match (decode_fields 5 (opcode_bits opc @ rd @ f3b f @ rs1 @ rs2 @ f7)) (Encoding opc (Some f) None (Some g))"
    using assms(9) by (subst enc_match_layout) (simp_all add: assms(3-8) Encoding_def del: to_bits_numeral)
  then show ?thesis
    using decodable_of [OF assms(2,1)] lay by (simp add: good_alt_def del: to_bits_numeral)
qed

lemma enc_match_I:
  assumes "length rd = 5" "length rs1 = 5" "length imm = 12" "opc \<noteq> Opcode_LUI" "opc \<noteq> Opcode_AMO"
    "enc_funct7 e = None" "\<not> enc_rs2_zero e"
  shows "enc_match (decode_fields 5 (ITypeInstr opc (f3b f) rd rs1 imm)) e \<longleftrightarrow>
    enc_opcode e = opc \<and>
    (case enc_funct3 e of Some g \<Rightarrow> f3b f = f3b g | None \<Rightarrow> True) \<and>
    (case enc_funct12 e of Some g \<Rightarrow> imm = f12b g | None \<Rightarrow> True) \<and>
    (enc_rd_zero e \<longrightarrow> \<not> any rd) \<and> (enc_rs1_zero e \<longrightarrow> \<not> any rs1)"
proof -
  have lay: "ITypeInstr opc (f3b f) rd rs1 imm = opcode_bits opc @ rd @ f3b f @ rs1 @ take 5 imm @ drop 5 imm"
    using assms by (simp add: IType_layout del: to_bits_numeral)
  have "length (take 5 imm) = 5" "length (drop 5 imm) = 7" using assms(3) by simp_all
  from enc_match_layout [OF assms(1) _ assms(2) this assms(4), of "f3b f" e] show ?thesis
    unfolding lay append_take_drop_id using assms(5-7) by (simp del: to_bits_numeral)
qed

lemma good_I:
  assumes "Encoding opc (Some f) None None \<in> set (encodings_of ext)" "ext \<in> exts"
    "opc \<noteq> Opcode_LUI" "opc \<noteq> Opcode_AMO" "length rd = 5" "length rs1 = 5" "length imm = 12"
  shows "good_alt exts (ITypeInstr opc (f3b f) rd rs1 imm, ok)"
  unfolding good_alt_def fst_conv
  by (intro impI disjI1 decodable_of [OF assms(2,1)])
    (use assms(3-7) in \<open>simp add: enc_match_I Encoding_def del: to_bits_numeral\<close>)

lemma good_I12:
  assumes "Encoding opc (Some f) None (Some g) \<in> set (encodings_of ext)" "ok \<longrightarrow> ext \<in> exts"
    "opc \<noteq> Opcode_LUI" "opc \<noteq> Opcode_AMO" "length rd = 5" "length rs1 = 5"
  shows "good_alt exts (ITypeInstr opc (f3b f) rd rs1 (f12b g), ok)"
  unfolding good_alt_def fst_conv snd_conv
proof
  assume ok
  with assms(2) have "ext \<in> exts" by simp
  from decodable_of [OF this assms(1)]
  show "decodable exts (ITypeInstr opc (f3b f) rd rs1 (f12b g)) \<or> fp_memory (ITypeInstr opc (f3b f) rd rs1 (f12b g))"
    using assms(3-6) by (simp add: enc_match_I Encoding_def del: to_bits_numeral)
qed

lemma good_S:
  assumes "Encoding opc (Some f) None None \<in> set (encodings_of ext)" "ext \<in> exts"
    "opc \<noteq> Opcode_LUI" "opc \<noteq> Opcode_AMO" "length rs1 = 5" "length rs2 = 5" "length imm = 12"
  shows "good_alt exts (STypeInstr opc (f3b f) rs1 rs2 imm, ok)"
  unfolding good_alt_def fst_conv
  by (intro impI disjI1 decodable_of [OF assms(2,1)])
    (use assms(3-7) in \<open>simp add: SType_layout enc_match_layout Encoding_def del: to_bits_numeral\<close>)

lemma good_B:
  assumes "Encoding opc (Some f) None None \<in> set (encodings_of ext)" "ext \<in> exts"
    "opc \<noteq> Opcode_LUI" "opc \<noteq> Opcode_AMO" "length rs1 = 5" "length rs2 = 5" "length imm = 13"
  shows "good_alt exts (BTypeInstr opc (f3b f) rs1 rs2 imm, ok)"
proof -
  have lay: "BTypeInstr opc (f3b f) rs1 rs2 imm = opcode_bits opc @ (bslice 11 12 imm @ bslice 1 5 imm)
      @ f3b f @ rs1 @ rs2 @ (bslice 5 11 imm @ bslice 12 13 imm)"
    using assms by (simp add: BType_layout del: to_bits_numeral)
  show ?thesis
    unfolding good_alt_def fst_conv lay
    by (intro impI disjI1 decodable_of [OF assms(2,1)], subst enc_match_layout)
      (use assms(3-7) in \<open>simp_all add: Encoding_def del: to_bits_numeral\<close>)
qed

lemma good_opcode_only:
  assumes "Encoding opc None None None \<in> set (encodings_of ext)" "ext \<in> exts"
  shows "good_alt exts (opcode_bits opc @ v, ok)"
  unfolding good_alt_def fst_conv
  by (intro impI disjI1 decodable_of [OF assms(2,1)])
    (simp add: enc_match_def Let_def fields_opcode opcode_is_def Encoding_def del: to_bits_numeral)

lemma encodings_I:
  "list_all (\<lambda>e. e \<in> set (encodings_of Ext_I))
     [Encoding Opcode_OP_IMM (Some F3_ADD) None None, Encoding Opcode_OP_IMM (Some F3_AND) None None,
      Encoding Opcode_OP_IMM (Some F3_XOR) None None, Encoding Opcode_LOAD (Some F3_BU) None None,
      Encoding Opcode_LOAD (Some F3_HU) None None, Encoding Opcode_LOAD (Some F3_H) None None,
      Encoding Opcode_LOAD (Some F3_W) None None, Encoding Opcode_STORE (Some F3_B) None None,
      Encoding Opcode_STORE (Some F3_H) None None, Encoding Opcode_STORE (Some F3_W) None None,
      Encoding Opcode_BRANCH (Some F3_BEQ) None None, Encoding Opcode_BRANCH (Some F3_BNE) None None,
      Encoding Opcode_JALR (Some F3_JALR) None None, Encoding Opcode_JAL None None None,
      Encoding Opcode_LUI None None None, Encoding Opcode_OP (Some F3_SUB) (Some F7_SUB) None,
      Encoding Opcode_OP (Some F3_ADD) (Some F7_ADD) None, Encoding Opcode_OP (Some F3_XOR) (Some F7_XOR) None,
      Encoding Opcode_OP (Some F3_OR) (Some F7_OR) None, Encoding Opcode_OP (Some F3_AND) (Some F7_AND) None,
      Encoding Opcode_OP_IMM (Some F3_SR) (Some F7_SL) None, Encoding Opcode_OP_IMM (Some F3_SR) (Some F7_SA) None,
      Encoding Opcode_OP_IMM (Some F3_SLL) (Some F7_SL) None,
      (Encoding Opcode_SYSTEM (Some F3_PRIV) None (Some F12_EBREAK))\<lparr>enc_rd_zero := True, enc_rs1_zero := True\<rparr>]"
  by code_simp

lemma encodings_B_M:
  "list_all (\<lambda>e. e \<in> set (encodings_of Ext_ZBB))
     [Encoding Opcode_OP_IMM (Some F3_SEXTB) None (Some F12_SEXTB),
      Encoding Opcode_OP_IMM (Some F3_SEXTH) None (Some F12_SEXTH),
      Encoding Opcode_OP (Some F3_ZEXTH) None (Some F12_ZEXTH)]"
  "list_all (\<lambda>e. e \<in> set (encodings_of Ext_ZMMUL)) [Encoding Opcode_OP (Some F3_MUL) (Some F7_MULDIV) None]"
  by code_simp+

lemmas encodings_mem = encodings_I [unfolded list.pred_inject] encodings_B_M [unfolded list.pred_inject]

lemma good_J:
  "Ext_I \<in> exts \<Longrightarrow> length rd = 5 \<Longrightarrow> length imm = 21 \<Longrightarrow> good_alt exts (JTypeInstr Opcode_JAL rd imm, ok)"
  using encodings_mem(1) by (simp only: JType_layout good_opcode_only [of Opcode_JAL Ext_I])

lemma good_U:
  "Ext_I \<in> exts \<Longrightarrow> length rd = 5 \<Longrightarrow> length imm = 32 \<Longrightarrow> good_alt exts (UTypeInstr Opcode_LUI rd imm, ok)"
  using encodings_mem(1) by (simp only: UType_layout good_opcode_only [of Opcode_LUI Ext_I])

lemma good_ebreak: "Ext_I \<in> exts \<Longrightarrow> good_alt exts (EBreakInstr, ok)"
proof -
  assume I: "Ext_I \<in> exts"
  let ?e = "(Encoding Opcode_SYSTEM (Some F3_PRIV) None (Some F12_EBREAK))\<lparr>enc_rd_zero := True, enc_rs1_zero := True\<rparr>"
  have "?e \<in> set (encodings_of Ext_I)" using encodings_mem(1) by blast
  moreover have "enc_match (decode_fields 5 EBreakInstr) ?e"
    unfolding EBreakInstr_def by (subst enc_match_I) (simp_all add: Encoding_def any_def)
  ultimately show ?thesis using decodable_of [OF I] by (simp add: good_alt_def)
qed

text \<open>Shifts: when the sixth shift bit is clear, the funct7 field is that of the encoding.\<close>

lemma good_shift:
  assumes "Encoding Opcode_OP_IMM (Some f) (Some g) None \<in> set (encodings_of Ext_I)" "Ext_I \<in> exts"
    "length rd = 5" "length rs1 = 5" "length rs2 = 5"
  shows "good_alt exts (RTypeInstr Opcode_OP_IMM (f3b f) (to_bits 7 (funct7 g OR of_bool b)) rd rs1 rs2, \<not> b)"
  using good_R7 [OF assms(1,2) _ _ assms(3-5)]
  by (cases b) (simp_all add: good_invalid del: to_bits_numeral)

lemma good_mul:
  "Ext_M \<in> exts \<longrightarrow> Ext_ZMMUL \<in> exts \<Longrightarrow> length rd = 5 \<Longrightarrow> length rs1 = 5 \<Longrightarrow> length rs2 = 5 \<Longrightarrow>
   good_alt exts (RTypeInstr Opcode_OP (f3b F3_MUL) (f7b F7_MULDIV) rd rs1 rs2, Ext_ZMMUL \<in> exts \<or> Ext_M \<in> exts)"
  using encodings_mem(3) good_R7 [of Opcode_OP F3_MUL F7_MULDIV Ext_ZMMUL exts rd rs1 rs2]
  by (cases "Ext_ZMMUL \<in> exts") (auto simp: good_invalid simp del: to_bits_numeral)

lemma good_zexth:
  "length rd = 5 \<Longrightarrow> length rs1 = 5 \<Longrightarrow>
   good_alt exts (RTypeInstr Opcode_OP (f3b F3_ZEXTH) (f7b F7_ZEXTH) rd rs1 (regb Reg_ZERO), Ext_ZBB \<in> exts)"
  using encodings_mem(2) good_R12 [of Opcode_OP F3_ZEXTH F12_ZEXTH Ext_ZBB exts rd rs1 "regb Reg_ZERO" "f7b F7_ZEXTH"]
  by (cases "Ext_ZBB \<in> exts") (simp_all add: good_invalid)

lemma fp_memory_opcode: "fp_memory (opcode_bits opc @ v) \<longleftrightarrow> opc \<in> {Opcode_LOAD_FP, Opcode_STORE_FP}"
proof -
  have "bslice 2 7 (opcode_bits opc @ v) = to_bits 5 (opcode_value opc)" by (simp add: opcode_bits_def bslice_def)
  moreover have "to_bits 5 (opcode_value a) = to_bits 5 (opcode_value b) \<longleftrightarrow> a = b" for a b
    using to_bits_inject [OF opcode_value_less opcode_value_less, of a b] opcode_value_inject by metis
  ultimately show ?thesis unfolding fp_memory_def by (simp only: insert_iff empty_iff)
qed

lemma good_fp:
  "length f3 = 3 \<Longrightarrow> length rd = 5 \<Longrightarrow> length rs1 = 5 \<Longrightarrow> length imm = 12 \<Longrightarrow> good_alt exts (ITypeInstr Opcode_LOAD_FP f3 rd rs1 imm, ok)"
  "length f3 = 3 \<Longrightarrow> length rs1 = 5 \<Longrightarrow> length rs2 = 5 \<Longrightarrow> length imm = 12 \<Longrightarrow> good_alt exts (STypeInstr Opcode_STORE_FP f3 rs1 rs2 imm, ok)"
  by (simp_all add: good_alt_def IType_layout SType_layout fp_memory_opcode)

lemmas good_alts = good_fp good_R7 [where ext = Ext_I] good_I [where ext = Ext_I] good_I12 [where ext = Ext_ZBB]
  good_S [where ext = Ext_I] good_B [where ext = Ext_I] good_J good_U good_ebreak good_shift good_mul
  good_zexth good_mux good_illegal

definition rv32c_ok :: "Extension set \<Rightarrow> bool" where
  "rv32c_ok exts = (Ext_I \<in> exts \<and> (Ext_M \<in> exts \<longrightarrow> Ext_ZMMUL \<in> exts))"

lemma quadrant_0_good:
  assumes "length i = 16" "rv32c_ok exts"
  shows "list_all (good_alt exts) (quadrant_0 exts 32 i)"
  using assms encodings_mem
  by (simp add: quadrant_0_def Let_def rv32c_ok_def good_alts
      del: to_bits_numeral funct3.simps funct7.simps funct12.simps reg.simps)

lemma quadrant_1_good:
  assumes "length i = 16" "rv32c_ok exts"
  shows "list_all (good_alt exts) (quadrant_1 exts 32 i)"
  using assms encodings_mem
  by (simp add: quadrant_1_def Let_def rv32c_ok_def good_alts
      del: to_bits_numeral funct3.simps funct7.simps funct12.simps reg.simps)

lemma quadrant_2_good:
  assumes "length i = 16" "rv32c_ok exts"
  shows "list_all (good_alt exts) (quadrant_2 exts 32 i)"
  using assms encodings_mem
  by (simp add: quadrant_2_def Let_def rv32c_ok_def good_alts
      del: to_bits_numeral funct3.simps funct7.simps funct12.simps reg.simps)

lemma decompress_alt_good:
  assumes "length i = 16" "rv32c_ok exts"
  shows "good_alt exts (decompress_alt exts 32 i)"
  using quadrant_0_good [OF assms] quadrant_1_good [OF assms] quadrant_2_good [OF assms]
    quadrant_0_wf(2) [OF assms(1)] quadrant_1_wf(2) [OF assms(1)] quadrant_2_wf(2) [OF assms(1)] assms(1)
  by (simp add: decompress_alt_def Let_def good_mux good_illegal)

section \<open>Properties of the decode path\<close>

lemma bslice_two [simp]: "bslice 0 (Suc (Suc 0)) v = bslice 0 2 v"
  by (simp add: numeral_2_eq_2)

lemma decode_illegal_space:
  "bslice 0 2 v \<noteq> [True, True] \<Longrightarrow> d_illegal (instr_decode xl rlog encs v)"
  by (simp add: instr_decode_def Let_def instr_extract_def)

lemma decode_illegal_32regs:
  assumes "length v = 32" "set encs = set (supported_encodings exts)"
  shows "d_illegal (instr_decode xl 5 encs v) \<longleftrightarrow> \<not> (decodable exts v \<and> bslice 0 2 v = [True, True])"
proof -
  have fields: "drop 5 (r_rd_field (decode_fields 5 v)) = []" "drop 5 (r_rs1_field (decode_fields 5 v)) = []"
    "drop 5 (r_rs2_field (decode_fields 5 v)) = []"
    using assms(1) by (simp_all add: decode_fields_def Let_def instr_extract_def)
  have "ms_optype (match_encodings encs (decode_fields 5 v)) = OpType_UNKNOWN \<longleftrightarrow> \<not> decodable exts v"
    using assms
  proof (cases rule: match_encodings_cases [where rlog = 5])
    case none
    then show ?thesis using assms(2) by (fastforce simp: match_init_def decodable_def)
  next
    case (one e opt)
    then have "opt \<noteq> OpType_UNKNOWN" using supported_not_unknown assms(2) by metis
    then show ?thesis
      using one assms(2) by (auto simp: apply_encoding_def Let_def decodable_def)
  qed
  then show ?thesis
    by (auto simp: instr_decode_def Let_def fields any_def instr_extract_def)
qed

lemma zext_low_bits: "length i = 16 \<Longrightarrow> bslice 0 2 (zext 32 i) = bslice 0 2 i"
  by (simp add: zext_def)

lemma instr_decompress_valid:
  "snd (decompress_alt exts xl i) \<Longrightarrow> instr_decompress exts xl i = fst (decompress_alt exts xl i)"
  by (simp add: instr_decompress_def Let_def)

text \<open>
  Expansion of compressed instructions. For every 16-bit input the output is 32 bits wide;
  when the expansion is valid the output lies in the 32-bit encoding space, and when it is not
  the output is the input itself, which the decoder rejects whatever its encodings are.
\<close>

lemma decompress_output:
  assumes "length i = 16" "is_instr_compressed i"
  shows "length (instr_decompress exts xl i) = 32 \<and>
    (if snd (decompress_alt exts xl i) then \<not> is_instr_compressed (instr_decompress exts xl i)
     else instr_decompress exts xl i = zext 32 i \<and>
          d_illegal (instr_decode xl rlog encs (instr_decompress exts xl i)))"
  using decompress_alt_wf [OF assms(1), of exts xl] assms zext_low_bits [OF assms(1)]
    decode_illegal_space [of "zext 32 i" xl rlog encs]
  by (simp add: instr_decompress_def Let_def wf_alt_def is_instr_compressed_def)

text \<open>No encoding of the table has an opcode of floating-point memory accesses.\<close>

lemma fp_memory_unknown:
  assumes "fp_memory v" "(e, opt) \<in> set (supported_encodings exts)"
  shows "\<not> enc_match (decode_fields rlog v) e"
proof
  assume m: "enc_match (decode_fields rlog v) e"
  have none: "table_of_opcode Opcode_LOAD_FP = []" "table_of_opcode Opcode_STORE_FP = []" by code_simp+
  have op: "bslice 2 7 v = to_bits 5 (opcode_value (enc_opcode e))"
    using enc_match_fields(1) [OF m] by (simp add: decode_fields_def Let_def instr_extract_def opcode_is_def)
  have "enc_opcode e \<in> {Opcode_LOAD_FP, Opcode_STORE_FP}"
    using assms(1) unfolding fp_memory_def op
    using to_bits_inject [OF opcode_value_less opcode_value_less] opcode_value_inject by blast
  moreover have "(e, opt) \<in> set (table_of_opcode (enc_opcode e))" using assms(2) supported_subset by (auto simp: table_of_opcode_def)
  ultimately show False using none by auto
qed

lemma enc_match_narrow: "length v = 32 \<Longrightarrow> enc_match (decode_fields 5 v) e \<Longrightarrow> rlog \<le> 5 \<Longrightarrow> enc_match (decode_fields rlog v) e"
proof -
  assume h: "length v = 32" "enc_match (decode_fields 5 v) e" "rlog \<le> 5"
  have take_any: "\<not> any (take 5 x) \<Longrightarrow> \<not> any (take rlog x)" for x
    using set_take_subset_set_take [OF h(3), of x] by (auto simp: any_def list_ex_iff)
  have zero: "\<not> any (to_bits rlog 0)" by (induction rlog) (simp_all add: any_def)
  have same: "r_opcode (decode_fields rlog v) = r_opcode (decode_fields 5 v)" "r_funct3 (decode_fields rlog v) = r_funct3 (decode_fields 5 v)"
    "r_funct7 (decode_fields rlog v) = r_funct7 (decode_fields 5 v)" "r_funct12 (decode_fields rlog v) = r_funct12 (decode_fields 5 v)"
    by (simp_all add: decode_fields_def Let_def)
  have regs: "\<not> any (r_rd (decode_fields 5 v)) \<Longrightarrow> \<not> any (r_rd (decode_fields rlog v))"
    "\<not> any (r_rs1 (decode_fields 5 v)) \<Longrightarrow> \<not> any (r_rs1 (decode_fields rlog v))"
    "\<not> any (r_rs2 (decode_fields 5 v)) \<Longrightarrow> \<not> any (r_rs2 (decode_fields rlog v))"
    using take_any zero by (simp_all add: decode_fields_def Let_def split: if_splits)
  show "enc_match (decode_fields rlog v) e" using h(2) regs unfolding enc_match_def Let_def same by blast
qed

text \<open>Why the decoder rejects an instruction.\<close>

lemma decode_illegal:
  assumes "length v = 32" "set encs = set (supported_encodings exts)" "bslice 0 2 v = [True, True]"
  shows "d_illegal (instr_decode xl rlog encs v) \<longleftrightarrow>
    \<not> (\<exists>(e, opt) \<in> set (supported_encodings exts). enc_match (decode_fields rlog v) e) \<or>
    (let d = instr_decode xl rlog encs v
     in d_rd_v d \<and> any (drop rlog (bslice 7 12 v)) \<or> d_rs1_v d \<and> any (drop rlog (bslice 15 20 v)) \<or>
        d_rs2_v d \<and> any (drop rlog (bslice 20 25 v)))"
proof -
  have "d_optype (instr_decode xl rlog encs v) \<noteq> OpType_UNKNOWN \<longleftrightarrow>
      (\<exists>(e, opt) \<in> set (supported_encodings exts). enc_match (decode_fields rlog v) e)"
  proof
    assume "d_optype (instr_decode xl rlog encs v) \<noteq> OpType_UNKNOWN"
    from decoder_optype [OF assms(1,2) this, of xl rlog]
    show "\<exists>(e, opt) \<in> set (supported_encodings exts). enc_match (decode_fields rlog v) e" by blast
  next
    assume "\<exists>(e, opt) \<in> set (supported_encodings exts). enc_match (decode_fields rlog v) e"
    then obtain e opt where e: "(e, opt) \<in> set (supported_encodings exts)" "enc_match (decode_fields rlog v) e" by blast
    have "opt \<noteq> OpType_UNKNOWN" by (rule supported_not_unknown [OF e(1)])
    then show "d_optype (instr_decode xl rlog encs v) \<noteq> OpType_UNKNOWN"
      using decoder_optype [OF assms(1,2), of opt xl rlog] e by blast
  qed
  moreover have "d_illegal (instr_decode xl rlog encs v) \<longleftrightarrow> d_optype (instr_decode xl rlog encs v) = OpType_UNKNOWN \<or>
    (let d = instr_decode xl rlog encs v
     in d_rd_v d \<and> any (drop rlog (bslice 7 12 v)) \<or> d_rs1_v d \<and> any (drop rlog (bslice 15 20 v)) \<or>
        d_rs2_v d \<and> any (drop rlog (bslice 20 25 v)))"
  proof -
    have f: "r_rd_field (decode_fields rlog v) = bslice 7 12 v" "r_rs1_field (decode_fields rlog v) = bslice 15 20 v"
      "r_rs2_field (decode_fields rlog v) = bslice 20 25 v" "instr_extract 0 2 v = to_bits 2 3"
      using assms(3) by (simp_all add: decode_fields_def Let_def instr_extract_def)
    show ?thesis unfolding instr_decode_def Let_def decoded.simps f by blast
  qed
  ultimately show ?thesis by blast
qed

text \<open>RV32E has the instructions of RV32I.\<close>

lemma supported_base: "Ext_E \<in> exts \<Longrightarrow> supported_encodings (insert Ext_I exts) = supported_encodings exts"
  by (simp add: supported_encodings_def Let_def insert_absorb insert_commute)

lemma decompress_base: "decompress_alt (insert Ext_I exts) xl i = decompress_alt exts xl i"
  by (simp only: decompress_alt_def quadrant_0_def quadrant_1_def quadrant_2_def insert_iff Extension.distinct simp_thms)

lemma any_drop_4: "length v = 5 \<Longrightarrow> any (drop 4 v) = v ! 4"
  by (cases v rule: rev_cases) (simp_all add: any_def nth_append)

lemma nth_bslice: "b \<le> length v \<Longrightarrow> a + n < b \<Longrightarrow> bslice a b v ! n = v ! (a + n)"
  by (simp add: bslice_def)

text \<open>
  C2. Expansion of compressed instructions. For every 16-bit input the output is 32 bits wide; when the expansion is valid the output lies
  in the 32-bit encoding space, and when it is not the output is the input itself, which the decoder rejects whatever its
  encodings are. On every RV32 configuration the constructor of the instruction set accepts, and whatever order the encoding set is enumerated in, the
  decoder accepts a valid expansion with two exceptions, in which it rejects it: loads and stores of floating-point registers, for which its
  table has no encoding, and on RV32E the instructions with a register field in use that names a register above 15 (for
  C.LUI, whose expansion is decoded as an addition, the field of the first source is taken from the immediate).
\<close>

theorem compressed_decodes:
  assumes "length i = 16"
  shows "(is_instr_compressed i \<longrightarrow> length (instr_decompress exts xl i) = 32 \<and>
      (if snd (decompress_alt exts xl i) then \<not> is_instr_compressed (instr_decompress exts xl i)
       else instr_decompress exts xl i = zext 32 i \<and> d_illegal (instr_decode xl rlog encs (instr_decompress exts xl i)))) \<and>
    (mk_ISA exts0 32 = Inr isa \<and> snd (decompress_alt (extensions isa) 32 i) \<and> set encs' = set (supported_encodings (extensions isa)) \<longrightarrow>
      (let v = instr_decompress (extensions isa) 32 i; d = instr_decode 32 (reg_cnt_log isa) encs' v
       in d_illegal d \<longleftrightarrow> fp_memory v \<or>
         Ext_I \<notin> extensions isa \<and> (d_rd_v d \<and> v ! 11 \<or> d_rs1_v d \<and> v ! 19 \<or> d_rs2_v d \<and> v ! 24)))"
proof (intro conjI impI)
  assume a: "mk_ISA exts0 32 = Inr isa \<and> snd (decompress_alt (extensions isa) 32 i) \<and> set encs' = set (supported_encodings (extensions isa))"
  let ?E = "extensions isa" and ?F = "insert Ext_I (extensions isa)" and ?v = "instr_decompress (extensions isa) 32 i"
  let ?d = "instr_decode 32 (reg_cnt_log isa) encs' ?v"
  have isa: "Ext_I \<in> ?E \<or> Ext_E \<in> ?E" "Ext_M \<in> ?E \<longrightarrow> Ext_ZMMUL \<in> ?E" "reg_cnt_log isa = (if Ext_I \<in> ?E then 5 else 4)"
  proof -
    have m: "extensions isa = apply_c_alias 32 (apply_implications exts0)" "exts0 \<inter> {Ext_I, Ext_E} \<noteq> {}"
      "reg_cnt_log isa = (if Ext_E \<in> exts0 \<and> Ext_I \<notin> exts0 then 4 else 5)"
      using a unfolding mk_ISA_Inr by simp_all
    show "Ext_I \<in> ?E \<or> Ext_E \<in> ?E" "reg_cnt_log isa = (if Ext_I \<in> ?E then 5 else 4)" using m by (auto simp: apply_keeps_base)
    have "(Ext_M, {Ext_ZMMUL}) \<in> set extension_implications" by (simp add: extension_implications_def)
    then show "Ext_M \<in> ?E \<longrightarrow> Ext_ZMMUL \<in> ?E" using implications_closed unfolding m(1) by blast
  qed
  have same: "supported_encodings ?F = supported_encodings ?E"
    using isa(1) supported_base by (cases "Ext_I \<in> ?E") (auto simp: insert_absorb)
  have "decodable ?F ?v \<or> fp_memory ?v"
    using decompress_alt_good [OF assms, of ?F] isa(2) a by (auto simp: good_alt_def instr_decompress_valid rv32c_ok_def decompress_base)
  then have ok: "decodable ?E ?v \<or> fp_memory ?v" by (simp add: decodable_def same)
  have v: "length ?v = 32" "bslice 0 2 ?v = [True, True]"
    using decompress_alt_wf [OF assms, of ?E 32] a by (simp_all add: wf_alt_def instr_decompress_valid)
  have found: "\<not> (\<exists>(e, opt) \<in> set (supported_encodings ?E). enc_match (decode_fields (reg_cnt_log isa) ?v) e) \<longleftrightarrow> fp_memory ?v"
  proof
    assume n: "\<not> (\<exists>(e, opt) \<in> set (supported_encodings ?E). enc_match (decode_fields (reg_cnt_log isa) ?v) e)"
    show "fp_memory ?v"
    proof (rule ccontr)
      assume "\<not> fp_memory ?v"
      then obtain e opt where "(e, opt) \<in> set (supported_encodings ?E)" "enc_match (decode_fields 5 ?v) e"
        using ok by (auto simp: decodable_def)
      then show False using n enc_match_narrow [OF v(1), of e "reg_cnt_log isa"] isa(3) by (fastforce split: if_splits)
    qed
  qed (use fp_memory_unknown in blast)
  have regs: "any (drop (reg_cnt_log isa) (bslice k (k + 5) ?v)) \<longleftrightarrow> Ext_I \<notin> ?E \<and> ?v ! (k + 4)" if "k \<le> 20" for k
    using that v(1) isa(3) any_drop_4 [of "bslice k (k + 5) ?v"] by (auto simp: nth_bslice any_def)
  have set: "set encs' = set (supported_encodings ?E)" using a by blast
  show "let v = ?v; d = instr_decode 32 (reg_cnt_log isa) encs' v
      in d_illegal d \<longleftrightarrow> fp_memory v \<or> Ext_I \<notin> ?E \<and> (d_rd_v d \<and> v ! 11 \<or> d_rs1_v d \<and> v ! 19 \<or> d_rs2_v d \<and> v ! 24)"
    using decode_illegal [OF v(1) set v(2), of 32 "reg_cnt_log isa", unfolded found] regs [of 7] regs [of 15] regs [of 20]
    unfolding Let_def by auto
qed (use decompress_output [OF assms, of exts xl rlog encs] in blast)+

text \<open>C.LI with register 17, and C.FLW.\<close>

definition example_c_li :: bits where
  "example_c_li = [True, False] @ replicate 5 False @ [True, False, False, False, True] @ [False] @ [False, True, False]"

definition example_c_flw :: bits where
  "example_c_flw = [False, False] @ replicate 11 False @ [True, True, False]"

lemma example_expansions:
  "decompress_alt E 32 example_c_li = (ITypeInstr Opcode_OP_IMM (f3b F3_ADD) (to_bits 5 17) (regb Reg_ZERO) (to_bits 12 0), True)"
  "Ext_ZCF \<in> E \<Longrightarrow> decompress_alt E 32 example_c_flw =
     (ITypeInstr Opcode_LOAD_FP (f3b F3_W) (to_bits 5 8) (to_bits 5 8) (to_bits 12 0), True)"
  by (simp_all add: decompress_alt_def quadrant_0_def quadrant_1_def Let_def instr_mux_def bslice_def bitn_def decompr_reg_def
      example_c_li_def example_c_flw_def)
    (simp_all add: numeral_eq_Suc)

text \<open>Arithmetic instructions with an immediate have a destination register.\<close>

lemma arith_has_rd:
  assumes "length instr = 32" "set encs = set (supported_encodings exts)"
    "r_opcode (decode_fields rlog instr) = to_bits 5 (opcode_value Opcode_OP_IMM)"
  shows "d_rd_v (instr_decode xl rlog encs instr)"
proof -
  let ?st = "match_encodings encs (decode_fields rlog instr)"
  have ty: "ms_itype ?st = InstrType_I"
    using match_plain_opcode(1) [OF assms] by (simp add: type_of_opcode_def opcode_is_def)
  have table: "list_all (\<lambda>(e, opt). enc_opcode e = Opcode_OP_IMM \<longrightarrow> \<not> enc_rd_zero e \<and> opt \<noteq> OpType_FENCE \<and> opt \<noteq> OpType_FENCEI)
      (supported_encodings (set Extension_members))"
    by code_simp
  have "\<not> ms_rd_invalid ?st \<and> ms_optype ?st \<noteq> OpType_FENCE \<and> ms_optype ?st \<noteq> OpType_FENCEI"
    using assms(1,2)
  proof (cases rule: match_encodings_cases [where rlog = rlog])
    case none
    then show ?thesis by (simp add: match_init_def)
  next
    case (one e opt)
    have "enc_opcode e = Opcode_OP_IMM"
      using enc_match_fields(1) [OF one(2)] assms(3)
      by (intro opcode_is_inject) (auto simp: opcode_is_def simp del: to_bits_numeral)
    moreover have "(e, opt) \<in> set (supported_encodings (set Extension_members))" using one(1) assms(2) supported_subset [of exts] by blast
    ultimately have "\<not> enc_rd_zero e \<and> opt \<noteq> OpType_FENCE \<and> opt \<noteq> OpType_FENCEI" using table unfolding list_all_iff by blast
    then show ?thesis unfolding one(3) by (simp add: apply_encoding_def Let_def)
  qed
  then show ?thesis using ty by (simp add: instr_decode_def Let_def rd_itypes_def)
qed

theorem compressed_decodes_witness:
  "(\<exists>isa. mk_ISA {Ext_I, Ext_ZCA} 32 = Inr isa \<and>
      \<not> d_illegal (instr_decode 32 5 (supported_encodings (extensions isa)) (instr_decompress (extensions isa) 32 example_c_li))) \<and>
   (\<exists>isa. mk_ISA {Ext_E, Ext_ZCA} 32 = Inr isa \<and>
      d_illegal (instr_decode 32 4 (supported_encodings (extensions isa)) (instr_decompress (extensions isa) 32 example_c_li))) \<and>
   (\<exists>isa. mk_ISA {Ext_I, Ext_F, Ext_C} 32 = Inr isa \<and>
      d_illegal (instr_decode 32 5 (supported_encodings (extensions isa)) (instr_decompress (extensions isa) 32 example_c_flw)))"
proof (intro conjI)
  let ?E1 = "{Ext_C, Ext_I, Ext_ZCA}" and ?E2 = "{Ext_C, Ext_E, Ext_ZCA}" and ?E3 = "{Ext_C, Ext_ZCF, Ext_ZCA, Ext_ZICSR, Ext_I, Ext_F}"
  let ?li = "ITypeInstr Opcode_OP_IMM (f3b F3_ADD) (to_bits 5 17) (regb Reg_ZERO) (to_bits 12 0)"
  let ?flw = "ITypeInstr Opcode_LOAD_FP (f3b F3_W) (to_bits 5 8) (to_bits 5 8) (to_bits 12 0)"
  have isa: "\<exists>isa. mk_ISA {Ext_I, Ext_ZCA} 32 = Inr isa \<and> reg_cnt_log isa = 5 \<and> extensions isa = ?E1"
    "\<exists>isa. mk_ISA {Ext_E, Ext_ZCA} 32 = Inr isa \<and> reg_cnt_log isa = 4 \<and> extensions isa = ?E2"
    "\<exists>isa. mk_ISA {Ext_I, Ext_F, Ext_C} 32 = Inr isa \<and> reg_cnt_log isa = 5 \<and> extensions isa = ?E3"
    by (auto simp: mk_ISA_Inr requirements_met_iff isa_tables apply_implications_eq apply_c_alias_eq)
  have li: "decompress_alt ?E1 32 example_c_li = (?li, True)" "decompress_alt ?E2 32 example_c_li = (?li, True)" by (rule example_expansions)+
  have flw: "decompress_alt ?E3 32 example_c_flw = (?flw, True)" by (rule example_expansions) simp
  have out: "instr_decompress ?E1 32 example_c_li = ?li" "instr_decompress ?E2 32 example_c_li = ?li"
    "instr_decompress ?E3 32 example_c_flw = ?flw"
    unfolding instr_decompress_def li flw Let_def by (simp_all only: fst_conv snd_conv if_True)
  have facts: "\<not> fp_memory ?li" "?li ! 11" "fp_memory ?flw"
  proof -
    have lay: "?li = opcode_bits Opcode_OP_IMM @ to_bits 5 17 @ f3b F3_ADD @ regb Reg_ZERO @ to_bits 12 0"
      "?flw = opcode_bits Opcode_LOAD_FP @ to_bits 5 8 @ f3b F3_W @ to_bits 5 8 @ to_bits 12 0" by (intro IType_layout length_to_bits)+
    show "\<not> fp_memory ?li" "fp_memory ?flw" unfolding lay fp_memory_opcode by simp_all
    show "?li ! 11" unfolding lay by (simp add: opcode_bits_def)
  qed
  have len: "length example_c_li = 16" "length example_c_flw = 16" by (simp_all add: example_c_li_def example_c_flw_def)
  have "r_opcode (decode_fields 4 ?li) = to_bits 5 (opcode_value Opcode_OP_IMM)" "length ?li = 32"
    by (simp_all only: IType_layout [OF length_to_bits length_to_bits length_to_bits length_to_bits] fields_opcode)
      (simp add: opcode_bits_def)
  then have rd: "d_rd_v (instr_decode 32 4 (supported_encodings ?E2) ?li)" by (intro arith_has_rd) simp_all
  note c = compressed_decodes [THEN conjunct2, rule_format, OF _ conjI [OF _ conjI [OF _ refl]]]
  obtain i where i: "mk_ISA {Ext_I, Ext_ZCA} 32 = Inr i" "reg_cnt_log i = 5" "extensions i = ?E1" using isa(1) by blast
  show "\<exists>isa. mk_ISA {Ext_I, Ext_ZCA} 32 = Inr isa \<and>
      \<not> d_illegal (instr_decode 32 5 (supported_encodings (extensions isa)) (instr_decompress (extensions isa) 32 example_c_li))"
    using c [OF len(1) i(1)] facts(1) unfolding i(2,3) out li Let_def snd_conv
    by (intro exI [of _ i]) (simp only: i out simp_thms insert_iff)
  obtain i where e: "mk_ISA {Ext_E, Ext_ZCA} 32 = Inr i" "reg_cnt_log i = 4" "extensions i = ?E2" using isa(2) by blast
  show "\<exists>isa. mk_ISA {Ext_E, Ext_ZCA} 32 = Inr isa \<and>
      d_illegal (instr_decode 32 4 (supported_encodings (extensions isa)) (instr_decompress (extensions isa) 32 example_c_li))"
    using c [OF len(1) e(1)] facts(2) rd unfolding e(2,3) out li Let_def snd_conv
    by (intro exI [of _ i]) (simp only: e out simp_thms insert_iff Extension.distinct empty_iff)
  obtain i where f: "mk_ISA {Ext_I, Ext_F, Ext_C} 32 = Inr i" "reg_cnt_log i = 5" "extensions i = ?E3" using isa(3) by blast
  show "\<exists>isa. mk_ISA {Ext_I, Ext_F, Ext_C} 32 = Inr isa \<and>
      d_illegal (instr_decode 32 5 (supported_encodings (extensions isa)) (instr_decompress (extensions isa) 32 example_c_flw))"
    using c [OF len(2) f(1)] facts(3) unfolding f(2,3) out flw Let_def snd_conv
    by (intro exI [of _ i]) (simp only: f out simp_thms insert_iff)
qed

text \<open>
  C3. The decoder reports an operation type exactly when one of the supported encodings of that
  operation type matches the instruction's fields, and none of its outputs depends on the iteration
  order of the set of supported encodings: any two enumerations of the set give the same outputs.
\<close>

theorem decoder_recognises:
  assumes "length instr = 32" "set encs = set (supported_encodings exts)" "set encs' = set (supported_encodings exts)"
    "opt \<noteq> OpType_UNKNOWN"
  shows "(d_optype (instr_decode xl rlog encs instr) = opt \<longleftrightarrow>
      (\<exists>e. (e, opt) \<in> set (supported_encodings exts) \<and> enc_match (decode_fields rlog instr) e)) \<and>
    instr_decode xl rlog encs instr = instr_decode xl rlog encs' instr"
  using decoder_optype [OF assms(1,2,4), of xl rlog] match_encodings_order [OF assms(1-3)]
  by (simp add: instr_decode_def Let_def)

theorem decoder_recognises_witness:
  "d_optype (instr_decode 32 5 (supported_encodings {Ext_I}) EBreakInstr) = OpType_EBREAK \<and>
   instr_decode 32 5 (supported_encodings {Ext_I}) EBreakInstr = instr_decode 32 5 (rev (supported_encodings {Ext_I})) EBreakInstr"
proof -
  let ?e = "(Encoding Opcode_SYSTEM (Some F3_PRIV) None (Some F12_EBREAK))\<lparr>enc_rd_zero := True, enc_rs1_zero := True\<rparr>"
  have "(?e, OpType_EBREAK) \<in> set (supported_encodings {Ext_I})"
    by (simp add: supported_encodings_def Let_def optypes_by_extensions_def)
  moreover have "enc_match (decode_fields 5 EBreakInstr) ?e"
    unfolding EBreakInstr_def by (subst enc_match_I) (simp_all add: Encoding_def any_def)
  moreover have "length EBreakInstr = 32" by (simp add: EBreakInstr_def IType_layout)
  moreover have "OpType_EBREAK \<noteq> OpType_UNKNOWN" by simp
  ultimately show ?thesis
    using decoder_recognises [OF _ refl set_rev, of EBreakInstr OpType_EBREAK 32 5 "{Ext_I}"] by blast
qed

text \<open>
  C4. Immediates survive encoding and decoding in the formats I, S, B and J at every register width: for loads, indirect jumps, arithmetic,
  stores, branches and jumps the decoder's immediate is the sign extension of the encoded one, and for shifts it is the
  zero extension of its five low bits, the shift amount of RV32. For LUI and AUIPC it is the upper twenty bits of the encoded value at
  the top of the register: on RV32 the value with its twelve low bits cleared, as it should be, on RV64 a value shifted by 44 instead of 12.
\<close>

theorem immediate_roundtrip:
  assumes "set encs = set (supported_encodings exts)" "length fn = 3" "length rd = 5"
    "length ra = 5" "length rb = 5" "length immI = 12" "length immB = 13" "\<not> hd immB"
    "length immJ = 21" "\<not> hd immJ" "length immU = 32" "20 \<le> xl" "opcI \<in> {Opcode_LOAD, Opcode_JALR}"
    "opcU \<in> {Opcode_LUI, Opcode_AUIPC}"
  shows "d_imm (instr_decode xl rlog encs (ITypeInstr opcI fn rd ra immI)) = sext xl immI \<and>
    d_imm (instr_decode xl rlog encs (ITypeInstr Opcode_OP_IMM fn rd ra immI)) =
      (if fn = to_bits 3 (funct3 F3_SLL) \<or> fn = to_bits 3 (funct3 F3_SR) then zext xl (take 5 immI) else sext xl immI) \<and>
    d_imm (instr_decode xl rlog encs (STypeInstr Opcode_STORE fn ra rb immI)) = sext xl immI \<and>
    d_imm (instr_decode xl rlog encs (BTypeInstr Opcode_BRANCH fn ra rb immB)) = sext xl immB \<and>
    d_imm (instr_decode xl rlog encs (JTypeInstr Opcode_JAL rd immJ)) = sext xl immJ \<and>
    d_imm (instr_decode xl rlog encs (UTypeInstr opcU rd immU)) = replicate (xl - 20) False @ drop 12 immU"
  using assms
  by (intro conjI imm_roundtrip_I imm_roundtrip_arith imm_roundtrip_S imm_roundtrip_B imm_roundtrip_J imm_roundtrip_U)

theorem immediate_roundtrip_witness:
  "d_imm (instr_decode 32 5 (supported_encodings {Ext_I})
     (BTypeInstr Opcode_BRANCH (f3b F3_BEQ) (to_bits 5 1) (to_bits 5 2) (to_bits 13 0x1ffe))) =
   sext 32 (to_bits 13 0x1ffe)"
proof -
  have "length (f3b F3_BEQ) = 3" "\<not> hd (to_bits 13 0x1ffe)" "\<not> hd (to_bits 21 0)" "(20 :: nat) \<le> 32" by simp_all
  then show ?thesis
    using immediate_roundtrip [OF refl, of "f3b F3_BEQ" "to_bits 5 0" "to_bits 5 1" "to_bits 5 2" "to_bits 12 0"
        "to_bits 13 0x1ffe" "to_bits 21 0" "to_bits 32 0" 32 Opcode_LOAD Opcode_LUI 5 "{Ext_I}"]
    by (simp only: length_to_bits insert_iff simp_thms)
qed

text \<open>
  On RV32E (16 registers, 4-bit register numbers) a LUI whose destination is a valid register
  is rejected as illegal exactly when bit 19 of the instruction is set, although that bit
  belongs to its immediate: the decoder marks rs1 as used when it turns LUI into ADDI, and the
  register-space check then reads the rs1 field.
\<close>

lemma lui_rv32e_illegal:
  assumes "set encs = set (supported_encodings exts)" "Ext_E \<in> exts" "length rd = 5" "length imm = 32"
    "\<not> rd ! 4"
  shows "d_illegal (instr_decode 32 4 encs (UTypeInstr Opcode_LUI rd imm)) \<longleftrightarrow> imm ! 19"
proof -
  let ?v = "UTypeInstr Opcode_LUI rd imm"
  have lay: "?v = opcode_bits Opcode_LUI @ rd @ bslice 12 32 imm" using assms by (intro UType_layout)
  have len: "length ?v = 32" using assms by (simp add: lay)
  have lui: "is_lui ?v" unfolding lay is_lui_opcode ..
  have low: "bslice 0 2 ?v = [True, True]" unfolding lay by (rule opcode_bits_low)
  have "(Encoding Opcode_LUI None None None, OpType_ARITHMETIC) \<in> set (supported_encodings exts)"
    using assms(2) by (auto simp: supported_encodings_def Let_def optypes_by_extensions_def)
  moreover have "enc_match (decode_fields 4 ?v) (Encoding Opcode_LUI None None None)"
    unfolding lay by (simp add: enc_match_def Let_def fields_opcode opcode_is_def Encoding_def del: to_bits_numeral)
  ultimately have st: "match_encodings encs (decode_fields 4 ?v) =
      apply_encoding (Encoding Opcode_LUI None None None, OpType_ARITHMETIC) (match_init (decode_fields 4 ?v))"
    using match_encodings_single [OF len assms(1)] assms(1) by simp
  have "type_of_opcode (r_opcode (decode_fields 4 ?v)) = InstrType_U"
    unfolding lay fields_opcode by (simp add: type_of_opcode_def opcode_is_def)
  moreover have "any (drop 4 (r_rd_field (decode_fields 4 ?v))) = rd ! 4"
    using assms(3) by (simp add: lay decode_fields_def Let_def instr_extract_def any_drop_4)
  moreover have "any (drop 4 (r_rs1_field (decode_fields 4 ?v))) = imm ! 19"
    using assms(3,4) by (simp add: lay decode_fields_def Let_def instr_extract_def any_drop_4 nth_bslice)
  ultimately show ?thesis
    using assms(5) lui low st
    by (simp add: instr_decode_def Let_def apply_encoding_def match_init_def Encoding_def instr_extract_def
        rd_itypes_def rs2_itypes_def)
qed

text \<open>
  On RV64 the compressed C.SUBW expands to the encoding of ADDW: the expansion takes funct7 from
  the funct3 constant of SUB, which is zero.
\<close>

lemma c_subw_expands_to_addw:
  assumes "length rd = 3" "length rs2 = 3"
  shows "instr_decompress exts 64 ([True, False] @ rs2 @ [False, False] @ rd @ [True, True, True] @ [False, False, True]) =
    RTypeInstr Opcode_OP32 (f3b F3_ADD) (f7b F7_ADD) (decompr_reg rd) (decompr_reg rd) (decompr_reg rs2)"
proof -
  obtain a b c x y z where "rd = [a, b, c]" "rs2 = [x, y, z]"
    using assms by (auto simp: numeral_eq_Suc length_Suc_conv)
  then show ?thesis
    by (simp add: instr_decompress_def decompress_alt_def quadrant_1_def Let_def instr_mux_def bslice_def bitn_def)
qed

text \<open>
  C11. Two encodings are not decoded as the architecture says. On RV32E a LUI whose destination is a valid
  register is rejected as illegal exactly when bit 19 of the instruction, a bit of its immediate, is set; and on
  RV64 the compressed C.SUBW expands to the encoding of ADDW.
\<close>

theorem decoder_departures:
  assumes "set encs = set (supported_encodings exts)" "Ext_E \<in> exts" "length rd = 5" "length imm = 32" "\<not> rd ! 4"
    "length rd' = 3" "length rs2 = 3"
  shows "(d_illegal (instr_decode 32 4 encs (UTypeInstr Opcode_LUI rd imm)) \<longleftrightarrow> imm ! 19) \<and>
    instr_decompress exts' 64 ([True, False] @ rs2 @ [False, False] @ rd' @ [True, True, True] @ [False, False, True]) =
      RTypeInstr Opcode_OP32 (f3b F3_ADD) (f7b F7_ADD) (decompr_reg rd') (decompr_reg rd') (decompr_reg rs2)"
  using lui_rv32e_illegal [OF assms(1-5)] c_subw_expands_to_addw [OF assms(6,7)] by blast

theorem decoder_departures_witness:
  "d_illegal (instr_decode 32 4 (supported_encodings {Ext_E}) (UTypeInstr Opcode_LUI (to_bits 5 1) (to_bits 32 0x80000))) \<and>
   instr_decompress {} 64 (to_bits 16 0x9c05) =
     RTypeInstr Opcode_OP32 (f3b F3_ADD) (f7b F7_ADD) (to_bits 5 8) (to_bits 5 8) (to_bits 5 9)"
proof -
  have "to_bits 32 0x80000 ! 19" by simp
  then show ?thesis
    using decoder_departures [of "supported_encodings {Ext_E}" "{Ext_E}" "to_bits 5 1" "to_bits 32 0x80000"
        "[False, False, False]" "[True, False, False]" "{}"]
    by (simp add: decompr_reg_def)
qed

end
