(* ===== verification/Fu_Common.thy ===== *)
theory Fu_Common
  imports Hw_Prelude Isa_Consts Isa Optypes Instr_Decoder
begin

text \<open>
  Functional units (\<^verbatim>\<open>func_blocks/fu/common\<close>): the decoder that turns the \<^verbatim>\<open>exec_fn\<close> of an
  issued instruction into a one-hot function code, the issue and result layouts, and the wrapper
  \<^verbatim>\<open>FuncUnitBase.issue\<close>. A function signal is the list of the functions whose bit is set.
  The locale \<open>fu_table\<close> is the contract between a unit's instruction table and its body: the
  rows of the table exclude each other, so that an instruction that matches a row selects one
  function only.
\<close>

section \<open>The function decoder\<close>

text \<open>A row of \<^verbatim>\<open>get_instructions\<close>: the function, its operation type, and optionally the funct codes.\<close>

type_synonym 'f fu_op = "'f \<times> OpType \<times> Funct3 option \<times> Funct7 option"

definition op_match :: "bool \<Rightarrow> exec_fn \<Rightarrow> 'f fu_op \<Rightarrow> bool" where
  "op_match check_optype ef op =
     (case op of (f, opt, f3, f7) \<Rightarrow>
       (check_optype \<longrightarrow> op_type ef = opt) \<and>
       (case f3 of None \<Rightarrow> True | Some x \<Rightarrow> fn_funct3 ef = to_bits 3 (funct3 x)) \<and>
       (case f7 of None \<Rightarrow> True | Some x \<Rightarrow> fn_funct7 ef = to_bits 7 (funct7 x)))"

text \<open>A bit assigned by several rows keeps the last assignment.\<close>

fun decode_bit :: "bool \<Rightarrow> exec_fn \<Rightarrow> 'f \<Rightarrow> 'f fu_op list \<Rightarrow> bool \<Rightarrow> bool" where
  "decode_bit chk ef f [] b = b"
| "decode_bit chk ef f (op # ops) b = decode_bit chk ef f ops (if fst op = f then op_match chk ef op else b)"

definition Decoder :: "'f fu_op list \<Rightarrow> bool \<Rightarrow> exec_fn \<Rightarrow> 'f list" where
  "Decoder ops check_optype ef =
     filter (\<lambda>f. decode_bit check_optype ef f ops False) (remdups (map fst ops))"

definition get_op_types :: "'f fu_op list \<Rightarrow> OpType list" where
  "get_op_types ops = remdups (map (\<lambda>(f, opt, f3, f7). opt) ops)"

definition get_decoder :: "'f fu_op list \<Rightarrow> exec_fn \<Rightarrow> 'f list" where
  "get_decoder ops = Decoder ops (1 < length (get_op_types ops))"

section \<open>Issue and result layouts\<close>

record (overloaded) 'a issue_arg =
  s1_val :: "'a::len word"
  s2_val :: "'a word"
  rp_dst :: nat
  rob_id :: nat
  ia_exec_fn :: exec_fn
  ia_imm :: "'a word"
  ia_pc :: "'a word"
  ia_tag :: nat
  ia_ftq_ptr :: nat

record (overloaded) 'a result_arg =
  r_rob_id :: nat
  r_result :: "'a::len word"
  r_rp_dst :: nat
  r_exception :: bool

text \<open>
  \<^verbatim>\<open>FuncUnitBase.issue\<close>: the argument is passed to \<^verbatim>\<open>issue_decoded\<close> together with the decoder's
  output.
\<close>

definition fu_issue ::
  "'f fu_op list \<Rightarrow> ('a::len issue_arg \<Rightarrow> 'f list \<Rightarrow> 'r) \<Rightarrow> 'a issue_arg \<Rightarrow> 'r" where
  "fu_issue ops issue_decoded arg = issue_decoded arg (get_decoder ops (ia_exec_fn arg))"

text \<open>The second operand of the units that take an immediate, and the result of a one-cycle unit.\<close>

definition operand2 :: "'a::len issue_arg \<Rightarrow> 'a word" where
  "operand2 arg = (if ia_imm arg \<noteq> 0 then ia_imm arg else s2_val arg)"

definition fu_result :: "'a::len issue_arg \<Rightarrow> 'a word \<Rightarrow> 'a result_arg" where
  "fu_result arg v = \<lparr>r_rob_id = rob_id arg, r_result = v, r_rp_dst = rp_dst arg, r_exception = False\<rparr>"

section \<open>Instruction tables select one function\<close>

text \<open>Two rows exclude each other when a field both of them fix differs.\<close>

fun op_conflict :: "bool \<Rightarrow> 'f fu_op \<Rightarrow> 'f fu_op \<Rightarrow> bool" where
  "op_conflict chk (f, opt, f3, f7) (g, opt', g3, g7) =
     ((chk \<and> opt \<noteq> opt') \<or>
      (case (f3, g3) of (Some x, Some y) \<Rightarrow> funct3 x \<noteq> funct3 y | _ \<Rightarrow> False) \<or>
      (case (f7, g7) of (Some x, Some y) \<Rightarrow> funct7 x \<noteq> funct7 y | _ \<Rightarrow> False))"

fun table_ok :: "bool \<Rightarrow> 'f fu_op list \<Rightarrow> bool" where
  "table_ok chk [] = True"
| "table_ok chk (op # ops) =
     (fst op \<notin> fst ` set ops \<and> list_all (op_conflict chk op) ops \<and> table_ok chk ops)"

lemma op_conflict_excludes:
  assumes "op_conflict chk a b" "op_match chk ef a"
  shows "\<not> op_match chk ef b"
proof -
  obtain f opt f3 f7 g opt' g3 g7 where "a = (f, opt, f3, f7)" "b = (g, opt', g3, g7)"
    by (metis prod_cases4)
  with assms show ?thesis
    by (auto simp: op_match_def to_bits_inject [OF funct3_less funct3_less]
        to_bits_inject [OF funct7_less funct7_less] simp del: to_bits_numeral split: option.splits)
qed

lemma decode_bit_notin: "f \<notin> fst ` set ops \<Longrightarrow> decode_bit chk ef f ops b = b"
  by (induction ops arbitrary: b) auto

lemma decode_bit_row:
  "table_ok chk ops \<Longrightarrow> op \<in> set ops \<Longrightarrow> decode_bit chk ef (fst op) ops b = op_match chk ef op"
  by (induction ops arbitrary: b) (auto simp: decode_bit_notin)

lemma table_ok_excludes:
  assumes "table_ok chk ops" "op \<in> set ops" "op' \<in> set ops" "op_match chk ef op" "op_match chk ef op'"
  shows "op = op'"
  using assms by (induction ops) (auto simp: list_all_iff dest: op_conflict_excludes)

lemma filter_unique: "distinct xs \<Longrightarrow> x \<in> set xs \<Longrightarrow> (\<And>y. y \<in> set xs \<Longrightarrow> P y \<longleftrightarrow> y = x) \<Longrightarrow> filter P xs = [x]"
proof (induction xs)
  case (Cons a xs)
  then show ?case
    by (cases "a = x") (auto simp: filter_empty_conv)
qed simp

locale fu_table =
  fixes ops :: "'f fu_op list" and chk :: bool
  assumes ok: "table_ok chk ops"
    and chk_def: "chk = (1 < length (get_op_types ops))"
begin

lemma one_hot:
  assumes "op \<in> set ops" "op_match chk ef op"
  shows "get_decoder ops ef = [fst op]"
  unfolding get_decoder_def Decoder_def chk_def [symmetric]
proof (rule filter_unique)
  fix f
  assume "f \<in> set (remdups (map fst ops))"
  then obtain op' where op': "op' \<in> set ops" "f = fst op'" by auto
  then show "decode_bit chk ef f ops False \<longleftrightarrow> f = fst op"
    using decode_bit_row [OF ok] table_ok_excludes [OF ok] assms by metis
qed (use assms in auto)

lemma no_match: "(\<And>op. op \<in> set ops \<Longrightarrow> \<not> op_match chk ef op) \<Longrightarrow> get_decoder ops ef = []"
  unfolding get_decoder_def Decoder_def chk_def [symmetric]
  by (auto simp: filter_empty_conv decode_bit_row [OF ok])

lemma decoder_single: "get_decoder ops ef = [] \<or> (\<exists>f. get_decoder ops ef = [f])"
  using one_hot no_match by metis

lemma decoder_iff:
  "get_decoder ops ef = [f] \<longleftrightarrow> (\<exists>op \<in> set ops. fst op = f \<and> op_match chk ef op)"
  using one_hot no_match by (metis list.inject not_Cons_self2)

end

end
