(* ===== verification/Alu.thy ===== *)
theory Alu
  imports Fu_Common
begin

text \<open>
  The arithmetic unit (\<^verbatim>\<open>func_blocks/fu/alu.py\<close>): its instruction table, the combinational body
  and the functional unit around it. \<^verbatim>\<open>popcount\<close> and \<^verbatim>\<open>count_leading_zeros\<close> come from the
  Transactron library and are parameters; what the unit relies on is stated by \<open>popcount_spec\<close> and
  \<open>clz_spec\<close>.
\<close>

section \<open>AluFn\<close>

datatype alu_fn =
  Alu_ADD | Alu_XOR | Alu_OR | Alu_AND | Alu_SUB | Alu_SLT | Alu_SLTU
| Alu_SH1ADD | Alu_SH2ADD | Alu_SH3ADD
| Alu_ANDN | Alu_ORN | Alu_XNOR | Alu_CLZ | Alu_CTZ | Alu_CPOP
| Alu_MAX | Alu_MAXU | Alu_MIN | Alu_MINU | Alu_SEXTB | Alu_SEXTH | Alu_ZEXTH | Alu_ORCB | Alu_REV8
| Alu_CZEROEQZ | Alu_CZERONEZ

record alu_config =
  zba_enable :: bool
  zbb_enable :: bool
  zicond_enable :: bool

definition alu_instructions :: "alu_config \<Rightarrow> alu_fn fu_op list" where
  "alu_instructions cfg =
    [(Alu_ADD, OpType_ARITHMETIC, Some F3_ADD, Some F7_ADD),
     (Alu_SUB, OpType_ARITHMETIC, Some F3_ADD, Some F7_SUB),
     (Alu_SLT, OpType_COMPARE, Some F3_SLT, None),
     (Alu_SLTU, OpType_COMPARE, Some F3_SLTU, None),
     (Alu_XOR, OpType_LOGIC, Some F3_XOR, None),
     (Alu_OR, OpType_LOGIC, Some F3_OR, None),
     (Alu_AND, OpType_LOGIC, Some F3_AND, None)] @
    (if zba_enable cfg then
      [(Alu_SH1ADD, OpType_ADDRESS_GENERATION, Some F3_SH1ADD, Some F7_SH1ADD),
       (Alu_SH2ADD, OpType_ADDRESS_GENERATION, Some F3_SH2ADD, Some F7_SH2ADD),
       (Alu_SH3ADD, OpType_ADDRESS_GENERATION, Some F3_SH3ADD, Some F7_SH3ADD)] else []) @
    (if zbb_enable cfg then
      [(Alu_ANDN, OpType_BIT_MANIPULATION, Some F3_ANDN, Some F7_ANDN),
       (Alu_XNOR, OpType_BIT_MANIPULATION, Some F3_XNOR, Some F7_XNOR),
       (Alu_ORN, OpType_BIT_MANIPULATION, Some F3_ORN, Some F7_ORN),
       (Alu_MAX, OpType_BIT_MANIPULATION, Some F3_MAX, Some F7_MAX),
       (Alu_MAXU, OpType_BIT_MANIPULATION, Some F3_MAXU, Some F7_MAX),
       (Alu_MIN, OpType_BIT_MANIPULATION, Some F3_MIN, Some F7_MIN),
       (Alu_MINU, OpType_BIT_MANIPULATION, Some F3_MINU, Some F7_MIN),
       (Alu_REV8, OpType_UNARY_BIT_MANIPULATION_1, Some F3_REV8, None),
       (Alu_SEXTB, OpType_UNARY_BIT_MANIPULATION_1, Some F3_SEXTB, None),
       (Alu_ZEXTH, OpType_UNARY_BIT_MANIPULATION_1, Some F3_ZEXTH, None),
       (Alu_ORCB, OpType_UNARY_BIT_MANIPULATION_2, Some F3_ORCB, None),
       (Alu_SEXTH, OpType_UNARY_BIT_MANIPULATION_2, Some F3_SEXTH, None),
       (Alu_CLZ, OpType_UNARY_BIT_MANIPULATION_3, Some F3_CLZ, None),
       (Alu_CTZ, OpType_UNARY_BIT_MANIPULATION_4, Some F3_CTZ, None),
       (Alu_CPOP, OpType_UNARY_BIT_MANIPULATION_5, Some F3_CPOP, None)] else []) @
    (if zicond_enable cfg then
      [(Alu_CZEROEQZ, OpType_CZERO, Some F3_CZEROEQZ, None),
       (Alu_CZERONEZ, OpType_CZERO, Some F3_CZERONEZ, None)] else [])"

section \<open>Alu\<close>

text \<open>
  The case of one function; the cases of extensions that are not enabled do not exist, so the
  output keeps its default 0. A wider intermediate value is an integer, cut to the register width
  by the assignment.
\<close>

definition word_cat_fill :: "nat \<Rightarrow> bool \<Rightarrow> 'a::len word \<Rightarrow> 'a word" where
  "word_cat_fill n b v = bits_to_word (bslice 0 n (word_to_bits v) @ replicate (LENGTH('a) - n) b)"

definition word_rev :: "'a::len word \<Rightarrow> 'a word" where
  "word_rev v = bits_to_word (rev (word_to_bits v))"

definition alu_zbb :: "('a::len word \<Rightarrow> nat) \<Rightarrow> ('a word \<Rightarrow> nat) \<Rightarrow> alu_fn \<Rightarrow> 'a word \<Rightarrow> 'a word \<Rightarrow> 'a word" where
  "alu_zbb popcount clz f in1 in2 =
     (let xlen = LENGTH('a); v = word_to_bits in1 in
      case f of
        Alu_ANDN \<Rightarrow> in1 AND NOT in2
      | Alu_XNOR \<Rightarrow> NOT (in1 XOR in2)
      | Alu_ORN \<Rightarrow> in1 OR NOT in2
      | Alu_MIN \<Rightarrow> if sint in1 < sint in2 then in1 else in2
      | Alu_MINU \<Rightarrow> if uint in1 < uint in2 then in1 else in2
      | Alu_MAX \<Rightarrow> if sint in1 \<ge> sint in2 then in1 else in2
      | Alu_MAXU \<Rightarrow> if uint in1 \<ge> uint in2 then in1 else in2
      | Alu_CPOP \<Rightarrow> of_nat (popcount in1)
      | Alu_CLZ \<Rightarrow> of_nat (clz in1)
      | Alu_CTZ \<Rightarrow> of_nat (clz (word_rev in1))
      | Alu_SEXTH \<Rightarrow> word_cat_fill 16 (bit in1 15) in1
      | Alu_SEXTB \<Rightarrow> word_cat_fill 8 (bit in1 7) in1
      | Alu_ZEXTH \<Rightarrow> word_cat_fill 16 False in1
      | Alu_ORCB \<Rightarrow>
          bits_to_word (concat (map (\<lambda>i. replicate 8 (any (bslice (i * 8) ((i + 1) * 8) v))) [0..<xlen div 8]))
      | Alu_REV8 \<Rightarrow>
          bits_to_word (concat (map (\<lambda>i. let j = xlen div 8 - i - 1 in bslice (j * 8) ((j + 1) * 8) v) [0..<xlen div 8]))
      | _ \<Rightarrow> 0)"

definition alu_case ::
  "('a::len word \<Rightarrow> nat) \<Rightarrow> ('a word \<Rightarrow> nat) \<Rightarrow> alu_config \<Rightarrow> 'a word \<Rightarrow> 'a word \<Rightarrow> alu_fn \<Rightarrow> 'a word" where
  "alu_case popcount clz cfg in1 in2 f =
     (case f of
        Alu_ADD \<Rightarrow> in1 + in2
      | Alu_XOR \<Rightarrow> in1 XOR in2
      | Alu_OR \<Rightarrow> in1 OR in2
      | Alu_AND \<Rightarrow> in1 AND in2
      | Alu_SUB \<Rightarrow> in1 - in2
      | Alu_SLT \<Rightarrow> of_bool (sint in1 < sint in2)
      | Alu_SLTU \<Rightarrow> of_bool (uint in1 < uint in2)
      | Alu_SH1ADD \<Rightarrow> if zba_enable cfg then word_of_int (push_bit 1 (uint in1) + uint in2) else 0
      | Alu_SH2ADD \<Rightarrow> if zba_enable cfg then word_of_int (push_bit 2 (uint in1) + uint in2) else 0
      | Alu_SH3ADD \<Rightarrow> if zba_enable cfg then word_of_int (push_bit 3 (uint in1) + uint in2) else 0
      | Alu_CZERONEZ \<Rightarrow> if zicond_enable cfg then (if in2 \<noteq> 0 then 0 else in1) else 0
      | Alu_CZEROEQZ \<Rightarrow> if zicond_enable cfg then (if in2 \<noteq> 0 then in1 else 0) else 0
      | _ \<Rightarrow> if zbb_enable cfg then alu_zbb popcount clz f in1 in2 else 0)"

definition Alu ::
  "('a::len word \<Rightarrow> nat) \<Rightarrow> ('a word \<Rightarrow> nat) \<Rightarrow> alu_config \<Rightarrow> alu_fn list \<Rightarrow> 'a word \<Rightarrow> 'a word \<Rightarrow> 'a word option" where
  "Alu popcount clz cfg fn in1 in2 = one_hot_switch fn (alu_case popcount clz cfg in1 in2)"

section \<open>AluFuncUnit\<close>

definition alu_issue_decoded ::
  "('a::len word \<Rightarrow> nat) \<Rightarrow> ('a word \<Rightarrow> nat) \<Rightarrow> alu_config \<Rightarrow> 'a issue_arg \<Rightarrow> alu_fn list \<Rightarrow> 'a result_arg option" where
  "alu_issue_decoded popcount clz cfg arg fn =
     map_option (fu_result arg) (Alu popcount clz cfg fn (s1_val arg) (operand2 arg))"

definition alu_issue ::
  "('a::len word \<Rightarrow> nat) \<Rightarrow> ('a word \<Rightarrow> nat) \<Rightarrow> alu_config \<Rightarrow> 'a issue_arg \<Rightarrow> 'a result_arg option" where
  "alu_issue popcount clz cfg = fu_issue (alu_instructions cfg) (alu_issue_decoded popcount clz cfg)"

section \<open>What the instructions compute\<close>

text \<open>The contracts of the two library functions.\<close>

definition popcount_spec :: "('a::len word \<Rightarrow> nat) \<Rightarrow> bool" where
  "popcount_spec popcount = (\<forall>v. popcount v = card {n. bit v n})"

definition clz_spec :: "('a::len word \<Rightarrow> nat) \<Rightarrow> bool" where
  "clz_spec clz = (\<forall>v. clz v \<le> LENGTH('a) \<and> (\<forall>i < clz v. \<not> bit v (LENGTH('a) - 1 - i)) \<and>
     (clz v < LENGTH('a) \<longrightarrow> bit v (LENGTH('a) - 1 - clz v)))"

text \<open>
  The instructions as the instruction set describes them, over the integers that the registers
  encode and over single bits.
\<close>

definition alu_spec :: "alu_fn \<Rightarrow> 'a::len word \<Rightarrow> 'a word \<Rightarrow> 'a word \<Rightarrow> bool" where
  "alu_spec f a b r =
     (let N = LENGTH('a); M = 2 ^ LENGTH('a) in
      case f of
        Alu_ADD \<Rightarrow> uint r = (uint a + uint b) mod M
      | Alu_SUB \<Rightarrow> uint r = (uint a - uint b) mod M
      | Alu_XOR \<Rightarrow> \<forall>n<N. bit r n \<longleftrightarrow> bit a n \<noteq> bit b n
      | Alu_OR \<Rightarrow> \<forall>n<N. bit r n \<longleftrightarrow> bit a n \<or> bit b n
      | Alu_AND \<Rightarrow> \<forall>n<N. bit r n \<longleftrightarrow> bit a n \<and> bit b n
      | Alu_SLT \<Rightarrow> uint r = (if sint a < sint b then 1 else 0)
      | Alu_SLTU \<Rightarrow> uint r = (if uint a < uint b then 1 else 0)
      | Alu_SH1ADD \<Rightarrow> uint r = (2 * uint a + uint b) mod M
      | Alu_SH2ADD \<Rightarrow> uint r = (4 * uint a + uint b) mod M
      | Alu_SH3ADD \<Rightarrow> uint r = (8 * uint a + uint b) mod M
      | Alu_ANDN \<Rightarrow> \<forall>n<N. bit r n \<longleftrightarrow> bit a n \<and> \<not> bit b n
      | Alu_ORN \<Rightarrow> \<forall>n<N. bit r n \<longleftrightarrow> bit a n \<or> \<not> bit b n
      | Alu_XNOR \<Rightarrow> \<forall>n<N. bit r n \<longleftrightarrow> bit a n = bit b n
      | Alu_CLZ \<Rightarrow> unat r \<le> N \<and> (\<forall>i < unat r. \<not> bit a (N - 1 - i)) \<and> (unat r < N \<longrightarrow> bit a (N - 1 - unat r))
      | Alu_CTZ \<Rightarrow> unat r \<le> N \<and> (\<forall>i < unat r. \<not> bit a i) \<and> (unat r < N \<longrightarrow> bit a (unat r))
      | Alu_CPOP \<Rightarrow> unat r = card {n. bit a n}
      | Alu_MAX \<Rightarrow> sint r = max (sint a) (sint b)
      | Alu_MAXU \<Rightarrow> uint r = max (uint a) (uint b)
      | Alu_MIN \<Rightarrow> sint r = min (sint a) (sint b)
      | Alu_MINU \<Rightarrow> uint r = min (uint a) (uint b)
      | Alu_SEXTB \<Rightarrow> sint r = signed_take_bit 7 (uint a)
      | Alu_SEXTH \<Rightarrow> sint r = signed_take_bit 15 (uint a)
      | Alu_ZEXTH \<Rightarrow> uint r = uint a mod 2 ^ 16
      | Alu_ORCB \<Rightarrow> \<forall>n<N. bit r n \<longleftrightarrow> (\<exists>k<8. bit a (8 * (n div 8) + k))
      | Alu_REV8 \<Rightarrow> \<forall>n<N. bit r n \<longleftrightarrow> bit a (N - 8 - 8 * (n div 8) + n mod 8)
      | Alu_CZEROEQZ \<Rightarrow> r = (if b = 0 then 0 else a)
      | Alu_CZERONEZ \<Rightarrow> r = (if b = 0 then a else 0))"

lemma bit_word_rev: "n < LENGTH('a) \<Longrightarrow> bit (word_rev (v :: 'a::len word)) n = bit v (LENGTH('a) - 1 - n)"
  by (simp add: word_rev_def bit_bits_to_word rev_nth)

lemma bit_word_cat_fill:
  assumes "k \<le> LENGTH('a)" "n < LENGTH('a)"
  shows "bit (word_cat_fill k b (v :: 'a::len word)) n = (if n < k then bit v n else b)"
  using assms by (simp add: word_cat_fill_def bit_bits_to_word nth_append bslice_def)

lemma sint_word_cat_fill:
  assumes "0 < k" "k \<le> LENGTH('a)"
  shows "sint (word_cat_fill k (bit v (k - 1)) (v :: 'a::len word)) = signed_take_bit (k - 1) (uint v)"
proof (rule bit_eqI)
  fix n
  let ?w = "word_cat_fill k (bit v (k - 1)) v"
  have "min n (LENGTH('a) - 1) < LENGTH('a)" using assms by (simp add: min_less_iff_disj)
  then have "bit (sint ?w) n \<longleftrightarrow> (if min n (LENGTH('a) - 1) < k then bit v (min n (LENGTH('a) - 1)) else bit v (k - 1))"
    using bit_word_cat_fill [OF assms(2), of "min n (LENGTH('a) - 1)"]
    by (auto simp: bit_sint_iff min_def dest: bit_imp_le_length)
  also have "\<dots> \<longleftrightarrow> bit v (min n (k - 1))"
    using assms by (cases "n < k") (auto simp: min_def)
  also have "\<dots> \<longleftrightarrow> bit (signed_take_bit (k - 1) (uint v)) n"
    by (auto simp: bit_signed_take_bit_iff bit_uint_iff min.commute dest: bit_imp_le_length)
  finally show "bit (sint ?w) n \<longleftrightarrow> bit (signed_take_bit (k - 1) (uint v)) n" .
qed

lemma uint_word_cat_fill:
  assumes "k \<le> LENGTH('a)"
  shows "uint (word_cat_fill k False (v :: 'a::len word)) = uint v mod 2 ^ k"
proof -
  have "uint (word_cat_fill k False v) = take_bit k (uint v)"
    using assms by (intro bit_eqI) (auto simp: bit_uint_iff bit_take_bit_iff bit_word_cat_fill split: if_splits)
  then show ?thesis by (simp add: take_bit_eq_mod)
qed

lemma any_bslice:
  assumes "b \<le> length v"
  shows "any (bslice a b v) \<longleftrightarrow> (\<exists>n. a \<le> n \<and> n < b \<and> v ! n)"
proof
  assume "any (bslice a b v)"
  then obtain i where "i < b - a" "bslice a b v ! i"
    using assms by (auto simp: any_eq in_set_conv_nth)
  then show "\<exists>n. a \<le> n \<and> n < b \<and> v ! n"
    using assms by (intro exI [of _ "a + i"]) (auto simp: bslice_def)
next
  assume "\<exists>n. a \<le> n \<and> n < b \<and> v ! n"
  then obtain n where "a \<le> n" "n < b" "v ! n" by blast
  then show "any (bslice a b v)"
    using assms by (auto simp: any_eq in_set_conv_nth bslice_def intro!: exI [of _ "n - a"])
qed

lemma byte_bound: "8 dvd N \<Longrightarrow> n < (N :: nat) \<Longrightarrow> (n div 8 + 1) * 8 \<le> N"
  by presburger

lemma orcb_bit:
  assumes "8 dvd LENGTH('a)" "n < LENGTH('a)"
  shows "bit (alu_zbb pc clz Alu_ORCB (a :: 'a::len word) b) n \<longleftrightarrow> (\<exists>k<8. bit a (8 * (n div 8) + k))"
proof -
  have le: "(n div 8 + 1) * 8 \<le> LENGTH('a)" using assms by (rule byte_bound)
  have "bit (alu_zbb pc clz Alu_ORCB a b) n \<longleftrightarrow> any (bslice (n div 8 * 8) ((n div 8 + 1) * 8) (word_to_bits a))"
    using assms by (simp add: alu_zbb_def Let_def bit_bits_to_word nth_concat_uniform [where k = 8]
        length_concat_uniform [where k = 8] del: upt_Suc)
  also have "\<dots> \<longleftrightarrow> (\<exists>k<8. bit a (8 * (n div 8) + k))"
    unfolding any_bslice [OF le [folded length_word_to_bits [of a]]]
  proof
    assume "\<exists>m\<ge>n div 8 * 8. m < (n div 8 + 1) * 8 \<and> word_to_bits a ! m"
    then obtain m where "n div 8 * 8 \<le> m" "m < (n div 8 + 1) * 8" "word_to_bits a ! m" by blast
    then show "\<exists>k<8. bit a (8 * (n div 8) + k)" using le by (intro exI [of _ "m - n div 8 * 8"]) auto
  next
    assume "\<exists>k<8. bit a (8 * (n div 8) + k)"
    then obtain k where "k < 8" "bit a (8 * (n div 8) + k)" by blast
    then show "\<exists>m\<ge>n div 8 * 8. m < (n div 8 + 1) * 8 \<and> word_to_bits a ! m"
      using le by (intro exI [of _ "8 * (n div 8) + k"]) auto
  qed
  finally show ?thesis .
qed

lemma rev8_bit:
  assumes "8 dvd LENGTH('a)" "n < LENGTH('a)"
  shows "bit (alu_zbb pc clz Alu_REV8 (a :: 'a::len word) b) n \<longleftrightarrow> bit a (LENGTH('a) - 8 - 8 * (n div 8) + n mod 8)"
proof -
  let ?j = "LENGTH('a) div 8 - n div 8 - 1"
  have j: "?j * 8 = LENGTH('a) - 8 - 8 * (n div 8)" "(?j + 1) * 8 \<le> LENGTH('a)"
    using byte_bound [OF assms] assms(1) by (auto elim!: dvdE simp: algebra_simps)
  have len: "length (let j = LENGTH('a) div 8 - i - 1 in bslice (j * 8) ((j + 1) * 8) (word_to_bits a)) = 8"
    if "i < LENGTH('a) div 8" for i
    using that assms(1) by (auto elim!: dvdE simp: Let_def)
  have n: "n < LENGTH('a) div 8 * 8" using assms by simp
  have "bit (alu_zbb pc clz Alu_REV8 a b) n \<longleftrightarrow>
      (let j = ?j in bslice (j * 8) ((j + 1) * 8) (word_to_bits a)) ! (n mod 8)"
    using assms(2) n nth_concat_uniform [OF len n] length_concat_uniform [OF len]
    by (simp only: alu_zbb_def alu_fn.case Let_def bit_bits_to_word) simp
  also have "\<dots> \<longleftrightarrow> bit a (?j * 8 + n mod 8)"
  proof -
    have "n mod 8 < 8" by simp
    then have "?j * 8 + n mod 8 < LENGTH('a)" using j(2) by simp
    then show ?thesis using j(2) by (simp add: Let_def bslice_def)
  qed
  finally show ?thesis by (simp only: j(1))
qed

lemma card_bits_le: "card {n. bit (v :: 'a::len word) n} \<le> LENGTH('a)"
proof -
  have "{n. bit v n} \<subseteq> {..<LENGTH('a)}" by (auto dest: bit_imp_le_length)
  then show ?thesis using card_mono [of "{..<LENGTH('a)}"] by simp
qed

lemma unat_of_small: "k \<le> LENGTH('a) \<Longrightarrow> unat (of_nat k :: 'a::len word) = k"
  using order.strict_trans1 [OF _ less_exp] by (simp add: unat_of_nat)

text \<open>The bodies of the Zbb functions, in groups.\<close>

lemma zbb_logic:
  "f \<in> {Alu_ANDN, Alu_XNOR, Alu_ORN, Alu_MAX, Alu_MAXU, Alu_MIN, Alu_MINU} \<Longrightarrow>
   alu_spec f a b (alu_zbb pc clz f a b)"
  by (elim insertE emptyE)
    (simp_all add: alu_spec_def alu_zbb_def Let_def bit_and_iff bit_or_iff bit_xor_iff bit_not_iff max_def min_def)

lemma zbb_extend:
  assumes "16 \<le> LENGTH('a)" "f \<in> {Alu_SEXTB, Alu_SEXTH, Alu_ZEXTH}"
  shows "alu_spec f (a :: 'a::len word) b (alu_zbb pc clz f a b)"
  using assms sint_word_cat_fill [of 8 a] sint_word_cat_fill [of 16 a] uint_word_cat_fill [of 16 a]
  by (elim insertE emptyE) (simp_all add: alu_spec_def alu_zbb_def Let_def)

lemma zbb_bytes:
  assumes "8 dvd LENGTH('a)" "f \<in> {Alu_ORCB, Alu_REV8}"
  shows "alu_spec f (a :: 'a::len word) b (alu_zbb pc clz f a b)"
  using assms(2) orcb_bit [OF assms(1), of _ pc clz a b] rev8_bit [OF assms(1), of _ pc clz a b]
  by (elim insertE emptyE) (simp_all add: alu_spec_def)

lemma zbb_ctz:
  assumes "clz_spec clz"
  shows "alu_spec Alu_CTZ a b (alu_zbb pc clz Alu_CTZ (a :: 'a::len word) b)"
proof -
  let ?k = "clz (word_rev a)"
  have k: "?k \<le> LENGTH('a)" "\<And>i. i < ?k \<Longrightarrow> \<not> bit (word_rev a) (LENGTH('a) - 1 - i)"
    "?k < LENGTH('a) \<Longrightarrow> bit (word_rev a) (LENGTH('a) - 1 - ?k)"
    using assms by (simp_all add: clz_spec_def)
  have "\<not> bit a i" if "i < ?k" for i
    using k(1) k(2) [OF that] that by (simp add: bit_word_rev)
  moreover have "?k < LENGTH('a) \<Longrightarrow> bit a ?k" using k(3) by (simp add: bit_word_rev)
  ultimately show ?thesis using k(1) by (simp add: alu_spec_def alu_zbb_def Let_def unat_of_small)
qed

lemma zbb_count:
  "popcount_spec pc \<Longrightarrow> clz_spec clz \<Longrightarrow> f \<in> {Alu_CLZ, Alu_CPOP} \<Longrightarrow> alu_spec f a b (alu_zbb pc clz f a b)"
  by (elim insertE emptyE)
    (simp_all add: alu_spec_def alu_zbb_def Let_def unat_of_small card_bits_le clz_spec_def popcount_spec_def)

lemmas zbb_correct = zbb_logic zbb_extend zbb_bytes zbb_ctz zbb_count

lemma alu_base:
  "f \<in> {Alu_ADD, Alu_SUB, Alu_XOR, Alu_OR, Alu_AND, Alu_SLT, Alu_SLTU} \<Longrightarrow>
   alu_spec f a b (alu_case pc clz cfg a b f)"
  by (elim insertE emptyE)
    (simp_all add: alu_spec_def alu_case_def Let_def bit_and_iff bit_or_iff bit_xor_iff uint_word_ariths)

lemma alu_shadd:
  "zba_enable cfg \<Longrightarrow> f \<in> {Alu_SH1ADD, Alu_SH2ADD, Alu_SH3ADD} \<Longrightarrow>
   alu_spec f a b (alu_case pc clz cfg a b f)"
  by (elim insertE emptyE)
    (simp_all only: alu_spec_def alu_case_def Let_def alu_fn.case if_True push_bit_eq_mult uint_word_of_int,
      simp_all add: mult.commute)

lemma alu_czero:
  "zicond_enable cfg \<Longrightarrow> f \<in> {Alu_CZEROEQZ, Alu_CZERONEZ} \<Longrightarrow>
   alu_spec f a b (alu_case pc clz cfg a b f)"
  by (elim insertE emptyE) (simp_all add: alu_spec_def alu_case_def Let_def)

section \<open>The instruction table\<close>

interpretation alu_tab: fu_table "alu_instructions cfg" True for cfg
proof
  show "table_ok True (alu_instructions cfg)"
    by (cases "zba_enable cfg"; cases "zbb_enable cfg"; cases "zicond_enable cfg")
      (simp_all add: alu_instructions_def)
  show "True = (1 < length (get_op_types (alu_instructions cfg)))"
    by (cases "zba_enable cfg"; cases "zbb_enable cfg"; cases "zicond_enable cfg")
      (simp_all add: alu_instructions_def get_op_types_def)
qed

lemma alu_row_correct:
  assumes "popcount_spec pc" "clz_spec clz" "8 dvd LENGTH('a)" "16 \<le> LENGTH('a)"
    "op \<in> set (alu_instructions cfg)"
  shows "alu_spec (fst op) (a :: 'a::len word) b (alu_case pc clz cfg a b (fst op))"
proof -
  have zbb: "alu_case pc clz cfg a b f = alu_zbb pc clz f a b"
    if "zbb_enable cfg" "f \<in> {Alu_ANDN, Alu_XNOR, Alu_ORN, Alu_MAX, Alu_MAXU, Alu_MIN, Alu_MINU, Alu_REV8,
      Alu_SEXTB, Alu_ZEXTH, Alu_ORCB, Alu_SEXTH, Alu_CLZ, Alu_CTZ, Alu_CPOP}" for f
    using that by (elim insertE emptyE) (simp_all add: alu_case_def)
  show ?thesis
    using assms
    by (auto simp: alu_instructions_def alu_base alu_shadd alu_czero zbb zbb_correct split: if_splits)
qed

text \<open>
  The arithmetic unit executes every instruction of its table: an issued instruction whose
  \<^verbatim>\<open>exec_fn\<close> matches a row gives one result, tagged with the instruction's reorder buffer entry
  and destination and without exception, whose value is what the instruction set prescribes for
  the row's function on the first register and the immediate (or the second register, when the
  immediate is zero).
\<close>

lemma alu_executes:
  fixes arg :: "'a::len issue_arg"
  assumes "popcount_spec pc" "clz_spec clz" "8 dvd LENGTH('a)" "16 \<le> LENGTH('a)"
    "op \<in> set (alu_instructions cfg)" "op_match True (ia_exec_fn arg) op"
  shows "\<exists>r. alu_issue pc clz cfg arg = Some (fu_result arg r) \<and>
    alu_spec (fst op) (s1_val arg) (operand2 arg) r"
proof -
  have "get_decoder (alu_instructions cfg) (ia_exec_fn arg) = [fst op]"
    using assms(5,6) by (rule alu_tab.one_hot)
  then have "alu_issue pc clz cfg arg =
      Some (fu_result arg (alu_case pc clz cfg (s1_val arg) (operand2 arg) (fst op)))"
    by (simp add: alu_issue_def fu_issue_def alu_issue_decoded_def Alu_def)
  then show ?thesis using alu_row_correct [OF assms(1-5)] by blast
qed

text \<open>The library functions, as reference implementations that meet their contracts.\<close>

definition ref_popcount :: "'a::len word \<Rightarrow> nat" where
  "ref_popcount v = length (filter (\<lambda>b. b) (word_to_bits v))"

definition ref_clz :: "'a::len word \<Rightarrow> nat" where
  "ref_clz v = length (takeWhile Not (rev (word_to_bits v)))"

lemma ref_popcount_ok: "popcount_spec ref_popcount"
proof -
  have "{i. i < LENGTH('a) \<and> word_to_bits v ! i} = {n. bit v n}" for v :: "'a word"
    by (rule Collect_cong) (metis bit_imp_le_length nth_word_to_bits)
  then show ?thesis
    by (simp add: popcount_spec_def ref_popcount_def length_filter_conv_card)
qed

lemma ref_clz_ok: "clz_spec (ref_clz :: 'a::len word \<Rightarrow> nat)"
  unfolding clz_spec_def
proof (intro allI conjI impI)
  fix v :: "'a word"
  let ?l = "rev (word_to_bits v)"
  show le: "ref_clz v \<le> LENGTH('a)"
    using length_takeWhile_le [of Not ?l] by (simp add: ref_clz_def)
  show "\<not> bit v (LENGTH('a) - 1 - i)" if "i < ref_clz v" for i
  proof -
    have "\<not> ?l ! i" using that nth_length_takeWhile nth_mem [of i "takeWhile Not ?l"]
      by (metis ref_clz_def set_takeWhileD takeWhile_nth)
    then show ?thesis using that le by (simp add: rev_nth)
  qed
  show "bit v (LENGTH('a) - 1 - ref_clz v)" if "ref_clz v < LENGTH('a)"
    using nth_length_takeWhile [of Not ?l] that by (simp add: ref_clz_def rev_nth)
qed

definition ctz_example :: "32 issue_arg" where
  "ctz_example = \<lparr>s1_val = 0x28, s2_val = 0, rp_dst = 5, rob_id = 3,
     ia_exec_fn = \<lparr>op_type = OpType_UNARY_BIT_MANIPULATION_4, fn_funct3 = to_bits 3 1, fn_funct7 = to_bits 7 0\<rparr>,
     ia_imm = 0, ia_pc = 0, ia_tag = 0, ia_ftq_ptr = 0\<rparr>"

end
