(* ===== verification/Shift_Unit.thy ===== *)
theory Shift_Unit
  imports Fu_Common
begin

text \<open>
  The barrel shifter (\<^verbatim>\<open>func_blocks/fu/shift_unit.py\<close>), with the rotations of Zbb. Wider
  intermediate values, such as the concatenation of the input with its sign or with itself, are
  integers that the assignment cuts to the register width.
\<close>

section \<open>ShiftUnitFn\<close>

datatype shift_fn = Shift_SLL | Shift_SRL | Shift_SRA | Shift_ROR | Shift_ROL

definition shift_instructions :: "bool \<Rightarrow> shift_fn fu_op list" where
  "shift_instructions zbb_enable =
    [(Shift_SLL, OpType_SHIFT, Some F3_SLL, None),
     (Shift_SRL, OpType_SHIFT, Some F3_SR, Some F7_SL),
     (Shift_SRA, OpType_SHIFT, Some F3_SR, Some F7_SA)] @
    (if zbb_enable then
      [(Shift_ROR, OpType_BIT_ROTATION, Some F3_ROR, None),
       (Shift_ROL, OpType_BIT_ROTATION, Some F3_ROL, None)] else [])"

section \<open>ShiftUnit\<close>

text \<open>\<^verbatim>\<open>in2[0:xlen_log]\<close>, with \<^verbatim>\<open>xlen_log\<close> as the ISA class computes it.\<close>

definition shift_amount :: "'a::len word \<Rightarrow> nat" where
  "shift_amount in2 = unat (take_bit (bit_length LENGTH('a) - 1) in2)"

definition cat_words :: "'a::len word \<Rightarrow> 'a word \<Rightarrow> int" where
  "cat_words lo hi = concat_bit LENGTH('a) (uint lo) (uint hi)"

definition shift_case :: "bool \<Rightarrow> 'a::len word \<Rightarrow> 'a word \<Rightarrow> shift_fn \<Rightarrow> 'a word" where
  "shift_case zbb_enable in1 in2 f =
     (let s = shift_amount in2; xlen = LENGTH('a) in
      case f of
        Shift_SLL \<Rightarrow> word_of_int (push_bit s (uint in1))
      | Shift_SRL \<Rightarrow> word_of_int (drop_bit s (uint in1))
      | Shift_SRA \<Rightarrow> word_of_int (drop_bit s (cat_words in1 (if bit in1 (xlen - 1) then mask xlen else 0)))
      | Shift_ROL \<Rightarrow> if zbb_enable then word_of_int (drop_bit xlen (push_bit s (cat_words in1 in1))) else 0
      | Shift_ROR \<Rightarrow> if zbb_enable then word_of_int (drop_bit s (cat_words in1 in1)) else 0)"

definition ShiftUnit :: "bool \<Rightarrow> shift_fn list \<Rightarrow> 'a::len word \<Rightarrow> 'a word \<Rightarrow> 'a word option" where
  "ShiftUnit zbb_enable fn in1 in2 = one_hot_switch fn (shift_case zbb_enable in1 in2)"

definition shift_issue_decoded :: "bool \<Rightarrow> 'a::len issue_arg \<Rightarrow> shift_fn list \<Rightarrow> 'a result_arg option" where
  "shift_issue_decoded zbb_enable arg fn =
     map_option (fu_result arg) (ShiftUnit zbb_enable fn (s1_val arg) (operand2 arg))"

definition shift_issue :: "bool \<Rightarrow> 'a::len issue_arg \<Rightarrow> 'a result_arg option" where
  "shift_issue zbb_enable = fu_issue (shift_instructions zbb_enable) (shift_issue_decoded zbb_enable)"

section \<open>What the instructions compute\<close>

definition shift_spec :: "shift_fn \<Rightarrow> 'a::len word \<Rightarrow> 'a word \<Rightarrow> 'a word \<Rightarrow> bool" where
  "shift_spec f a b r =
     (let N = LENGTH('a); s = unat b mod LENGTH('a) in
      case f of
        Shift_SLL \<Rightarrow> uint r = uint a * 2 ^ s mod 2 ^ N
      | Shift_SRL \<Rightarrow> uint r = uint a div 2 ^ s
      | Shift_SRA \<Rightarrow> sint r = sint a div 2 ^ s
      | Shift_ROL \<Rightarrow> \<forall>n<N. bit r ((n + s) mod N) \<longleftrightarrow> bit a n
      | Shift_ROR \<Rightarrow> \<forall>n<N. bit r n \<longleftrightarrow> bit a ((n + s) mod N))"

lemma shift_amount_eq:
  assumes "LENGTH('a) = 2 ^ (bit_length LENGTH('a) - 1)"
  shows "shift_amount (b :: 'a::len word) = unat b mod LENGTH('a)"
proof -
  have "shift_amount b = unat b mod 2 ^ (bit_length LENGTH('a) - 1)"
    unfolding shift_amount_def unsigned_take_bit_eq by (rule take_bit_eq_mod)
  then show ?thesis unfolding assms [symmetric] .
qed

lemma bit_cat_words:
  "bit (cat_words lo hi) n \<longleftrightarrow> (if n < LENGTH('a) then bit lo n else bit hi (n - LENGTH('a)))"
  for lo hi :: "'a::len word"
  by (auto simp: cat_words_def bit_concat_bit_iff bit_uint_iff dest: bit_imp_le_length)

lemma sll_correct:
  "uint (shift_case z (a :: 'a::len word) b Shift_SLL) = uint a * 2 ^ shift_amount b mod 2 ^ LENGTH('a)"
  unfolding shift_case_def Let_def shift_fn.case uint_word_of_int push_bit_eq_mult ..

lemma srl_correct: "uint (shift_case z (a :: 'a::len word) b Shift_SRL) = uint a div 2 ^ shift_amount b"
proof -
  have "uint a div 2 ^ shift_amount b \<le> uint a" using zdiv_mono2 [of "uint a" 1] by simp
  then have "uint a div 2 ^ shift_amount b < 2 ^ LENGTH('a)" using uint_lt2p [of a] by (rule order.strict_trans1)
  then show ?thesis
    unfolding shift_case_def Let_def shift_fn.case uint_word_of_int drop_bit_eq_div
    by (intro mod_pos_pos_trivial) (simp_all add: pos_imp_zdiv_nonneg_iff)
qed

lemma sra_correct:
  assumes "shift_amount b = s" "s < LENGTH('a)"
  shows "sint (shift_case z (a :: 'a::len word) b Shift_SRA) = sint a div 2 ^ s"
proof -
  have "sint (shift_case z a b Shift_SRA) = drop_bit s (sint a)"
  proof (rule bit_eqI)
    fix n
    let ?k = "min n (LENGTH('a) - 1)"
    have "bit (sint (shift_case z a b Shift_SRA)) n \<longleftrightarrow> bit (shift_case z a b Shift_SRA) ?k"
      by (simp add: bit_sint_iff min_def) (metis bit_imp_le_length not_less)
    also have "\<dots> \<longleftrightarrow> bit a (min (s + n) (LENGTH('a) - 1))"
      using assms by (cases "s = 0") (auto simp: shift_case_def Let_def bit_word_of_int_iff bit_drop_bit_eq
          bit_cat_words bit_mask_iff min_def)
    also have "\<dots> \<longleftrightarrow> bit (drop_bit s (sint a)) n"
      by (simp add: bit_drop_bit_eq bit_sint_iff min_def) (metis bit_imp_le_length not_less)
    finally show "bit (sint (shift_case z a b Shift_SRA)) n \<longleftrightarrow> bit (drop_bit s (sint a)) n" .
  qed
  then show ?thesis by (simp add: drop_bit_eq_div)
qed

lemma ror_correct:
  assumes "shift_amount b = s" "s < LENGTH('a)" "n < LENGTH('a)"
  shows "bit (shift_case True (a :: 'a::len word) b Shift_ROR) n \<longleftrightarrow> bit a ((n + s) mod LENGTH('a))"
  using assms by (simp add: shift_case_def Let_def bit_word_of_int_iff bit_drop_bit_eq bit_cat_words mod_if
      add.commute)

lemma rol_correct:
  assumes "shift_amount b = s" "s < LENGTH('a)" "n < LENGTH('a)"
  shows "bit (shift_case True (a :: 'a::len word) b Shift_ROL) ((n + s) mod LENGTH('a)) \<longleftrightarrow> bit a n"
  using assms by (simp add: shift_case_def Let_def bit_word_of_int_iff bit_drop_bit_eq bit_push_bit_iff
      bit_cat_words mod_if) auto

interpretation shift_tab: fu_table "shift_instructions z" z for z
  by unfold_locales (cases z; simp add: shift_instructions_def get_op_types_def)+

text \<open>
  The shift unit executes every instruction of its table, for a register width that is the
  power of two the ISA class computes: shifts left and right are multiplication and division by
  the power of two in the low bits of the second operand, on unsigned or signed values, and the
  rotations move every bit by that amount around the register.
\<close>

theorem shift_executes:
  fixes arg :: "'a::len issue_arg"
  assumes "LENGTH('a) = 2 ^ (bit_length LENGTH('a) - 1)"
    "op \<in> set (shift_instructions z)" "op_match z (ia_exec_fn arg) op"
  shows "\<exists>r. shift_issue z arg = Some (fu_result arg r) \<and>
    shift_spec (fst op) (s1_val arg) (operand2 arg) r"
proof -
  let ?r = "shift_case z (s1_val arg) (operand2 arg) (fst op)"
  have "get_decoder (shift_instructions z) (ia_exec_fn arg) = [fst op]"
    using assms(2,3) by (rule shift_tab.one_hot)
  then have "shift_issue z arg = Some (fu_result arg ?r)"
    by (simp add: shift_issue_def fu_issue_def shift_issue_decoded_def ShiftUnit_def)
  moreover have "shift_spec (fst op) (s1_val arg) (operand2 arg) ?r"
  proof -
    define s where "s = unat (operand2 arg) mod LENGTH('a)"
    have s: "shift_amount (operand2 arg) = s" "s < LENGTH('a)"
      unfolding s_def using shift_amount_eq [OF assms(1)] by simp_all
    show ?thesis
      using assms(2) sra_correct [OF s] ror_correct [OF s] rol_correct [OF s]
      by (auto simp: shift_instructions_def shift_spec_def Let_def sll_correct srl_correct s
          simp flip: s_def split: if_splits)
  qed
  ultimately show ?thesis by blast
qed

definition sra_example :: "32 issue_arg" where
  "sra_example = \<lparr>s1_val = 0x80000000, s2_val = 0, rp_dst = 7, rob_id = 1,
     ia_exec_fn = \<lparr>op_type = OpType_SHIFT, fn_funct3 = to_bits 3 5, fn_funct7 = to_bits 7 32\<rparr>,
     ia_imm = 4, ia_pc = 0, ia_tag = 0, ia_ftq_ptr = 0\<rparr>"

theorem shift_executes_witness:
  "\<exists>r. shift_issue True sra_example = Some (fu_result sra_example r) \<and>
     sint r = sint (0x80000000 :: 32 word) div 2 ^ 4"
  using shift_executes [where 'a = 32, of "(Shift_SRA, OpType_SHIFT, Some F3_SR, Some F7_SA)" True sra_example]
  by (simp add: shift_instructions_def op_match_def sra_example_def operand2_def shift_spec_def)

end
