(* ===== verification/Zb_Units.thy ===== *)
theory Zb_Units
  imports Alu Shift_Unit
begin

text \<open>
  The single-bit unit (\<^verbatim>\<open>func_blocks/fu/zbs.py\<close>) and the crossbar permutation unit
  (\<^verbatim>\<open>func_blocks/fu/zbkx.py\<close>).
\<close>

section \<open>Zbs\<close>

datatype zbs_fn = Zbs_BCLR | Zbs_BEXT | Zbs_BINV | Zbs_BSET

definition zbs_instructions :: "zbs_fn fu_op list" where
  "zbs_instructions =
    [(Zbs_BCLR, OpType_SINGLE_BIT_MANIPULATION, Some F3_BCLR, Some F7_BCLR),
     (Zbs_BEXT, OpType_SINGLE_BIT_MANIPULATION, Some F3_BEXT, Some F7_BEXT),
     (Zbs_BINV, OpType_SINGLE_BIT_MANIPULATION, Some F3_BINV, Some F7_BINV),
     (Zbs_BSET, OpType_SINGLE_BIT_MANIPULATION, Some F3_BSET, Some F7_BSET)]"

definition zbs_case :: "'a::len word \<Rightarrow> 'a word \<Rightarrow> zbs_fn \<Rightarrow> 'a word" where
  "zbs_case in1 in2 f =
     (let one = push_bit (shift_amount in2) 1 in
      case f of
        Zbs_BCLR \<Rightarrow> in1 AND NOT one
      | Zbs_BEXT \<Rightarrow> drop_bit (shift_amount in2) in1 AND 1
      | Zbs_BINV \<Rightarrow> in1 XOR one
      | Zbs_BSET \<Rightarrow> in1 OR one)"

definition Zbs :: "zbs_fn list \<Rightarrow> 'a::len word \<Rightarrow> 'a word \<Rightarrow> 'a word option" where
  "Zbs fn in1 in2 = one_hot_switch fn (zbs_case in1 in2)"

definition zbs_issue_decoded :: "'a::len issue_arg \<Rightarrow> zbs_fn list \<Rightarrow> 'a result_arg option" where
  "zbs_issue_decoded arg fn = map_option (fu_result arg) (Zbs fn (s1_val arg) (operand2 arg))"

definition zbs_issue :: "'a::len issue_arg \<Rightarrow> 'a result_arg option" where
  "zbs_issue = fu_issue zbs_instructions zbs_issue_decoded"

section \<open>Zbkx\<close>

datatype zbkx_fn = Zbkx_XPERM4 | Zbkx_XPERM8

definition zbkx_instructions :: "zbkx_fn fu_op list" where
  "zbkx_instructions =
    [(Zbkx_XPERM4, OpType_CROSSBAR_PERMUTATION, Some F3_XPERM4, Some F7_XPERM),
     (Zbkx_XPERM8, OpType_CROSSBAR_PERMUTATION, Some F3_XPERM8, Some F7_XPERM)]"

definition word_select :: "nat \<Rightarrow> nat \<Rightarrow> bits \<Rightarrow> bits" where
  "word_select i w v = bslice (i * w) (i * w + w) v"

definition xperm :: "nat \<Rightarrow> 'a::len word \<Rightarrow> 'a word \<Rightarrow> 'a word" where
  "xperm w in1 in2 =
     (let lane_count = LENGTH('a) div w in
      bits_to_word (concat (map (\<lambda>lane.
        let idx = of_bits (word_select lane w (word_to_bits in2)) in
        if idx < lane_count then word_select idx w (word_to_bits in1) else to_bits w 0) [0..<lane_count])))"

definition zbkx_case :: "'a::len word \<Rightarrow> 'a word \<Rightarrow> zbkx_fn \<Rightarrow> 'a word" where
  "zbkx_case in1 in2 f = (case f of Zbkx_XPERM4 \<Rightarrow> xperm 4 in1 in2 | Zbkx_XPERM8 \<Rightarrow> xperm 8 in1 in2)"

definition Zbkx :: "zbkx_fn list \<Rightarrow> 'a::len word \<Rightarrow> 'a word \<Rightarrow> 'a word option" where
  "Zbkx fn in1 in2 = one_hot_switch fn (zbkx_case in1 in2)"

definition zbkx_issue_decoded :: "'a::len issue_arg \<Rightarrow> zbkx_fn list \<Rightarrow> 'a result_arg option" where
  "zbkx_issue_decoded arg fn = map_option (fu_result arg) (Zbkx fn (s1_val arg) (s2_val arg))"

definition zbkx_issue :: "'a::len issue_arg \<Rightarrow> 'a result_arg option" where
  "zbkx_issue = fu_issue zbkx_instructions zbkx_issue_decoded"

section \<open>What the instructions compute\<close>

text \<open>Lane \<open>i\<close> of width \<open>w\<close> of a register value.\<close>

definition lane :: "nat \<Rightarrow> nat \<Rightarrow> 'a::len word \<Rightarrow> nat" where
  "lane w i v = unat v div 2 ^ (i * w) mod 2 ^ w"

lemma lane_bits: "bit (lane w i v) n \<longleftrightarrow> n < w \<and> bit v (i * w + n)"
  by (simp add: lane_def bit_unsigned_iff flip: take_bit_eq_mod drop_bit_eq_div)
    (auto simp: bit_take_bit_iff bit_drop_bit_eq bit_unsigned_iff)

lemma of_bits_word_select:
  "of_bits (word_select i w (word_to_bits (v :: 'a::len word))) = lane w i v"
proof (rule bit_eqI)
  fix n
  have "bit v (i * w + n) \<Longrightarrow> i * w + n < LENGTH('a)" by (rule bit_imp_le_length)
  then show "bit (of_bits (word_select i w (word_to_bits v))) n \<longleftrightarrow> bit (lane w i v) n"
    by (cases "i * w + n < LENGTH('a)") (auto simp: bit_of_bits word_select_def bslice_def lane_bits)
qed

lemma xperm_lane:
  assumes "w dvd LENGTH('a)" "0 < w" "i < LENGTH('a) div w"
  shows "lane w i (xperm w (a :: 'a::len word) b) =
    (if lane w i b < LENGTH('a) div w then lane w (lane w i b) a else 0)"
proof (rule bit_eqI)
  fix n
  let ?L = "LENGTH('a) div w"
  let ?f = "\<lambda>l. let idx = of_bits (word_select l w (word_to_bits b)) in
      if idx < ?L then word_select idx w (word_to_bits a) else to_bits w 0"
  have bound: "j * w + w \<le> LENGTH('a)" if "j < ?L" for j
    using that assms(1,2) by (metis Suc_leI add.commute dvd_mult_div_cancel mult.commute mult_Suc mult_le_mono1)
  have len: "length (?f j) = w" if "j < ?L" for j
    using bound [of "of_bits (word_select j w (word_to_bits b))"] by (auto simp: Let_def word_select_def)
  have L: "?L * w = LENGTH('a)" using assms(1) by simp
  show "bit (lane w i (xperm w a b)) n \<longleftrightarrow>
    bit (if lane w i b < ?L then lane w (lane w i b) a else 0) n"
  proof (cases "n < w")
    case True
    then have lt: "i * w + n < ?L * w" using bound [OF assms(3)] L by simp
    have "bit (xperm w a b) (i * w + n) \<longleftrightarrow> ?f ((i * w + n) div w) ! ((i * w + n) mod w)"
      using lt L nth_concat_uniform [OF len lt] length_concat_uniform [OF len]
      by (simp only: xperm_def Let_def [of "LENGTH('a) div w"] bit_bits_to_word simp_thms)
    also have "\<dots> \<longleftrightarrow> (if lane w i b < ?L then word_select (lane w i b) w (word_to_bits a) else to_bits w 0) ! n"
      using True by (simp add: of_bits_word_select Let_def)
    finally show ?thesis
      using True bound [of "lane w i b"] by (auto simp: lane_bits nth_to_bits word_select_def bslice_def)
  next
    case False
    then show ?thesis by (simp add: lane_bits)
  qed
qed

interpretation zbs_tab: fu_table zbs_instructions False
  by unfold_locales (simp_all add: zbs_instructions_def get_op_types_def)

interpretation zbkx_tab: fu_table zbkx_instructions False
  by unfold_locales (simp_all add: zbkx_instructions_def get_op_types_def)

definition zbs_spec :: "zbs_fn \<Rightarrow> 'a::len word \<Rightarrow> 'a word \<Rightarrow> 'a word \<Rightarrow> bool" where
  "zbs_spec f a b r =
     (let k = unat b mod LENGTH('a) in
      if f = Zbs_BEXT then r = (if bit a k then 1 else 0)
      else \<forall>n<LENGTH('a). bit r n =
        (if n \<noteq> k then bit a n else f = Zbs_BSET \<or> (f = Zbs_BINV \<and> \<not> bit a k)))"

lemma zbs_case_spec:
  assumes "shift_amount b = unat b mod LENGTH('a)"
  shows "zbs_spec f a b (zbs_case (a :: 'a::len word) b f)"
proof -
  have "bit (zbs_case a b f) n =
      (if n \<noteq> shift_amount b then bit a n else f = Zbs_BSET \<or> (f = Zbs_BINV \<and> \<not> bit a n))"
    if "f \<noteq> Zbs_BEXT" "n < LENGTH('a)" for n
    using that by (cases f) (auto simp: zbs_case_def Let_def bit_and_iff bit_or_iff bit_xor_iff bit_not_iff
        bit_exp_iff)
  moreover have "zbs_case a b Zbs_BEXT = (if bit a (shift_amount b) then 1 else 0)"
    by (simp add: zbs_case_def Let_def and_one_eq bit_iff_odd_drop_bit odd_iff_mod_2_eq_one)
  ultimately show ?thesis by (auto simp: zbs_spec_def Let_def assms)
qed

lemma bit_units_execute:
  fixes arg :: "'a::len issue_arg"
  assumes "LENGTH('a) = 2 ^ (bit_length LENGTH('a) - 1)" "8 dvd LENGTH('a)"
  shows "(op_match False (ia_exec_fn arg) op \<longrightarrow> op \<in> set zbs_instructions \<longrightarrow>
      (\<exists>r. zbs_issue arg = Some (fu_result arg r) \<and> zbs_spec (fst op) (s1_val arg) (operand2 arg) r)) \<and>
    (op_match False (ia_exec_fn arg) op' \<longrightarrow> op' \<in> set zbkx_instructions \<longrightarrow>
      (\<exists>r. zbkx_issue arg = Some (fu_result arg r) \<and>
        (let w = (if fst op' = Zbkx_XPERM4 then 4 else 8); N = LENGTH('a) div w in
         \<forall>i<N. lane w i r = (if lane w i (s2_val arg) < N then lane w (lane w i (s2_val arg)) (s1_val arg) else 0))))"
proof (intro conjI impI)
  assume op: "op_match False (ia_exec_fn arg) op" "op \<in> set zbs_instructions"
  then have "zbs_issue arg = Some (fu_result arg (zbs_case (s1_val arg) (operand2 arg) (fst op)))"
    by (simp add: zbs_issue_def fu_issue_def zbs_issue_decoded_def Zbs_def zbs_tab.one_hot)
  then show "\<exists>r. zbs_issue arg = Some (fu_result arg r) \<and> zbs_spec (fst op) (s1_val arg) (operand2 arg) r"
    using zbs_case_spec [OF shift_amount_eq [OF assms(1)]] by blast
next
  assume op: "op_match False (ia_exec_fn arg) op'" "op' \<in> set zbkx_instructions"
  then have "zbkx_issue arg = Some (fu_result arg (zbkx_case (s1_val arg) (s2_val arg) (fst op')))"
    by (simp add: zbkx_issue_def fu_issue_def zbkx_issue_decoded_def Zbkx_def zbkx_tab.one_hot)
  moreover have "4 dvd LENGTH('a)" using assms(2) by (rule dvd_trans [rotated]) simp
  ultimately show "\<exists>r. zbkx_issue arg = Some (fu_result arg r) \<and>
        (let w = (if fst op' = Zbkx_XPERM4 then 4 else 8); N = LENGTH('a) div w in
         \<forall>i<N. lane w i r = (if lane w i (s2_val arg) < N then lane w (lane w i (s2_val arg)) (s1_val arg) else 0))"
    using assms(2) xperm_lane [of 4, where 'a = 'a] xperm_lane [of 8, where 'a = 'a]
    by (cases "fst op'") (auto simp: zbkx_case_def Let_def)
qed

text \<open>
  C5. The single-cycle units execute every instruction of their tables: an issued instruction whose \<^verbatim>\<open>exec_fn\<close> matches a row gives
  one result, tagged with the instruction's reorder buffer entry and destination and without exception, whose value is what the
  instruction set prescribes for the row's function on the first register and the immediate (or the second register, when the
  immediate is zero). For the arithmetic unit these are additions, comparisons, logic, and the Zba, Zbb and Zicond functions. Shifts and
  rotations move the first operand by the low bits of the second, BEXT returns the selected bit, BCLR, BINV and BSET change only that
  bit, and the permutations select for each lane of the result the lane of the first operand that the same lane of the second operand
  names, or zero when there is no such lane.
\<close>

theorem single_cycle_units_execute:
  fixes arg :: "'a::len issue_arg"
  assumes "popcount_spec pc" "clz_spec clz" "LENGTH('a) = 2 ^ (bit_length LENGTH('a) - 1)" "8 dvd LENGTH('a)" "16 \<le> LENGTH('a)"
  shows "(op_match True (ia_exec_fn arg) op0 \<longrightarrow> op0 \<in> set (alu_instructions cfg) \<longrightarrow>
      (\<exists>r. alu_issue pc clz cfg arg = Some (fu_result arg r) \<and> alu_spec (fst op0) (s1_val arg) (operand2 arg) r)) \<and>
    (op_match z (ia_exec_fn arg) op \<longrightarrow> op \<in> set (shift_instructions z) \<longrightarrow>
      (\<exists>r. shift_issue z arg = Some (fu_result arg r) \<and> shift_spec (fst op) (s1_val arg) (operand2 arg) r)) \<and>
    (op_match False (ia_exec_fn arg) op1 \<longrightarrow> op1 \<in> set zbs_instructions \<longrightarrow>
      (\<exists>r. zbs_issue arg = Some (fu_result arg r) \<and> zbs_spec (fst op1) (s1_val arg) (operand2 arg) r)) \<and>
    (op_match False (ia_exec_fn arg) op2 \<longrightarrow> op2 \<in> set zbkx_instructions \<longrightarrow>
      (\<exists>r. zbkx_issue arg = Some (fu_result arg r) \<and>
        (let w = (if fst op2 = Zbkx_XPERM4 then 4 else 8); N = LENGTH('a) div w in
         \<forall>i<N. lane w i r = (if lane w i (s2_val arg) < N then lane w (lane w i (s2_val arg)) (s1_val arg) else 0))))"
  using alu_executes [OF assms(1,2,4,5), of op0 cfg arg] bit_units_execute [OF assms(3,4), of arg op1 op2]
    shift_executes [OF assms(3), of op z arg] by blast

definition xperm_example :: "32 issue_arg" where
  "xperm_example = \<lparr>s1_val = 0x76543210, s2_val = 0x01234567, rp_dst = 7, rob_id = 1,
     ia_exec_fn = \<lparr>op_type = OpType_CROSSBAR_PERMUTATION, fn_funct3 = to_bits 3 2, fn_funct7 = to_bits 7 20\<rparr>,
     ia_imm = 0, ia_pc = 0, ia_tag = 0, ia_ftq_ptr = 0\<rparr>"

theorem single_cycle_units_execute_witness:
  "(\<exists>r. zbkx_issue xperm_example = Some (fu_result xperm_example r) \<and>
     lane 4 0 r = lane 4 (lane 4 0 (0x01234567 :: 32 word)) (0x76543210 :: 32 word)) \<and>
   (\<exists>r. alu_issue ref_popcount ref_clz \<lparr>zba_enable = True, zbb_enable = True, zicond_enable = True\<rparr> ctz_example =
      Some (fu_result ctz_example r) \<and> alu_spec Alu_CTZ (0x28 :: 32 word) 0 r)"
proof
  have width: "LENGTH(32) = 2 ^ (bit_length LENGTH(32) - 1)" by simp
  have "op_match False (ia_exec_fn xperm_example) (Zbkx_XPERM4, OpType_CROSSBAR_PERMUTATION, Some F3_XPERM4, Some F7_XPERM)"
    by (simp add: op_match_def xperm_example_def)
  moreover have "lane 4 0 (0x01234567 :: 32 word) < 8" by (simp add: lane_def)
  ultimately show "\<exists>r. zbkx_issue xperm_example = Some (fu_result xperm_example r) \<and>
      lane 4 0 r = lane 4 (lane 4 0 (0x01234567 :: 32 word)) (0x76543210 :: 32 word)"
    using single_cycle_units_execute [where 'a = 32, OF ref_popcount_ok ref_clz_ok, THEN conjunct2, THEN conjunct2, THEN conjunct2, of xperm_example
        "(Zbkx_XPERM4, OpType_CROSSBAR_PERMUTATION, Some F3_XPERM4, Some F7_XPERM)"]
    by (auto simp: zbkx_instructions_def Let_def xperm_example_def)
  show "\<exists>r. alu_issue ref_popcount ref_clz \<lparr>zba_enable = True, zbb_enable = True, zicond_enable = True\<rparr> ctz_example =
      Some (fu_result ctz_example r) \<and> alu_spec Alu_CTZ (0x28 :: 32 word) 0 r"
    using single_cycle_units_execute [where 'a = 32, OF ref_popcount_ok ref_clz_ok, THEN conjunct1, of ctz_example
        "(Alu_CTZ, OpType_UNARY_BIT_MANIPULATION_4, Some F3_CTZ, None)" "\<lparr>zba_enable = True, zbb_enable = True, zicond_enable = True\<rparr>"]
    by (simp add: alu_instructions_def op_match_def ctz_example_def operand2_def)
qed

end
