(* ===== verification/Zbc.thy ===== *)
theory Zbc
  imports Fu_Common Alu
begin

text \<open>
  Carry-less multiplication (\<^verbatim>\<open>func_blocks/fu/zbc.py\<close>): the sequential multiplier
  \<^verbatim>\<open>ClMultiplier\<close>, whose recursive form is built from four multipliers of half the width, and
  the unit around it. The state of a multiplier is a tree with the registers of the iterative
  modules at its leaves; one step of it is one clock cycle.
\<close>

section \<open>ZbcFn\<close>

datatype zbc_fn = Zbc_CLMUL | Zbc_CLMULH | Zbc_CLMULR

definition zbc_instructions :: "zbc_fn fu_op list" where
  "zbc_instructions =
    [(Zbc_CLMUL, OpType_CLMUL, Some F3_CLMUL, None),
     (Zbc_CLMULH, OpType_CLMUL, Some F3_CLMULH, None),
     (Zbc_CLMULR, OpType_CLMUL, Some F3_CLMULR, None)]"

section \<open>ClMultiplier\<close>

record clm_regs =
  c_v1 :: nat
  c_v2 :: nat
  c_result :: nat
  c_busy :: bool

text \<open>A multiplier of a given width: iterative, or recursive with submodules ll, lu, ul, uu.\<close>

datatype clm = Iterative nat clm_regs | Recursive nat clm clm clm clm

fun bit_count :: "nat \<Rightarrow> nat" where
  "bit_count n = (if n = 0 then 0 else n mod 2 + bit_count (n div 2))"

declare bit_count.simps [simp del]

text \<open>The constructor with its checks; elaboration builds the submodules, which check again.\<close>

fun ClMultiplier :: "nat \<Rightarrow> nat \<Rightarrow> py_error + clm" where
  "ClMultiplier bit_width 0 =
     (if bit_count bit_width \<noteq> 1 then Inl ValueError
      else if bit_length bit_width \<le> 0 then Inl ValueError
      else Inr (Iterative bit_width \<lparr>c_v1 = 0, c_v2 = 0, c_result = 0, c_busy = False\<rparr>))"
| "ClMultiplier bit_width (Suc depth) =
     (if bit_count bit_width \<noteq> 1 then Inl ValueError
      else if bit_length bit_width \<le> Suc depth then Inl ValueError
      else case ClMultiplier (bit_width div 2) depth of
        Inl e \<Rightarrow> Inl e
      | Inr sub \<Rightarrow> Inr (Recursive bit_width sub sub sub sub))"

definition iterative_step :: "nat \<Rightarrow> bool \<Rightarrow> nat \<Rightarrow> nat \<Rightarrow> clm_regs \<Rightarrow> clm_regs" where
  "iterative_step bit_width reset i1 i2 s =
     (if reset then \<lparr>c_v1 = i1, c_v2 = i2, c_result = 0, c_busy = True\<rparr>
      else if c_v2 s \<noteq> 0 then
        \<lparr>c_v1 = take_bit (bit_width * 2) (push_bit 1 (c_v1 s)), c_v2 = drop_bit 1 (c_v2 s),
         c_result = (if odd (c_v2 s) then c_result s XOR c_v1 s else c_result s), c_busy = True\<rparr>
      else s\<lparr>c_busy := False\<rparr>)"

fun clm_step :: "bool \<Rightarrow> nat \<Rightarrow> nat \<Rightarrow> clm \<Rightarrow> clm" where
  "clm_step reset i1 i2 (Iterative n s) = Iterative n (iterative_step n reset i1 i2 s)"
| "clm_step reset i1 i2 (Recursive n ll lu ul uu) =
     (let half = n div 2; l1 = take_bit half i1; u1 = drop_bit half i1;
          l2 = take_bit half i2; u2 = drop_bit half i2
      in Recursive n (clm_step reset l1 l2 ll) (clm_step reset u1 l2 lu)
           (clm_step reset l1 u2 ul) (clm_step reset u1 u2 uu))"

fun clm_busy :: "clm \<Rightarrow> bool" where
  "clm_busy (Iterative n s) = c_busy s"
| "clm_busy (Recursive n ll lu ul uu) = (clm_busy ll \<or> clm_busy lu \<or> clm_busy ul \<or> clm_busy uu)"

fun clm_result :: "clm \<Rightarrow> nat" where
  "clm_result (Iterative n s) = c_result s"
| "clm_result (Recursive n ll lu ul uu) =
     take_bit (n * 2)
       (push_bit n (clm_result uu) XOR push_bit (n div 2) (clm_result ul)
        XOR push_bit (n div 2) (clm_result lu) XOR clm_result ll)"

section \<open>ZbcUnit\<close>

record zbc_params =
  zp_rob_id :: nat
  zp_rp_dst :: nat
  high_res :: bool
  rev_res :: bool

text \<open>
  \<^verbatim>\<open>issue_decoded\<close>: the entry written to the parameter queue and the inputs with which the
  multiplier is restarted.
\<close>

definition zbc_issue_decoded ::
  "'a::len issue_arg \<Rightarrow> zbc_fn list \<Rightarrow> (zbc_params \<times> 'a word \<times> 'a word) option" where
  "zbc_issue_decoded arg fn =
     one_hot_switch fn (\<lambda>f.
       let i1 = s1_val arg; i2 = operand2 arg;
           params = \<lparr>zp_rob_id = rob_id arg, zp_rp_dst = rp_dst arg, high_res = False, rev_res = False\<rparr>
       in case f of
         Zbc_CLMUL \<Rightarrow> (params, i1, i2)
       | Zbc_CLMULH \<Rightarrow> (params\<lparr>high_res := True\<rparr>, i1, i2)
       | Zbc_CLMULR \<Rightarrow> (params\<lparr>rev_res := True\<rparr>, word_rev i1, word_rev i2))"

definition zbc_issue :: "'a::len issue_arg \<Rightarrow> (zbc_params \<times> 'a word \<times> 'a word) option" where
  "zbc_issue = fu_issue zbc_instructions zbc_issue_decoded"

text \<open>The transaction that takes the parameters and the multiplier's output; ready when it is not busy.\<close>

definition zbc_push :: "zbc_params \<Rightarrow> clm \<Rightarrow> 'a::len result_arg option" where
  "zbc_push params clmul =
     (if clm_busy clmul then None
      else
        let output = clm_result clmul; xlen = LENGTH('a);
            result = (if high_res params then of_nat (drop_bit xlen output) else of_nat (take_bit xlen output)) :: 'a word
        in Some \<lparr>r_rob_id = zp_rob_id params, r_result = (if rev_res params then word_rev result else result),
                 r_rp_dst = zp_rp_dst params, r_exception = False\<rparr>)"

section \<open>The carry-less product\<close>

fun clmul :: "nat \<Rightarrow> nat \<Rightarrow> nat" where
  "clmul a b = (if b = 0 then 0 else (if odd b then a else 0) XOR clmul (push_bit 1 a) (b div 2))"

declare clmul.simps [simp del]

lemma clmul_0 [simp]: "clmul a 0 = 0" "clmul 0 b = 0"
proof -
  show "clmul a 0 = 0" by (simp add: clmul.simps)
  show "clmul 0 b = 0"
  proof (induction b rule: less_induct)
    case (less b)
    then show ?case by (subst clmul.simps) simp
  qed
qed

lemma clmul_step: "clmul a b = (if odd b then a else 0) XOR clmul (push_bit 1 a) (b div 2)"
  by (cases "b = 0") (simp_all add: clmul.simps [of a b])

lemma clmul_push: "clmul (push_bit k a) b = push_bit k (clmul a b)"
proof (induction b arbitrary: a rule: less_induct)
  case (less b)
  show ?case
  proof (cases "b = 0")
    case False
    then have "clmul (push_bit 1 (push_bit k a)) (b div 2) = push_bit k (clmul (push_bit 1 a) (b div 2))"
      using less.IH [of "b div 2" "push_bit 1 a"] by (simp add: ac_simps)
    then show ?thesis by (simp add: clmul_step [of _ b] push_bit_xor)
  qed simp
qed

lemma clmul_xor: "clmul (a XOR a') b = clmul a b XOR clmul a' b"
proof (induction b arbitrary: a a' rule: less_induct)
  case (less b)
  show ?case
  proof (cases "b = 0")
    case False
    then have "clmul (push_bit 1 (a XOR a')) (b div 2) =
        clmul (push_bit 1 a) (b div 2) XOR clmul (push_bit 1 a') (b div 2)"
      using less.IH [of "b div 2" "push_bit 1 a"] by (simp only: push_bit_xor)
    then show ?thesis by (simp add: clmul_step [of _ b] ac_simps)
  qed simp
qed

lemma clmul_split_right:
  "clmul a b = clmul a (take_bit k b) XOR push_bit k (clmul a (drop_bit k b))"
proof (induction k arbitrary: a b)
  case (Suc k)
  have "clmul a b = (if odd b then a else 0) XOR clmul (push_bit 1 a) (b div 2)" by (rule clmul_step)
  also have "clmul (push_bit 1 a) (b div 2) =
      clmul (push_bit 1 a) (take_bit k (b div 2)) XOR push_bit k (clmul (push_bit 1 a) (drop_bit k (b div 2)))"
    by (rule Suc.IH)
  also have "push_bit k (clmul (push_bit 1 a) (drop_bit k (b div 2))) = push_bit (Suc k) (clmul a (drop_bit (Suc k) b))"
    by (simp only: clmul_push push_bit_push_bit drop_bit_Suc) simp
  finally have "clmul a b = ((if odd b then a else 0) XOR clmul (push_bit 1 a) (take_bit k (b div 2)))
      XOR push_bit (Suc k) (clmul a (drop_bit (Suc k) b))" by (simp only: xor.assoc)
  moreover have "take_bit (Suc k) b div 2 = take_bit k (b div 2)" "odd (take_bit (Suc k) b) = odd b"
    by (simp_all add: take_bit_Suc)
  ultimately show ?case by (simp only: clmul_step [of a "take_bit (Suc k) b"])
qed simp

lemma split_low_high: "(a :: nat) = take_bit k a XOR push_bit k (drop_bit k a)"
  by (rule bit_eqI) (auto simp: bit_xor_iff bit_take_bit_iff bit_push_bit_iff bit_drop_bit_eq)

lemma clmul_split:
  "clmul a b = push_bit (k + k) (clmul (drop_bit k a) (drop_bit k b)) XOR push_bit k (clmul (take_bit k a) (drop_bit k b))
     XOR push_bit k (clmul (drop_bit k a) (take_bit k b)) XOR clmul (take_bit k a) (take_bit k b)"
proof -
  have "clmul a c = clmul (take_bit k a) c XOR push_bit k (clmul (drop_bit k a) c)" for c
    by (subst split_low_high [of a k]) (simp only: clmul_xor clmul_push)
  then show ?thesis
    by (subst clmul_split_right [of a b k]) (simp add: push_bit_xor ac_simps)
qed

lemma xor_less: "(a :: nat) < 2 ^ k \<Longrightarrow> b < 2 ^ k \<Longrightarrow> a XOR b < 2 ^ k"
  by (simp add: take_bit_xor flip: take_bit_nat_eq_self_iff)

lemma clmul_less: "a < 2 ^ n \<Longrightarrow> b < 2 ^ m \<Longrightarrow> clmul a b < 2 ^ (n + m)"
proof (induction m arbitrary: a b n)
  case (Suc m)
  then have "push_bit 1 a < 2 ^ Suc n" "b div 2 < 2 ^ m" by (simp_all add: push_bit_eq_mult less_mult_imp_div_less)
  then have "clmul (push_bit 1 a) (b div 2) < 2 ^ (Suc n + m)" by (rule Suc.IH)
  moreover have "(if odd b then a else 0) < 2 ^ (n + Suc m)"
    using order.strict_trans2 [OF Suc.prems(1) power_increasing [of n "n + Suc m"]] by auto
  ultimately show ?case by (subst clmul_step) (intro xor_less, simp_all)
qed simp

section \<open>The multiplier computes the carry-less product\<close>

definition iter_inv :: "nat \<Rightarrow> nat \<Rightarrow> nat \<Rightarrow> nat \<Rightarrow> clm_regs \<Rightarrow> bool" where
  "iter_inv n a b j s \<longleftrightarrow> j \<le> n \<and> c_v1 s < 2 ^ (n + j) \<and> c_v2 s < 2 ^ (n - j) \<and>
     c_result s XOR clmul (c_v1 s) (c_v2 s) = clmul a b \<and> (c_busy s \<or> c_v2 s = 0)"

lemma iter_inv_reset:
  "a < 2 ^ n \<Longrightarrow> b < 2 ^ n \<Longrightarrow> iter_inv n a b 0 (iterative_step n True a b s)"
  by (simp add: iter_inv_def iterative_step_def)

lemma iter_inv_step:
  assumes "iter_inv n a b j s"
  shows "iter_inv n a b (min n (Suc j)) (iterative_step n False x y s) \<and>
    (j = n \<longrightarrow> \<not> c_busy (iterative_step n False x y s))"
proof (cases "c_v2 s = 0")
  case True
  have "(2 :: nat) ^ (n + j) \<le> 2 ^ (n + min n (Suc j))"
    using assms by (intro power_increasing) (auto simp: iter_inv_def)
  then have "c_v1 s < 2 ^ (n + min n (Suc j))" using assms by (simp only: iter_inv_def) linarith
  then show ?thesis using True assms by (auto simp: iter_inv_def iterative_step_def)
next
  case False
  have j: "j < n" using False assms by (cases "j = n") (auto simp: iter_inv_def)
  have v1: "push_bit 1 (c_v1 s) < 2 ^ (n + Suc j)" using assms by (simp add: iter_inv_def push_bit_eq_mult)
  also have "(2 :: nat) ^ (n + Suc j) \<le> 2 ^ (n * 2)" using j by (intro power_increasing) simp_all
  finally have full: "take_bit (n * 2) (push_bit 1 (c_v1 s)) = push_bit 1 (c_v1 s)"
    by (simp only: take_bit_nat_eq_self_iff)
  have v2: "drop_bit 1 (c_v2 s) < 2 ^ (n - Suc j)"
  proof -
    have "2 ^ (n - j) = (2 :: nat) * 2 ^ (n - Suc j)" using j by (simp add: Suc_diff_Suc flip: power_Suc)
    then show ?thesis using assms by (simp add: iter_inv_def drop_bit_eq_div less_mult_imp_div_less)
  qed
  have "(if odd (c_v2 s) then c_result s XOR c_v1 s else c_result s) XOR
      clmul (push_bit 1 (c_v1 s)) (drop_bit 1 (c_v2 s)) = clmul a b"
    using assms clmul_step [of "c_v1 s" "c_v2 s"] by (auto simp: iter_inv_def xor.assoc drop_bit_eq_div split: if_splits)
  then show ?thesis
    using False j v1 v2 by (simp add: iter_inv_def iterative_step_def full del: One_nat_def)
qed

fun clm_wf :: "nat \<Rightarrow> clm \<Rightarrow> bool" where
  "clm_wf n (Iterative w s) \<longleftrightarrow> w = n"
| "clm_wf n (Recursive w ll lu ul uu) \<longleftrightarrow>
     w = n \<and> even n \<and> 0 < n \<and> clm_wf (n div 2) ll \<and> clm_wf (n div 2) lu \<and> clm_wf (n div 2) ul \<and> clm_wf (n div 2) uu"

fun clm_inv :: "nat \<Rightarrow> nat \<Rightarrow> nat \<Rightarrow> nat \<Rightarrow> clm \<Rightarrow> bool" where
  "clm_inv n a b j (Iterative w s) \<longleftrightarrow> iter_inv n a b (min n j) s \<and> (n < j \<longrightarrow> \<not> c_busy s)"
| "clm_inv n a b j (Recursive w ll lu ul uu) \<longleftrightarrow>
     (let h = n div 2 in clm_inv h (take_bit h a) (take_bit h b) j ll \<and> clm_inv h (drop_bit h a) (take_bit h b) j lu \<and>
        clm_inv h (take_bit h a) (drop_bit h b) j ul \<and> clm_inv h (drop_bit h a) (drop_bit h b) j uu)"

lemma clm_wf_step: "clm_wf n s \<Longrightarrow> clm_wf n (clm_step r x y s)"
  by (induction n s arbitrary: x y rule: clm_wf.induct) (auto simp: Let_def)

lemma drop_half_less: "even n \<Longrightarrow> (a :: nat) < 2 ^ n \<Longrightarrow> drop_bit (n div 2) a < 2 ^ (n div 2)"
  by (auto elim!: evenE simp: drop_bit_eq_div less_mult_imp_div_less power_mult power2_eq_square mult_2 power_add)

lemma clm_inv_reset:
  "clm_wf n s \<Longrightarrow> a < 2 ^ n \<Longrightarrow> b < 2 ^ n \<Longrightarrow> clm_inv n a b 0 (clm_step True a b s)"
proof (induction n s arbitrary: a b rule: clm_wf.induct)
  case (1 n w s)
  then show ?case by (simp add: iter_inv_reset)
next
  case (2 n w ll lu ul uu)
  then show ?case by (simp add: Let_def drop_half_less)
qed

lemma clm_inv_step: "clm_wf n s \<Longrightarrow> clm_inv n a b j s \<Longrightarrow> clm_inv n a b (Suc j) (clm_step False x y s)"
proof (induction n s arbitrary: a b x y rule: clm_wf.induct)
  case (1 n w s)
  then show ?case using iter_inv_step [of n a b "min n j" s x y] by (auto simp: min_def split: if_splits)
next
  case (2 n w ll lu ul uu)
  then show ?case by (simp add: Let_def)
qed

lemma clm_inv_done:
  "clm_wf n s \<Longrightarrow> a < 2 ^ n \<Longrightarrow> b < 2 ^ n \<Longrightarrow> clm_inv n a b j s \<Longrightarrow> \<not> clm_busy s \<Longrightarrow> clm_result s = clmul a b"
proof (induction n s arbitrary: a b rule: clm_wf.induct)
  case (1 n w s)
  then show ?case by (auto simp: iter_inv_def)
next
  case (2 n w ll lu ul uu)
  have half: "n div 2 + n div 2 = n" using 2(5) by auto
  have "clmul a b < 2 ^ (n * 2)" using clmul_less [OF 2(6,7)] by (simp add: mult_2_right)
  then have "take_bit (n * 2) (clmul a b) = clmul a b" by (simp add: take_bit_nat_eq_self_iff)
  moreover have "clm_result ll = clmul (take_bit (n div 2) a) (take_bit (n div 2) b)"
    "clm_result lu = clmul (drop_bit (n div 2) a) (take_bit (n div 2) b)"
    "clm_result ul = clmul (take_bit (n div 2) a) (drop_bit (n div 2) b)"
    "clm_result uu = clmul (drop_bit (n div 2) a) (drop_bit (n div 2) b)"
    using 2 by (simp_all add: Let_def drop_half_less)
  moreover have "w = n" using 2(5) by simp
  ultimately show ?case using clmul_split [of a b "n div 2"] by (simp only: clm_result.simps half)
qed

lemma clm_inv_busy: "clm_wf n s \<Longrightarrow> n < j \<Longrightarrow> clm_inv n a b j s \<Longrightarrow> \<not> clm_busy s"
proof (induction n s arbitrary: a b rule: clm_wf.induct)
  case (2 n w ll lu ul uu)
  have "n div 2 < j" using 2(6) by simp
  with 2 show ?case by (auto simp: Let_def)
qed simp

text \<open>A run: the cycle that restarts the multiplier, then cycles without a restart.\<close>

definition clm_run :: "nat \<Rightarrow> nat \<Rightarrow> (nat \<times> nat) list \<Rightarrow> clm \<Rightarrow> clm" where
  "clm_run a b idle s = fold (\<lambda>(x, y). clm_step False x y) idle (clm_step True a b s)"

lemma clm_run_inv:
  assumes "clm_wf n s" "a < 2 ^ n" "b < 2 ^ n"
  shows "clm_wf n (clm_run a b idle s) \<and> clm_inv n a b (length idle) (clm_run a b idle s)"
proof -
  have "clm_wf n t \<Longrightarrow> clm_inv n a b j t \<Longrightarrow>
      clm_wf n (fold (\<lambda>(x, y). clm_step False x y) idle t) \<and>
      clm_inv n a b (j + length idle) (fold (\<lambda>(x, y). clm_step False x y) idle t)" for j t
  proof (induction idle arbitrary: j t)
    case (Cons xy idle)
    obtain x y where "xy = (x, y)" by (cases xy)
    with Cons.IH [of "clm_step False x y t" "Suc j"] Cons.prems show ?case
      by (simp add: clm_wf_step clm_inv_step)
  qed simp
  from this [of "clm_step True a b s" 0] show ?thesis
    using assms by (simp add: clm_run_def clm_wf_step clm_inv_reset)
qed

lemma ClMultiplier_wf:
  "ClMultiplier n d = Inr s \<Longrightarrow> clm_wf n s \<and> \<not> clm_busy s"
proof (induction d arbitrary: n s)
  case 0
  then show ?case by (auto split: if_splits)
next
  case (Suc d)
  then obtain sub where sub: "ClMultiplier (n div 2) d = Inr sub" "s = Recursive n sub sub sub sub"
    and n: "bit_count n = 1" "bit_length n > Suc d"
    by (auto split: if_splits sum.splits)
  have "0 < n" using n(2) by (cases n) (simp_all add: bit_length.simps)
  moreover have "even n"
  proof (rule ccontr)
    assume odd: "odd n"
    then have "bit_count (n div 2) = 0" using n(1) \<open>0 < n\<close> by (simp add: bit_count.simps [of n] odd_iff_mod_2_eq_one)
    moreover have "bit_count (n div 2) = 1" using sub(1) by (cases d) (auto split: if_splits)
    ultimately show False by simp
  qed
  ultimately show ?case using Suc.IH [OF sub(1)] sub(2) by simp
qed

text \<open>A bit of the product is the parity of the partial products that meet in it.\<close>

lemma clmul_bit: "bit (clmul a b) k \<longleftrightarrow> odd (card {i. i \<le> k \<and> bit b i \<and> bit a (k - i)})"
proof (induction b arbitrary: a rule: less_induct)
  case (less b)
  let ?S = "\<lambda>a b. {i. i \<le> k \<and> bit b i \<and> bit a (k - i)}"
  show ?case
  proof (cases "b = 0")
    case False
    have shift: "?S a b - {0} = Suc ` {i. Suc i \<le> k \<and> bit (b div 2) i \<and> bit a (k - Suc i)}"
      by (auto simp: image_iff simp flip: bit_Suc) (metis not0_implies_Suc)
    have sub: "?S (push_bit 1 a) (b div 2) = {i. Suc i \<le> k \<and> bit (b div 2) i \<and> bit a (k - Suc i)}"
      by (auto simp: bit_push_bit_iff Suc_le_eq simp del: One_nat_def) simp_all
    have fin: "finite (?S a b)" by simp
    have "card (?S a b) = (if odd b \<and> bit a k then 1 else 0) + card (?S a b - {0})"
      using card.remove [OF fin, of 0] by (cases "odd b \<and> bit a k") (auto simp: bit_0)
    also have "card (?S a b - {0}) = card (?S (push_bit 1 a) (b div 2))"
      unfolding shift sub by (simp add: card_image)
    finally have "odd (card (?S a b)) \<longleftrightarrow> (odd b \<and> bit a k) \<noteq> odd (card (?S (push_bit 1 a) (b div 2)))"
      by simp
    then show ?thesis
      using less.IH [of "b div 2" "push_bit 1 a"] False by (simp add: clmul_step [of a b] bit_xor_iff)
  qed simp
qed

lemma clmul_rev_bit:
  fixes a b :: "'a::len word"
  assumes "k < LENGTH('a)"
  shows "bit (clmul (unat (word_rev a)) (unat (word_rev b))) (LENGTH('a) - 1 - k) \<longleftrightarrow>
    bit (clmul (unat a) (unat b)) (k + (LENGTH('a) - 1))"
proof -
  let ?N = "LENGTH('a)"
  let ?A = "{i. i \<le> ?N - 1 - k \<and> bit (unat (word_rev b)) i \<and> bit (unat (word_rev a)) (?N - 1 - k - i)}"
  let ?B = "{i. i \<le> k + (?N - 1) \<and> bit (unat b) i \<and> bit (unat a) (k + (?N - 1) - i)}"
  have len: "i < ?N" if "bit (unat (v :: 'a word)) i" for v i
    using that by (auto simp: bit_unsigned_iff dest: bit_imp_le_length)
  have "bij_betw (\<lambda>i. ?N - 1 - i) ?A ?B"
  proof (rule bij_betw_byWitness [where f' = "\<lambda>i. ?N - 1 - i"])
    show "\<forall>i\<in>?A. ?N - 1 - (?N - 1 - i) = i" using assms by auto
    show "\<forall>i\<in>?B. ?N - 1 - (?N - 1 - i) = i" using len by fastforce
    show "(\<lambda>i. ?N - 1 - i) ` ?A \<subseteq> ?B"
      using assms by (auto simp: bit_unsigned_iff bit_word_rev)
    show "(\<lambda>i. ?N - 1 - i) ` ?B \<subseteq> ?A"
    proof
      fix x
      assume "x \<in> (\<lambda>i. ?N - 1 - i) ` ?B"
      then obtain i where i: "i \<in> ?B" "x = ?N - 1 - i" by blast
      then have "i < ?N" "k + (?N - 1) - i < ?N" using len by auto
      with i assms show "x \<in> ?A" by (auto simp: bit_unsigned_iff bit_word_rev add.commute)
    qed
  qed
  then show ?thesis by (simp only: clmul_bit bij_betw_same_card)
qed

interpretation zbc_tab: fu_table zbc_instructions False
  by unfold_locales (simp_all add: zbc_instructions_def get_op_types_def)

definition zbc_spec :: "zbc_fn \<Rightarrow> 'a::len word \<Rightarrow> 'a word \<Rightarrow> 'a word" where
  "zbc_spec f a b =
     (let p = clmul (unat a) (unat b); N = LENGTH('a) in
      case f of Zbc_CLMUL \<Rightarrow> of_nat p | Zbc_CLMULH \<Rightarrow> of_nat (p div 2 ^ N) | Zbc_CLMULR \<Rightarrow> of_nat (p div 2 ^ (N - 1)))"

lemma of_nat_take_bit [simp]: "(of_nat (take_bit LENGTH('a) n) :: 'a::len word) = of_nat n"
  by (rule bit_word_eqI) (simp add: bit_of_nat_iff bit_take_bit_iff)

lemma zbc_result:
  fixes arg :: "'a::len issue_arg"
  assumes "zbc_issue_decoded arg [f] = Some (p, v1, v2)" "\<not> clm_busy s" "clm_result s = clmul (unat v1) (unat v2)"
  shows "zbc_push p s = Some (fu_result arg (zbc_spec f (s1_val arg) (operand2 arg)))"
proof (cases f)
  case Zbc_CLMULR
  have "word_rev (of_nat (clmul (unat (word_rev a)) (unat (word_rev b))) :: 'a word) =
      of_nat (clmul (unat a) (unat b) div 2 ^ (LENGTH('a) - 1))" for a b :: "'a word"
  proof (rule bit_word_eqI)
    fix n assume "n < LENGTH('a)"
    with clmul_rev_bit [of n a b]
    show "bit (word_rev (of_nat (clmul (unat (word_rev a)) (unat (word_rev b))) :: 'a word)) n =
        bit (of_nat (clmul (unat a) (unat b) div 2 ^ (LENGTH('a) - 1)) :: 'a word) n"
      by (simp add: bit_word_rev bit_of_nat_iff bit_drop_bit_eq add.commute flip: drop_bit_eq_div)
  qed
  then show ?thesis using assms Zbc_CLMULR
    by (auto simp: zbc_issue_decoded_def Let_def zbc_push_def fu_result_def zbc_spec_def)
qed (use assms in \<open>auto simp: zbc_issue_decoded_def Let_def zbc_push_def fu_result_def zbc_spec_def drop_bit_eq_div\<close>)

text \<open>
  C6. The carry-less unit: from any multiplier that the constructor builds for the register width,
  whatever it did before, issuing an instruction of the table and then letting any number of cycles
  pass gives, once the multiplier is no longer busy, the low, high or reversed part of the
  carry-less product of the operands, and it is no longer busy after one cycle more than the
  register has bits.
\<close>

theorem zbc_executes:
  fixes arg :: "'a::len issue_arg"
  assumes "ClMultiplier LENGTH('a) depth = Inr s0" "op \<in> set zbc_instructions" "op_match False (ia_exec_fn arg) op"
  shows "\<exists>p v1 v2. zbc_issue arg = Some (p, v1, v2) \<and>
    (\<forall>history idle. let s = clm_run (unat v1) (unat v2) idle (fold (\<lambda>(r, x, y). clm_step r x y) history s0) in
       zbc_push p s \<in> {None, Some (fu_result arg (zbc_spec (fst op) (s1_val arg) (operand2 arg)))} \<and>
       (LENGTH('a) < length idle \<longrightarrow> zbc_push p s \<noteq> (None :: 'a result_arg option)))"
proof -
  have dec: "zbc_issue arg = zbc_issue_decoded arg [fst op]"
    using assms(2,3) by (simp add: zbc_issue_def fu_issue_def zbc_tab.one_hot)
  then obtain p v1 v2 where i: "zbc_issue_decoded arg [fst op] = Some (p, v1, v2)"
    by (cases "fst op") (auto simp: zbc_issue_decoded_def Let_def)
  have "let s = clm_run (unat v1) (unat v2) idle (fold (\<lambda>(r, x, y). clm_step r x y) history s0) in
       zbc_push p s \<in> {None, Some (fu_result arg (zbc_spec (fst op) (s1_val arg) (operand2 arg)))} \<and>
       (LENGTH('a) < length idle \<longrightarrow> zbc_push p s \<noteq> (None :: 'a result_arg option))" for history idle
  proof -
    have "clm_wf LENGTH('a) t \<Longrightarrow> clm_wf LENGTH('a) (fold (\<lambda>(r, x, y). clm_step r x y) history t)" for t
      by (induction history arbitrary: t) (auto simp: clm_wf_step)
    then have wf: "clm_wf LENGTH('a) (fold (\<lambda>(r, x, y). clm_step r x y) history s0)"
      using ClMultiplier_wf [OF assms(1)] by blast
    define s where "s = clm_run (unat v1) (unat v2) idle (fold (\<lambda>(r, x, y). clm_step r x y) history s0)"
    have inv: "clm_wf LENGTH('a) s" "clm_inv LENGTH('a) (unat v1) (unat v2) (length idle) s"
      unfolding s_def using clm_run_inv [OF wf] by auto
    show ?thesis
      using zbc_result [OF i, of s] clm_inv_done [OF inv(1) _ _ inv(2)] clm_inv_busy [OF inv(1) _ inv(2)]
      unfolding Let_def s_def [symmetric] by (cases "clm_busy s") (auto simp: zbc_push_def Let_def)
  qed
  then show ?thesis using dec i by (intro exI conjI allI) auto
qed

definition clmul_example :: "32 issue_arg" where
  "clmul_example = \<lparr>s1_val = 0x87654321, s2_val = 0xdeadbeef, rp_dst = 9, rob_id = 2,
     ia_exec_fn = \<lparr>op_type = OpType_CLMUL, fn_funct3 = to_bits 3 2, fn_funct7 = to_bits 7 5\<rparr>,
     ia_imm = 0, ia_pc = 0, ia_tag = 0, ia_ftq_ptr = 0\<rparr>"

theorem zbc_executes_witness:
  "\<exists>s0 p v1 v2. ClMultiplier 32 3 = Inr s0 \<and> zbc_issue clmul_example = Some (p, v1, v2) \<and>
     zbc_push p (clm_run (unat v1) (unat v2) (replicate 33 (0, 0)) s0) =
       Some (fu_result clmul_example (zbc_spec Zbc_CLMULR 0x87654321 0xdeadbeef))"
proof -
  have "\<not> isl (ClMultiplier 32 3)" by code_simp
  then obtain s0 where s0: "ClMultiplier LENGTH(32) 3 = Inr s0" by (cases "ClMultiplier 32 3") auto
  have op: "(Zbc_CLMULR, OpType_CLMUL, Some F3_CLMULR, None) \<in> set zbc_instructions"
    "op_match False (ia_exec_fn clmul_example) (Zbc_CLMULR, OpType_CLMUL, Some F3_CLMULR, None)"
    by (simp_all add: zbc_instructions_def op_match_def clmul_example_def)
  have args: "s1_val clmul_example = 0x87654321" "operand2 clmul_example = 0xdeadbeef"
    by (simp_all add: clmul_example_def operand2_def)
  obtain p v1 v2 where i: "zbc_issue clmul_example = Some (p, v1, v2)" and
    run: "\<And>history idle. let s = clm_run (unat v1) (unat v2) idle (fold (\<lambda>(r, x, y). clm_step r x y) history s0) in
       zbc_push p s \<in> {None, Some (fu_result clmul_example (zbc_spec Zbc_CLMULR 0x87654321 0xdeadbeef))} \<and>
       (LENGTH(32) < length idle \<longrightarrow> zbc_push p s \<noteq> (None :: 32 result_arg option))"
    using zbc_executes [OF s0 op, unfolded args fst_conv] by blast
  have "zbc_push p (clm_run (unat v1) (unat v2) (replicate 33 (0, 0)) s0) =
       Some (fu_result clmul_example (zbc_spec Zbc_CLMULR 0x87654321 0xdeadbeef))"
    using run [of "replicate 33 (0, 0)" "[]"] by (simp only: Let_def fold_Nil id_apply length_replicate) force
  then show ?thesis using s0 i by auto
qed

end
