(* ===== verification/Request_Unit.thy ===== *)
theory Request_Unit
  imports Main
begin

text \<open>
  The contract of a sequential unit with the methods \<^verbatim>\<open>issue\<close> and \<^verbatim>\<open>accept\<close>, shared by the
  multipliers (\<^verbatim>\<open>MulBaseUnsigned\<close>) and the divider (\<^verbatim>\<open>DividerBase\<close>): it behaves like a queue of
  requests whose results come out in the order of issue, and it answers every request. A cycle
  receives the argument of \<^verbatim>\<open>issue\<close>, if it is called, and whether \<^verbatim>\<open>accept\<close> is called.
\<close>

definition legal_call ::
  "('q \<Rightarrow> bool) \<Rightarrow> ('s \<Rightarrow> bool) \<Rightarrow> ('s \<Rightarrow> bool) \<Rightarrow> 'q option \<Rightarrow> bool \<Rightarrow> 's \<Rightarrow> bool" where
  "legal_call ok issue_ready accept_ready iss acc s \<longleftrightarrow>
     (acc \<longrightarrow> accept_ready s) \<and> (case iss of None \<Rightarrow> True | Some p \<Rightarrow> issue_ready s \<and> ok p)"

definition queue_after :: "'q option \<Rightarrow> bool \<Rightarrow> 'q list \<Rightarrow> 'q list" where
  "queue_after iss acc q = (if acc then tl q else q) @ (case iss of None \<Rightarrow> [] | Some p \<Rightarrow> [p])"

text \<open>A run of cycles with the results that were accepted; it stops being defined at an illegal call.\<close>

fun unit_run ::
  "('q \<Rightarrow> bool) \<Rightarrow> ('s \<Rightarrow> bool) \<Rightarrow> ('s \<Rightarrow> bool) \<Rightarrow> ('s \<Rightarrow> 'r) \<Rightarrow> ('q option \<Rightarrow> bool \<Rightarrow> 's \<Rightarrow> 's) \<Rightarrow>
   ('q option \<times> bool) list \<Rightarrow> 's \<Rightarrow> ('s \<times> 'r list) option" where
  "unit_run ok ir ar res cyc [] s = Some (s, [])"
| "unit_run ok ir ar res cyc ((iss, acc) # cs) s =
     (if legal_call ok ir ar iss acc s
      then map_option (\<lambda>(t, outs). (t, (if acc then [res s] else []) @ outs)) (unit_run ok ir ar res cyc cs (cyc iss acc s))
      else None)"

definition issued :: "('q option \<times> bool) list \<Rightarrow> 'q list" where
  "issued cs = concat (map (\<lambda>(iss, acc). case iss of None \<Rightarrow> [] | Some p \<Rightarrow> [p]) cs)"

locale request_unit =
  fixes ok :: "'q \<Rightarrow> bool" and f :: "'q \<Rightarrow> 'r" and init :: 's
    and issue_ready accept_ready :: "'s \<Rightarrow> bool"
    and result :: "'s \<Rightarrow> 'r"
    and cycle :: "'q option \<Rightarrow> bool \<Rightarrow> 's \<Rightarrow> 's"
    and rep :: "'s \<Rightarrow> 'q list \<Rightarrow> bool"
    and remaining :: "'s \<Rightarrow> nat"
  assumes rep_init: "rep init []"
    and rep_cycle: "rep s q \<Longrightarrow> legal_call ok issue_ready accept_ready iss acc s \<Longrightarrow>
      rep (cycle iss acc s) (queue_after iss acc q)"
    and rep_result: "rep s q \<Longrightarrow> accept_ready s \<Longrightarrow> \<exists>p q'. q = p # q' \<and> result s = f p"
    and progress: "rep s q \<Longrightarrow> q \<noteq> [] \<Longrightarrow> \<not> accept_ready s \<Longrightarrow>
      legal_call ok issue_ready accept_ready iss False s \<Longrightarrow> remaining (cycle iss False s) < remaining s"
begin

lemma run_rep:
  assumes "rep s q" "unit_run ok issue_ready accept_ready result cycle cs s = Some (t, outs)"
  shows "\<exists>done rest. q @ issued cs = done @ rest \<and> rep t rest \<and> outs = map f done"
  using assms
proof (induction cs arbitrary: s q outs)
  case Nil
  then show ?case by (auto simp: issued_def intro: exI [of _ "[]"])
next
  case (Cons c cs)
  obtain iss acc where c: "c = (iss, acc)" by (cases c)
  from Cons.prems(2) obtain outs' where legal: "legal_call ok issue_ready accept_ready iss acc s"
    and run: "unit_run ok issue_ready accept_ready result cycle cs (cycle iss acc s) = Some (t, outs')"
    and outs: "outs = (if acc then [result s] else []) @ outs'"
    by (auto simp: c split: if_splits)
  have rep': "rep (cycle iss acc s) (queue_after iss acc q)" using Cons.prems(1) legal by (rule rep_cycle)
  obtain dn rest where IH: "queue_after iss acc q @ issued cs = dn @ rest" "rep t rest" "outs' = map f dn"
    using Cons.IH [OF rep' run] by blast
  show ?case
  proof (cases acc)
    case True
    then have "accept_ready s" using legal by (simp add: legal_call_def)
    then obtain p q' where q: "q = p # q'" "result s = f p" using rep_result Cons.prems(1) by blast
    then have "q @ issued (c # cs) = (p # dn) @ rest" "outs = map f (p # dn)"
      using IH True outs by (simp_all add: c issued_def queue_after_def)
    then show ?thesis using IH(2) by blast
  next
    case False
    then have "q @ issued (c # cs) = dn @ rest" "outs = map f dn"
      using IH outs by (simp_all add: c issued_def queue_after_def)
    then show ?thesis using IH(2) by blast
  qed
qed

lemmas reachable = run_rep [OF rep_init]

text \<open>The results come out in the order of the requests, each that of its request.\<close>

lemma nth_result:
  assumes "unit_run ok issue_ready accept_ready result cycle cs init = Some (t, outs)" "k < length outs"
  shows "k < length (issued cs) \<and> outs ! k = f (issued cs ! k)"
  using reachable [OF assms(1)] assms(2) by (auto simp: nth_append)

text \<open>
  A client that turns instructions into requests and joins each result with what it kept of its
  instruction, in the order of issue, produces what is expected of the instructions.
\<close>

lemma results_expected:
  assumes run: "unit_run ok issue_ready accept_ready result cycle cs init = Some (t, outs)"
    and reqs: "map issue args = map Some reqs" "issued cs = map key reqs"
    and push: "\<And>arg r. issue arg = Some r \<Longrightarrow> expected arg = Some (push r (f (key r)))"
  shows "map Some (map2 push reqs outs) = take (length outs) (map expected args)"
proof (rule nth_equalityI)
  have len: "length reqs = length args" "length (issued cs) = length reqs"
    using reqs map_eq_imp_length_eq by force+
  then have le: "length outs \<le> length args"
    using nth_result [OF run, of "length outs - 1"] by (cases outs) auto
  then show "length (map Some (map2 push reqs outs)) = length (take (length outs) (map expected args))"
    by (simp add: len min.commute)
  fix k
  assume "k < length (map Some (map2 push reqs outs))"
  then have k: "k < length outs" "k < length args" using le by (auto simp: len)
  have "issue (args ! k) = Some (reqs ! k)" using reqs(1) k len by (metis nth_map)
  moreover have "outs ! k = f (key (reqs ! k))" using nth_result [OF run k(1)] reqs(2) k len by simp
  ultimately show "map Some (map2 push reqs outs) ! k = take (length outs) (map expected args) ! k"
    using k len push by simp
qed

text \<open>A request that is pending becomes acceptable while nothing is issued or accepted.\<close>

lemma idle_cycles:
  assumes "rep s q" "q \<noteq> []"
  shows "\<exists>k \<le> remaining s. accept_ready ((cycle None False ^^ k) s) \<and> rep ((cycle None False ^^ k) s) q"
  using assms
proof (induction "remaining s" arbitrary: s rule: less_induct)
  case less
  show ?case
  proof (cases "accept_ready s")
    case True
    then show ?thesis using less.prems by (intro exI [of _ 0]) simp
  next
    case False
    have legal: "legal_call ok issue_ready accept_ready None False s" by (simp add: legal_call_def)
    have rep: "rep (cycle None False s) q" using rep_cycle [OF less.prems(1) legal] by (simp add: queue_after_def)
    have dec: "remaining (cycle None False s) < remaining s"
      using progress [OF less.prems False legal] .
    then obtain k where "k \<le> remaining (cycle None False s)" "accept_ready ((cycle None False ^^ k) (cycle None False s))"
      "rep ((cycle None False ^^ k) (cycle None False s)) q"
      using less.hyps [OF dec rep less.prems(2)] by blast
    then show ?thesis using dec by (intro exI [of _ "Suc k"]) (simp add: funpow_swap1)
  qed
qed

lemma answers:
  assumes "rep s []" "issue_ready s" "ok p"
  shows "\<exists>k \<le> remaining (cycle (Some p) False s).
    let t = (cycle None False ^^ k) (cycle (Some p) False s) in accept_ready t \<and> result t = f p"
proof -
  have "rep (cycle (Some p) False s) [p]"
    using rep_cycle [OF assms(1), of "Some p" False] assms(2,3) by (simp add: legal_call_def queue_after_def)
  from idle_cycles [OF this] obtain k where "k \<le> remaining (cycle (Some p) False s)"
    "accept_ready ((cycle None False ^^ k) (cycle (Some p) False s))"
    "rep ((cycle None False ^^ k) (cycle (Some p) False s)) [p]" by blast
  with rep_result show ?thesis by (fastforce simp: Let_def)
qed

end

end
