(* ===== verification/Unsigned_Mul.thy ===== *)
theory Unsigned_Mul
  imports Hw_Prelude Isa Request_Unit
begin

text \<open>
  Unsigned multipliers (\<^verbatim>\<open>func_blocks/fu/unsigned_multiplication\<close>). The interface
  \<^verbatim>\<open>MulBaseUnsigned\<close> with its methods \<^verbatim>\<open>issue\<close> and \<^verbatim>\<open>accept\<close> is the locale \<open>unsigned_mul\<close>: the
  multiplier behaves like a queue of requests whose products come out in the order of issue.
  The shift-and-add multiplier and the sequential multiplier with one DSP block are
  interpretations of it; the combinational recursive multiplier is an option-valued function,
  because its elaboration does not end for narrow DSP blocks.
\<close>

section \<open>The interface MulBaseUnsigned\<close>

definition mul_range :: "nat \<Rightarrow> nat \<times> nat \<Rightarrow> bool" where
  "mul_range n p \<longleftrightarrow> fst p < 2 ^ n \<and> snd p < 2 ^ n"

definition product :: "nat \<times> nat \<Rightarrow> nat" where
  "product p = fst p * snd p"

locale unsigned_mul = request_unit "mul_range n" product init issue_ready accept_ready result cycle rep remaining
  for n :: nat and init :: 's and issue_ready accept_ready :: "'s \<Rightarrow> bool" and result :: "'s \<Rightarrow> nat"
    and cycle :: "(nat \<times> nat) option \<Rightarrow> bool \<Rightarrow> 's \<Rightarrow> 's" and rep :: "'s \<Rightarrow> (nat \<times> nat) list \<Rightarrow> bool"
    and remaining :: "'s \<Rightarrow> nat"
begin

lemma nth_product:
  assumes "unit_run (mul_range n) issue_ready accept_ready result cycle cs init = Some (t, outs)" "k < length outs"
    "issued cs ! k = (a, b)"
  shows "k < length (issued cs) \<and> outs ! k = a * b"
  using nth_result [OF assms(1,2)] assms(3) by (simp add: product_def)

lemma answers_product:
  assumes "rep s []" "issue_ready s" "a < 2 ^ n" "b < 2 ^ n"
  shows "\<exists>k \<le> remaining (cycle (Some (a, b)) False s).
    let t = (cycle None False ^^ k) (cycle (Some (a, b)) False s) in accept_ready t \<and> result t = a * b"
  using answers [of s "(a, b)"] assms by (simp add: mul_range_def product_def)

end

section \<open>ShiftUnsignedMul\<close>

record shift_mul =
  sm_res :: nat
  sm_i1 :: nat
  sm_i2 :: nat
  sm_accepted :: bool

definition shift_mul_init :: shift_mul where
  "shift_mul_init = \<lparr>sm_res = 0, sm_i1 = 0, sm_i2 = 0, sm_accepted = True\<rparr>"

definition shift_mul_issue_ready :: "shift_mul \<Rightarrow> bool" where
  "shift_mul_issue_ready s = sm_accepted s"

definition shift_mul_accept_ready :: "shift_mul \<Rightarrow> bool" where
  "shift_mul_accept_ready s = (sm_i2 s = 0 \<and> \<not> sm_accepted s)"

text \<open>The statements of a cycle in their order; a later assignment to a register wins.\<close>

definition shift_mul_cycle :: "nat \<Rightarrow> (nat \<times> nat) option \<Rightarrow> bool \<Rightarrow> shift_mul \<Rightarrow> shift_mul" where
  "shift_mul_cycle xl iss acc s =
     (let s1 = (case iss of None \<Rightarrow> s | Some (a, b) \<Rightarrow> \<lparr>sm_res = 0, sm_i1 = a, sm_i2 = b, sm_accepted = False\<rparr>);
          s2 = (if acc then s1\<lparr>sm_accepted := True\<rparr> else s1)
      in if \<not> sm_accepted s then
           s2\<lparr>sm_res := (if odd (sm_i2 s) then take_bit (xl * 2) (sm_res s + sm_i1 s) else sm_res s2),
              sm_i1 := take_bit (xl * 2) (push_bit 1 (sm_i1 s)), sm_i2 := drop_bit 1 (sm_i2 s)\<rparr>
         else s2)"

text \<open>While a request is pending, the accumulator and the remaining product add up to its product.\<close>

definition shift_mul_rep :: "nat \<Rightarrow> shift_mul \<Rightarrow> (nat \<times> nat) list \<Rightarrow> bool" where
  "shift_mul_rep n s q =
     (if sm_accepted s then q = []
      else \<exists>a b i1. q = [(a, b)] \<and> a < 2 ^ n \<and> b < 2 ^ n \<and> sm_i1 s = take_bit (n * 2) i1 \<and>
        sm_res s + i1 * sm_i2 s = a * b)"

lemma product_bound: "a < 2 ^ n \<Longrightarrow> b < 2 ^ m \<Longrightarrow> a * b < (2 :: nat) ^ (n + m)"
  by (simp add: power_add mult_strict_mono)

lemma peasant_step: "(r :: nat) + x * y = (if odd y then r + x else r) + push_bit 1 x * (y div 2)"
proof (cases "even y")
  case False
  then obtain k where "y = 2 * k + 1" by (auto elim: oddE)
  then show ?thesis by (simp add: algebra_simps)
qed (auto elim!: evenE simp: algebra_simps)

lemma double_bound: "a < (2 :: nat) ^ n \<Longrightarrow> a < 2 ^ (n * 2)"
  by (erule order.strict_trans2 [OF _ power_increasing]) simp_all

lemma take_bit_push_1: "take_bit w (push_bit 1 (take_bit w (x :: nat))) = take_bit w (push_bit 1 x)"
  by (rule bit_eqI) (auto simp: bit_take_bit_iff bit_push_bit_iff simp del: One_nat_def)

lemma shift_mul_rep_cycle:
  assumes "shift_mul_rep n s q"
    "legal_call (mul_range n) shift_mul_issue_ready shift_mul_accept_ready iss acc s"
  shows "shift_mul_rep n (shift_mul_cycle n iss acc s) (queue_after iss acc q)"
proof (cases "sm_accepted s")
  case True
  then have q: "q = []" "\<not> acc" using assms
    by (auto simp: shift_mul_rep_def legal_call_def shift_mul_accept_ready_def)
  show ?thesis
  proof (cases iss)
    case None
    then show ?thesis using True q by (simp add: shift_mul_rep_def shift_mul_cycle_def queue_after_def Let_def)
  next
    case (Some ab)
    obtain a b where ab: "ab = (a, b)" by (cases ab)
    then have bounds: "a < 2 ^ n" "b < 2 ^ n" using assms(2) Some by (auto simp: legal_call_def mul_range_def)
    then have "take_bit (n * 2) a = a" using double_bound take_bit_nat_eq_self_iff by blast
    then show ?thesis using True q Some ab bounds
      by (auto simp: shift_mul_rep_def shift_mul_cycle_def queue_after_def Let_def intro!: exI [of _ a])
  qed
next
  case False
  then obtain a b i1 where q: "q = [(a, b)]" "a < 2 ^ n" "b < 2 ^ n" "sm_i1 s = take_bit (n * 2) i1"
    and sum: "sm_res s + i1 * sm_i2 s = a * b"
    using assms(1) by (auto simp: shift_mul_rep_def)
  have iss: "iss = None" using False assms(2)
    by (auto simp: legal_call_def shift_mul_issue_ready_def split: option.splits prod.splits)
  have small: "a * b < 2 ^ (n * 2)" using product_bound [OF q(2,3)] by (simp add: mult_2_right)
  let ?t = "shift_mul_cycle n iss acc s"
  have i1': "sm_i1 ?t = take_bit (n * 2) (push_bit 1 i1)"
    using False iss q(4) take_bit_push_1 [of "n * 2" i1] by (simp add: shift_mul_cycle_def Let_def del: One_nat_def)
  have "sm_res ?t = (if odd (sm_i2 s) then sm_res s + i1 else sm_res s)"
  proof (cases "odd (sm_i2 s)")
    case True
    then have "sm_res s + i1 \<le> a * b" unfolding sum [symmetric] by (simp add: odd_pos Suc_leI)
    then have "sm_res s + i1 < 2 ^ (n * 2)" using small by simp
    then have "take_bit (n * 2) i1 = i1" "take_bit (n * 2) (sm_res s + i1) = sm_res s + i1"
      by (simp_all add: take_bit_nat_eq_self_iff)
    then show ?thesis using True False iss q(4) by (simp add: shift_mul_cycle_def Let_def)
  qed (use False iss in \<open>simp add: shift_mul_cycle_def Let_def\<close>)
  moreover have "sm_i2 ?t = sm_i2 s div 2" using False iss by (simp add: shift_mul_cycle_def Let_def drop_bit_eq_div)
  ultimately have sum': "sm_res ?t + push_bit 1 i1 * sm_i2 ?t = a * b"
    using sum peasant_step [of "sm_res s" i1 "sm_i2 s"] by simp
  have "sm_accepted ?t = acc" using False iss by (simp add: shift_mul_cycle_def Let_def)
  then show ?thesis
    using q sum' i1' iss unfolding shift_mul_rep_def queue_after_def by auto
qed

lemma bit_length_less: "b < 2 ^ n \<Longrightarrow> bit_length b \<le> n"
proof (induction n arbitrary: b)
  case 0
  then show ?case by (simp add: bit_length.simps)
next
  case (Suc n)
  then have "b div 2 < 2 ^ n" by (simp add: less_mult_imp_div_less)
  then show ?case using Suc.IH [of "b div 2"] by (subst bit_length.simps) simp
qed

interpretation shift_mul: unsigned_mul n shift_mul_init shift_mul_issue_ready shift_mul_accept_ready sm_res
  "shift_mul_cycle n" "shift_mul_rep n" "\<lambda>s. bit_length (sm_i2 s)" for n
proof
  show "shift_mul_rep n shift_mul_init []" by (simp add: shift_mul_rep_def shift_mul_init_def)
  show "shift_mul_rep n s q \<Longrightarrow> shift_mul_accept_ready s \<Longrightarrow> \<exists>p q'. q = p # q' \<and> sm_res s = product p" for s q
    by (auto simp: shift_mul_rep_def shift_mul_accept_ready_def product_def)
  show "bit_length (sm_i2 (shift_mul_cycle n iss False s)) < bit_length (sm_i2 s)"
    if "shift_mul_rep n s q" "q \<noteq> []" "\<not> shift_mul_accept_ready s"
      "legal_call (mul_range n) shift_mul_issue_ready shift_mul_accept_ready iss False s" for s q iss
    using that bit_length.simps [of "sm_i2 s"]
    by (auto simp: shift_mul_rep_def shift_mul_accept_ready_def shift_mul_cycle_def legal_call_def
        shift_mul_issue_ready_def Let_def drop_bit_eq_div split: option.splits if_splits)
qed (rule shift_mul_rep_cycle)

section \<open>DSPMulUnit and FastRecursiveMul\<close>

definition dsp_compute :: "nat \<Rightarrow> nat \<Rightarrow> nat \<Rightarrow> nat" where
  "dsp_compute dsp_width i1 i2 = take_bit (2 * dsp_width) (take_bit dsp_width i1 * take_bit dsp_width i2)"

text \<open>
  The elaborated module as a function of its inputs; \<^const>\<open>None\<close> stands for an elaboration that
  does not end. The middle term is computed on integers, as its subtraction may pass below zero.
\<close>

partial_function (option) FastRecursiveMul :: "nat \<Rightarrow> nat \<Rightarrow> nat \<Rightarrow> nat \<Rightarrow> nat option" where
  "FastRecursiveMul n dsp_width i1 i2 =
     (if n \<le> dsp_width then Some (take_bit (n * 2) (dsp_compute dsp_width i1 i2))
      else
        let upper = n div 2; lower = (n + 1) div 2 in
        Option.bind (FastRecursiveMul lower dsp_width (take_bit lower i1) (take_bit lower i2)) (\<lambda>result_low.
        Option.bind (FastRecursiveMul (lower + 1) dsp_width
            (take_bit (lower + 1) (take_bit lower i1 + drop_bit lower i1))
            (take_bit (lower + 1) (take_bit lower i2 + drop_bit lower i2))) (\<lambda>result_mid.
        Option.bind (FastRecursiveMul upper dsp_width (drop_bit lower i1) (drop_bit lower i2)) (\<lambda>result_upper.
          Some (nat (take_bit (n * 2)
            (int result_low + push_bit lower (int result_mid - int result_low - int result_upper)
             + push_bit (2 * lower) (int result_upper))))))))"

lemma dsp_compute_eq:
  assumes "a < 2 ^ n" "b < 2 ^ n" "n \<le> d"
  shows "dsp_compute d a b = a * b"
proof -
  have "a < 2 ^ d" "b < 2 ^ d" using assms order.strict_trans2 power_increasing by (metis one_le_numeral)+
  moreover from this have "a * b < 2 ^ (2 * d)" using product_bound [of a d b d] by (simp add: mult_2)
  ultimately show ?thesis by (simp add: dsp_compute_def take_bit_nat_eq_self)
qed

lemma karatsuba:
  "int (l1 * l2) + push_bit k (int ((l1 + h1) * (l2 + h2)) - int (l1 * l2) - int (h1 * h2)) + push_bit (2 * k) (int (h1 * h2)) =
   int ((l1 + 2 ^ k * h1) * (l2 + 2 ^ k * h2))"
  by (simp add: push_bit_eq_mult algebra_simps power_add mult_2 mult_2_right)

lemma split_nat: "(a :: nat) = take_bit k a + 2 ^ k * drop_bit k a"
  by (simp add: take_bit_eq_mod drop_bit_eq_div)

lemma FastRecursiveMul_correct:
  assumes "n \<le> d \<or> 3 \<le> d" "a < 2 ^ n" "b < 2 ^ n"
  shows "FastRecursiveMul n d a b = Some (a * b)"
  using assms
proof (induction n arbitrary: a b rule: less_induct)
  case (less n)
  have prod: "a * b < 2 ^ (n * 2)" using product_bound [OF less.prems(2,3)] by (simp add: mult_2_right)
  show ?case
  proof (cases "n \<le> d")
    case True
    then show ?thesis using less.prems prod
      by (subst FastRecursiveMul.simps) (simp add: dsp_compute_eq [of _ n] take_bit_nat_eq_self)
  next
    case False
    define lo up where "lo = (n + 1) div 2" and "up = n div 2"
    have d: "3 \<le> d" "4 \<le> n" using False less.prems(1) by auto
    then have lt: "lo < n" "lo + 1 < n" "up < n" and sum: "lo + up = n" "up \<le> lo" by (auto simp: lo_def up_def)
    have hi: "drop_bit lo x < 2 ^ up" if "x < 2 ^ n" for x :: nat
      using that by (simp add: drop_bit_eq_div less_mult_imp_div_less sum(1) [symmetric] power_add mult.commute)
    have mid: "take_bit lo x + drop_bit lo x < 2 ^ (lo + 1)" if "x < 2 ^ n" for x :: nat
    proof -
      have "take_bit lo x < 2 ^ lo" by simp
      moreover have "drop_bit lo x < 2 ^ lo"
        using order.strict_trans2 [OF hi [OF that] power_increasing [OF sum(2)]] by simp
      ultimately show ?thesis by (simp del: take_bit_nat_less_exp)
    qed
    let ?p = "int (take_bit lo a * take_bit lo b) +
      push_bit lo (int ((take_bit lo a + drop_bit lo a) * (take_bit lo b + drop_bit lo b)) -
        int (take_bit lo a * take_bit lo b) - int (drop_bit lo a * drop_bit lo b)) +
      push_bit (2 * lo) (int (drop_bit lo a * drop_bit lo b))"
    have "FastRecursiveMul n d a b = Some (nat (take_bit (n * 2) ?p))"
      using False less.IH [OF lt(1)] less.IH [OF lt(2)] less.IH [OF lt(3)] less.prems(2,3) d(1) hi mid
      by (subst FastRecursiveMul.simps)
        (simp only: Let_def lo_def [symmetric] up_def [symmetric] if_False bind.bind_lunit take_bit_nat_less_exp
          take_bit_nat_eq_self simp_thms)
    also have "?p = int (a * b)"
      unfolding karatsuba split_nat [of a lo, symmetric] split_nat [of b lo, symmetric] ..
    finally show ?thesis using prod by (simp only: take_bit_of_nat take_bit_nat_eq_self nat_int)
  qed
qed

lemma FastRecursiveMul_returns:
  assumes "FastRecursiveMul n d a b = Some r"
  shows "n \<le> d \<or> 3 \<le> d"
proof (rule FastRecursiveMul.raw_induct [where P = "\<lambda>n d a b r. n \<le> d \<or> 3 \<le> d", OF _ assms], goal_cases)
  case (1 F n d a b y)
  show ?case
  proof (cases "n \<le> d")
    case False
    with 1(2) obtain z where "F ((n + 1) div 2 + 1) d
        (take_bit ((n + 1) div 2 + 1) (take_bit ((n + 1) div 2) a + drop_bit ((n + 1) div 2) a))
        (take_bit ((n + 1) div 2 + 1) (take_bit ((n + 1) div 2) b + drop_bit ((n + 1) div 2) b)) = Some z"
      by (auto simp: Let_def bind_eq_Some_conv)
    then have "(n + 1) div 2 + 1 \<le> d \<or> 3 \<le> d" by (rule 1(1))
    then show ?thesis using False by auto
  qed simp
qed

text \<open>
  C8. The combinational recursive multiplier (\<^verbatim>\<open>RecursiveUnsignedMul\<close>) computes the product of its
  inputs whenever one DSP block is wide enough or the blocks have at least three bits; for
  narrower blocks its elaboration does not end, as the middle factor of a three-bit product has
  three bits again.
\<close>

theorem recursive_mul_correct:
  assumes "a < 2 ^ n" "b < 2 ^ n"
  shows "FastRecursiveMul n dsp_width a b = (if n \<le> dsp_width \<or> 3 \<le> dsp_width then Some (a * b) else None)"
  using FastRecursiveMul_correct [OF _ assms] FastRecursiveMul_returns [of n dsp_width a b]
  by (cases "FastRecursiveMul n dsp_width a b") auto

theorem recursive_mul_correct_witness:
  "FastRecursiveMul 32 8 0xdeadbeef 0xcafebabe = Some (0xdeadbeef * 0xcafebabe) \<and>
   FastRecursiveMul 4 2 3 3 = None"
  using recursive_mul_correct [of "0xdeadbeef" 32 "0xcafebabe" 8] recursive_mul_correct [of 3 4 3 2] by simp

section \<open>RecursiveWithSingleDSPMul and SequentialUnsignedMul\<close>

text \<open>
  The multiplier is a tree: its leaves hold a partial product and whether it is computed, its inner
  modules have submodules for the low and high halves (\<^verbatim>\<open>mul1\<close> to \<^verbatim>\<open>mul4\<close>). The leaves share
  one DSP block: each one that still has to compute is a transaction that calls it, and in every
  cycle the transaction scheduler grants one of them. The grant is the path to a leaf.
\<close>

datatype seq_tree = SLeaf nat bool nat | SNode nat seq_tree seq_tree seq_tree seq_tree

fun RecursiveWithSingleDSPMul :: "nat \<Rightarrow> nat \<Rightarrow> seq_tree" where
  "RecursiveWithSingleDSPMul dsp_width n =
     (if n \<le> dsp_width then SLeaf n False 0
      else let sub = RecursiveWithSingleDSPMul dsp_width (n div 2) in SNode n sub sub sub sub)"

declare RecursiveWithSingleDSPMul.simps [simp del]

fun seq_confirm :: "seq_tree \<Rightarrow> bool" where
  "seq_confirm (SLeaf n confirm r) = confirm"
| "seq_confirm (SNode n t1 t2 t3 t4) = (seq_confirm t1 \<and> seq_confirm t2 \<and> seq_confirm t3 \<and> seq_confirm t4)"

fun seq_result :: "seq_tree \<Rightarrow> nat" where
  "seq_result (SLeaf n confirm r) = r"
| "seq_result (SNode n t1 t2 t3 t4) =
     (let result_ll = take_bit n (seq_result t1); result_ul = take_bit n (seq_result t2);
          result_lu = take_bit n (seq_result t3); result_uu = take_bit n (seq_result t4)
      in take_bit (n * 2) (result_ll + push_bit (n div 2) (result_ul + result_lu) + push_bit n result_uu))"

fun seq_requests :: "bool \<Rightarrow> seq_tree \<Rightarrow> nat list list" where
  "seq_requests reset (SLeaf n confirm r) = (if \<not> confirm \<and> \<not> reset then [[]] else [])"
| "seq_requests reset (SNode n t1 t2 t3 t4) =
     map (Cons 1) (seq_requests reset t1) @ map (Cons 2) (seq_requests reset t2) @
     map (Cons 3) (seq_requests reset t3) @ map (Cons 4) (seq_requests reset t4)"

definition sub_grant :: "nat \<Rightarrow> nat list option \<Rightarrow> nat list option" where
  "sub_grant k grant = (case grant of Some (c # p) \<Rightarrow> if c = k then Some p else None | _ \<Rightarrow> None)"

fun seq_step :: "nat \<Rightarrow> bool \<Rightarrow> nat list option \<Rightarrow> nat \<Rightarrow> nat \<Rightarrow> seq_tree \<Rightarrow> seq_tree" where
  "seq_step dsp_width reset grant i1 i2 (SLeaf n confirm r) =
     (if reset then SLeaf n False r
      else if \<not> confirm \<and> grant = Some [] then SLeaf n True (take_bit (n * 2) (dsp_compute dsp_width i1 i2))
      else SLeaf n confirm r)"
| "seq_step dsp_width reset grant i1 i2 (SNode n t1 t2 t3 t4) =
     (let h = n div 2; l1 = take_bit h i1; u1 = drop_bit h i1; l2 = take_bit h i2; u2 = drop_bit h i2
      in SNode n (seq_step dsp_width reset (sub_grant 1 grant) l1 l2 t1)
                 (seq_step dsp_width reset (sub_grant 2 grant) u1 l2 t2)
                 (seq_step dsp_width reset (sub_grant 3 grant) l1 u2 t3)
                 (seq_step dsp_width reset (sub_grant 4 grant) u1 u2 t4))"

record seq_mul =
  sq_i1 :: nat
  sq_i2 :: nat
  sq_reset :: bool
  sq_accepted :: bool
  sq_tree :: seq_tree

definition seq_mul_init :: "nat \<Rightarrow> nat \<Rightarrow> seq_mul" where
  "seq_mul_init dsp_width xl =
     \<lparr>sq_i1 = 0, sq_i2 = 0, sq_reset = False, sq_accepted = True, sq_tree = RecursiveWithSingleDSPMul dsp_width xl\<rparr>"

definition seq_mul_issue_ready :: "seq_mul \<Rightarrow> bool" where
  "seq_mul_issue_ready s = sq_accepted s"

definition seq_mul_accept_ready :: "seq_mul \<Rightarrow> bool" where
  "seq_mul_accept_ready s = (\<not> sq_accepted s \<and> seq_confirm (sq_tree s) \<and> \<not> sq_reset s)"

definition seq_mul_output :: "seq_mul \<Rightarrow> nat" where
  "seq_mul_output s = seq_result (sq_tree s)"

text \<open>\<open>pick\<close> is the scheduler's choice among the requesting transactions.\<close>

definition seq_mul_cycle ::
  "nat \<Rightarrow> (nat list list \<Rightarrow> nat list) \<Rightarrow> (nat \<times> nat) option \<Rightarrow> bool \<Rightarrow> seq_mul \<Rightarrow> seq_mul" where
  "seq_mul_cycle dsp_width pick iss acc s =
     (let rs = seq_requests (sq_reset s) (sq_tree s);
          grant = (if rs = [] then None else Some (pick rs));
          s1 = s\<lparr>sq_reset := False,
                 sq_tree := seq_step dsp_width (sq_reset s) grant (sq_i1 s) (sq_i2 s) (sq_tree s)\<rparr>;
          s2 = (case iss of None \<Rightarrow> s1
                | Some (a, b) \<Rightarrow> s1\<lparr>sq_i1 := a, sq_i2 := b, sq_reset := True, sq_accepted := False\<rparr>)
      in if acc then s2\<lparr>sq_accepted := True\<rparr> else s2)"

text \<open>Widths that divide evenly down to the DSP width.\<close>

fun seq_wf :: "nat \<Rightarrow> nat \<Rightarrow> seq_tree \<Rightarrow> bool" where
  "seq_wf d n (SLeaf w c r) \<longleftrightarrow> w = n \<and> n \<le> d"
| "seq_wf d n (SNode w t1 t2 t3 t4) \<longleftrightarrow>
     w = n \<and> even n \<and> seq_wf d (n div 2) t1 \<and> seq_wf d (n div 2) t2 \<and> seq_wf d (n div 2) t3 \<and> seq_wf d (n div 2) t4"

fun seq_ok :: "nat \<Rightarrow> nat \<Rightarrow> seq_tree \<Rightarrow> bool" where
  "seq_ok a b (SLeaf n c r) \<longleftrightarrow> (c \<longrightarrow> r = a * b)"
| "seq_ok a b (SNode n t1 t2 t3 t4) \<longleftrightarrow>
     (let h = n div 2 in seq_ok (take_bit h a) (take_bit h b) t1 \<and> seq_ok (drop_bit h a) (take_bit h b) t2 \<and>
        seq_ok (take_bit h a) (drop_bit h b) t3 \<and> seq_ok (drop_bit h a) (drop_bit h b) t4)"

fun seq_leaves :: "seq_tree \<Rightarrow> nat" where
  "seq_leaves (SLeaf n c r) = 1"
| "seq_leaves (SNode n t1 t2 t3 t4) = seq_leaves t1 + seq_leaves t2 + seq_leaves t3 + seq_leaves t4"

definition seq_mul_rep :: "nat \<Rightarrow> nat \<Rightarrow> seq_mul \<Rightarrow> (nat \<times> nat) list \<Rightarrow> bool" where
  "seq_mul_rep d n s q \<longleftrightarrow> seq_wf d n (sq_tree s) \<and>
     (if sq_accepted s then q = []
      else q = [(sq_i1 s, sq_i2 s)] \<and> sq_i1 s < 2 ^ n \<and> sq_i2 s < 2 ^ n \<and>
        (sq_reset s \<or> seq_ok (sq_i1 s) (sq_i2 s) (sq_tree s)))"

definition seq_mul_remaining :: "seq_mul \<Rightarrow> nat" where
  "seq_mul_remaining s = (if sq_reset s then 1 + seq_leaves (sq_tree s) else length (seq_requests False (sq_tree s)))"

lemma seq_wf_build: "0 < d \<Longrightarrow> seq_wf d (2 ^ k) (RecursiveWithSingleDSPMul d (2 ^ k))"
  by (induction k) (auto simp: RecursiveWithSingleDSPMul.simps Let_def)

lemma seq_wf_step: "seq_wf d n t \<Longrightarrow> seq_wf d n (seq_step d' r g a b t)"
  by (induction d n t arbitrary: g a b rule: seq_wf.induct) (auto simp: Let_def)

lemma seq_ok_reset: "seq_ok x y (seq_step d True g a b t)"
  by (induction t arbitrary: g a b x y) (auto simp: Let_def)

lemma seq_leaves_requests: "length (seq_requests r t) \<le> seq_leaves t"
  by (induction t) auto

lemma seq_leaves_step [simp]: "seq_leaves (seq_step d r g a b t) = seq_leaves t"
  by (induction t arbitrary: g a b) (auto simp: Let_def)

lemma seq_requests_confirm: "seq_requests False t = [] \<longleftrightarrow> seq_confirm t"
  by (induction t) auto

lemma half_bits_less:
  assumes "even n" "(a :: nat) < 2 ^ n"
  shows "take_bit (n div 2) a < 2 ^ (n div 2)" "drop_bit (n div 2) a < 2 ^ (n div 2)"
  using assms by (auto elim!: evenE simp: drop_bit_eq_div less_mult_imp_div_less mult_2 power_add)

lemma seq_ok_step:
  "seq_wf d n t \<Longrightarrow> a < 2 ^ n \<Longrightarrow> b < 2 ^ n \<Longrightarrow> seq_ok a b t \<Longrightarrow> seq_ok a b (seq_step d False g a b t)"
proof (induction d n t arbitrary: g a b rule: seq_wf.induct)
  case (1 d n w c r)
  have "a * b < 2 ^ (n * 2)" using product_bound [OF 1(2,3)] by (simp add: mult_2_right)
  then show ?case using 1 by (simp add: dsp_compute_eq [of a n b d] take_bit_nat_eq_self)
next
  case (2 d n w t1 t2 t3 t4)
  then show ?case by (simp add: Let_def half_bits_less)
qed

lemma seq_result_correct:
  "seq_wf d n t \<Longrightarrow> a < 2 ^ n \<Longrightarrow> b < 2 ^ n \<Longrightarrow> seq_ok a b t \<Longrightarrow> seq_confirm t \<Longrightarrow> seq_result t = a * b"
proof (induction d n t arbitrary: a b rule: seq_wf.induct)
  case (2 d n w t1 t2 t3 t4)
  define h where "h = n div 2"
  have n: "w = n" "even n" "n = h + h" using 2(5) by (auto simp: h_def)
  note low = half_bits_less [OF n(2) 2(6), folded h_def] half_bits_less [OF n(2) 2(7), folded h_def]
  have sub: "seq_result t1 = take_bit h a * take_bit h b" "seq_result t2 = drop_bit h a * take_bit h b"
    "seq_result t3 = take_bit h a * drop_bit h b" "seq_result t4 = drop_bit h a * drop_bit h b"
    using 2 low by (simp_all add: Let_def flip: h_def)
  have small: "take_bit n (x * y) = x * y" if "x < 2 ^ h" "y < 2 ^ h" for x y :: nat
    using product_bound [OF that] n(3) by (simp add: take_bit_nat_eq_self)
  have "take_bit h a * take_bit h b + push_bit h (drop_bit h a * take_bit h b + take_bit h a * drop_bit h b)
      + push_bit n (drop_bit h a * drop_bit h b) =
      (take_bit h a + 2 ^ h * drop_bit h a) * (take_bit h b + 2 ^ h * drop_bit h b)"
    unfolding n(3) by (simp add: push_bit_eq_mult algebra_simps power_add)
  also have "\<dots> = a * b" by (simp only: split_nat [symmetric])
  finally have "seq_result (SNode w t1 t2 t3 t4) = take_bit (n * 2) (a * b)"
    using low by (simp only: seq_result.simps sub n(1) small Let_def h_def [symmetric])
  then show ?case using product_bound [OF 2(6,7)] by (simp add: take_bit_nat_eq_self mult_2_right)
qed simp

lemma length_seq_requests_other:
  "g = None \<Longrightarrow> length (seq_requests False (seq_step d False g a b t)) = length (seq_requests False t)"
  by (induction t arbitrary: g a b) (auto simp: Let_def sub_grant_def)

lemma length_seq_requests_grant:
  "p \<in> set (seq_requests False t) \<Longrightarrow>
   Suc (length (seq_requests False (seq_step d False (Some p) a b t))) = length (seq_requests False t)"
proof (induction t arbitrary: p a b)
  case (SNode n t1 t2 t3 t4)
  then show ?case
    by (auto simp: Let_def sub_grant_def length_seq_requests_other)
qed (auto split: if_splits)

text \<open>
  The scheduler's contract: it grants one of the transactions that request the DSP block, whenever
  there are any.
\<close>

locale seq_scheduler =
  fixes dsp_width k :: nat and pick :: "nat list list \<Rightarrow> nat list"
  assumes pick_mem: "rs \<noteq> [] \<Longrightarrow> pick rs \<in> set rs"
    and dsp_pos: "0 < dsp_width"

lemma seq_mul_rep_cycle:
  assumes "seq_mul_rep d n s q" "legal_call (mul_range n) seq_mul_issue_ready seq_mul_accept_ready iss acc s"
  shows "seq_mul_rep d n (seq_mul_cycle d pick iss acc s) (queue_after iss acc q)"
proof (cases "sq_accepted s")
  case True
  then show ?thesis
    using assms seq_wf_step
    by (auto simp: seq_mul_rep_def seq_mul_cycle_def legal_call_def mul_range_def seq_mul_accept_ready_def queue_after_def Let_def
        split: option.splits)
next
  case False
  have iss: "iss = None" using False assms(2)
    by (auto simp: legal_call_def seq_mul_issue_ready_def split: option.splits prod.splits)
  have "seq_ok (sq_i1 s) (sq_i2 s) (seq_step d (sq_reset s) g (sq_i1 s) (sq_i2 s) (sq_tree s))" for g
    using False assms(1) seq_ok_reset seq_ok_step by (cases "sq_reset s") (auto simp: seq_mul_rep_def)
  then show ?thesis
    using False iss assms(1) seq_wf_step
    by (auto simp: seq_mul_rep_def seq_mul_cycle_def queue_after_def Let_def)
qed

sublocale seq_scheduler \<subseteq> seq_mul: unsigned_mul "2 ^ k" "seq_mul_init dsp_width (2 ^ k)" seq_mul_issue_ready
  seq_mul_accept_ready seq_mul_output "seq_mul_cycle dsp_width pick" "seq_mul_rep dsp_width (2 ^ k)" seq_mul_remaining
proof
  show "seq_mul_rep dsp_width (2 ^ k) (seq_mul_init dsp_width (2 ^ k)) []"
    using seq_wf_build [OF dsp_pos] by (simp add: seq_mul_rep_def seq_mul_init_def)
  show "\<exists>p q'. q = p # q' \<and> seq_mul_output s = product p"
    if "seq_mul_rep dsp_width (2 ^ k) s q" "seq_mul_accept_ready s" for s q
    using that seq_result_correct by (auto simp: seq_mul_rep_def seq_mul_accept_ready_def seq_mul_output_def product_def)
  show "seq_mul_remaining (seq_mul_cycle dsp_width pick iss False s) < seq_mul_remaining s"
    if rep: "seq_mul_rep dsp_width (2 ^ k) s q" "q \<noteq> []" "\<not> seq_mul_accept_ready s"
      and legal: "legal_call (mul_range (2 ^ k)) seq_mul_issue_ready seq_mul_accept_ready iss False s" for s q iss
  proof -
    have acc: "\<not> sq_accepted s" using rep(1,2) by (auto simp: seq_mul_rep_def)
    then have iss: "iss = None" using legal
      by (auto simp: legal_call_def seq_mul_issue_ready_def split: option.splits prod.splits)
    show ?thesis
    proof (cases "sq_reset s")
      case True
      then show ?thesis using iss seq_leaves_requests
        by (simp add: seq_mul_remaining_def seq_mul_cycle_def Let_def)
          (metis le_imp_less_Suc seq_leaves_step)
    next
      case False
      then have "seq_requests False (sq_tree s) \<noteq> []"
        using rep(3) acc by (simp add: seq_mul_accept_ready_def seq_requests_confirm)
      then show ?thesis
        using False iss pick_mem length_seq_requests_grant [of "pick (seq_requests False (sq_tree s))" "sq_tree s"]
        by (simp add: seq_mul_remaining_def seq_mul_cycle_def Let_def) (metis lessI)
    qed
  qed
qed (rule seq_mul_rep_cycle)

text \<open>
  The configuration of a 32-bit core with the default DSP width, under a scheduler that serves the
  transactions in the order of their definition.
\<close>

interpretation seq_priority: seq_scheduler 18 5 hd
  by unfold_locales simp_all

end
