(* ===== verification/Mul_Unit.thy ===== *)
theory Mul_Unit
  imports Fu_Common Unsigned_Mul
begin

text \<open>
  The multiplication unit (\<^verbatim>\<open>func_blocks/fu/mul_unit.py\<close>): signs are removed before an unsigned
  multiplier is used and put back on its result. The unit is a client of the interface
  \<open>unsigned_mul\<close>; its parameter queue pairs the results with the instructions in the order of issue.
\<close>

section \<open>MulFn\<close>

datatype mul_fn = Mul_MUL | Mul_MULH | Mul_MULHU | Mul_MULHSU

definition mul_instructions :: "mul_fn fu_op list" where
  "mul_instructions =
    [(Mul_MUL, OpType_MUL, Some F3_MUL, None), (Mul_MULH, OpType_MUL, Some F3_MULH, None),
     (Mul_MULHU, OpType_MUL, Some F3_MULHU, None), (Mul_MULHSU, OpType_MUL, Some F3_MULHSU, None)]"

section \<open>MulUnit\<close>

record mul_params =
  mp_rob_id :: nat
  mp_rp_dst :: nat
  mp_negative_res :: bool
  mp_high_res :: bool

definition get_input :: "'a::len issue_arg \<Rightarrow> 'a word \<times> 'a word" where
  "get_input arg = (s1_val arg, if ia_imm arg \<noteq> 0 then ia_imm arg else s2_val arg)"

text \<open>\<^verbatim>\<open>issue_decoded\<close>: the entry for the parameter queue and the arguments of the multiplier.\<close>

definition mul_issue_decoded ::
  "'a::len issue_arg \<Rightarrow> mul_fn list \<Rightarrow> (mul_params \<times> 'a word \<times> 'a word) option" where
  "mul_issue_decoded arg fn =
     (let (i1, i2) = get_input arg; sign_bit = LENGTH('a) - 1;
          params = (\<lambda>neg high. \<lparr>mp_rob_id = rob_id arg, mp_rp_dst = rp_dst arg,
                                mp_negative_res = neg, mp_high_res = high\<rparr>)
      in one_hot_switch fn (\<lambda>f. case f of
           Mul_MUL \<Rightarrow> (params False False, i1, i2)
         | Mul_MULH \<Rightarrow> (params (bit i1 sign_bit \<noteq> bit i2 sign_bit) True,
             (if bit i1 sign_bit then - i1 else i1), (if bit i2 sign_bit then - i2 else i2))
         | Mul_MULHU \<Rightarrow> (params False True, i1, i2)
         | Mul_MULHSU \<Rightarrow> (params (bit i1 sign_bit) True, (if bit i1 sign_bit then - i1 else i1), i2)))"

definition mul_issue :: "'a::len issue_arg \<Rightarrow> (mul_params \<times> 'a word \<times> 'a word) option" where
  "mul_issue = fu_issue mul_instructions mul_issue_decoded"

text \<open>The transaction that joins a product with its parameters.\<close>

definition mul_push :: "mul_params \<Rightarrow> nat \<Rightarrow> 'a::len result_arg" where
  "mul_push params response =
     (let xlen = LENGTH('a);
          sign_result = (if mp_negative_res params then - int response else int response);
          result = (if mp_high_res params then word_of_int (drop_bit xlen sign_result) else word_of_int sign_result)
      in \<lparr>r_rob_id = mp_rob_id params, r_result = result, r_rp_dst = mp_rp_dst params, r_exception = False\<rparr>)"

section \<open>What the instructions compute\<close>

definition mul_spec :: "mul_fn \<Rightarrow> 'a::len word \<Rightarrow> 'a word \<Rightarrow> 'a word" where
  "mul_spec f a b =
     (let N = LENGTH('a) in
      case f of
        Mul_MUL \<Rightarrow> a * b
      | Mul_MULH \<Rightarrow> word_of_int (sint a * sint b div 2 ^ N)
      | Mul_MULHU \<Rightarrow> word_of_int (uint a * uint b div 2 ^ N)
      | Mul_MULHSU \<Rightarrow> word_of_int (sint a * uint b div 2 ^ N))"

lemma sign_bit_iff: "bit (a :: 'a::len word) (LENGTH('a) - 1) \<longleftrightarrow> sint a < 0"
  by (simp add: bit_last_iff)

lemma sint_uint_cases:
  "sint (a :: 'a::len word) = (if bit a (LENGTH('a) - 1) then uint a - 2 ^ LENGTH('a) else uint a)"
proof -
  have "sint a = signed_take_bit (LENGTH('a) - 1) (uint a)" by (simp add: sint_uint)
  also have "\<dots> = take_bit LENGTH('a) (uint a) - 2 ^ LENGTH('a) * of_bool (bit a (LENGTH('a) - 1))"
    by (simp add: signed_take_bit_eq_take_bit_minus bit_uint_iff)
  finally show ?thesis by (simp add: take_bit_int_eq_self_iff)
qed

lemma abs_value:
  "int (unat (if bit (a :: 'a::len word) (LENGTH('a) - 1) then - a else a)) = \<bar>sint a\<bar>"
proof (cases "bit a (LENGTH('a) - 1)")
  case True
  then have neg: "sint a < 0" "sint a = uint a - 2 ^ LENGTH('a)" using sign_bit_iff [of a] sint_uint_cases [of a] by auto
  have "a \<noteq> 0" using True by auto
  then have "0 < uint a" by (simp add: uint_0_iff order_less_le)
  then have range: "0 \<le> 2 ^ LENGTH('a) - uint a" "2 ^ LENGTH('a) - uint a < 2 ^ LENGTH('a)"
    using uint_lt2p [of a] by linarith+
  have "uint (- a) = (- uint a + 2 ^ LENGTH('a)) mod 2 ^ LENGTH('a)" by (simp add: uint_word_ariths)
  also have "- uint a + 2 ^ LENGTH('a) = 2 ^ LENGTH('a) - uint a" by (rule uminus_add_conv_diff)
  also have "\<dots> mod 2 ^ LENGTH('a) = \<dots>" using range by (rule mod_pos_pos_trivial)
  finally have "uint (- a) = \<bar>sint a\<bar>" using neg by linarith
  then show ?thesis by (simp only: True if_True uint_nat)
next
  case False
  then have "\<not> sint a < 0" "sint a = uint a" using sign_bit_iff [of a] sint_uint_cases [of a] by auto
  then show ?thesis by (simp only: False if_False uint_nat abs_of_nat)
qed

lemma mul_push_correct:
  fixes arg :: "'a::len issue_arg"
  assumes "mul_issue_decoded arg [f] = Some (p, v1, v2)"
  shows "mul_push p (unat v1 * unat v2) = fu_result arg (mul_spec f (s1_val arg) (operand2 arg))"
proof -
  define a b where "a = s1_val arg" and "b = operand2 arg"
  have inp: "get_input arg = (a, b)" by (simp add: get_input_def a_def b_def operand2_def)
  have s: "bit x (LENGTH('a) - Suc 0) \<longleftrightarrow> sint x < 0" for x :: "'a word" using sign_bit_iff [of x] by simp
  note abs = abs_value [of a, unfolded One_nat_def s] abs_value [of b, unfolded One_nat_def s]
  show ?thesis
  proof (cases f)
    case Mul_MULH
    then have "v1 = (if sint a < 0 then - a else a)" "v2 = (if sint b < 0 then - b else b)"
      "mp_negative_res p = ((sint a < 0) \<noteq> (sint b < 0))" "mp_high_res p"
      "mp_rob_id p = rob_id arg" "mp_rp_dst p = rp_dst arg"
      using assms by (auto simp: mul_issue_decoded_def inp Let_def s)
    moreover from this have "int (unat v1 * unat v2) = \<bar>sint a\<bar> * \<bar>sint b\<bar>" by (simp only: of_nat_mult abs)
    moreover have "(if (sint a < 0) \<noteq> (sint b < 0) then - (\<bar>sint a\<bar> * \<bar>sint b\<bar>) else \<bar>sint a\<bar> * \<bar>sint b\<bar>) = sint a * sint b"
      by (auto simp: abs_if)
    ultimately show ?thesis
      by (simp only: mul_push_def fu_result_def mul_spec_def Mul_MULH a_def [symmetric] b_def [symmetric] Let_def
          if_True drop_bit_eq_div mul_fn.case)
  next
    case Mul_MULHSU
    then have "v1 = (if sint a < 0 then - a else a)" "v2 = b"
      "mp_negative_res p = (sint a < 0)" "mp_high_res p" "mp_rob_id p = rob_id arg" "mp_rp_dst p = rp_dst arg"
      using assms by (auto simp: mul_issue_decoded_def inp Let_def s)
    moreover from this have "int (unat v1 * unat v2) = \<bar>sint a\<bar> * uint b" by (simp only: of_nat_mult abs uint_nat)
    moreover have "(if sint a < 0 then - (\<bar>sint a\<bar> * uint b) else \<bar>sint a\<bar> * uint b) = sint a * uint b"
      by (auto simp: abs_if)
    ultimately show ?thesis
      by (simp only: mul_push_def fu_result_def mul_spec_def Mul_MULHSU a_def [symmetric] b_def [symmetric] Let_def
          if_True drop_bit_eq_div mul_fn.case)
  qed (use assms in \<open>auto simp: mul_issue_decoded_def inp Let_def mul_push_def fu_result_def mul_spec_def
        drop_bit_eq_div simp flip: a_def b_def\<close>)
qed

interpretation mul_tab: fu_table mul_instructions False
  by unfold_locales (simp_all add: mul_instructions_def get_op_types_def)

text \<open>The result the instruction set prescribes for an issued instruction.\<close>

definition mul_expected :: "'a::len issue_arg \<Rightarrow> 'a result_arg option" where
  "mul_expected arg =
     one_hot_switch (get_decoder mul_instructions (ia_exec_fn arg))
       (\<lambda>f. fu_result arg (mul_spec f (s1_val arg) (operand2 arg)))"

lemma mul_issue_push:
  fixes arg :: "'a::len issue_arg"
  assumes "mul_issue arg = Some (p, v1, v2)"
  shows "mul_expected arg = Some (mul_push p (unat v1 * unat v2))"
proof -
  from assms obtain f where f: "get_decoder mul_instructions (ia_exec_fn arg) = [f]"
    using mul_tab.decoder_single [of "ia_exec_fn arg"]
    by (auto simp: mul_issue_def fu_issue_def mul_issue_decoded_def one_hot_switch_def get_input_def)
  then show ?thesis
    using assms mul_push_correct [of arg f p v1 v2] by (simp add: mul_expected_def mul_issue_def fu_issue_def)
qed

text \<open>The requests of a run that belong to a list of instructions, in the order of issue.\<close>

definition unit_requests :: "(mul_params \<times> 'a::len word \<times> 'a word) list \<Rightarrow> (nat \<times> nat) list" where
  "unit_requests reqs = map (\<lambda>(p, v1, v2). (unat v1, unat v2)) reqs"

definition unit_results :: "(mul_params \<times> 'a::len word \<times> 'a word) list \<Rightarrow> nat list \<Rightarrow> 'a result_arg list" where
  "unit_results reqs outs = map2 (\<lambda>(p, v1, v2). mul_push p) reqs outs"

context unsigned_mul
begin

lemma unit_results_expected:
  fixes reqs :: "(mul_params \<times> 'a::len word \<times> 'a word) list"
  assumes "unit_run (mul_range n) issue_ready accept_ready result cycle cs init = Some (t, outs)"
    "map mul_issue args = map Some reqs" "issued cs = unit_requests reqs"
  shows "map Some (unit_results reqs outs) = take (length outs) (map mul_expected args)"
  unfolding unit_results_def
  by (rule results_expected [OF assms(1,2) assms(3) [unfolded unit_requests_def]])
    (auto simp: product_def mul_issue_push)

end

text \<open>
  The multiplication unit with the shift-and-add multiplier: in any run of the multiplier from
  reset, with any legal interleaving of issues, idle cycles and accepted results, the results that
  the unit pushes are, in the order of issue, those that the instruction set prescribes for MUL,
  MULH, MULHU and MULHSU.
\<close>

theorem mul_unit_shift:
  fixes reqs :: "(mul_params \<times> 'a::len word \<times> 'a word) list"
  assumes "unit_run (mul_range LENGTH('a)) shift_mul_issue_ready shift_mul_accept_ready sm_res (shift_mul_cycle LENGTH('a)) cs
      shift_mul_init = Some (t, outs)"
    "map mul_issue args = map Some reqs" "issued cs = unit_requests reqs"
  shows "map Some (unit_results reqs outs) = take (length outs) (map mul_expected args)"
  using assms by (rule shift_mul.unit_results_expected)

definition mulh_example :: "8 issue_arg" where
  "mulh_example = \<lparr>s1_val = 0xfd, s2_val = 2, rp_dst = 4, rob_id = 6,
     ia_exec_fn = \<lparr>op_type = OpType_MUL, fn_funct3 = to_bits 3 1, fn_funct7 = to_bits 7 1\<rparr>,
     ia_imm = 0, ia_pc = 0, ia_tag = 0, ia_ftq_ptr = 0\<rparr>"

lemma mulh_example_issue:
  "mul_issue mulh_example = Some (\<lparr>mp_rob_id = 6, mp_rp_dst = 4, mp_negative_res = True, mp_high_res = True\<rparr>, 3, 2)"
  by code_simp

definition mul_example_run :: "((nat \<times> nat) option \<times> bool) list" where
  "mul_example_run = [(Some (3, 2), False), (None, False), (None, False), (None, True)]"

theorem mul_unit_shift_witness:
  "map Some (unit_results [(\<lparr>mp_rob_id = 6, mp_rp_dst = 4, mp_negative_res = True, mp_high_res = True\<rparr>, 3 :: 8 word, 2)] [6]) =
     [mul_expected mulh_example]"
proof -
  have "\<exists>t. unit_run (mul_range LENGTH(8)) shift_mul_issue_ready shift_mul_accept_ready sm_res (shift_mul_cycle LENGTH(8))
      mul_example_run shift_mul_init = Some (t, [6])"
    by (simp add: mul_example_run_def shift_mul_init_def shift_mul_cycle_def legal_call_def mul_range_def shift_mul_issue_ready_def
        shift_mul_accept_ready_def Let_def)
  then obtain t where run: "unit_run (mul_range LENGTH(8)) shift_mul_issue_ready shift_mul_accept_ready sm_res
      (shift_mul_cycle LENGTH(8)) mul_example_run shift_mul_init = Some (t, [6])" by blast
  have "issued mul_example_run =
      unit_requests [(\<lparr>mp_rob_id = 6, mp_rp_dst = 4, mp_negative_res = True, mp_high_res = True\<rparr>, 3 :: 8 word, 2)]"
    by (simp add: issued_def mul_example_run_def unit_requests_def)
  with mul_unit_shift [OF run, of "[mulh_example]"] show ?thesis by (simp add: mulh_example_issue)
qed

context seq_scheduler
begin

lemmas seq_unit_results = seq_mul.unit_results_expected
lemmas seq_reachable = seq_mul.reachable
lemmas seq_answers = seq_mul.answers_product

end

text \<open>
  The same for the sequential multiplier with a single DSP block, for every width of the DSP
  block and every scheduler that grants the block to one of the partial products that request it.
\<close>

theorem mul_unit_sequential:
  fixes reqs :: "(mul_params \<times> 'a::len word \<times> 'a word) list"
  assumes "\<And>rs. rs \<noteq> [] \<Longrightarrow> pick rs \<in> set rs" "0 < dsp_width" "LENGTH('a) = 2 ^ k"
    "unit_run (mul_range LENGTH('a)) seq_mul_issue_ready seq_mul_accept_ready seq_mul_output (seq_mul_cycle dsp_width pick) cs
      (seq_mul_init dsp_width LENGTH('a)) = Some (t, outs)"
    "map mul_issue args = map Some reqs" "issued cs = unit_requests reqs"
  shows "map Some (unit_results reqs outs) = take (length outs) (map mul_expected args)"
proof -
  have sched: "seq_scheduler dsp_width pick" using assms(1,2) by unfold_locales
  show ?thesis
    using assms(4-6) unfolding assms(3) by (rule seq_scheduler.seq_unit_results [OF sched])
qed

theorem mul_unit_sequential_witness:
  "map Some (unit_results [(\<lparr>mp_rob_id = 6, mp_rp_dst = 4, mp_negative_res = True, mp_high_res = True\<rparr>, 3 :: 8 word, 2)] [6]) =
     [mul_expected mulh_example]"
proof -
  let ?cs = "[(Some (3, 2), False), (None, False), (None, False), (None, False), (None, False), (None, False), (None, True)]"
  have "\<exists>t. unit_run (mul_range 8) seq_mul_issue_ready seq_mul_accept_ready seq_mul_output (seq_mul_cycle 4 hd)
      ?cs (seq_mul_init 4 8) = Some (t, [6])"
    by (simp add: seq_mul_init_def RecursiveWithSingleDSPMul.simps seq_mul_cycle_def legal_call_def mul_range_def
        seq_mul_issue_ready_def seq_mul_accept_ready_def seq_mul_output_def sub_grant_def dsp_compute_def Let_def)
  then obtain t where run: "unit_run (mul_range LENGTH(8)) seq_mul_issue_ready seq_mul_accept_ready seq_mul_output (seq_mul_cycle 4 hd)
      ?cs (seq_mul_init 4 LENGTH(8)) = Some (t, [6])" by auto
  have len: "LENGTH(8) = 2 ^ 3" by simp
  have iss: "issued ?cs = unit_requests [(\<lparr>mp_rob_id = 6, mp_rp_dst = 4, mp_negative_res = True, mp_high_res = True\<rparr>, 3 :: 8 word, 2)]"
    by (simp add: issued_def unit_requests_def)
  from mul_unit_sequential [OF _ _ len run _ iss, of "[mulh_example]"] show ?thesis
    by (simp add: mulh_example_issue)
qed

text \<open>
  C7. The multiplication unit pushes the prescribed results in the order of issue, whichever multiplier it is built on: in
  every run of the shift-and-add multiplier, and in every run of the sequential one with a single DSP block of any
  width and any scheduler that grants the block to one of the requests.
\<close>

theorem mul_units_correct:
  fixes reqs :: "(mul_params \<times> 'a::len word \<times> 'a word) list"
  shows "(unit_run (mul_range LENGTH('a)) shift_mul_issue_ready shift_mul_accept_ready sm_res (shift_mul_cycle LENGTH('a)) cs
        shift_mul_init = Some (t, outs) \<longrightarrow>
      map mul_issue args = map Some reqs \<longrightarrow> issued cs = unit_requests reqs \<longrightarrow>
      map Some (unit_results reqs outs) = take (length outs) (map mul_expected args)) \<and>
    ((\<forall>rs. rs \<noteq> [] \<longrightarrow> pick rs \<in> set rs) \<longrightarrow> 0 < dsp_width \<longrightarrow> LENGTH('a) = 2 ^ k \<longrightarrow>
      unit_run (mul_range LENGTH('a)) seq_mul_issue_ready seq_mul_accept_ready seq_mul_output (seq_mul_cycle dsp_width pick) cs
        (seq_mul_init dsp_width LENGTH('a)) = Some (u, outs') \<longrightarrow>
      map mul_issue args = map Some reqs \<longrightarrow> issued cs = unit_requests reqs \<longrightarrow>
      map Some (unit_results reqs outs') = take (length outs') (map mul_expected args))"
  using mul_unit_shift [where 'a = 'a, of cs t outs args reqs] mul_unit_sequential [where 'a = 'a, of pick dsp_width k cs u outs' args reqs] by blast

theorem mul_units_correct_witness:
  "map Some (unit_results [(\<lparr>mp_rob_id = 6, mp_rp_dst = 4, mp_negative_res = True, mp_high_res = True\<rparr>, 3 :: 8 word, 2)] [6]) =
     [mul_expected mulh_example]"
proof -
  let ?cs = "[(Some (3, 2), False), (None, False), (None, False), (None, False), (None, False), (None, False), (None, True)]"
  have "\<exists>t. unit_run (mul_range 8) seq_mul_issue_ready seq_mul_accept_ready seq_mul_output (seq_mul_cycle 4 hd)
      ?cs (seq_mul_init 4 8) = Some (t, [6])"
    by (simp add: seq_mul_init_def RecursiveWithSingleDSPMul.simps seq_mul_cycle_def legal_call_def mul_range_def
        seq_mul_issue_ready_def seq_mul_accept_ready_def seq_mul_output_def sub_grant_def dsp_compute_def Let_def)
  then obtain t where run: "unit_run (mul_range LENGTH(8)) seq_mul_issue_ready seq_mul_accept_ready seq_mul_output (seq_mul_cycle 4 hd)
      ?cs (seq_mul_init 4 LENGTH(8)) = Some (t, [6])" by auto
  have len: "LENGTH(8) = 2 ^ 3" by simp
  have iss: "issued ?cs = unit_requests [(\<lparr>mp_rob_id = 6, mp_rp_dst = 4, mp_negative_res = True, mp_high_res = True\<rparr>, 3 :: 8 word, 2)]"
    by (simp add: issued_def unit_requests_def)
  have pick: "\<forall>rs. rs \<noteq> [] \<longrightarrow> hd rs \<in> set rs" "0 < (4 :: nat)" by simp_all
  note unit = mul_units_correct [THEN conjunct2]
  from unit [THEN mp, THEN mp, THEN mp, THEN mp, THEN mp, THEN mp, OF pick len run _ iss, of "[mulh_example]"] show ?thesis
    by (simp add: mulh_example_issue)
qed

text \<open>
  Every request is answered: in any state that either multiplier reaches, a request that it
  accepts becomes acceptable, with its product as result, after at most as many idle cycles as the
  register has bits (shift-and-add) or one more than the number of partial products (sequential).
\<close>

lemma multipliers_answer:
  assumes "a < 2 ^ n" "b < 2 ^ n" "n = 2 ^ m" "0 < dsp_width" "\<And>rs. rs \<noteq> [] \<Longrightarrow> pick rs \<in> set rs"
  shows "(unit_run (mul_range n) shift_mul_issue_ready shift_mul_accept_ready sm_res (shift_mul_cycle n) cs shift_mul_init = Some (s, outs) \<longrightarrow>
      shift_mul_issue_ready s \<longrightarrow>
      (\<exists>k\<le>n. let t = (shift_mul_cycle n None False ^^ k) (shift_mul_cycle n (Some (a, b)) False s) in
         shift_mul_accept_ready t \<and> sm_res t = a * b)) \<and>
    (unit_run (mul_range n) seq_mul_issue_ready seq_mul_accept_ready seq_mul_output (seq_mul_cycle dsp_width pick) cs
        (seq_mul_init dsp_width n) = Some (u, outs') \<longrightarrow>
      seq_mul_issue_ready u \<longrightarrow>
      (\<exists>k \<le> 1 + seq_leaves (sq_tree u). let t = (seq_mul_cycle dsp_width pick None False ^^ k)
           (seq_mul_cycle dsp_width pick (Some (a, b)) False u) in
         seq_mul_accept_ready t \<and> seq_mul_output t = a * b))"
proof (intro conjI impI)
  assume run: "unit_run (mul_range n) shift_mul_issue_ready shift_mul_accept_ready sm_res (shift_mul_cycle n) cs shift_mul_init = Some (s, outs)"
    and ready: "shift_mul_issue_ready s"
  have "shift_mul_rep n s []"
    using shift_mul.reachable [OF run] ready by (auto simp: shift_mul_rep_def shift_mul_issue_ready_def)
  then obtain k where "k \<le> bit_length (sm_i2 (shift_mul_cycle n (Some (a, b)) False s))"
    "let t = (shift_mul_cycle n None False ^^ k) (shift_mul_cycle n (Some (a, b)) False s) in
       shift_mul_accept_ready t \<and> sm_res t = a * b"
    using shift_mul.answers_product ready assms(1,2) by blast
  moreover have "bit_length (sm_i2 (shift_mul_cycle n (Some (a, b)) False s)) \<le> n"
    using ready bit_length_less [OF assms(2)] by (simp add: shift_mul_cycle_def shift_mul_issue_ready_def)
  ultimately show "\<exists>k\<le>n. let t = (shift_mul_cycle n None False ^^ k) (shift_mul_cycle n (Some (a, b)) False s) in
         shift_mul_accept_ready t \<and> sm_res t = a * b"
    using le_trans by blast
next
  assume run: "unit_run (mul_range n) seq_mul_issue_ready seq_mul_accept_ready seq_mul_output (seq_mul_cycle dsp_width pick) cs
        (seq_mul_init dsp_width n) = Some (u, outs')"
    and ready: "seq_mul_issue_ready u"
  have sched: "seq_scheduler dsp_width pick" using assms(4,5) by unfold_locales
  have "seq_mul_rep dsp_width n u []"
    using seq_scheduler.seq_reachable [OF sched] run ready
    unfolding assms(3) by (fastforce simp: seq_mul_rep_def seq_mul_issue_ready_def)
  then obtain k where "k \<le> seq_mul_remaining (seq_mul_cycle dsp_width pick (Some (a, b)) False u)"
    "let t = (seq_mul_cycle dsp_width pick None False ^^ k) (seq_mul_cycle dsp_width pick (Some (a, b)) False u) in
       seq_mul_accept_ready t \<and> seq_mul_output t = a * b"
    using seq_scheduler.seq_answers [OF sched] ready assms(1,2) unfolding assms(3) by blast
  moreover have "seq_mul_remaining (seq_mul_cycle dsp_width pick (Some (a, b)) False u) \<le> 1 + seq_leaves (sq_tree u)"
    by (simp add: seq_mul_remaining_def seq_mul_cycle_def Let_def)
  ultimately show "\<exists>k \<le> 1 + seq_leaves (sq_tree u). let t = (seq_mul_cycle dsp_width pick None False ^^ k)
           (seq_mul_cycle dsp_width pick (Some (a, b)) False u) in
         seq_mul_accept_ready t \<and> seq_mul_output t = a * b"
    using le_trans by blast
qed

end
