(* ===== verification/Div_Unit.thy ===== *)
theory Div_Unit
  imports Fu_Common Request_Unit Mul_Unit
begin

text \<open>
  Division (\<^verbatim>\<open>func_blocks/fu/division\<close> and \<^verbatim>\<open>func_blocks/fu/div_unit.py\<close>): the combinational array
  \<^verbatim>\<open>RecursiveDivison\<close> that computes a few quotient bits, the multi-cycle divider
  \<^verbatim>\<open>LongDivider\<close> around it, and the unit that handles signs, division by zero and overflow.
\<close>

section \<open>RecursiveDivison\<close>

text \<open>Quotient, remainder and partial remainder, for a divisor, a dividend and an input remainder.\<close>

fun RecursiveDivison :: "nat \<Rightarrow> nat \<Rightarrow> int \<Rightarrow> nat \<Rightarrow> nat \<Rightarrow> nat \<Rightarrow> nat \<times> nat \<times> nat" where
  "RecursiveDivison 0 sz partial_remainder_count divisor dividend input_remainder =
     (0, input_remainder, input_remainder)"
| "RecursiveDivison (Suc k) sz partial_remainder_count divisor dividend input_remainder =
     (let concat = take_bit sz (of_bool (bit dividend k) + 2 * input_remainder);
          ge = (concat \<ge> divisor);
          (q, r, p) = RecursiveDivison k sz (partial_remainder_count - 1) divisor dividend
                        (if ge then concat - divisor else concat)
      in ((if ge then 2 ^ k else 0) + take_bit k q, r,
          if partial_remainder_count = 0 then input_remainder else p))"

section \<open>LongDivider\<close>

record long_div =
  ld_ready :: bool
  ld_dividend :: nat
  ld_divisor :: nat
  ld_quotient :: nat
  ld_remainder :: nat
  ld_stage :: nat

definition long_div_init :: long_div where
  "long_div_init = \<lparr>ld_ready = True, ld_dividend = 0, ld_divisor = 0, ld_quotient = 0, ld_remainder = 0, ld_stage = 0\<rparr>"

definition ld_stages :: "nat \<Rightarrow> nat \<Rightarrow> nat" where
  "ld_stages xl ipc = xl div ipc + (if xl mod ipc > 0 then 1 else 0)"

definition long_div_issue_ready :: "long_div \<Rightarrow> bool" where
  "long_div_issue_ready s = ld_ready s"

definition long_div_accept_ready :: "nat \<Rightarrow> nat \<Rightarrow> long_div \<Rightarrow> bool" where
  "long_div_accept_ready xl ipc s = (\<not> ld_ready s \<and> ld_stage s = ld_stages xl ipc)"

definition long_div_result :: "long_div \<Rightarrow> nat \<times> nat" where
  "long_div_result s = (ld_quotient s, ld_remainder s)"

text \<open>One iteration of the shift register, active while a division is under way.\<close>

definition long_div_iterate :: "nat \<Rightarrow> nat \<Rightarrow> long_div \<Rightarrow> long_div" where
  "long_div_iterate xl ipc s =
     (let prc = xl mod ipc;
          special_stage = (ld_stages xl ipc = ld_stage s + 1 \<and> prc \<noteq> 0);
          (q, r, p) = RecursiveDivison ipc xl (int prc) (ld_divisor s) (drop_bit (xl - ipc) (ld_dividend s)) (ld_remainder s)
      in s\<lparr>ld_dividend := take_bit xl (push_bit ipc (ld_dividend s)),
           ld_remainder := (if special_stage then p else r),
           ld_quotient :=
             (if special_stage
              then take_bit xl (take_bit prc (drop_bit (ipc - prc) q) + 2 ^ prc * ld_quotient s)
              else take_bit xl (take_bit ipc q + 2 ^ ipc * ld_quotient s)),
           ld_stage := take_bit (bit_length xl) (ld_stage s + 1)\<rparr>)"

text \<open>
  A cycle, with the calls of \<^verbatim>\<open>issue\<close>, \<^verbatim>\<open>accept\<close> and \<^verbatim>\<open>clear\<close>; the assignments of the methods and of
  the iteration in the order of the source, a later one winning.
\<close>

definition long_div_cycle :: "nat \<Rightarrow> nat \<Rightarrow> bool \<Rightarrow> (nat \<times> nat) option \<Rightarrow> bool \<Rightarrow> long_div \<Rightarrow> long_div" where
  "long_div_cycle xl ipc clear iss acc s =
     (let s1 = (case iss of None \<Rightarrow> s
                | Some (a, b) \<Rightarrow> \<lparr>ld_ready = False, ld_dividend = a, ld_divisor = b, ld_quotient = 0,
                                 ld_remainder = 0, ld_stage = 0\<rparr>);
          s2 = (if acc then s1\<lparr>ld_ready := True\<rparr> else s1);
          s3 = (if clear then s2\<lparr>ld_stage := 0, ld_ready := True\<rparr> else s2);
          active = (\<not> ld_ready s \<and> ld_stage s \<noteq> ld_stages xl ipc);
          it = long_div_iterate xl ipc s
      in if active
         then s3\<lparr>ld_dividend := ld_dividend it, ld_remainder := ld_remainder it, ld_quotient := ld_quotient it,
                 ld_stage := ld_stage it\<rparr>
         else s3)"

section \<open>DivUnit\<close>

datatype div_fn = Div_DIV | Div_DIVU | Div_REM | Div_REMU

definition div_instructions :: "div_fn fu_op list" where
  "div_instructions =
    [(Div_DIV, OpType_DIV_REM, Some F3_DIV, None), (Div_DIVU, OpType_DIV_REM, Some F3_DIVU, None),
     (Div_REM, OpType_DIV_REM, Some F3_REM, None), (Div_REMU, OpType_DIV_REM, Some F3_REMU, None)]"

record div_params =
  dp_rob_id :: nat
  dp_rp_dst :: nat
  dp_flip_sign :: bool
  dp_rem_res :: bool

definition div_get_input :: "'a::len issue_arg \<Rightarrow> 'a word \<times> 'a word" where
  "div_get_input arg = (s1_val arg, if ia_imm arg \<noteq> 0 then ia_imm arg else s2_val arg)"

definition word_abs :: "'a::len word \<Rightarrow> 'a word" where
  "word_abs v = (if sint v < 0 then - v else v)"

text \<open>\<^verbatim>\<open>issue_decoded\<close>: the entry for the parameter queue, the dividend and the divisor.\<close>

definition div_issue_decoded ::
  "'a::len issue_arg \<Rightarrow> div_fn list \<Rightarrow> (div_params \<times> 'a word \<times> 'a word) option" where
  "div_issue_decoded arg fn =
     (let (i1, i2) = div_get_input arg; sign_bit = LENGTH('a) - 1;
          params = (\<lambda>flip rem. \<lparr>dp_rob_id = rob_id arg, dp_rp_dst = rp_dst arg, dp_flip_sign = flip, dp_rem_res = rem\<rparr>)
      in one_hot_switch fn (\<lambda>f. case f of
           Div_DIVU \<Rightarrow> (params False False, i1, i2)
         | Div_DIV \<Rightarrow> (params (bit i1 sign_bit \<noteq> bit i2 sign_bit) False, word_abs i1, word_abs i2)
         | Div_REMU \<Rightarrow> (params False True, i1, i2)
         | Div_REM \<Rightarrow> (params (bit i1 sign_bit) True, word_abs i1, word_abs i2)))"

definition div_issue :: "'a::len issue_arg \<Rightarrow> (div_params \<times> 'a word \<times> 'a word) option" where
  "div_issue = fu_issue div_instructions div_issue_decoded"

text \<open>The transaction that joins the divider's response with its parameters.\<close>

definition div_push :: "div_params \<Rightarrow> nat \<times> nat \<Rightarrow> 'a::len result_arg" where
  "div_push params response =
     (let result = (if dp_rem_res params then of_nat (snd response) else of_nat (fst response)) :: 'a word;
          flip_sig = (if dp_flip_sign params then \<not> bit result (LENGTH('a) - 1) else False);
          sign_result = (if flip_sig then - result else result)
      in \<lparr>r_rob_id = dp_rob_id params, r_result = sign_result, r_rp_dst = dp_rp_dst params, r_exception = False\<rparr>)"

section \<open>Division by steps\<close>

text \<open>The quotient of the array: all ones for a zero divisor.\<close>

definition array_quotient :: "nat \<Rightarrow> nat \<Rightarrow> nat \<Rightarrow> nat" where
  "array_quotient k d v = (if d = 0 then 2 ^ k - 1 else v div d)"

definition rem_ok :: "nat \<Rightarrow> nat \<Rightarrow> nat \<Rightarrow> bool" where
  "rem_ok m d r \<longleftrightarrow> r < 2 ^ m \<and> (d = 0 \<or> r < d)"

lemma array_quotient_less:
  assumes "rem_ok m d r" "x < 2 ^ k"
  shows "array_quotient k d (r * 2 ^ k + x) < 2 ^ k"
proof (cases "d = 0")
  case False
  then have "Suc r \<le> d" using assms by (auto simp: rem_ok_def)
  then have "r * 2 ^ k + 2 ^ k \<le> d * 2 ^ k" by (metis add.commute mult_Suc mult_le_mono1)
  then have "r * 2 ^ k + x < d * 2 ^ k" using assms(2) by linarith
  then show ?thesis using False by (simp add: array_quotient_def less_mult_imp_div_less mult.commute)
qed (simp add: array_quotient_def)

lemma array_quotient_append:
  assumes "d \<noteq> 0 \<Longrightarrow> q = v div d \<and> r = v mod d" "d = 0 \<Longrightarrow> q = 2 ^ m - 1 \<and> r = v" "x < 2 ^ k"
  shows "array_quotient k d (r * 2 ^ k + x) + 2 ^ k * q = array_quotient (m + k) d (v * 2 ^ k + x)"
proof (cases "d = 0")
  case True
  then have "2 ^ k * q = 2 ^ (m + k) - 2 ^ k" using assms(2) by (simp add: algebra_simps power_add)
  moreover have "(2 :: nat) ^ k \<le> 2 ^ (m + k)" by simp
  ultimately show ?thesis using True by (simp add: array_quotient_def)
next
  case False
  have "v = r + q * d" using assms(1) False by (simp add: mult.commute)
  then have "v * 2 ^ k + x = (r * 2 ^ k + x) + 2 ^ k * q * d" by (simp add: algebra_simps)
  moreover have "((r * 2 ^ k + x) + 2 ^ k * q * d) div d = 2 ^ k * q + (r * 2 ^ k + x) div d"
    using False by (rule div_mult_self1)
  ultimately have "(v * 2 ^ k + x) div d = 2 ^ k * q + (r * 2 ^ k + x) div d" by (simp only:)
  then show ?thesis using False by (simp add: array_quotient_def)
qed

lemma RecursiveDivison_correct:
  assumes "rem_ok m d r" "m + k \<le> sz"
  shows "\<exists>p. RecursiveDivison k sz prc d x r =
    (array_quotient k d (r * 2 ^ k + take_bit k x), (r * 2 ^ k + take_bit k x) mod d, p)"
  using assms
proof (induction k arbitrary: m r prc)
  case 0
  then show ?case by (auto simp: rem_ok_def array_quotient_def)
next
  case (Suc k)
  let ?c = "of_bool (bit x k) + 2 * r"
  have "?c < 2 ^ Suc m" using Suc.prems(1) by (auto simp: rem_ok_def of_bool_def)
  moreover have "(2 :: nat) ^ Suc m \<le> 2 ^ sz" using Suc.prems(2) by (intro power_increasing) auto
  ultimately have c: "take_bit sz ?c = ?c" "?c < 2 ^ Suc m" by (simp_all add: take_bit_nat_eq_self)
  define r' where "r' = (if d \<le> ?c then ?c - d else ?c)"
  have ok: "rem_ok (Suc m) d r'" using Suc.prems(1) c(2) by (auto simp: rem_ok_def r'_def of_bool_def)
  have IH: "\<exists>p. RecursiveDivison k sz prc d x r' =
      (array_quotient k d (r' * 2 ^ k + take_bit k x), (r' * 2 ^ k + take_bit k x) mod d, p)" for prc
    using Suc.prems(2) by (intro Suc.IH [OF ok]) simp
  have x: "take_bit (Suc k) x = of_bool (bit x k) * 2 ^ k + take_bit k x"
    by (simp add: take_bit_Suc_from_most)
  have v: "r * 2 ^ Suc k + take_bit (Suc k) x = ?c * 2 ^ k + take_bit k x" by (simp add: x algebra_simps)
  have small: "take_bit k (array_quotient k d (r' * 2 ^ k + take_bit k x)) = array_quotient k d (r' * 2 ^ k + take_bit k x)"
    using array_quotient_less [OF ok] by (simp add: take_bit_nat_eq_self)
  have split: "?c * 2 ^ k + take_bit k x = (r' * 2 ^ k + take_bit k x) + (if d \<le> ?c then 2 ^ k else 0) * d"
  proof (cases "d \<le> ?c")
    case True
    then obtain e where e: "?c = d + e" using le_Suc_ex by blast
    then have "r' = e" by (simp add: r'_def)
    then show ?thesis using e by (simp add: algebra_simps)
  qed (simp add: r'_def)
  have q: "array_quotient (Suc k) d (?c * 2 ^ k + take_bit k x) =
      (if d \<le> ?c then 2 ^ k else 0) + array_quotient k d (r' * 2 ^ k + take_bit k x)"
    unfolding split by (auto simp: array_quotient_def)
  have m: "(?c * 2 ^ k + take_bit k x) mod d = (r' * 2 ^ k + take_bit k x) mod d"
    unfolding split by simp
  obtain p where "RecursiveDivison k sz (prc - 1) d x r' =
      (array_quotient k d (r' * 2 ^ k + take_bit k x), (r' * 2 ^ k + take_bit k x) mod d, p)"
    using IH by blast
  then show ?case unfolding v q m using c(1) small by (simp add: Let_def r'_def)
qed


lemma RecursiveDivison_bound: "fst (RecursiveDivison k sz prc d x r) < 2 ^ k"
proof (induction k arbitrary: prc r)
  case (Suc k)
  have "take_bit k q + 2 ^ k < 2 * (2 :: nat) ^ k" "take_bit k q < 2 * (2 :: nat) ^ k" for q
    using take_bit_nat_less_exp [of k q] by linarith+
  then show ?case by (simp add: Let_def case_prod_beta add.commute)
qed simp

text \<open>The first \<open>p\<close> steps of an array of \<open>k\<close> steps are those of an array of \<open>p\<close> steps.\<close>

lemma RecursiveDivison_partial:
  "p \<le> k \<Longrightarrow>
   snd (snd (RecursiveDivison k sz (int p) d x r)) = fst (snd (RecursiveDivison p sz c d (drop_bit (k - p) x) r)) \<and>
   drop_bit (k - p) (fst (RecursiveDivison k sz (int p) d x r)) = fst (RecursiveDivison p sz c d (drop_bit (k - p) x) r)"
proof (induction k arbitrary: p r c)
  case (Suc k)
  show ?case
  proof (cases p)
    case 0
    then show ?thesis
      using RecursiveDivison_bound [of "Suc k" sz 0 d x r]
      by (simp add: Let_def case_prod_beta drop_bit_eq_div del: drop_bit_Suc)
  next
    case (Suc p')
    then have p': "p' \<le> k" "k = p' + (k - p')" using Suc.prems by simp_all
    have "take_bit k (fst (RecursiveDivison k sz (int p') d x y)) = fst (RecursiveDivison k sz (int p') d x y)"
      and "take_bit p' (drop_bit (k - p') (fst (RecursiveDivison k sz (int p') d x y))) =
        drop_bit (k - p') (fst (RecursiveDivison k sz (int p') d x y))" for y
      using Suc.IH [OF p'(1), of y 0] by (simp_all add: take_bit_nat_eq_self RecursiveDivison_bound)
    moreover have "drop_bit (k - p') (2 ^ k + a) = 2 ^ p' + drop_bit (k - p') a" for a :: nat
    proof -
      have "(2 :: nat) ^ k = 2 ^ (k - p') * 2 ^ p'" using p' by (simp flip: power_add)
      then show ?thesis by (simp add: drop_bit_eq_div)
    qed
    moreover have "bit (drop_bit (k - p') x) p' = bit x k" using p'(1) by (simp add: bit_drop_bit_eq)
    ultimately show ?thesis
      using Suc.IH [OF p'(1)] Suc p' by (simp add: Let_def case_prod_beta)
  qed
qed simp

section \<open>The divider\<close>

definition div_range :: "nat \<Rightarrow> nat \<times> nat \<Rightarrow> bool" where
  "div_range xl p \<longleftrightarrow> fst p < 2 ^ xl \<and> snd p < 2 ^ xl"

definition quot_rem :: "nat \<Rightarrow> nat \<times> nat \<Rightarrow> nat \<times> nat" where
  "quot_rem xl p = (array_quotient xl (snd p) (fst p), fst p mod snd p)"

text \<open>Bits of the dividend that have been consumed when a stage begins.\<close>

definition consumed :: "nat \<Rightarrow> nat \<Rightarrow> nat \<Rightarrow> nat" where
  "consumed xl ipc i = min (i * ipc) xl"

definition long_div_inv :: "nat \<Rightarrow> nat \<Rightarrow> nat \<Rightarrow> nat \<Rightarrow> long_div \<Rightarrow> bool" where
  "long_div_inv xl ipc a b s \<longleftrightarrow>
     (let m = consumed xl ipc (ld_stage s); v = drop_bit (xl - m) a in
      ld_stage s \<le> ld_stages xl ipc \<and> ld_divisor s = b \<and> a < 2 ^ xl \<and> b < 2 ^ xl \<and>
      (ld_stage s < ld_stages xl ipc \<longrightarrow> ld_dividend s = take_bit xl (push_bit m a)) \<and>
      ld_quotient s = array_quotient m b v \<and> ld_remainder s = v mod b)"

lemma stage_bits:
  assumes "0 < ipc" "i < ld_stages xl ipc"
  shows "consumed xl ipc (Suc i) = consumed xl ipc i + (if ld_stages xl ipc = Suc i \<and> xl mod ipc \<noteq> 0 then xl mod ipc else ipc)"
    "consumed xl ipc i = i * ipc"
proof -
  have xl: "xl = xl div ipc * ipc + xl mod ipc" by simp
  have lt: "i * ipc \<le> xl \<and> (Suc i * ipc \<le> xl \<or> (ld_stages xl ipc = Suc i \<and> xl mod ipc \<noteq> 0 \<and> i = xl div ipc))"
  proof (cases "i < xl div ipc")
    case True
    then have "Suc i * ipc \<le> xl div ipc * ipc" by (intro mult_le_mono1) simp
    then have "Suc i * ipc \<le> xl" by (rule le_trans) simp
    then show ?thesis by simp
  next
    case False
    then have "i = xl div ipc" "xl mod ipc \<noteq> 0" "ld_stages xl ipc = Suc i"
      using assms(2) by (auto simp: ld_stages_def split: if_splits)
    then show ?thesis by simp
  qed
  then show i: "consumed xl ipc i = i * ipc" by (simp add: consumed_def)
  have "xl mod ipc < ipc" using assms(1) by simp
  show "consumed xl ipc (Suc i) = consumed xl ipc i + (if ld_stages xl ipc = Suc i \<and> xl mod ipc \<noteq> 0 then xl mod ipc else ipc)"
  proof (cases "ld_stages xl ipc = Suc i \<and> xl mod ipc \<noteq> 0")
    case True
    then have "i = xl div ipc" by (auto simp: ld_stages_def)
    then have "xl = i * ipc + xl mod ipc" using xl by simp
    then show ?thesis unfolding i using True \<open>xl mod ipc < ipc\<close> by (simp add: consumed_def)
  next
    case False
    then show ?thesis unfolding i using lt by (auto simp: consumed_def)
  qed
qed

lemma last_stage:
  assumes "0 < ipc"
  shows "consumed xl ipc (ld_stages xl ipc) = xl"
proof (cases "xl mod ipc = 0")
  case True
  then show ?thesis by (auto simp: consumed_def ld_stages_def)
next
  case False
  then have "ld_stages xl ipc * ipc = xl div ipc * ipc + ipc" by (simp add: ld_stages_def)
  moreover have "xl = xl div ipc * ipc + xl mod ipc" by simp
  moreover have "xl mod ipc < ipc" using assms by simp
  ultimately have "xl \<le> ld_stages xl ipc * ipc" by linarith
  then show ?thesis by (simp add: consumed_def)
qed

lemma array_quotient_bound: "v < 2 ^ m \<Longrightarrow> array_quotient m d v < 2 ^ m"
  by (auto simp: array_quotient_def intro: le_less_trans [OF div_le_dividend])

lemma next_chunk:
  assumes "m + k \<le> xl" "(a :: nat) < 2 ^ xl"
  shows "drop_bit (xl - (m + k)) a = drop_bit (xl - m) a * 2 ^ k + drop_bit (xl - k) (take_bit xl (push_bit m a))"
proof -
  have e: "xl - m = (xl - (m + k)) + k" using assms by simp
  have "drop_bit (xl - k) (take_bit xl (push_bit m a)) = take_bit k (drop_bit (xl - (m + k)) a)"
    using assms(1) by (intro bit_eqI) (auto simp: bit_drop_bit_eq bit_take_bit_iff bit_push_bit_iff add.commute
        intro!: arg_cong [of _ _ "bit a"])
  moreover have "drop_bit (xl - m) a = drop_bit k (drop_bit (xl - (m + k)) a)"
    unfolding e by (simp add: add.commute)
  ultimately show ?thesis
    using split_nat [of "drop_bit (xl - (m + k)) a" k] by (simp add: mult.commute add.commute)
qed

text \<open>One stage consumes \<open>k\<close> bits: the remaining ones in a shorter last stage, \<^verbatim>\<open>ipc\<close> otherwise.\<close>

lemma long_div_iterate_values:
  assumes k: "k = (if ld_stages xl ipc = ld_stage s + 1 \<and> xl mod ipc \<noteq> 0 then xl mod ipc else ipc)"
    and ipc: "0 < ipc" "ipc \<le> xl" and rem: "rem_ok m (ld_divisor s) (ld_remainder s)" "m + k \<le> xl"
    and x: "x = drop_bit (xl - k) (ld_dividend s)" "x < 2 ^ k"
  shows "ld_remainder (long_div_iterate xl ipc s) = (ld_remainder s * 2 ^ k + x) mod ld_divisor s"
    "ld_quotient (long_div_iterate xl ipc s) =
      take_bit xl (array_quotient k (ld_divisor s) (ld_remainder s * 2 ^ k + x) + 2 ^ k * ld_quotient s)"
proof -
  let ?prc = "xl mod ipc" and ?X = "drop_bit (xl - ipc) (ld_dividend s)"
  let ?D = "RecursiveDivison ipc xl (int ?prc) (ld_divisor s) ?X (ld_remainder s)"
  have kx: "k \<le> ipc" "drop_bit (ipc - k) ?X = x" "take_bit k x = x"
    using k ipc x by (auto simp: less_imp_le take_bit_nat_eq_self)
  obtain p where full: "RecursiveDivison k xl 0 (ld_divisor s) x (ld_remainder s) =
      (array_quotient k (ld_divisor s) (ld_remainder s * 2 ^ k + x), (ld_remainder s * 2 ^ k + x) mod ld_divisor s, p)"
    using RecursiveDivison_correct [OF rem, of 0 x] unfolding kx(3) by blast
  have q: "take_bit k (array_quotient k (ld_divisor s) (ld_remainder s * 2 ^ k + x)) =
      array_quotient k (ld_divisor s) (ld_remainder s * 2 ^ k + x)"
    using array_quotient_less [OF rem(1) x(2)] by (simp add: take_bit_nat_eq_self)
  have "ld_remainder (long_div_iterate xl ipc s) = (ld_remainder s * 2 ^ k + x) mod ld_divisor s \<and>
    ld_quotient (long_div_iterate xl ipc s) =
      take_bit xl (array_quotient k (ld_divisor s) (ld_remainder s * 2 ^ k + x) + 2 ^ k * ld_quotient s)"
  proof (cases "ld_stages xl ipc = ld_stage s + 1 \<and> ?prc \<noteq> 0")
    case True
    then have "k = ?prc" using k by simp
    then have "snd (snd ?D) = (ld_remainder s * 2 ^ k + x) mod ld_divisor s"
      "drop_bit (ipc - k) (fst ?D) = array_quotient k (ld_divisor s) (ld_remainder s * 2 ^ k + x)"
      using RecursiveDivison_partial [OF kx(1), of xl "ld_divisor s" ?X "ld_remainder s" 0] kx(2) full by simp_all
    then show ?thesis using True \<open>k = ?prc\<close> q by (simp add: long_div_iterate_def Let_def case_prod_beta)
  next
    case False
    then have "k = ipc" using k by auto
    obtain p' where "?D = (array_quotient k (ld_divisor s) (ld_remainder s * 2 ^ k + x),
        (ld_remainder s * 2 ^ k + x) mod ld_divisor s, p')"
      using RecursiveDivison_correct [OF rem, of "int ?prc" x] kx(2,3) \<open>k = ipc\<close> by auto
    then show ?thesis using False \<open>k = ipc\<close> q by (auto simp: long_div_iterate_def Let_def)
  qed
  then show "ld_remainder (long_div_iterate xl ipc s) = (ld_remainder s * 2 ^ k + x) mod ld_divisor s"
    "ld_quotient (long_div_iterate xl ipc s) =
      take_bit xl (array_quotient k (ld_divisor s) (ld_remainder s * 2 ^ k + x) + 2 ^ k * ld_quotient s)"
    by blast+
qed

lemma ld_stages_le: "0 < ipc \<Longrightarrow> ld_stages xl ipc \<le> xl"
proof (cases "xl mod ipc = 0")
  case False
  assume "0 < ipc"
  then have "xl div ipc < xl" using False by (metis div_less_dividend div_by_1 mod_by_1 gr0I mod_0 nat_neq_iff less_one)
  then show ?thesis by (simp add: ld_stages_def)
qed (simp add: ld_stages_def)

lemma long_div_iterate_inv:
  assumes inv: "long_div_inv xl ipc a b s" and ipc: "0 < ipc" "ipc \<le> xl" and i: "ld_stage s \<noteq> ld_stages xl ipc"
  shows "long_div_inv xl ipc a b (long_div_iterate xl ipc s) \<and> ld_stage (long_div_iterate xl ipc s) = Suc (ld_stage s)"
proof -
  define m where "m = consumed xl ipc (ld_stage s)"
  define k where "k = (if ld_stages xl ipc = ld_stage s + 1 \<and> xl mod ipc \<noteq> 0 then xl mod ipc else ipc)"
  define v where "v = drop_bit (xl - m) a"
  define x where "x = drop_bit (xl - k) (take_bit xl (push_bit m a))"
  have lt: "ld_stage s < ld_stages xl ipc" and a: "a < 2 ^ xl" "b < 2 ^ xl"
    and regs: "ld_divisor s = b" "ld_dividend s = take_bit xl (push_bit m a)"
      "ld_quotient s = array_quotient m b v" "ld_remainder s = v mod b"
    using inv i by (auto simp: long_div_inv_def Let_def m_def v_def)
  have m': "consumed xl ipc (Suc (ld_stage s)) = m + k" using stage_bits(1) [OF ipc(1) lt] by (simp add: m_def k_def)
  then have le: "m + k \<le> xl" by (simp add: consumed_def flip: m')
  have v: "v < 2 ^ m" unfolding v_def
    using a(1) le by (simp add: drop_bit_eq_div less_mult_imp_div_less flip: power_add)
  have x: "x < 2 ^ k" unfolding x_def
    using le by (simp add: drop_bit_eq_div less_mult_imp_div_less flip: power_add)
  have rem: "rem_ok m b (v mod b)" using v by (cases "b = 0") (auto simp: rem_ok_def intro: le_less_trans [OF mod_less_eq_dividend])
  have next_v: "drop_bit (xl - (m + k)) a = v * 2 ^ k + x" unfolding v_def x_def by (rule next_chunk [OF le a(1)])
  have small: "v * 2 ^ k + x < 2 ^ (m + k)" unfolding next_v [symmetric]
    using a(1) le by (simp add: drop_bit_eq_div less_mult_imp_div_less flip: power_add)
  let ?t = "long_div_iterate xl ipc s"
  have vals: "ld_remainder ?t = (v mod b * 2 ^ k + x) mod b"
    "ld_quotient ?t = take_bit xl (array_quotient k b (v mod b * 2 ^ k + x) + 2 ^ k * ld_quotient s)"
    using long_div_iterate_values [OF k_def ipc, of m x] rem le x by (simp_all add: regs x_def)
  have "ld_remainder ?t = (v * 2 ^ k + x) mod b" unfolding vals(1) by (metis mod_add_left_eq mod_mult_left_eq)
  moreover have "ld_quotient ?t = array_quotient (m + k) b (v * 2 ^ k + x)"
  proof -
    have "array_quotient k b (v mod b * 2 ^ k + x) + 2 ^ k * ld_quotient s = array_quotient (m + k) b (v * 2 ^ k + x)"
      unfolding regs(3) by (rule array_quotient_append) (use x in \<open>simp_all add: array_quotient_def\<close>)
    moreover have "array_quotient (m + k) b (v * 2 ^ k + x) < 2 ^ xl"
      by (rule order.strict_trans2 [OF array_quotient_bound [OF small] power_increasing]) (use le in simp_all)
    ultimately show ?thesis unfolding vals(2) by (simp add: take_bit_nat_eq_self)
  qed
  moreover have "ld_stage ?t = Suc (ld_stage s)"
  proof -
    have "Suc (ld_stage s) \<le> xl" using lt ld_stages_le [OF ipc(1), of xl] by simp
    then have "Suc (ld_stage s) < 2 ^ bit_length xl" using less_exp_bit_length [of xl] by simp
    then show ?thesis by (simp add: long_div_iterate_def Let_def case_prod_beta take_bit_nat_eq_self)
  qed
  moreover have "ld_dividend ?t = take_bit xl (push_bit (m + k) a)" if "Suc (ld_stage s) < ld_stages xl ipc"
  proof -
    have "ld_dividend ?t = take_bit xl (push_bit k (take_bit xl (push_bit m a)))"
      using that by (simp add: long_div_iterate_def Let_def case_prod_beta regs k_def)
    also have "\<dots> = take_bit xl (push_bit (m + k) a)"
      by (rule bit_eqI) (auto simp: bit_take_bit_iff bit_push_bit_iff add.commute)
    finally show ?thesis .
  qed
  moreover have "ld_divisor ?t = b" by (simp add: long_div_iterate_def Let_def case_prod_beta regs)
  ultimately show ?thesis
    using lt a by (auto simp: long_div_inv_def Let_def m' next_v)
qed

definition long_div_rep :: "nat \<Rightarrow> nat \<Rightarrow> long_div \<Rightarrow> (nat \<times> nat) list \<Rightarrow> bool" where
  "long_div_rep xl ipc s q =
     (if ld_ready s then q = [] else \<exists>a b. q = [(a, b)] \<and> long_div_inv xl ipc a b s)"

lemma long_div_issue_inv:
  "a < 2 ^ xl \<Longrightarrow> b < 2 ^ xl \<Longrightarrow>
   long_div_inv xl ipc a b \<lparr>ld_ready = False, ld_dividend = a, ld_divisor = b, ld_quotient = 0, ld_remainder = 0, ld_stage = 0\<rparr>"
  by (auto simp: long_div_inv_def Let_def consumed_def array_quotient_def take_bit_nat_eq_self drop_bit_eq_div)

lemma long_div_rep_cycle:
  assumes "long_div_rep xl ipc s q" "0 < ipc" "ipc \<le> xl"
    "legal_call (div_range xl) long_div_issue_ready (long_div_accept_ready xl ipc) iss acc s"
  shows "long_div_rep xl ipc (long_div_cycle xl ipc False iss acc s) (queue_after iss acc q)"
proof (cases "ld_ready s")
  case True
  then show ?thesis
    using assms long_div_issue_inv
    by (auto simp: long_div_rep_def long_div_cycle_def legal_call_def div_range_def long_div_accept_ready_def
        queue_after_def Let_def split: option.splits)
next
  case False
  then obtain a b where q: "q = [(a, b)]" and inv: "long_div_inv xl ipc a b s"
    using assms(1) by (auto simp: long_div_rep_def)
  have iss: "iss = None" using False assms(4)
    by (auto simp: legal_call_def long_div_issue_ready_def split: option.splits)
  show ?thesis
  proof (cases "ld_stage s = ld_stages xl ipc")
    case True
    then show ?thesis using False iss q inv
      by (simp add: long_div_rep_def long_div_cycle_def queue_after_def Let_def)
  next
    case stage: False
    then have acc: "\<not> acc" using assms(4) by (simp add: legal_call_def long_div_accept_ready_def)
    let ?it = "long_div_iterate xl ipc s"
    have "ld_ready ?it = ld_ready s" "ld_divisor ?it = ld_divisor s"
      by (simp_all add: long_div_iterate_def Let_def case_prod_beta)
    then have "long_div_cycle xl ipc False iss acc s = ?it"
      using False stage iss acc by (simp add: long_div_cycle_def Let_def)
    then show ?thesis
      using long_div_iterate_inv [OF inv assms(2,3) stage] \<open>ld_ready ?it = ld_ready s\<close> False iss acc q
      by (auto simp: long_div_rep_def queue_after_def)
  qed
qed

locale long_divider =
  fixes xl ipc :: nat
  assumes ipc_range: "0 < ipc" "ipc \<le> xl"

sublocale long_divider \<subseteq> div: request_unit "div_range xl" "quot_rem xl" long_div_init long_div_issue_ready
  "long_div_accept_ready xl ipc" long_div_result "long_div_cycle xl ipc False" "long_div_rep xl ipc"
  "\<lambda>s. ld_stages xl ipc - ld_stage s"
proof
  show "long_div_rep xl ipc long_div_init []" by (simp add: long_div_rep_def long_div_init_def)
  show "\<exists>p q'. q = p # q' \<and> long_div_result s = quot_rem xl p"
    if "long_div_rep xl ipc s q" "long_div_accept_ready xl ipc s" for s q
    using that last_stage [OF ipc_range(1), of xl]
    by (auto simp: long_div_rep_def long_div_accept_ready_def long_div_result_def quot_rem_def long_div_inv_def Let_def)
  show "ld_stages xl ipc - ld_stage (long_div_cycle xl ipc False iss False s) < ld_stages xl ipc - ld_stage s"
    if rep: "long_div_rep xl ipc s q" "q \<noteq> []" "\<not> long_div_accept_ready xl ipc s"
      and legal: "legal_call (div_range xl) long_div_issue_ready (long_div_accept_ready xl ipc) iss False s" for s q iss
  proof -
    have busy: "\<not> ld_ready s" "ld_stage s \<noteq> ld_stages xl ipc"
      using rep by (auto simp: long_div_rep_def long_div_accept_ready_def)
    then obtain a b where inv: "long_div_inv xl ipc a b s" using rep(1) by (auto simp: long_div_rep_def)
    then have "ld_stage s < ld_stages xl ipc" using busy by (simp add: long_div_inv_def Let_def)
    moreover have "ld_stage (long_div_cycle xl ipc False iss False s) = Suc (ld_stage s)"
      using long_div_iterate_inv [OF inv ipc_range busy(2)] busy by (simp add: long_div_cycle_def Let_def)
    ultimately show ?thesis by simp
  qed
qed (rule long_div_rep_cycle [OF _ ipc_range])

context long_divider
begin

lemmas unit_reachable = div.reachable
lemmas unit_responds = div.answers
lemmas unit_expected = div.results_expected

end

text \<open>The divider of a 32-bit core with the default number of steps per cycle.\<close>

interpretation div32: long_divider 32 3
  by unfold_locales simp_all

section \<open>What the instructions compute\<close>

text \<open>
  Division rounds towards zero and the remainder has the sign of the dividend; division by zero
  gives all ones and the dividend. The quotient of the most negative number and -1 wraps around.
\<close>

definition div_spec :: "div_fn \<Rightarrow> 'a::len word \<Rightarrow> 'a word \<Rightarrow> 'a word" where
  "div_spec f a b =
     (case f of
        Div_DIVU \<Rightarrow> if b = 0 then - 1 else word_of_int (uint a div uint b)
      | Div_REMU \<Rightarrow> if b = 0 then a else word_of_int (uint a mod uint b)
      | Div_DIV \<Rightarrow> if b = 0 then - 1 else word_of_int (sgn (sint a) * sgn (sint b) * (\<bar>sint a\<bar> div \<bar>sint b\<bar>))
      | Div_REM \<Rightarrow> if b = 0 then a else word_of_int (sgn (sint a) * (\<bar>sint a\<bar> mod \<bar>sint b\<bar>)))"

lemma word_abs_value: "int (unat (word_abs (a :: 'a::len word))) = \<bar>sint a\<bar>"
  using abs_value [of a] unfolding sign_bit_iff word_abs_def .

lemma word_abs_0 [simp]: "word_abs a = 0 \<longleftrightarrow> a = 0"
  by (auto simp: word_abs_def)

lemma abs_sint_le: "\<bar>sint (a :: 'a::len word)\<bar> \<le> 2 ^ (LENGTH('a) - 1)"
  using sint_greater_eq [of a] sint_less [of a] by (auto simp: abs_le_iff)

text \<open>Negating only when the sign bit is clear is negation, for values up to the sign bit's weight.\<close>

lemma flip_if_positive:
  assumes "n \<le> 2 ^ (LENGTH('a) - 1)"
  shows "(if \<not> bit (of_nat n :: 'a::len word) (LENGTH('a) - 1) then - of_nat n else of_nat n) = - (of_nat n :: 'a word)"
proof (cases "n = 2 ^ (LENGTH('a) - 1)")
  case True
  have "n + n = 2 ^ LENGTH('a)" unfolding True by (simp flip: mult_2 power_Suc)
  then have "(of_nat n :: 'a word) + of_nat n = of_nat (2 ^ LENGTH('a))" by (metis of_nat_add)
  also have "\<dots> = 0" by simp
  finally have "- (of_nat n :: 'a word) = of_nat n" by (simp add: eq_neg_iff_add_eq_0 neg_eq_iff_add_eq_0)
  then show ?thesis by simp
next
  case False
  then have "n < 2 ^ (LENGTH('a) - 1)" using assms by simp
  then have "\<not> bit n (LENGTH('a) - 1)" by (simp add: bit_iff_odd)
  then show ?thesis by (simp add: bit_of_nat_iff)
qed

text \<open>A magnitude and a sign, as the unit's last step combines them.\<close>

definition signed_of :: "bool \<Rightarrow> nat \<Rightarrow> 'a::len word" where
  "signed_of flip n = (if flip \<and> \<not> bit (of_nat n :: 'a word) (LENGTH('a) - 1) then - of_nat n else of_nat n)"

lemma signed_of_small:
  "n \<le> 2 ^ (LENGTH('a) - 1) \<Longrightarrow> signed_of flip n = (word_of_int ((if flip then - 1 else 1) * int n) :: 'a::len word)"
  using flip_if_positive [of n, where 'a = 'a] by (cases flip) (simp_all add: signed_of_def)

lemma signed_of_ones: "(signed_of flip (2 ^ LENGTH('a) - 1) :: 'a::len word) = - 1"
  by (simp add: signed_of_def of_nat_diff bit_minus_1_iff)

lemma nat_le_abs: "int n \<le> \<bar>sint (a :: 'a::len word)\<bar> \<Longrightarrow> n \<le> 2 ^ (LENGTH('a) - 1)"
proof -
  assume "int n \<le> \<bar>sint a\<bar>"
  then have "int n \<le> 2 ^ (LENGTH('a) - 1)" using abs_sint_le [of a] by (rule order_trans)
  then show ?thesis by (metis of_nat_le_iff of_nat_numeral of_nat_power)
qed

lemma signed_quotient:
  fixes a b :: "'a::len word"
  shows "signed_of ((sint a < 0) \<noteq> (sint b < 0)) (array_quotient LENGTH('a) (unat (word_abs b)) (unat (word_abs a))) =
    (if b = 0 then - 1 else word_of_int (sgn (sint a) * sgn (sint b) * (\<bar>sint a\<bar> div \<bar>sint b\<bar>)) :: 'a word)"
proof (cases "b = 0")
  case False
  let ?n = "unat (word_abs a) div unat (word_abs b)"
  have n: "int ?n = \<bar>sint a\<bar> div \<bar>sint b\<bar>" by (simp only: zdiv_int word_abs_value)
  moreover have "\<bar>sint a\<bar> div \<bar>sint b\<bar> \<le> \<bar>sint a\<bar>"
    by (metis abs_ge_zero n of_nat_le_iff word_abs_value div_le_dividend)
  ultimately have "?n \<le> 2 ^ (LENGTH('a) - 1)" by (intro nat_le_abs [of _ a]) simp
  then have "signed_of ((sint a < 0) \<noteq> (sint b < 0)) ?n =
      (word_of_int ((if (sint a < 0) \<noteq> (sint b < 0) then - 1 else 1) * (\<bar>sint a\<bar> div \<bar>sint b\<bar>)) :: 'a word)"
    by (simp only: signed_of_small n)
  moreover have "(if (sint a < 0) \<noteq> (sint b < 0) then - 1 else 1) * (\<bar>sint a\<bar> div \<bar>sint b\<bar>) =
      sgn (sint a) * sgn (sint b) * (\<bar>sint a\<bar> div \<bar>sint b\<bar>)"
    using False by (cases "sint a = 0") (auto simp: sgn_if)
  moreover have "array_quotient LENGTH('a) (unat (word_abs b)) (unat (word_abs a)) = ?n"
    using False by (simp add: array_quotient_def unat_eq_0)
  ultimately show ?thesis by (simp only: False if_False)
qed (simp add: array_quotient_def word_abs_def signed_of_ones [unfolded One_nat_def])

lemma signed_remainder:
  fixes a b :: "'a::len word"
  shows "signed_of (sint a < 0) (unat (word_abs a) mod unat (word_abs b)) =
    (if b = 0 then a else word_of_int (sgn (sint a) * (\<bar>sint a\<bar> mod \<bar>sint b\<bar>)) :: 'a word)"
proof -
  let ?n = "unat (word_abs a) mod unat (word_abs b)"
  have n: "int ?n = \<bar>sint a\<bar> mod \<bar>sint b\<bar>" by (simp only: zmod_int word_abs_value)
  have "int ?n \<le> \<bar>sint a\<bar>" using mod_less_eq_dividend by (metis of_nat_le_iff word_abs_value)
  then have "?n \<le> 2 ^ (LENGTH('a) - 1)" by (rule nat_le_abs)
  then have "signed_of (sint a < 0) ?n =
      (word_of_int ((if sint a < 0 then - 1 else 1) * (\<bar>sint a\<bar> mod \<bar>sint b\<bar>)) :: 'a word)"
    by (simp only: signed_of_small n)
  moreover have "(if sint a < 0 then - 1 else 1) * (\<bar>sint a\<bar> mod \<bar>sint b\<bar>) = sgn (sint a) * (\<bar>sint a\<bar> mod \<bar>sint b\<bar>)"
    by (auto simp: sgn_if)
  moreover have "sgn (sint a) * \<bar>sint a\<bar> = sint a" by (simp add: sgn_mult_abs)
  ultimately show ?thesis by (cases "b = 0") simp_all
qed

lemma div_push_correct:
  fixes arg :: "'a::len issue_arg"
  assumes "div_issue_decoded arg [f] = Some (p, v1, v2)"
  shows "div_push p (quot_rem LENGTH('a) (unat v1, unat v2)) =
    fu_result arg (div_spec f (s1_val arg) (operand2 arg))"
proof -
  define a b where "a = s1_val arg" and "b = operand2 arg"
  have inp: "div_get_input arg = (a, b)" by (simp add: div_get_input_def a_def b_def operand2_def)
  have sign: "bit x (LENGTH('a) - Suc 0) \<longleftrightarrow> sint x < 0" for x :: "'a word" using sign_bit_iff [of x] by simp
  have push: "r_result (div_push p resp :: 'a result_arg) =
      signed_of (dp_flip_sign p) (if dp_rem_res p then snd resp else fst resp)" for p resp
    by (auto simp: div_push_def signed_of_def Let_def)
  have spec: "signed_of (dp_flip_sign p) (if dp_rem_res p then snd (quot_rem LENGTH('a) (unat v1, unat v2))
      else fst (quot_rem LENGTH('a) (unat v1, unat v2))) = div_spec f a b"
  proof (cases f)
    case Div_DIV
    then show ?thesis using assms signed_quotient [of a b]
      by (auto simp: div_issue_decoded_def inp Let_def sign quot_rem_def div_spec_def)
  next
    case Div_REM
    then show ?thesis using assms signed_remainder [of a b]
      by (auto simp: div_issue_decoded_def inp Let_def sign quot_rem_def div_spec_def)
  next
      case Div_DIVU
    then have "p = \<lparr>dp_rob_id = rob_id arg, dp_rp_dst = rp_dst arg, dp_flip_sign = False, dp_rem_res = False\<rparr>"
      "v1 = a" "v2 = b" using assms by (simp_all add: div_issue_decoded_def inp Let_def)
    moreover have "(of_nat (unat a div unat b) :: 'a word) = word_of_int (uint a div uint b)"
      by (simp only: uint_nat zdiv_int [symmetric] of_int_of_nat_eq)
    ultimately show ?thesis using Div_DIVU signed_of_ones [of False, where 'a = 'a]
      by (simp add: quot_rem_def div_spec_def array_quotient_def unat_eq_0 signed_of_def)
  next
    case Div_REMU
    then have "p = \<lparr>dp_rob_id = rob_id arg, dp_rp_dst = rp_dst arg, dp_flip_sign = False, dp_rem_res = True\<rparr>"
      "v1 = a" "v2 = b" using assms by (simp_all add: div_issue_decoded_def inp Let_def)
    moreover have "(of_nat (unat a mod unat b) :: 'a word) = word_of_int (uint a mod uint b)"
      by (simp only: uint_nat zmod_int [symmetric] of_int_of_nat_eq)
    ultimately show ?thesis using Div_REMU by (simp add: quot_rem_def div_spec_def signed_of_def)
  qed
  have "dp_rob_id p = rob_id arg" "dp_rp_dst p = rp_dst arg"
    using assms by (cases f; auto simp: div_issue_decoded_def inp Let_def)+
  then show ?thesis
    using push [of p] spec unfolding a_def b_def by (simp add: fu_result_def) (simp add: div_push_def Let_def)
qed

interpretation div_tab: fu_table div_instructions False
  by unfold_locales (simp_all add: div_instructions_def get_op_types_def)

definition div_expected :: "'a::len issue_arg \<Rightarrow> 'a result_arg option" where
  "div_expected arg =
     one_hot_switch (get_decoder div_instructions (ia_exec_fn arg))
       (\<lambda>f. fu_result arg (div_spec f (s1_val arg) (operand2 arg)))"

lemma div_issue_push:
  fixes arg :: "'a::len issue_arg"
  assumes "div_issue arg = Some (p, v1, v2)"
  shows "div_expected arg = Some (div_push p (quot_rem LENGTH('a) (unat v1, unat v2)))"
proof -
  from assms obtain f where f: "get_decoder div_instructions (ia_exec_fn arg) = [f]"
    using div_tab.decoder_single [of "ia_exec_fn arg"]
    by (auto simp: div_issue_def fu_issue_def div_issue_decoded_def one_hot_switch_def div_get_input_def)
  then show ?thesis
    using assms div_push_correct [of arg f p v1 v2] by (simp add: div_expected_def div_issue_def fu_issue_def)
qed

text \<open>
  C9. The division unit: in any run of the divider from reset, with any legal interleaving of
  issues, idle cycles and accepted results and any number of steps per cycle up to the register
  width, the results that the unit pushes are, in the order of issue, those that the instruction set
  prescribes for DIV, DIVU, REM and REMU, also for division by zero and for the overflow of the
  most negative number by -1.
\<close>

theorem div_unit_correct:
  fixes reqs :: "(div_params \<times> 'a::len word \<times> 'a word) list"
  assumes "0 < ipc" "ipc \<le> LENGTH('a)"
    "unit_run (div_range LENGTH('a)) long_div_issue_ready (long_div_accept_ready LENGTH('a) ipc) long_div_result
      (long_div_cycle LENGTH('a) ipc False) cs long_div_init = Some (t, outs)"
    "map div_issue args = map Some reqs" "issued cs = map (\<lambda>(p, v1, v2). (unat v1, unat v2)) reqs"
  shows "map Some (map2 (\<lambda>(p, v1, v2). div_push p) reqs outs) = take (length outs) (map div_expected args)"
proof -
  have "long_divider LENGTH('a) ipc" using assms(1,2) by unfold_locales
  then show ?thesis
    using assms(3-5) by (rule long_divider.unit_expected) (auto simp: div_issue_push)
qed

text \<open>
  Every division is answered: in any state the divider reaches, a division that it accepts is
  ready after at most as many idle cycles as the divider has stages, whatever the operands.
\<close>

lemma div_answers:
  assumes "0 < ipc" "ipc \<le> xl" "a < 2 ^ xl" "b < 2 ^ xl"
    "unit_run (div_range xl) long_div_issue_ready (long_div_accept_ready xl ipc) long_div_result
      (long_div_cycle xl ipc False) cs long_div_init = Some (s, outs)"
    "long_div_issue_ready s"
  shows "\<exists>k \<le> ld_stages xl ipc. let t = (long_div_cycle xl ipc False None False ^^ k) (long_div_cycle xl ipc False (Some (a, b)) False s) in
     long_div_accept_ready xl ipc t \<and> long_div_result t = (if b = 0 then 2 ^ xl - 1 else a div b, a mod b)"
proof -
  have D: "long_divider xl ipc" using assms(1,2) by unfold_locales
  have "long_div_rep xl ipc s []"
    using long_divider.unit_reachable [OF D assms(5)] assms(6) by (auto simp: long_div_rep_def long_div_issue_ready_def)
  then obtain k where "k \<le> ld_stages xl ipc - ld_stage (long_div_cycle xl ipc False (Some (a, b)) False s)"
    "let t = (long_div_cycle xl ipc False None False ^^ k) (long_div_cycle xl ipc False (Some (a, b)) False s) in
       long_div_accept_ready xl ipc t \<and> long_div_result t = quot_rem xl (a, b)"
    using long_divider.unit_responds [OF D _ assms(6), of "(a, b)"] assms(3,4) by (auto simp: div_range_def)
  then show ?thesis
    by (intro exI [of _ k]) (auto simp: quot_rem_def array_quotient_def Let_def)
qed

definition div_example :: "8 issue_arg" where
  "div_example = \<lparr>s1_val = 0x80, s2_val = 0xff, rp_dst = 4, rob_id = 6,
     ia_exec_fn = \<lparr>op_type = OpType_DIV_REM, fn_funct3 = to_bits 3 4, fn_funct7 = to_bits 7 1\<rparr>,
     ia_imm = 0, ia_pc = 0, ia_tag = 0, ia_ftq_ptr = 0\<rparr>"

lemma div_example_issue:
  "div_issue div_example = Some (\<lparr>dp_rob_id = 6, dp_rp_dst = 4, dp_flip_sign = False, dp_rem_res = False\<rparr>, 0x80, 1)"
  by code_simp

theorem div_unit_correct_witness:
  "map Some (map2 (\<lambda>(p, v1, v2). div_push p)
      [(\<lparr>dp_rob_id = 6, dp_rp_dst = 4, dp_flip_sign = False, dp_rem_res = False\<rparr>, 0x80 :: 8 word, 1 :: 8 word)] [(128, 0)]) =
     [div_expected div_example]"
proof -
  let ?cs = "[(Some (128, 1), False), (None, False), (None, False), (None, False), (None, True)]"
  have "map_option snd (unit_run (div_range 8) long_div_issue_ready (long_div_accept_ready 8 3) long_div_result
      (long_div_cycle 8 3 False) ?cs long_div_init) = Some [(128, 0)]"
    by code_simp
  then obtain t where run: "unit_run (div_range LENGTH(8)) long_div_issue_ready (long_div_accept_ready LENGTH(8) 3)
      long_div_result (long_div_cycle LENGTH(8) 3 False) ?cs long_div_init = Some (t, [(128, 0)])" by auto
  have iss: "issued ?cs = map (\<lambda>(p, v1, v2). (unat v1, unat v2))
      [(\<lparr>dp_rob_id = 6, dp_rp_dst = 4, dp_flip_sign = False, dp_rem_res = False\<rparr>, 0x80 :: 8 word, 1 :: 8 word)]"
    by (simp add: issued_def)
  from div_unit_correct [OF _ _ run _ iss, of "[div_example]"] show ?thesis by (simp add: div_example_issue)
qed

text \<open>
  C10. Multipliers and divider answer. In any state they reach, a request they accept is answered with the product
  or with quotient and remainder: by the shift-and-add multiplier after at most as many idle cycles as the register
  has bits, by the sequential multiplier after at most one more than its partial products, and by the divider
  after at most as many as it has stages.
\<close>

theorem arithmetic_units_answer:
  assumes "a < 2 ^ n" "b < 2 ^ n" "n = 2 ^ m" "0 < dsp_width" "\<And>rs. rs \<noteq> [] \<Longrightarrow> pick rs \<in> set rs" "0 < ipc" "ipc \<le> n"
  shows "(unit_run (mul_range n) shift_mul_issue_ready shift_mul_accept_ready sm_res (shift_mul_cycle n) cs shift_mul_init = Some (s, outs) \<longrightarrow>
      shift_mul_issue_ready s \<longrightarrow>
      (\<exists>k\<le>n. let t = (shift_mul_cycle n None False ^^ k) (shift_mul_cycle n (Some (a, b)) False s) in
         shift_mul_accept_ready t \<and> sm_res t = a * b)) \<and>
    (unit_run (mul_range n) seq_mul_issue_ready seq_mul_accept_ready seq_mul_output (seq_mul_cycle dsp_width pick) cs
        (seq_mul_init dsp_width n) = Some (u, outs') \<longrightarrow>
      seq_mul_issue_ready u \<longrightarrow>
      (\<exists>k \<le> 1 + seq_leaves (sq_tree u). let t = (seq_mul_cycle dsp_width pick None False ^^ k)
           (seq_mul_cycle dsp_width pick (Some (a, b)) False u) in
         seq_mul_accept_ready t \<and> seq_mul_output t = a * b)) \<and>
    (unit_run (div_range n) long_div_issue_ready (long_div_accept_ready n ipc) long_div_result
        (long_div_cycle n ipc False) ds long_div_init = Some (v, outs'') \<longrightarrow>
      long_div_issue_ready v \<longrightarrow>
      (\<exists>k \<le> ld_stages n ipc. let t = (long_div_cycle n ipc False None False ^^ k) (long_div_cycle n ipc False (Some (a, b)) False v) in
         long_div_accept_ready n ipc t \<and> long_div_result t = (if b = 0 then 2 ^ n - 1 else a div b, a mod b)))"
  using multipliers_answer [OF assms(1-5), of cs s outs u outs'] div_answers [OF assms(6,7,1,2), of ds v outs''] by blast

theorem arithmetic_units_answer_witness:
  "(\<exists>k\<le>8. let t = (shift_mul_cycle 8 None False ^^ k) (shift_mul_cycle 8 (Some (200, 100)) False shift_mul_init) in
     shift_mul_accept_ready t \<and> sm_res t = 200 * 100) \<and>
   (\<exists>k \<le> ld_stages 8 3. let t = (long_div_cycle 8 3 False None False ^^ k) (long_div_cycle 8 3 False (Some (200, 100)) False long_div_init) in
      long_div_accept_ready 8 3 t \<and> long_div_result t = (2, 0))"
proof -
  have ready: "shift_mul_issue_ready shift_mul_init" by (simp add: shift_mul_issue_ready_def shift_mul_init_def)
  have hyps: "(200 :: nat) < 2 ^ 8" "(100 :: nat) < 2 ^ 8" "(8 :: nat) = 2 ^ 3" "0 < (4 :: nat)"
    "\<And>rs :: nat list list. rs \<noteq> [] \<Longrightarrow> hd rs \<in> set rs" "(0 :: nat) < 3" "(3 :: nat) \<le> 8" by simp_all
  have div_ready: "long_div_issue_ready long_div_init" by (simp add: long_div_issue_ready_def long_div_init_def)
  have val: "(if (100 :: nat) = 0 then 2 ^ 8 - 1 else 200 div 100, 200 mod 100) = (2 :: nat, 0 :: nat)" by simp
  note c = arithmetic_units_answer [OF hyps, of "[]" shift_mul_init "[]" "seq_mul_init 4 8" "[]" "[]" long_div_init "[]"]
  show ?thesis
    using conjunct1 [OF c] conjunct2 [OF conjunct2 [OF c]] unfolding val
    by (simp only: unit_run.simps(1) ready div_ready simp_thms)
qed

end
