(* ===== verification/Transactron.thy ===== *)
theory Transactron
  imports Main
begin

text \<open>
  The components of the Transactron library that the modelled code instantiates. Their code is not
  part of the repository: each is a parameter of the definitions that use it, a record of functions,
  with its documented behaviour as a predicate that the theorems take as a hypothesis. For every
  predicate there is an implementation that satisfies it, which the concrete examples use.
\<close>

section \<open>WideFifo\<close>

record ('q, 'd) wide_fifo =
  wf_valid :: "'q \<Rightarrow> bool"
  wf_items :: "'q \<Rightarrow> 'd list"
  wf_read_idx :: "'q \<Rightarrow> nat"
  wf_write_idx :: "'q \<Rightarrow> nat"
  wf_cycle :: "nat \<Rightarrow> 'd list \<Rightarrow> 'q \<Rightarrow> 'q"

text \<open>A cycle removes some of the oldest items and appends new ones; the indices count modulo the depth.\<close>

definition wide_fifo_spec :: "nat \<Rightarrow> ('q, 'd) wide_fifo \<Rightarrow> bool" where
  "wide_fifo_spec depth F \<longleftrightarrow>
     (\<forall>q. wf_valid F q \<longrightarrow>
        length (wf_items F q) \<le> depth \<and>
        wf_write_idx F q = (wf_read_idx F q + length (wf_items F q)) mod depth \<and>
        (\<forall>c ds. c \<le> length (wf_items F q) \<longrightarrow> length (wf_items F q) + length ds \<le> depth \<longrightarrow>
           wf_valid F (wf_cycle F c ds q) \<and>
           wf_items F (wf_cycle F c ds q) = drop c (wf_items F q) @ ds \<and>
           wf_read_idx F (wf_cycle F c ds q) = (wf_read_idx F q + c) mod depth))"

text \<open>A list with its read index satisfies the specification.\<close>

definition list_fifo :: "nat \<Rightarrow> (nat \<times> 'd list, 'd) wide_fifo" where
  "list_fifo depth = \<lparr>wf_valid = \<lambda>q. length (snd q) \<le> depth, wf_items = snd, wf_read_idx = fst,
     wf_write_idx = \<lambda>q. (fst q + length (snd q)) mod depth,
     wf_cycle = \<lambda>c ds q. ((fst q + c) mod depth, drop c (snd q) @ ds)\<rparr>"

lemma list_fifo_spec: "wide_fifo_spec depth (list_fifo depth)"
  by (auto simp: wide_fifo_spec_def list_fifo_def)

section \<open>MemoryBank\<close>

record ('m, 'v) memory_bank =
  mb_read :: "'m \<Rightarrow> nat \<Rightarrow> 'v"
  mb_write :: "(nat \<times> 'v) list \<Rightarrow> 'm \<Rightarrow> 'm"

text \<open>Writes of one cycle, to different addresses, are visible from the next cycle on.\<close>

definition memory_bank_spec :: "nat \<Rightarrow> ('m, 'v) memory_bank \<Rightarrow> bool" where
  "memory_bank_spec depth M \<longleftrightarrow>
     (\<forall>ws mem a. distinct (map fst ws) \<longrightarrow> (\<forall>w \<in> set ws. fst w < depth) \<longrightarrow> a < depth \<longrightarrow>
        mb_read M (mb_write M ws mem) a = (case map_of ws a of None \<Rightarrow> mb_read M mem a | Some v \<Rightarrow> v))"

section \<open>Forwarder\<close>

text \<open>
  The register of a forwarder after a cycle, from the value written, whether a value is read, and its contents: a value passes through
  in the same cycle, or is kept until it is read; nothing is written while one is kept.
\<close>

definition fwd_next :: "'d option \<Rightarrow> bool \<Rightarrow> 'd option \<Rightarrow> 'd option" where
  "fwd_next written read buf = (if read then None else case buf of None \<Rightarrow> written | Some d \<Rightarrow> Some d)"

definition opt_list :: "'b option \<Rightarrow> 'b list" where
  "opt_list x = (case x of None \<Rightarrow> [] | Some y \<Rightarrow> [y])"

lemma opt_list_simps [simp]: "opt_list None = []" "opt_list (Some y) = [y]"
  by (simp_all add: opt_list_def)

section \<open>OneHotMux\<close>

text \<open>A selector with at most one condition set gives its value, and the default with none.\<close>

type_synonym 'v one_hot_mux = "(bool \<times> 'v) list \<Rightarrow> 'v \<Rightarrow> 'v"

definition one_hot_mux_spec :: "'v one_hot_mux \<Rightarrow> bool" where
  "one_hot_mux_spec mux \<longleftrightarrow>
     (\<forall>cs d i. i < length cs \<and> fst (cs ! i) \<and> (\<forall>j < length cs. fst (cs ! j) \<longrightarrow> j = i) \<longrightarrow> mux cs d = snd (cs ! i)) \<and>
     (\<forall>cs d. (\<forall>c \<in> set cs. \<not> fst c) \<longrightarrow> mux cs d = d)"

lemma one_hot_mux_select:
  assumes "one_hot_mux_spec mux" "i < length cs" "fst (cs ! i)" "\<And>j. j < length cs \<Longrightarrow> fst (cs ! j) \<Longrightarrow> j = i"
  shows "mux cs d = snd (cs ! i)"
  using assms unfolding one_hot_mux_spec_def by blast

lemma one_hot_mux_default: "one_hot_mux_spec mux \<Longrightarrow> \<forall>c \<in> set cs. \<not> fst c \<Longrightarrow> mux cs d = d"
  unfolding one_hot_mux_spec_def by blast

lemma memory_bank_read:
  assumes "memory_bank_spec depth M" "distinct (map fst ws)" "\<forall>w \<in> set ws. fst w < depth" "a < depth"
  shows "mb_read M (mb_write M ws mem) a = (case map_of ws a of None \<Rightarrow> mb_read M mem a | Some v \<Rightarrow> v)"
  using assms by (simp add: memory_bank_spec_def)

section \<open>Implementations\<close>

definition fun_memory :: "(nat \<Rightarrow> 'v, 'v) memory_bank" where
  "fun_memory = \<lparr>mb_read = (\<lambda>mem. mem), mb_write = (\<lambda>ws mem. fold (\<lambda>(a, v) mem. mem(a := v)) ws mem)\<rparr>"

lemma fold_fun_upd:
  "distinct (map fst ws) \<Longrightarrow> fold (\<lambda>(a, v) mem. mem(a := v)) ws mem a = (case map_of ws a of None \<Rightarrow> mem a | Some v \<Rightarrow> v)"
  by (induction ws arbitrary: mem) (auto split: option.splits simp: map_of_eq_None_iff dest: map_of_SomeD intro: rev_image_eqI)

lemma fun_memory_spec: "memory_bank_spec depth fun_memory"
  by (auto simp: memory_bank_spec_def fun_memory_def fold_fun_upd split: option.splits)

definition first_mux :: "'v one_hot_mux" where
  "first_mux cs d = (case find fst cs of None \<Rightarrow> d | Some c \<Rightarrow> snd c)"

lemma first_mux_spec: "one_hot_mux_spec first_mux"
proof -
  have "first_mux cs d = snd (cs ! i)"
    if i: "i < length cs" "fst (cs ! i)" and only: "\<And>j. j < length cs \<Longrightarrow> fst (cs ! j) \<Longrightarrow> j = i" for cs :: "(bool \<times> 'a) list" and i d
  proof -
    obtain c where c: "find fst cs = Some c" using i find_None_iff [of fst cs] nth_mem [OF i(1)] by (metis not_None_eq)
    then obtain j where "j < length cs" "fst (cs ! j)" "c = cs ! j" by (auto simp: find_Some_iff)
    then show ?thesis using only c by (simp add: first_mux_def)
  qed
  moreover have "first_mux cs d = d" if "\<forall>c \<in> set cs. \<not> fst c" for cs :: "(bool \<times> 'a) list" and d
    unfolding first_mux_def using that by (metis find_None_iff option.simps(4))
  ultimately show ?thesis unfolding one_hot_mux_spec_def by meson
qed

end
