(* ===== verification/Rob.thy ===== *)
theory Rob
  imports Transactron
begin

text \<open>
  The reorder buffer (\<^verbatim>\<open>core_structs/rob.py\<close>). Its data lives in the Transactron queue
  \<^verbatim>\<open>WideFifo\<close>, which is a parameter with its documented behaviour as the hypothesis \<open>wide_fifo_spec\<close> (theory
  \<^verbatim>\<open>Transactron\<close>); the status bits are arrays indexed by entry. A cycle combines the calls of
  \<^verbatim>\<open>retire\<close>, \<^verbatim>\<open>put\<close> and the \<^verbatim>\<open>mark_done\<close> ports. The abstract buffer is a list of instructions in
  program order with their completion status, and every legal cycle refines its step.
\<close>

section \<open>ReorderBuffer\<close>

record rob_config =
  rob_entries_bits :: nat
  retirement_superscalarity :: nat
  frontend_superscalarity :: nat

record rob_flags =
  f_done :: "nat \<Rightarrow> bool"
  f_pure :: "nat \<Rightarrow> bool"
  f_exception :: "nat \<Rightarrow> bool"

record 'q rob =
  rob_data :: 'q
  rob_flags :: rob_flags

record 'd peek_entry =
  pe_data :: 'd
  pe_rob_id :: nat
  pe_exception :: bool
  pe_done :: bool
  pe_pure :: bool

definition rob_depth :: "rob_config \<Rightarrow> nat" where
  "rob_depth cfg = 2 ^ rob_entries_bits cfg"

definition start_idx_plus :: "rob_config \<Rightarrow> ('q, 'd) wide_fifo \<Rightarrow> 'q rob \<Rightarrow> nat \<Rightarrow> nat" where
  "start_idx_plus cfg F s i = (wf_read_idx F (rob_data s) + i) mod rob_depth cfg"

definition end_idx_plus :: "rob_config \<Rightarrow> ('q, 'd) wide_fifo \<Rightarrow> 'q rob \<Rightarrow> nat \<Rightarrow> nat" where
  "end_idx_plus cfg F s i = (wf_write_idx F (rob_data s) + i) mod rob_depth cfg"

text \<open>The valid entries that \<^verbatim>\<open>peek\<close> returns.\<close>

definition rob_peek :: "rob_config \<Rightarrow> ('q, 'd) wide_fifo \<Rightarrow> 'q rob \<Rightarrow> 'd peek_entry list" where
  "rob_peek cfg F s =
     map (\<lambda>i. let x = start_idx_plus cfg F s i in
            \<lparr>pe_data = wf_items F (rob_data s) ! i, pe_rob_id = x, pe_exception = f_exception (rob_flags s) x,
             pe_done = f_done (rob_flags s) x, pe_pure = f_pure (rob_flags s) x\<rparr>)
       [0..<min (retirement_superscalarity cfg) (length (wf_items F (rob_data s)))]"

definition rob_retire_ready :: "rob_config \<Rightarrow> ('q, 'd) wide_fifo \<Rightarrow> 'q rob \<Rightarrow> bool" where
  "rob_retire_ready cfg F s = f_done (rob_flags s) (start_idx_plus cfg F s 0)"

text \<open>The three method bodies, on the status bits.\<close>

definition retire_flags :: "rob_config \<Rightarrow> (nat \<Rightarrow> nat) \<Rightarrow> nat \<Rightarrow> rob_flags \<Rightarrow> rob_flags" where
  "retire_flags cfg start_plus count fl =
     fold (\<lambda>i fl. if i < count then fl\<lparr>f_done := (f_done fl)(start_plus i := False)\<rparr> else fl)
       [0..<retirement_superscalarity cfg] fl"

text \<open>
  The loop of \<^verbatim>\<open>put\<close> runs over the retirement ports while there is an entry per frontend port; a configuration with more retirement than
  frontend ports reads past the entries and is not elaborated, so it has no cycles.
\<close>

definition put_flags :: "rob_config \<Rightarrow> (nat \<Rightarrow> nat) \<Rightarrow> bool list \<Rightarrow> rob_flags \<Rightarrow> rob_flags" where
  "put_flags cfg end_plus pures fl =
     fold (\<lambda>i fl. if i < length pures then fl\<lparr>f_pure := (f_pure fl)(end_plus i := pures ! i)\<rparr> else fl)
       [0..<retirement_superscalarity cfg] fl"

definition mark_done :: "nat \<times> bool \<Rightarrow> rob_flags \<Rightarrow> rob_flags" where
  "mark_done call fl =
     (case call of (rob_id, exception) \<Rightarrow>
        fl\<lparr>f_done := (f_done fl)(rob_id := True), f_pure := (f_pure fl)(rob_id := \<not> exception),
           f_exception := (f_exception fl)(rob_id := exception)\<rparr>)"

definition put_out :: "rob_config \<Rightarrow> ('q, 'd) wide_fifo \<Rightarrow> 'q rob \<Rightarrow> nat list" where
  "put_out cfg F s = map (end_idx_plus cfg F s) [0..<frontend_superscalarity cfg]"

text \<open>
  A cycle: the count of \<^verbatim>\<open>retire\<close>, the entries of \<^verbatim>\<open>put\<close> with their purity and the calls of the
  \<^verbatim>\<open>mark_done\<close> ports; the status assignments in the order of the source.
\<close>

definition rob_cycle ::
  "rob_config \<Rightarrow> ('q, 'd) wide_fifo \<Rightarrow> nat option \<Rightarrow> ('d \<times> bool) list option \<Rightarrow> (nat \<times> bool) list \<Rightarrow> 'q rob \<Rightarrow> 'q rob" where
  "rob_cycle cfg F retire put marks s =
     (let fl1 = (case retire of None \<Rightarrow> rob_flags s
                 | Some count \<Rightarrow> retire_flags cfg (start_idx_plus cfg F s) count (rob_flags s));
          fl2 = (case put of None \<Rightarrow> fl1 | Some es \<Rightarrow> put_flags cfg (end_idx_plus cfg F s) (map snd es) fl1)
      in \<lparr>rob_data = wf_cycle F (case retire of None \<Rightarrow> 0 | Some count \<Rightarrow> count)
                      (case put of None \<Rightarrow> [] | Some es \<Rightarrow> map fst es) (rob_data s),
          rob_flags = fold mark_done marks fl2\<rparr>)"

definition get_indices :: "('q, 'd) wide_fifo \<Rightarrow> 'q rob \<Rightarrow> nat \<times> nat" where
  "get_indices F s = (wf_read_idx F (rob_data s), wf_write_idx F (rob_data s))"

text \<open>
  Calls that satisfy the assertions of the source: only completed entries are retired, only entries
  in the buffer that are not complete are marked, and the queue has room for what is put.
\<close>

definition rob_legal ::
  "rob_config \<Rightarrow> ('q, 'd) wide_fifo \<Rightarrow> nat option \<Rightarrow> ('d \<times> bool) list option \<Rightarrow> (nat \<times> bool) list \<Rightarrow> 'q rob \<Rightarrow> bool" where
  "rob_legal cfg F retire put marks s \<longleftrightarrow>
     (case retire of None \<Rightarrow> True
      | Some c \<Rightarrow> rob_retire_ready cfg F s \<and> c \<le> retirement_superscalarity cfg \<and> c \<le> length (wf_items F (rob_data s)) \<and>
          (\<forall>i < c. f_done (rob_flags s) (start_idx_plus cfg F s i))) \<and>
     (case put of None \<Rightarrow> True
      | Some es \<Rightarrow> length es \<le> frontend_superscalarity cfg \<and>
          length (wf_items F (rob_data s)) + length es \<le> rob_depth cfg) \<and>
     (\<forall>(x, e) \<in> set marks. \<not> f_done (rob_flags s) x \<and>
        x \<in> start_idx_plus cfg F s ` {..<length (wf_items F (rob_data s))})"

section \<open>The abstract buffer\<close>

text \<open>
  An instruction with its identifier and its completion: \<^const>\<open>None\<close> while it executes, then
  whether it raised an exception.
\<close>

record 'd rob_instr =
  ri_data :: 'd
  ri_id :: nat
  ri_status :: "bool option"
  ri_pure :: bool

definition entry_of :: "rob_flags \<Rightarrow> 'd \<Rightarrow> nat \<Rightarrow> 'd rob_instr" where
  "entry_of fl d x =
     \<lparr>ri_data = d, ri_id = x, ri_status = (if f_done fl x then Some (f_exception fl x) else None), ri_pure = f_pure fl x\<rparr>"

definition rob_abs :: "rob_config \<Rightarrow> ('q, 'd) wide_fifo \<Rightarrow> 'q rob \<Rightarrow> 'd rob_instr list" where
  "rob_abs cfg F s =
     map (\<lambda>k. entry_of (rob_flags s) (wf_items F (rob_data s) ! k) (start_idx_plus cfg F s k))
       [0..<length (wf_items F (rob_data s))]"

definition complete :: "nat \<times> bool \<Rightarrow> 'd rob_instr \<Rightarrow> 'd rob_instr" where
  "complete call e = (if ri_id e = fst call then e\<lparr>ri_status := Some (snd call), ri_pure := \<not> snd call\<rparr> else e)"

definition abs_step ::
  "nat \<Rightarrow> nat \<Rightarrow> nat option \<Rightarrow> ('d \<times> bool) list option \<Rightarrow> (nat \<times> bool) list \<Rightarrow> 'd rob_instr list \<Rightarrow> 'd rob_instr list" where
  "abs_step depth end_idx retire put marks l =
     map (fold complete marks) (case retire of None \<Rightarrow> l | Some c \<Rightarrow> drop c l) @
     (case put of None \<Rightarrow> []
      | Some es \<Rightarrow> map (\<lambda>k. \<lparr>ri_data = fst (es ! k), ri_id = (end_idx + k) mod depth, ri_status = None, ri_pure = snd (es ! k)\<rparr>)
                    [0..<length es])"

text \<open>Entries outside the buffer are never marked as done.\<close>

definition rob_inv :: "rob_config \<Rightarrow> ('q, 'd) wide_fifo \<Rightarrow> 'q rob \<Rightarrow> bool" where
  "rob_inv cfg F s \<longleftrightarrow> wf_valid F (rob_data s) \<and>
     (\<forall>x. f_done (rob_flags s) x \<longrightarrow> x \<in> start_idx_plus cfg F s ` {..<length (wf_items F (rob_data s))})"

section \<open>The refinement\<close>

lemma add_mod_inject:
  assumes "i < D" "j < D" "((a :: nat) + i) mod D = (a + j) mod D"
  shows "i = j"
  using assms
proof (induction i j rule: linorder_wlog)
  case (le i j)
  then have "(a + i) mod D = (a + j) mod D" "a + i \<le> a + j" by simp_all
  then have "D dvd (a + j) - (a + i)" by (metis mod_eq_dvd_iff_nat)
  then have "D dvd j - i" by simp
  moreover have "j - i < D" using le by auto
  ultimately show ?case using \<open>i \<le> j\<close> by (auto dest: dvd_imp_le)
qed auto

lemma fold_upto_flags:
  "fold (\<lambda>i fl. if i < c then fl\<lparr>f_done := (f_done fl)(g i := False)\<rparr> else fl) [0..<n] fl =
   fl\<lparr>f_done := \<lambda>x. f_done fl x \<and> x \<notin> g ` {..<min n c}\<rparr>"
proof (induction n)
  case (Suc n)
  have "{..<min (Suc n) c} = (if n < c then insert n {..<min n c} else {..<min n c})"
    by (auto simp: min_def lessThan_Suc)
  moreover have "(\<lambda>x. f_done fl x \<and> x \<notin> g ` A)(g n := False) = (\<lambda>x. f_done fl x \<and> x \<notin> g ` insert n A)" for A
    by (auto simp: fun_eq_iff)
  ultimately show ?case using Suc by simp
qed simp

lemma retire_flags_eq:
  "c \<le> retirement_superscalarity cfg \<Longrightarrow>
   retire_flags cfg g c fl = fl\<lparr>f_done := \<lambda>x. f_done fl x \<and> x \<notin> g ` {..<c}\<rparr>"
  by (simp add: retire_flags_def fold_upto_flags min_absorb2)

lemma put_flags_other:
  "f_done (put_flags cfg g ps fl) = f_done fl" "f_exception (put_flags cfg g ps fl) = f_exception fl"
  "x \<notin> g ` {..<length ps} \<Longrightarrow> f_pure (put_flags cfg g ps fl) x = f_pure fl x"
proof -
  let ?F = "\<lambda>i fl. if i < length ps then fl\<lparr>f_pure := (f_pure fl)(g i := ps ! i)\<rparr> else fl"
  have "f_done (fold ?F is fl) = f_done fl \<and> f_exception (fold ?F is fl) = f_exception fl \<and>
      (x \<notin> g ` {..<length ps} \<longrightarrow> f_pure (fold ?F is fl) x = f_pure fl x)" for "is" fl
    by (induction "is" arbitrary: fl) auto
  then show "f_done (put_flags cfg g ps fl) = f_done fl" "f_exception (put_flags cfg g ps fl) = f_exception fl"
    "x \<notin> g ` {..<length ps} \<Longrightarrow> f_pure (put_flags cfg g ps fl) x = f_pure fl x"
    by (auto simp: put_flags_def)
qed

lemma put_flags_pure:
  assumes "inj_on g {..<length ps}" "k < length ps" "k < retirement_superscalarity cfg"
  shows "f_pure (put_flags cfg g ps fl) (g k) = ps ! k"
proof -
  have "k < n \<Longrightarrow> f_pure (fold (\<lambda>i fl. if i < length ps then fl\<lparr>f_pure := (f_pure fl)(g i := ps ! i)\<rparr> else fl) [0..<n] fl) (g k) = ps ! k" for n
  proof (induction n)
    case (Suc n)
    then show ?case using assms(1,2) by (auto simp: inj_on_def less_Suc_eq)
  qed simp
  then show ?thesis using assms(3) by (simp add: put_flags_def)
qed

lemma entry_of_marks:
  "entry_of (fold mark_done marks fl) d x = fold complete marks (entry_of fl d x)"
proof (induction marks arbitrary: fl)
  case (Cons call marks)
  have "entry_of (mark_done call fl) d x = complete call (entry_of fl d x)"
    by (auto simp: entry_of_def mark_done_def complete_def split: prod.splits)
  then show ?case using Cons by simp
qed simp

lemma fold_complete_other: "ri_id e \<notin> fst ` set marks \<Longrightarrow> fold complete marks e = e"
  by (induction marks arbitrary: e) (auto simp: complete_def)

lemma done_fold_marks: "f_done (fold mark_done marks fl) x \<longleftrightarrow> f_done fl x \<or> x \<in> fst ` set marks"
  by (induction marks arbitrary: fl) (auto simp: mark_done_def split: prod.splits)

text \<open>The effect of a cycle on one entry.\<close>

lemma rob_cycle_flags:
  fixes s :: "'q rob"
  assumes spec: "wide_fifo_spec (rob_depth cfg) F" and inv: "rob_inv cfg F s"
    and legal: "rob_legal cfg F retire put marks s"
    and c: "c = (case retire of None \<Rightarrow> 0 | Some c \<Rightarrow> c)" and es: "es = (case put of None \<Rightarrow> [] | Some es \<Rightarrow> es)"
    and n: "n = length (wf_items F (rob_data s))"
  defines "s' \<equiv> rob_cycle cfg F retire put marks s"
  shows "wf_valid F (rob_data s')" "wf_items F (rob_data s') = drop c (wf_items F (rob_data s)) @ map fst es"
    "start_idx_plus cfg F s' k = start_idx_plus cfg F s (c + k)"
    "\<exists>fl. rob_flags s' = fold mark_done marks fl \<and>
       (\<forall>x. f_done fl x \<longleftrightarrow> f_done (rob_flags s) x \<and> x \<notin> start_idx_plus cfg F s ` {..<c}) \<and>
       f_exception fl = f_exception (rob_flags s) \<and>
       (\<forall>x. x \<notin> end_idx_plus cfg F s ` {..<length es} \<longrightarrow> f_pure fl x = f_pure (rob_flags s) x) \<and>
       (inj_on (end_idx_plus cfg F s) {..<length es} \<longrightarrow> (\<forall>k < length es. k < retirement_superscalarity cfg \<longrightarrow>
          f_pure fl (end_idx_plus cfg F s k) = snd (es ! k)))"
proof -
  have room: "c \<le> n" "n + length es \<le> rob_depth cfg" "c \<le> retirement_superscalarity cfg"
    using legal spec inv by (auto simp: rob_legal_def c es n wide_fifo_spec_def rob_inv_def split: option.splits)
  have data: "rob_data s' = wf_cycle F c (map fst es) (rob_data s)"
    by (simp add: s'_def rob_cycle_def Let_def c es split: option.splits)
  have F: "wf_valid F (rob_data s') \<and> wf_items F (rob_data s') = drop c (wf_items F (rob_data s)) @ map fst es \<and>
      wf_read_idx F (rob_data s') = (wf_read_idx F (rob_data s) + c) mod rob_depth cfg"
    unfolding data using spec inv room by (simp add: wide_fifo_spec_def rob_inv_def n)
  then show "wf_valid F (rob_data s')" "wf_items F (rob_data s') = drop c (wf_items F (rob_data s)) @ map fst es"
    by blast+
  show "start_idx_plus cfg F s' k = start_idx_plus cfg F s (c + k)"
    using F by (simp add: start_idx_plus_def mod_simps add.assoc)
  let ?fl1 = "case retire of None \<Rightarrow> rob_flags s | Some count \<Rightarrow> retire_flags cfg (start_idx_plus cfg F s) count (rob_flags s)"
  let ?fl = "case put of None \<Rightarrow> ?fl1 | Some es \<Rightarrow> put_flags cfg (end_idx_plus cfg F s) (map snd es) ?fl1"
  have "rob_flags s' = fold mark_done marks ?fl"
    by (simp add: s'_def rob_cycle_def Let_def)
  moreover have "f_done ?fl x \<longleftrightarrow> f_done (rob_flags s) x \<and> x \<notin> start_idx_plus cfg F s ` {..<c}" for x
    using room by (auto simp: put_flags_other retire_flags_eq c split: option.splits)
  moreover have "f_exception ?fl = f_exception (rob_flags s)"
    using room by (auto simp: put_flags_other retire_flags_eq c split: option.splits)
  moreover have "f_pure ?fl1 = f_pure (rob_flags s)"
    using room by (auto simp: retire_flags_eq c split: option.splits)
  moreover from this have "x \<notin> end_idx_plus cfg F s ` {..<length es} \<longrightarrow> f_pure ?fl x = f_pure (rob_flags s) x" for x
    by (cases put) (auto simp: put_flags_other(3) es)
  moreover have "inj_on (end_idx_plus cfg F s) {..<length es} \<Longrightarrow> k < length es \<Longrightarrow> k < retirement_superscalarity cfg \<Longrightarrow>
      f_pure ?fl (end_idx_plus cfg F s k) = snd (es ! k)" for k
    by (cases put) (auto simp: put_flags_pure es)
  ultimately show "\<exists>fl. rob_flags s' = fold mark_done marks fl \<and>
       (\<forall>x. f_done fl x \<longleftrightarrow> f_done (rob_flags s) x \<and> x \<notin> start_idx_plus cfg F s ` {..<c}) \<and>
       f_exception fl = f_exception (rob_flags s) \<and>
       (\<forall>x. x \<notin> end_idx_plus cfg F s ` {..<length es} \<longrightarrow> f_pure fl x = f_pure (rob_flags s) x) \<and>
       (inj_on (end_idx_plus cfg F s) {..<length es} \<longrightarrow> (\<forall>k < length es. k < retirement_superscalarity cfg \<longrightarrow>
          f_pure fl (end_idx_plus cfg F s k) = snd (es ! k)))"
    by blast
qed


lemma end_idx_start:
  "wide_fifo_spec (rob_depth cfg) F \<Longrightarrow> rob_inv cfg F s \<Longrightarrow>
   end_idx_plus cfg F s k = start_idx_plus cfg F s (length (wf_items F (rob_data s)) + k)"
  by (simp add: wide_fifo_spec_def rob_inv_def end_idx_plus_def start_idx_plus_def mod_simps add.assoc)

lemma start_idx_eq_iff:
  "i < rob_depth cfg \<Longrightarrow> j < rob_depth cfg \<Longrightarrow> start_idx_plus cfg F s i = start_idx_plus cfg F s j \<longleftrightarrow> i = j"
  using add_mod_inject by (auto simp: start_idx_plus_def)

lemma start_idx_image_iff:
  "i < rob_depth cfg \<Longrightarrow> m \<le> rob_depth cfg \<Longrightarrow> start_idx_plus cfg F s i \<in> start_idx_plus cfg F s ` {..<m} \<longleftrightarrow> i < m"
  using start_idx_eq_iff [of i cfg _ F s] by (auto simp: image_iff)

text \<open>The entries of the abstract buffer after a cycle, kept and new.\<close>

lemma rob_cycle_entries:
  fixes s :: "'q rob"
  assumes spec: "wide_fifo_spec (rob_depth cfg) F" and inv: "rob_inv cfg F s"
    and legal: "rob_legal cfg F retire put marks s" and sup: "frontend_superscalarity cfg \<le> retirement_superscalarity cfg"
    and c: "c = (case retire of None \<Rightarrow> 0 | Some c \<Rightarrow> c)" and es: "es = (case put of None \<Rightarrow> [] | Some es \<Rightarrow> es)"
    and n: "n = length (wf_items F (rob_data s))"
  defines "s' \<equiv> rob_cycle cfg F retire put marks s"
  shows "c \<le> i \<Longrightarrow> i < n \<Longrightarrow> entry_of (rob_flags s') d (start_idx_plus cfg F s i) =
      fold complete marks (entry_of (rob_flags s) d (start_idx_plus cfg F s i))"
    and "k < length es \<Longrightarrow> entry_of (rob_flags s') d (start_idx_plus cfg F s (n + k)) =
      \<lparr>ri_data = d, ri_id = start_idx_plus cfg F s (n + k), ri_status = None, ri_pure = snd (es ! k)\<rparr>"
    and "f_done (rob_flags s') x \<Longrightarrow> x \<in> start_idx_plus cfg F s ` {c..<n}"
proof -
  let ?x = "start_idx_plus cfg F s"
  have room: "c \<le> n" "n + length es \<le> rob_depth cfg" "length es \<le> retirement_superscalarity cfg"
    using legal spec inv sup by (auto simp: rob_legal_def c es n wide_fifo_spec_def rob_inv_def split: option.splits)
  have marks: "fst ` set marks \<subseteq> ?x ` {..<n}" "y \<in> fst ` set marks \<Longrightarrow> \<not> f_done (rob_flags s) y" for y
    using legal by (auto simp: rob_legal_def n)
  have retired: "i < c \<Longrightarrow> f_done (rob_flags s) (?x i)" for i
    using legal by (auto simp: rob_legal_def c split: option.splits)
  have ends: "end_idx_plus cfg F s k = ?x (n + k)" for k by (simp add: end_idx_start [OF spec inv] n)
  have inj: "inj_on (end_idx_plus cfg F s) {..<length es}"
    unfolding inj_on_def ends using room by (auto simp: start_idx_eq_iff)
  obtain fl where fl: "rob_flags s' = fold mark_done marks fl"
      "f_done fl x \<longleftrightarrow> f_done (rob_flags s) x \<and> x \<notin> ?x ` {..<c}" "f_exception fl = f_exception (rob_flags s)"
      "x \<notin> end_idx_plus cfg F s ` {..<length es} \<Longrightarrow> f_pure fl x = f_pure (rob_flags s) x"
      "k < length es \<Longrightarrow> k < retirement_superscalarity cfg \<Longrightarrow> f_pure fl (end_idx_plus cfg F s k) = snd (es ! k)" for x k
    using rob_cycle_flags(4) [OF spec inv legal c es n] inj unfolding s'_def by metis
  have old: "?x i \<notin> end_idx_plus cfg F s ` {..<length es}" if "i < n" for i
    using that room by (auto simp: ends start_idx_eq_iff)
  show "entry_of (rob_flags s') d (?x i) = fold complete marks (entry_of (rob_flags s) d (?x i))" if "c \<le> i" "i < n" for i
  proof -
    have "entry_of fl d (?x i) = entry_of (rob_flags s) d (?x i)"
      using that room fl(3) fl(2) [of "?x i"] fl(4) [OF old [OF that(2)]] by (simp add: entry_of_def start_idx_image_iff)
    then show ?thesis by (simp add: fl(1) entry_of_marks)
  qed
  have done_in: "f_done (rob_flags s) y \<Longrightarrow> y \<in> ?x ` {..<n}" for y using inv by (simp add: rob_inv_def n)
  show "entry_of (rob_flags s') d (?x (n + k)) = \<lparr>ri_data = d, ri_id = ?x (n + k), ri_status = None, ri_pure = snd (es ! k)\<rparr>"
    if k: "k < length es" for k
  proof -
    have new: "?x (n + k) \<notin> ?x ` {..<n}" using k room by (simp add: start_idx_image_iff)
    then have "\<not> f_done fl (?x (n + k))" "?x (n + k) \<notin> fst ` set marks"
      using fl(2) done_in marks(1) by auto
    moreover have "f_pure fl (?x (n + k)) = snd (es ! k)" using fl(5) [OF k] k room by (simp add: ends)
    ultimately have "entry_of fl d (?x (n + k)) = \<lparr>ri_data = d, ri_id = ?x (n + k), ri_status = None, ri_pure = snd (es ! k)\<rparr>"
      by (simp add: entry_of_def)
    then show ?thesis using \<open>?x (n + k) \<notin> fst ` set marks\<close> by (simp add: fl(1) entry_of_marks fold_complete_other)
  qed
  assume "f_done (rob_flags s') x"
  then have "f_done (rob_flags s) x \<and> x \<notin> ?x ` {..<c} \<or> x \<in> fst ` set marks"
    by (simp add: fl(1) done_fold_marks fl(2))
  moreover have "x \<notin> ?x ` {..<c}" if "x \<in> fst ` set marks" using marks(2) [OF that] retired by auto
  ultimately have "x \<in> ?x ` {..<n} - ?x ` {..<c}" using done_in marks(1) by auto
  then show "x \<in> ?x ` {c..<n}" by (auto simp: image_iff not_less intro!: bexI)
qed

lemma rob_cycle_abs:
  fixes s :: "'q rob"
  assumes spec: "wide_fifo_spec (rob_depth cfg) F" and inv: "rob_inv cfg F s"
    and legal: "rob_legal cfg F retire put marks s" and sup: "frontend_superscalarity cfg \<le> retirement_superscalarity cfg"
  defines "s' \<equiv> rob_cycle cfg F retire put marks s"
  shows "rob_inv cfg F s'"
    and "rob_abs cfg F s' = abs_step (rob_depth cfg) (snd (get_indices F s)) retire put marks (rob_abs cfg F s)"
proof -
  let ?x = "start_idx_plus cfg F s"
  define c where "c = (case retire of None \<Rightarrow> 0 | Some c \<Rightarrow> c)"
  define es where "es = (case put of None \<Rightarrow> [] | Some es \<Rightarrow> es)"
  define its where "its = wf_items F (rob_data s)"
  note A = rob_cycle_entries [OF spec inv legal sup c_def es_def refl, folded s'_def its_def]
    rob_cycle_flags [OF spec inv legal c_def es_def refl, folded s'_def its_def]
  have cn: "c \<le> length its"
    using legal by (auto simp: rob_legal_def c_def its_def split: option.splits)
  have shift: "?x ` {c..<length its} \<subseteq> start_idx_plus cfg F s' ` {..<length its - c + length es}"
  proof
    fix y assume "y \<in> ?x ` {c..<length its}"
    then obtain i where "y = ?x i" "c \<le> i" "i < length its" by auto
    then have "y = start_idx_plus cfg F s' (i - c)" "i - c < length its - c + length es" by (simp_all add: A(6))
    then show "y \<in> start_idx_plus cfg F s' ` {..<length its - c + length es}" by blast
  qed
  show "rob_inv cfg F s'" unfolding rob_inv_def A(5) using A(3,4) shift by fastforce
  have old_len: "length (rob_abs cfg F s) = length its" by (simp add: rob_abs_def its_def)
  have len: "length (rob_abs cfg F s') = length its - c + length es"
    by (simp add: rob_abs_def A(5))
  show "rob_abs cfg F s' = abs_step (rob_depth cfg) (snd (get_indices F s)) retire put marks (rob_abs cfg F s)" (is "_ = ?r")
  proof (rule nth_equalityI)
    have r: "?r = map (fold complete marks) (drop c (rob_abs cfg F s)) @
        map (\<lambda>k. \<lparr>ri_data = fst (es ! k), ri_id = ?x (length its + k), ri_status = None, ri_pure = snd (es ! k)\<rparr>) [0..<length es]"
      using end_idx_start [OF spec inv]
      by (auto simp: abs_step_def c_def es_def end_idx_plus_def get_indices_def its_def split: option.splits)
    then show "length (rob_abs cfg F s') = length ?r" by (simp add: len old_len)
    fix k
    assume "k < length (rob_abs cfg F s')"
    then have k: "k < length its - c + length es" by (simp add: len)
    have lhs: "rob_abs cfg F s' ! k = entry_of (rob_flags s') ((drop c its @ map fst es) ! k) (?x (c + k))"
      using k by (simp add: rob_abs_def A(5,6))
    show "rob_abs cfg F s' ! k = ?r ! k"
    proof (cases "k < length its - c")
      case True
      then have "rob_abs cfg F s ! (c + k) = entry_of (rob_flags s) (its ! (c + k)) (?x (c + k))"
        by (simp add: rob_abs_def its_def)
      then show ?thesis unfolding lhs r using True A(1) [of "c + k" "its ! (c + k)"] old_len
        by (simp add: nth_append less_diff_conv add.commute)
    next
      case False
      then obtain j where j: "k = length its - c + j" "j < length es" using k by (metis add_diff_inverse_nat nat_add_left_cancel_less)
      then show ?thesis unfolding lhs r using A(2) [OF j(2), of "fst (es ! j)"] cn old_len by (simp add: nth_append)
    qed
  qed
qed

text \<open>What \<^verbatim>\<open>peek\<close> shows of an entry of the abstract buffer; the exception bit is read only with the done bit.\<close>

definition peek_abs :: "'d peek_entry \<Rightarrow> 'd rob_instr" where
  "peek_abs e = \<lparr>ri_data = pe_data e, ri_id = pe_rob_id e,
                 ri_status = (if pe_done e then Some (pe_exception e) else None), ri_pure = pe_pure e\<rparr>"

lemma peek_is_front: "map peek_abs (rob_peek cfg F s) = take (retirement_superscalarity cfg) (rob_abs cfg F s)"
  by (rule nth_equalityI) (simp_all add: rob_peek_def rob_abs_def peek_abs_def entry_of_def Let_def)

text \<open>
  C12. Over a queue that satisfies its specification, and with at least as many retirement as
  frontend ports, every cycle of calls that meet the assertions of the source keeps the invariant
  (done bits only on entries of the buffer) and acts on the list of instructions as the abstract
  buffer prescribes: the retired prefix disappears, marked instructions complete with their exception
  status, put instructions are appended as incomplete with consecutive identifiers; and peek shows
  the front of that list.
\<close>

theorem rob_refines:
  assumes "wide_fifo_spec (rob_depth cfg) F" "rob_inv cfg F s" "rob_legal cfg F retire put marks s"
    and "frontend_superscalarity cfg \<le> retirement_superscalarity cfg"
  shows "rob_inv cfg F (rob_cycle cfg F retire put marks s) \<and>
    rob_abs cfg F (rob_cycle cfg F retire put marks s) =
      abs_step (rob_depth cfg) (snd (get_indices F s)) retire put marks (rob_abs cfg F s) \<and>
    map peek_abs (rob_peek cfg F s) = take (retirement_superscalarity cfg) (rob_abs cfg F s)"
  using rob_cycle_abs [OF assms] peek_is_front by blast

definition example_config :: rob_config where
  "example_config = \<lparr>rob_entries_bits = 2, retirement_superscalarity = 2, frontend_superscalarity = 2\<rparr>"

definition example_rob :: "(nat \<times> char list) rob" where
  "example_rob = \<lparr>rob_data = (3, ''ab''), rob_flags = \<lparr>f_done = (\<lambda>x. x = 3), f_pure = (\<lambda>_. False), f_exception = (\<lambda>_. False)\<rparr>\<rparr>"

theorem rob_refines_witness:
  "rob_abs example_config (list_fifo 4) (rob_cycle example_config (list_fifo 4) (Some 1) (Some [(CHR ''c'', True)]) [(0, True)] example_rob) =
   [\<lparr>ri_data = CHR ''b'', ri_id = 0, ri_status = Some True, ri_pure = False\<rparr>,
    \<lparr>ri_data = CHR ''c'', ri_id = 1, ri_status = None, ri_pure = True\<rparr>]"
proof -
  have 1: "wide_fifo_spec (rob_depth example_config) (list_fifo 4)"
    using list_fifo_spec by (simp add: rob_depth_def example_config_def)
  have 2: "rob_inv example_config (list_fifo 4) example_rob"
    by (simp add: rob_inv_def example_rob_def list_fifo_def start_idx_plus_def example_config_def rob_depth_def image_iff bexI [of _ 0])
  have 3: "rob_legal example_config (list_fifo 4) (Some 1) (Some [(CHR ''c'', True)]) [(0, True)] example_rob"
    by (simp add: rob_legal_def rob_retire_ready_def example_rob_def list_fifo_def start_idx_plus_def example_config_def
        rob_depth_def image_iff bexI [of _ 1])
  have 4: "frontend_superscalarity example_config \<le> retirement_superscalarity example_config"
    by (simp add: example_config_def)
  show ?thesis
    unfolding conjunct1 [OF conjunct2 [OF rob_refines [OF 1 2 3 4]]]
    by (simp add: example_config_def rob_depth_def abs_step_def get_indices_def list_fifo_def example_rob_def rob_abs_def
        complete_def entry_of_def start_idx_plus_def upt_rec)
qed

text \<open>
  The loop of put that records purity runs over the retirement width: an instruction put at a
  position beyond it keeps the purity bit of the entry's previous occupant, whatever the caller
  passes.
\<close>

lemma rob_put_stale_pure:
  assumes "wide_fifo_spec (rob_depth cfg) F" "rob_inv cfg F s" "rob_legal cfg F None (Some es) [] s"
    and "retirement_superscalarity cfg \<le> k" "k < length es"
  shows "f_pure (rob_flags (rob_cycle cfg F None (Some es) [] s)) (end_idx_plus cfg F s k) =
         f_pure (rob_flags s) (end_idx_plus cfg F s k)"
proof -
  have "length (wf_items F (rob_data s)) + length es \<le> rob_depth cfg" using assms(3) by (simp add: rob_legal_def)
  then have other: "i < k \<Longrightarrow> end_idx_plus cfg F s k \<noteq> end_idx_plus cfg F s i" for i
    unfolding end_idx_start [OF assms(1,2)] using assms(5) by (auto simp: start_idx_eq_iff)
  have "f_pure (fold (\<lambda>i fl. if i < length (map snd es) then fl\<lparr>f_pure := (f_pure fl)(end_idx_plus cfg F s i := map snd es ! i)\<rparr> else fl)
      [0..<n] fl) (end_idx_plus cfg F s k) = f_pure fl (end_idx_plus cfg F s k)" if "n \<le> k" for n fl
    using that by (induction n) (simp_all add: other)
  then show ?thesis using assms(4) by (simp add: rob_cycle_def put_flags_def)
qed

end
