(* ===== verification/Rrat.thy ===== *)
theory Rrat
  imports Main "HOL-Library.Multiset"
begin

text \<open>
  The retirement register alias table (\<^verbatim>\<open>core_structs/rat.py\<close>). In one cycle up to
  \<^verbatim>\<open>retirement_superscalarity\<close> commit ports run; a port sees the table as the lower ports of the
  same cycle leave it. The table is a list indexed by logical register.
\<close>

record rrat_commit =
  rc_rl_dst :: nat
  rc_rp_dst :: nat

text \<open>A port that does not run is \<^const>\<open>None\<close>.\<close>

type_synonym rrat_ports = "rrat_commit option list"

fun commit_old :: "nat list \<Rightarrow> nat \<Rightarrow> rrat_ports \<Rightarrow> nat \<Rightarrow> nat" where
  "commit_old entries rl [] old = old"
| "commit_old entries rl (None # ports) old = commit_old entries rl ports old"
| "commit_old entries rl (Some c # ports) old =
     commit_old entries rl ports (if rc_rl_dst c = rl then rc_rp_dst c else old)"

text \<open>
  What port \<open>i\<close> returns: the entry, replaced by the value of the last lower port that commits the
  same logical register.
\<close>

definition commit_out :: "nat list \<Rightarrow> rrat_ports \<Rightarrow> nat \<Rightarrow> nat option" where
  "commit_out entries ports i =
     map_option (\<lambda>c. commit_old entries (rc_rl_dst c) (take i ports) (entries ! rc_rl_dst c)) (ports ! i)"

fun rrat_next :: "rrat_ports \<Rightarrow> nat list \<Rightarrow> nat list" where
  "rrat_next [] entries = entries"
| "rrat_next (None # ports) entries = rrat_next ports entries"
| "rrat_next (Some c # ports) entries = rrat_next ports (entries[rc_rl_dst c := rc_rp_dst c])"

definition rrat_peek :: "nat list \<Rightarrow> nat list" where
  "rrat_peek entries = entries"

section \<open>A cycle is its commits one after the other\<close>

text \<open>The reference: one commit per step, returning the entry it replaces.\<close>

fun commit_seq :: "rrat_ports \<Rightarrow> nat list \<Rightarrow> nat option list \<times> nat list" where
  "commit_seq [] entries = ([], entries)"
| "commit_seq (None # ports) entries = (let (outs, e) = commit_seq ports entries in (None # outs, e))"
| "commit_seq (Some c # ports) entries =
     (let (outs, e) = commit_seq ports (entries[rc_rl_dst c := rc_rp_dst c])
      in (Some (entries ! rc_rl_dst c) # outs, e))"

definition ports_ok :: "nat \<Rightarrow> rrat_ports \<Rightarrow> bool" where
  "ports_ok n ports \<longleftrightarrow> (\<forall>c. Some c \<in> set ports \<longrightarrow> rc_rl_dst c < n)"

lemma ports_ok_simps [simp]:
  "ports_ok n []" "ports_ok n (None # ports) \<longleftrightarrow> ports_ok n ports"
  "ports_ok n (Some c # ports) \<longleftrightarrow> rc_rl_dst c < n \<and> ports_ok n ports"
  by (auto simp: ports_ok_def)

lemma length_rrat_next [simp]: "length (rrat_next ports entries) = length entries"
  by (induction ports entries rule: rrat_next.induct) auto

lemma commit_old_next:
  "ports_ok (length entries) ports \<Longrightarrow> rl < length entries \<Longrightarrow>
   commit_old es rl ports (entries ! rl) = rrat_next ports entries ! rl"
  by (induction ports entries rule: rrat_next.induct) (auto simp: nth_list_update)

lemma commit_seq_next: "snd (commit_seq ports entries) = rrat_next ports entries"
  by (induction ports entries rule: rrat_next.induct) (auto simp: Let_def split: prod.splits)

lemma length_commit_seq [simp]: "length (fst (commit_seq ports entries)) = length ports"
  by (induction ports entries rule: rrat_next.induct) (auto simp: Let_def split: prod.splits)

lemma commit_seq_nth:
  "ports_ok (length entries) ports \<Longrightarrow> i < length ports \<Longrightarrow>
   fst (commit_seq ports entries) ! i =
     map_option (\<lambda>c. rrat_next (take i ports) entries ! rc_rl_dst c) (ports ! i)"
proof (induction ports entries arbitrary: i rule: rrat_next.induct)
  case (2 ports entries)
  then show ?case by (cases i) (auto simp: Let_def split: prod.splits)
next
  case (3 c ports entries)
  then show ?case by (cases i) (auto simp: Let_def split: prod.splits)
qed simp

lemma ports_ok_take: "ports_ok n ports \<Longrightarrow> ports_ok n (take i ports)"
  by (auto simp: ports_ok_def dest: in_set_takeD)

lemma commit_outs_seq:
  assumes "ports_ok (length entries) ports"
  shows "map (commit_out entries ports) [0..<length ports] = fst (commit_seq ports entries)"
proof (rule nth_equalityI)
  fix i
  assume "i < length (map (commit_out entries ports) [0..<length ports])"
  then have i: "i < length ports" by simp
  show "map (commit_out entries ports) [0..<length ports] ! i = fst (commit_seq ports entries) ! i"
  proof (cases "ports ! i")
    case (Some c)
    then have "Some c \<in> set ports" using i nth_mem by metis
    then have "rc_rl_dst c < length entries" using assms by (simp add: ports_ok_def)
    then show ?thesis
      using commit_seq_nth [OF assms i] commit_old_next [OF ports_ok_take [OF assms]] Some i
      by (simp add: commit_out_def)
  next
    case None
    then show ?thesis using commit_seq_nth [OF assms i] i by (simp add: commit_out_def)
  qed
qed simp

lemma commit_seq_mset:
  "ports_ok (length entries) ports \<Longrightarrow>
   mset (snd (commit_seq ports entries)) + mset (List.map_filter (\<lambda>x. x) (fst (commit_seq ports entries))) =
   mset entries + mset (List.map_filter (map_option rc_rp_dst) ports)"
proof (induction ports entries rule: rrat_next.induct)
  case (3 c ports entries)
  let ?e = "entries[rc_rl_dst c := rc_rp_dst c]"
  have IH: "mset (snd (commit_seq ports ?e)) + mset (List.map_filter (\<lambda>x. x) (fst (commit_seq ports ?e))) =
      mset ?e + mset (List.map_filter (map_option rc_rp_dst) ports)" using 3 by simp
  have "mset ?e + {#entries ! rc_rl_dst c#} = mset entries + {#rc_rp_dst c#}"
    using 3(2) by (simp add: mset_update)
  then show ?case using IH
    by (simp add: Let_def case_prod_beta map_filter_simps)
qed (simp_all add: Let_def case_prod_beta map_filter_simps)

lemma rrat_conserves_registers:
  assumes "ports_ok (length entries) ports"
  shows "mset (rrat_next ports entries) + mset (List.map_filter (\<lambda>x. x) (map (commit_out entries ports) [0..<length ports])) =
    mset entries + mset (List.map_filter (map_option rc_rp_dst) ports)"
  using commit_seq_mset [OF assms] commit_outs_seq [OF assms] by (simp add: commit_seq_next)

text \<open>
  C13. A cycle of the retirement alias table with several commit ports is the sequence of its
  commits: every running port returns the physical register that its logical register maps to after
  the commits of the lower ports, and the table afterwards is that of the whole sequence.
  No physical register is lost or duplicated: the registers in the table afterwards together with
  those the ports return are exactly the registers of the table before together with the committed ones.
\<close>

theorem rrat_commits_in_sequence:
  assumes "ports_ok (length entries) ports"
  shows "map (commit_out entries ports) [0..<length ports] = fst (commit_seq ports entries) \<and>
    rrat_next ports entries = snd (commit_seq ports entries) \<and>
    mset (rrat_next ports entries) + mset (List.map_filter (\<lambda>x. x) (map (commit_out entries ports) [0..<length ports])) =
    mset entries + mset (List.map_filter (map_option rc_rp_dst) ports)"
  using commit_outs_seq [OF assms] rrat_conserves_registers [OF assms] by (simp add: commit_seq_next)

theorem rrat_commits_in_sequence_witness:
  "map (commit_out [0, 7] [Some \<lparr>rc_rl_dst = 1, rc_rp_dst = 8\<rparr>, Some \<lparr>rc_rl_dst = 1, rc_rp_dst = 9\<rparr>]) [0..<2] =
     [Some 7, Some 8]"
  using conjunct1 [OF rrat_commits_in_sequence [of "[0, 7]"
      "[Some \<lparr>rc_rl_dst = 1, rc_rp_dst = 8\<rparr>, Some \<lparr>rc_rl_dst = 1, rc_rp_dst = 9\<rparr>]"]]
  by (simp add: numeral_2_eq_2)

end
