(* ===== verification/Register_File.thy ===== *)
theory Register_File
  imports Transactron
begin

text \<open>
  The physical register file (\<^verbatim>\<open>core_structs/rf.py\<close>). Values live in a Transactron \<^verbatim>\<open>MemoryBank\<close>,
  the validity bits in an array. A read port whose request was made earlier answers with the value as
  of the cycle of its response, forwarding the writes of that same cycle through a Transactron
  \<^verbatim>\<open>OneHotMux\<close>. The memory and the multiplexer are parameters with their documented behaviour as
  hypotheses (theory \<^verbatim>\<open>Transactron\<close>). The abstract register file maps a register to its value, if it has one.
\<close>

section \<open>RegisterFile\<close>

record 'm rf =
  rf_entries :: 'm
  rf_valids :: "nat \<Rightarrow> bool"

text \<open>The ports of a cycle: a \<^verbatim>\<open>write\<close> or \<^verbatim>\<open>free\<close> method that is not called is \<^const>\<open>None\<close>.\<close>

type_synonym 'v rf_writes = "(nat \<times> 'v) option list"

definition rf_init :: "'m \<Rightarrow> 'm rf" where
  "rf_init mem = \<lparr>rf_entries = mem, rf_valids = (\<lambda>k. k = 0)\<rparr>"

text \<open>The signals \<^verbatim>\<open>being_written\<close> and \<^verbatim>\<open>written_value\<close>; an unused port drives them to zero.\<close>

definition being_written :: "'v rf_writes \<Rightarrow> nat \<Rightarrow> nat" where
  "being_written ws i = (case ws ! i of None \<Rightarrow> 0 | Some (reg_id, _) \<Rightarrow> reg_id)"

definition written_value :: "('v :: zero) rf_writes \<Rightarrow> nat \<Rightarrow> 'v" where
  "written_value ws i = (case ws ! i of None \<Rightarrow> 0 | Some (_, reg_val) \<Rightarrow> reg_val)"

definition rf_read_resp ::
  "('m, 'v :: zero) memory_bank \<Rightarrow> 'v one_hot_mux \<Rightarrow> 'v rf_writes \<Rightarrow> nat \<Rightarrow> 'm rf \<Rightarrow> 'v \<times> bool" where
  "rf_read_resp M mux ws reg_id s =
     (let reg_written = map (\<lambda>i. being_written ws i = reg_id \<and> reg_id \<noteq> 0) [0..<length ws];
          forward = list_ex id reg_written;
          reg_val = mux (map (\<lambda>i. (reg_written ! i, written_value ws i)) [0..<length ws]) (mb_read M (rf_entries s) reg_id)
      in (reg_val, forward \<or> rf_valids s reg_id))"

text \<open>The assignments of the \<^verbatim>\<open>write\<close> and \<^verbatim>\<open>free\<close> methods to the validity bits, in the order of the source.\<close>

fun write_valids :: "'v rf_writes \<Rightarrow> (nat \<Rightarrow> bool) \<Rightarrow> nat \<Rightarrow> bool" where
  "write_valids [] valids = valids"
| "write_valids (None # ws) valids = write_valids ws valids"
| "write_valids (Some (reg_id, _) # ws) valids = write_valids ws (if reg_id \<noteq> 0 then valids(reg_id := True) else valids)"

fun free_valids :: "nat option list \<Rightarrow> (nat \<Rightarrow> bool) \<Rightarrow> nat \<Rightarrow> bool" where
  "free_valids [] valids = valids"
| "free_valids (None # fs) valids = free_valids fs valids"
| "free_valids (Some reg_id # fs) valids = free_valids fs (if reg_id \<noteq> 0 then valids(reg_id := False) else valids)"

fun memory_writes :: "'v rf_writes \<Rightarrow> (nat \<times> 'v) list" where
  "memory_writes [] = []"
| "memory_writes (None # ws) = memory_writes ws"
| "memory_writes (Some (reg_id, v) # ws) = (if reg_id \<noteq> 0 then (reg_id, v) # memory_writes ws else memory_writes ws)"

definition rf_cycle :: "('m, 'v) memory_bank \<Rightarrow> 'v rf_writes \<Rightarrow> nat option list \<Rightarrow> 'm rf \<Rightarrow> 'm rf" where
  "rf_cycle M ws fs s =
     \<lparr>rf_entries = mb_write M (memory_writes ws) (rf_entries s),
      rf_valids = free_valids fs (write_valids ws (rf_valids s))\<rparr>"

text \<open>
  The assertions of the source: a register that is written is not valid, one that is freed is, and
  two ports never name the same register other than register 0.
\<close>

fun freed :: "nat option list \<Rightarrow> nat list" where
  "freed [] = []"
| "freed (None # fs) = freed fs"
| "freed (Some reg_id # fs) = (if reg_id \<noteq> 0 then reg_id # freed fs else freed fs)"

definition rf_legal :: "nat \<Rightarrow> 'v rf_writes \<Rightarrow> nat option list \<Rightarrow> 'm rf \<Rightarrow> bool" where
  "rf_legal depth ws fs s \<longleftrightarrow>
     (\<forall>(r, v) \<in> set (memory_writes ws). r < depth \<and> \<not> rf_valids s r) \<and> distinct (map fst (memory_writes ws)) \<and>
     (\<forall>r \<in> set (freed fs). r < depth \<and> rf_valids s r) \<and> distinct (freed fs)"

section \<open>The abstract register file\<close>

definition rf_abs :: "('m, 'v) memory_bank \<Rightarrow> 'm rf \<Rightarrow> nat \<Rightarrow> 'v option" where
  "rf_abs M s r = (if rf_valids s r then Some (mb_read M (rf_entries s) r) else None)"

text \<open>Register 0 is always valid and holds zero.\<close>

definition rf_inv :: "('m, 'v :: zero) memory_bank \<Rightarrow> 'm rf \<Rightarrow> bool" where
  "rf_inv M s \<longleftrightarrow> rf_abs M s 0 = Some 0"

lemma memory_writes_iff: "(r, v) \<in> set (memory_writes ws) \<longleftrightarrow> r \<noteq> 0 \<and> Some (r, v) \<in> set ws"
  by (induction ws rule: memory_writes.induct) auto

lemma freed_nonzero: "0 \<notin> set (freed fs)"
  by (induction fs rule: freed.induct) auto

lemma write_valids_iff: "write_valids ws valids r \<longleftrightarrow> valids r \<or> r \<in> fst ` set (memory_writes ws)"
  by (induction ws valids rule: write_valids.induct) auto

lemma free_valids_iff: "free_valids fs valids r \<longleftrightarrow> valids r \<and> r \<notin> set (freed fs)"
  by (induction fs valids rule: free_valids.induct) auto

lemma being_written_iff:
  "r \<noteq> 0 \<Longrightarrow> (i < length ws \<and> being_written ws i = r) \<longleftrightarrow> (i < length ws \<and> (\<exists>v. ws ! i = Some (r, v)))"
  by (auto simp: being_written_def split: option.splits prod.splits)

text \<open>Different ports write different registers.\<close>

lemma memory_writes_inj:
  "distinct (map fst (memory_writes ws)) \<Longrightarrow> i < length ws \<Longrightarrow> j < length ws \<Longrightarrow> r \<noteq> 0 \<Longrightarrow>
   ws ! i = Some (r, v) \<Longrightarrow> ws ! j = Some (r, v') \<Longrightarrow> i = j"
proof (induction ws arbitrary: i j)
  case (Cons w ws)
  have tail: "distinct (map fst (memory_writes ws))" using Cons.prems(1) by (cases w) (auto split: if_splits)
  have no: False if "w = Some (r, a)" "k < length ws" "ws ! k = Some (r, b)" for k a b
  proof -
    have "Some (r, b) \<in> set ws" using that nth_mem by metis
    then have "(r, b) \<in> set (memory_writes ws)" using Cons.prems(4) by (simp add: memory_writes_iff)
    then show False using Cons.prems(1,4) that(1) by force
  qed
  show ?case
    using Cons.IH [OF tail] Cons.prems no by (cases i; cases j) auto
qed simp

lemma forwarded:
  assumes mux: "one_hot_mux_spec mux" and ws: "distinct (map fst (memory_writes ws))" and r: "r \<noteq> 0"
  shows "rf_read_resp M mux ws r s =
    (case map_of (memory_writes ws) r of None \<Rightarrow> (mb_read M (rf_entries s) r, rf_valids s r) | Some v \<Rightarrow> (v, True))"
proof (cases "map_of (memory_writes ws) r")
  case None
  have "being_written ws i \<noteq> r" if i: "i < length ws" for i
  proof
    assume "being_written ws i = r"
    then obtain v where "ws ! i = Some (r, v)" using being_written_iff [OF r, of i ws] i by blast
    then have "Some (r, v) \<in> set ws" using i nth_mem by metis
    then have "(r, v) \<in> set (memory_writes ws)" using r by (simp add: memory_writes_iff)
    then show False using None by (force simp: map_of_eq_None_iff)
  qed
  then show ?thesis using None one_hot_mux_default [OF mux]
    by (simp add: rf_read_resp_def Let_def list_ex_iff)
next
  case (Some v)
  then have "(r, v) \<in> set (memory_writes ws)" by (rule map_of_SomeD)
  then have "Some (r, v) \<in> set ws" by (simp add: memory_writes_iff)
  then obtain i where i: "i < length ws" "ws ! i = Some (r, v)" by (auto simp: in_set_conv_nth)
  let ?cs = "map (\<lambda>i. (being_written ws i = r \<and> r \<noteq> 0, written_value ws i)) [0..<length ws]"
  have at_i: "being_written ws i = r" "written_value ws i = v" using i by (simp_all add: being_written_def written_value_def)
  have only: "j = i" if "j < length ?cs" "fst (?cs ! j)" for j
  proof -
    have "fst (?cs ! j)" by (fact that(2))
    moreover have j: "j < length ws" using that(1) by simp
    ultimately have "being_written ws j = r" by simp
    then obtain v' where "ws ! j = Some (r, v')" using being_written_iff [OF r, of j ws] j by blast
    then show "j = i" using memory_writes_inj [OF ws j i(1) r _ i(2)] by blast
  qed
  have mux_v: "mux ?cs d = snd (?cs ! i)" for d
    by (rule one_hot_mux_select [OF mux _ _ only]) (use i r at_i in simp_all)
  have cs: "map (\<lambda>i. (map (\<lambda>i. being_written ws i = r \<and> r \<noteq> 0) [0..<length ws] ! i, written_value ws i)) [0..<length ws] = ?cs"
    by simp
  have "list_ex id (map (\<lambda>i. being_written ws i = r \<and> r \<noteq> 0) [0..<length ws])"
    unfolding list_ex_iff using i at_i r by force
  then show ?thesis unfolding rf_read_resp_def Let_def Some cs mux_v using i at_i by simp
qed

lemma read_zero: "one_hot_mux_spec mux \<Longrightarrow> rf_read_resp M mux ws 0 s = (mb_read M (rf_entries s) 0, rf_valids s 0)"
  by (simp add: rf_read_resp_def Let_def one_hot_mux_default list_ex_iff)

lemma rf_cycle_abs:
  assumes M: "memory_bank_spec depth M" and legal: "rf_legal depth ws fs s" and r: "r < depth"
  shows "rf_abs M (rf_cycle M ws fs s) r =
    (if r \<in> set (freed fs) then None else case map_of (memory_writes ws) r of None \<Rightarrow> rf_abs M s r | Some v \<Rightarrow> Some v)"
proof -
  have "mb_read M (mb_write M (memory_writes ws) (rf_entries s)) r =
      (case map_of (memory_writes ws) r of None \<Rightarrow> mb_read M (rf_entries s) r | Some v \<Rightarrow> v)"
    by (rule memory_bank_read [OF M _ _ r]) (use legal in \<open>auto simp: rf_legal_def\<close>)
  moreover have "r \<in> fst ` set (memory_writes ws) \<longleftrightarrow> map_of (memory_writes ws) r \<noteq> None"
    by (simp add: map_of_eq_None_iff)
  ultimately show ?thesis
    by (auto simp: rf_abs_def rf_cycle_def write_valids_iff free_valids_iff split: option.splits)
qed

lemma map_of_writes_zero: "map_of (memory_writes ws) 0 = None"
  by (force simp: map_of_eq_None_iff memory_writes_iff)

text \<open>
  C16. A response of a read port agrees with the abstract register file after the writes of the same
  cycle: the register is reported valid exactly when it then has a value, which is the one returned.
  The cycle itself stores the written values and forgets the freed registers, and register 0 stays
  valid with value zero.
\<close>

theorem rf_refines:
  fixes M :: "('m, 'v :: zero) memory_bank"
  assumes "memory_bank_spec depth M" "one_hot_mux_spec mux" "rf_inv M s" "rf_legal depth ws fs s" "r < depth"
  shows "(\<lambda>(val, valid). if valid then Some val else None) (rf_read_resp M mux ws r s) =
      (case map_of (memory_writes ws) r of None \<Rightarrow> rf_abs M s r | Some v \<Rightarrow> Some v) \<and>
    rf_abs M (rf_cycle M ws fs s) r =
      (if r \<in> set (freed fs) then None else case map_of (memory_writes ws) r of None \<Rightarrow> rf_abs M s r | Some v \<Rightarrow> Some v) \<and>
    rf_inv M (rf_cycle M ws fs s)"
proof -
  have "distinct (map fst (memory_writes ws))" using assms(4) by (simp add: rf_legal_def)
  then have "(\<lambda>(val, valid). if valid then Some val else None) (rf_read_resp M mux ws r s) =
      (case map_of (memory_writes ws) r of None \<Rightarrow> rf_abs M s r | Some v \<Rightarrow> Some v)"
    using assms(2) by (cases "r = 0")
      (auto simp: read_zero forwarded map_of_writes_zero rf_abs_def split: option.splits)
  moreover have "rf_inv M (rf_cycle M ws fs s)"
    using rf_cycle_abs [OF assms(1,4), of 0] assms(3,5) freed_nonzero by (simp add: rf_inv_def map_of_writes_zero)
  ultimately show ?thesis using rf_cycle_abs [OF assms(1,4,5)] by blast
qed

theorem rf_refines_witness:
  "rf_read_resp fun_memory first_mux [None, Some (5, 42)] 5 (rf_init (\<lambda>_. 0 :: int)) = (42, True) \<and>
   rf_abs fun_memory (rf_cycle fun_memory [None, Some (5, 42)] [] (rf_init (\<lambda>_. 0 :: int))) 5 = Some 42"
proof -
  let ?s = "rf_init (\<lambda>_. 0 :: int)"
  have "rf_inv fun_memory ?s" "rf_legal 8 [None, Some (5, 42)] [] ?s"
    by (simp_all add: rf_inv_def rf_abs_def rf_init_def fun_memory_def rf_legal_def)
  from rf_refines [OF fun_memory_spec first_mux_spec this, of 5] show ?thesis
    by (simp split: prod.splits if_splits)
qed

end
