(* ===== verification/Crat.thy ===== *)
theory Crat
  imports Transactron
begin

text \<open>
  The checkpointing register alias table (\<^verbatim>\<open>core_structs/crat.py\<close>): the frontend mapping \<^verbatim>\<open>frat\<close>, the
  speculation tags, which are allocated and freed in order, and the checkpoints of \<^verbatim>\<open>frat\<close> kept in a
  memory. A cycle combines the calls of all methods; every transaction of the component runs when it
  can, and the assignments to a register are made in the order of the source, the last one winning.
  Tags and checkpoints are numbers; a set of tags (a bit vector in the source) is a predicate.
\<close>

section \<open>State\<close>

text \<open>
  The generator parameters and the library functions: \<^verbatim>\<open>mod_incr\<close>, \<^verbatim>\<open>cyclic_mask\<close> (as a predicate on
  bit positions) and the two \<^verbatim>\<open>MemoryBank\<close>s.
\<close>

record ('s, 't) crat_env =
  tag_bits :: nat
  checkpoint_count :: nat
  mod_incr :: "nat \<Rightarrow> nat \<Rightarrow> nat"
  cyclic_mask :: "nat \<Rightarrow> nat \<Rightarrow> nat \<Rightarrow> nat \<Rightarrow> bool"
  storage_bank :: "('s, nat list) memory_bank"
  tag_map_bank :: "('t, nat) memory_bank"

definition crat_env_spec :: "('s, 't) crat_env \<Rightarrow> bool" where
  "crat_env_spec E \<longleftrightarrow> checkpoint_count E > 1 \<and> checkpoint_count E < 2 ^ tag_bits E \<and>
     (\<forall>x m. x < m \<longrightarrow> mod_incr E x m = (if x = m - 1 then 0 else x + 1)) \<and>
     (\<forall>n a b i. a < n \<longrightarrow> b < n \<longrightarrow> i < n \<longrightarrow>
        cyclic_mask E n a b i = (if a \<le> b then a \<le> i \<and> i \<le> b else a \<le> i \<or> i \<le> b)) \<and>
     memory_bank_spec (checkpoint_count E) (storage_bank E) \<and> memory_bank_spec (2 ^ tag_bits E) (tag_map_bank E)"

text \<open>
  The registers. A memory with a pending read request holds the response; \<^verbatim>\<open>create_checkpoint_pipe\<close>
  holds at most one checkpoint.
\<close>

record ('s, 't) crat =
  frat :: "nat list"
  tags_head :: nat
  tags_tail :: nat
  checkpoints_head :: nat
  checkpoints_tail :: nat
  checkpoints_full :: bool
  active_tags :: "nat \<Rightarrow> bool"
  checkpointed_tags :: "nat \<Rightarrow> bool"
  storage :: 's
  storage_resp :: "nat list option"
  tag_map :: 't
  tag_map_resp :: "nat option"
  rollback_just_started :: bool
  rollback_target_tag :: nat
  frat_lock :: bool
  frat_unlock_tag :: nat
  last_rollback_finished :: bool
  create_checkpoint_pipe :: "nat option"
  last_issued_tag :: nat
  next_tag_increment :: bool
  frat_tag_in_next_cycle :: nat
  rollback_tag_s1 :: nat

definition crat_init :: "nat \<Rightarrow> 's \<Rightarrow> 't \<Rightarrow> ('s, 't) crat" where
  "crat_init reg_cnt st tm =
     \<lparr>frat = replicate reg_cnt 0, tags_head = 1, tags_tail = 0, checkpoints_head = 0, checkpoints_tail = 0,
      checkpoints_full = False, active_tags = (\<lambda>t. t = 0), checkpointed_tags = (\<lambda>_. False),
      storage = st, storage_resp = None, tag_map = tm, tag_map_resp = None,
      rollback_just_started = False, rollback_target_tag = 0, frat_lock = False, frat_unlock_tag = 0,
      last_rollback_finished = True, create_checkpoint_pipe = None, last_issued_tag = 0,
      next_tag_increment = False, frat_tag_in_next_cycle = 0, rollback_tag_s1 = 0\<rparr>"

section \<open>Calls\<close>

record rename_in =
  rl_dst :: nat
  rp_dst :: nat
  rl_s1 :: nat
  rl_s2 :: nat

record tag_in =
  ti_rollback_tag :: nat
  ti_rollback_tag_v :: bool
  ti_commit_checkpoint :: bool

record tag_out =
  to_tag :: nat
  to_tag_increment :: bool
  to_commit_checkpoint :: bool

text \<open>The calls of a cycle; a method that is not called is \<^const>\<open>None\<close>.\<close>

record crat_calls =
  c_tag :: "tag_in option"
  c_commit_checkpoint :: "(nat \<times> bool) option"
  c_rename :: "rename_in option list"
  c_flush_restore :: "nat list option"
  c_rollback :: "nat option"
  c_free_tag :: bool

definition no_calls :: crat_calls where
  "no_calls = \<lparr>c_tag = None, c_commit_checkpoint = None, c_rename = [], c_flush_restore = None, c_rollback = None, c_free_tag = False\<rparr>"

section \<open>Renaming\<close>

definition commit_tag_valid :: "nat \<Rightarrow> ('s, 't) crat \<Rightarrow> bool" where
  "commit_tag_valid tag s \<longleftrightarrow> \<not> frat_lock s \<or> tag = frat_unlock_tag s"

text \<open>The signal \<^verbatim>\<open>tag_valid\<close>, zero when \<^verbatim>\<open>commit_checkpoint\<close> does not run.\<close>

definition tag_valid :: "crat_calls \<Rightarrow> ('s, 't) crat \<Rightarrow> bool" where
  "tag_valid c s = (case c_commit_checkpoint c of None \<Rightarrow> False | Some (tag, _) \<Rightarrow> commit_tag_valid tag s)"

definition makes_checkpoint :: "crat_calls \<Rightarrow> ('s, 't) crat \<Rightarrow> nat option" where
  "makes_checkpoint c s =
     (case c_commit_checkpoint c of None \<Rightarrow> None
      | Some (tag, commit) \<Rightarrow> if commit \<and> commit_tag_valid tag s then Some tag else None)"

definition commit_checkpoint_ready :: "crat_calls \<Rightarrow> ('s, 't) crat \<Rightarrow> bool" where
  "commit_checkpoint_ready c s \<longleftrightarrow> makes_checkpoint c s = None \<or> \<not> checkpoints_full s"

text \<open>The array \<^verbatim>\<open>active_renames\<close>: the valid renames of the cycle, by port.\<close>

definition valid_rename :: "bool \<Rightarrow> rename_in option \<Rightarrow> (nat \<times> nat) option" where
  "valid_rename v r = (case r of None \<Rightarrow> None | Some r \<Rightarrow> if v \<and> rl_dst r \<noteq> 0 then Some (rl_dst r, rp_dst r) else None)"

definition active_renames :: "crat_calls \<Rightarrow> ('s, 't) crat \<Rightarrow> (nat \<times> nat) option list" where
  "active_renames c s = map (valid_rename (tag_valid c s)) (c_rename c)"

lemma valid_rename_simps [simp]:
  "valid_rename v None = None"
  "valid_rename v (Some r) = (if v \<and> rl_dst r \<noteq> 0 then Some (rl_dst r, rp_dst r) else None)"
  by (simp_all add: valid_rename_def)

fun forward_renames :: "nat \<Rightarrow> (nat \<times> nat) option list \<Rightarrow> nat \<Rightarrow> nat" where
  "forward_renames rl [] rp = rp"
| "forward_renames rl (None # ars) rp = forward_renames rl ars rp"
| "forward_renames rl (Some (l, p) # ars) rp = forward_renames rl ars (if l = rl then p else rp)"

definition frat_get :: "crat_calls \<Rightarrow> ('s, 't) crat \<Rightarrow> nat \<Rightarrow> nat \<Rightarrow> nat" where
  "frat_get c s k rl = forward_renames rl (take k (active_renames c s)) (frat s ! rl)"

definition rename_out :: "crat_calls \<Rightarrow> ('s, 't) crat \<Rightarrow> nat \<Rightarrow> (nat \<times> nat) option" where
  "rename_out c s k = map_option (\<lambda>r. (frat_get c s k (rl_s1 r), frat_get c s k (rl_s2 r))) (c_rename c ! k)"

fun apply_renames :: "(nat \<times> nat) option list \<Rightarrow> nat list \<Rightarrow> nat list" where
  "apply_renames [] f = f"
| "apply_renames (None # ars) f = apply_renames ars f"
| "apply_renames (Some (l, p) # ars) f = apply_renames ars (f[l := p])"

section \<open>Tagging\<close>

text \<open>The decision of the \<^verbatim>\<open>tag\<close> method: whether it stalls, increments the tag, and the activity of a new tag.\<close>

record tag_decision =
  d_stall :: bool
  d_increment :: bool
  d_active :: bool
  d_commit :: bool
  d_resume :: bool

definition decide_tag :: "tag_in \<Rightarrow> ('s, 't) crat \<Rightarrow> tag_decision" where
  "decide_tag i s =
     (let target_valid = ti_rollback_tag i = rollback_target_tag s \<and> ti_rollback_tag_v i;
          frat_ready = ti_rollback_tag i = frat_tag_in_next_cycle s \<and> ti_rollback_tag_v i
      in if \<not> rollback_just_started s then
           \<lparr>d_stall = False, d_increment = next_tag_increment s, d_active = True, d_commit = ti_commit_checkpoint i, d_resume = False\<rparr>
         else if target_valid \<and> \<not> frat_ready then
           \<lparr>d_stall = True, d_increment = False, d_active = False, d_commit = False, d_resume = False\<rparr>
         else if target_valid \<and> frat_ready then
           \<lparr>d_stall = False, d_increment = True, d_active = True, d_commit = ti_commit_checkpoint i, d_resume = True\<rparr>
         else
           \<lparr>d_stall = False, d_increment = next_tag_increment s, d_active = False, d_commit = False, d_resume = False\<rparr>)"

text \<open>The method runs unless it stalls or needs a new tag when all are allocated.\<close>

definition tag_ready :: "tag_in \<Rightarrow> ('s, 't) crat \<Rightarrow> bool" where
  "tag_ready i s \<longleftrightarrow> \<not> d_stall (decide_tag i s) \<and> (d_increment (decide_tag i s) \<longrightarrow> tags_head s \<noteq> tags_tail s)"

definition tag_method_out :: "tag_in \<Rightarrow> ('s, 't) crat \<Rightarrow> tag_out" where
  "tag_method_out i s =
     (let d = decide_tag i s
      in \<lparr>to_tag = (if d_increment d then tags_head s else last_issued_tag s),
          to_tag_increment = d_increment d, to_commit_checkpoint = d_commit d\<rparr>)"

text \<open>The tag allocated in a cycle, with its activity.\<close>

definition allocates_tag :: "crat_calls \<Rightarrow> ('s, 't) crat \<Rightarrow> bool option" where
  "allocates_tag c s =
     (case c_tag c of None \<Rightarrow> None
      | Some i \<Rightarrow> let d = decide_tag i s in if d_increment d then Some (d_active d) else None)"

section \<open>A cycle\<close>

definition next_tag :: "('s, 't) crat_env \<Rightarrow> ('s, 't) crat \<Rightarrow> nat" where
  "next_tag E s = (tags_head s + 1) mod 2 ^ tag_bits E"

definition next_checkpoint :: "('s, 't) crat_env \<Rightarrow> ('s, 't) crat \<Rightarrow> nat" where
  "next_checkpoint E s = mod_incr E (checkpoints_head s) (checkpoint_count E)"

text \<open>The tags that a rollback deactivates: \<^verbatim>\<open>active_tags_reset_mask_0\<close>.\<close>

definition rollback_mask :: "('s, 't) crat_env \<Rightarrow> crat_calls \<Rightarrow> ('s, 't) crat \<Rightarrow> nat \<Rightarrow> bool" where
  "rollback_mask E c s =
     (case c_rollback c of None \<Rightarrow> (\<lambda>_. False)
      | Some tag \<Rightarrow>
          let n = 2 ^ tag_bits E; tag_plus_1 = (tag + 1) mod n; bound = (tags_tail s + n - 1) mod n
          in if tag_plus_1 = tags_tail s then (\<lambda>_. False) else cyclic_mask E n tag_plus_1 bound)"

text \<open>The tag that loses its checkpoint: \<^verbatim>\<open>checkpointed_tags_reset_mask_0\<close>.\<close>

definition restored_mask :: "('s, 't) crat \<Rightarrow> nat \<Rightarrow> bool" where
  "restored_mask s t \<longleftrightarrow> tag_map_resp s \<noteq> None \<and> t = rollback_target_tag s"

definition frees_checkpoint :: "crat_calls \<Rightarrow> ('s, 't) crat \<Rightarrow> bool" where
  "frees_checkpoint c s \<longleftrightarrow> c_free_tag c \<and>
     checkpointed_tags s (tags_tail s) \<and> \<not> restored_mask s (tags_tail s) \<and> active_tags s (tags_tail s)"

definition checkpoints_next_tail :: "('s, 't) crat_env \<Rightarrow> crat_calls \<Rightarrow> ('s, 't) crat \<Rightarrow> nat" where
  "checkpoints_next_tail E c s =
     (if frees_checkpoint c s then mod_incr E (checkpoints_tail s) (checkpoint_count E) else checkpoints_tail s)"

text \<open>The \<^verbatim>\<open>allocate_tag\<close> and \<^verbatim>\<open>tag\<close> methods, when called.\<close>

definition tag_part :: "('s, 't) crat_env \<Rightarrow> crat_calls \<Rightarrow> ('s, 't) crat \<Rightarrow> ('s, 't) crat \<Rightarrow> ('s, 't) crat" where
  "tag_part E c s u =
     (case c_tag c of None \<Rightarrow> u
      | Some i \<Rightarrow>
          let d = decide_tag i s; out = tag_method_out i s;
              u1 = (if d_increment d then u\<lparr>tags_head := next_tag E s\<rparr> else u);
              u2 = u1\<lparr>next_tag_increment := (if rollback_just_started s \<and> \<not> d_resume d then False else ti_commit_checkpoint i),
                      last_issued_tag := to_tag out\<rparr>
          in if d_resume d then u2\<lparr>frat_unlock_tag := to_tag out, rollback_just_started := False\<rparr> else u2)"

text \<open>
  The \<^verbatim>\<open>commit_checkpoint\<close> method with \<^verbatim>\<open>make_new_checkpoint\<close>, and the transaction that saves \<^verbatim>\<open>frat\<close> one
  cycle later.
\<close>

definition checkpoint_part :: "('s, 't) crat_env \<Rightarrow> crat_calls \<Rightarrow> ('s, 't) crat \<Rightarrow> ('s, 't) crat \<Rightarrow> ('s, 't) crat" where
  "checkpoint_part E c s u =
     (let u1 = (case makes_checkpoint c s of None \<Rightarrow> u\<lparr>create_checkpoint_pipe := None\<rparr>
                | Some tag \<Rightarrow>
                    u\<lparr>checkpoints_head := next_checkpoint E s,
                      checkpoints_full := (checkpoints_next_tail E c s = next_checkpoint E s),
                      tag_map := mb_write (tag_map_bank E) [(tag, checkpoints_head s)] (tag_map s),
                      create_checkpoint_pipe := Some (checkpoints_head s)\<rparr>);
          u2 = (if tag_valid c s then u1\<lparr>frat_lock := False\<rparr> else u1)
      in case create_checkpoint_pipe s of None \<Rightarrow> u2
         | Some checkpoint \<Rightarrow> u2\<lparr>storage := mb_write (storage_bank E) [(checkpoint, frat s)] (storage s)\<rparr>)"

text \<open>The writes to \<^verbatim>\<open>frat\<close> by \<^verbatim>\<open>flush_restore\<close> and by the renames.\<close>

definition frat_part :: "crat_calls \<Rightarrow> ('s, 't) crat \<Rightarrow> ('s, 't) crat \<Rightarrow> ('s, 't) crat" where
  "frat_part c s u =
     u\<lparr>frat := apply_renames (active_renames c s) (case c_flush_restore c of None \<Rightarrow> frat s | Some entries \<Rightarrow> entries)\<rparr>"

text \<open>The \<^verbatim>\<open>rollback\<close> method, and the two transactions that fetch the checkpoint and restore it.\<close>

definition rollback_part :: "('s, 't) crat_env \<Rightarrow> crat_calls \<Rightarrow> ('s, 't) crat \<Rightarrow> ('s, 't) crat \<Rightarrow> ('s, 't) crat" where
  "rollback_part E c s u =
     (let u1 = (case c_rollback c of None \<Rightarrow> u\<lparr>tag_map_resp := None\<rparr>
                | Some tag \<Rightarrow>
                    u\<lparr>tag_map_resp := Some (mb_read (tag_map_bank E) (tag_map s) tag), rollback_tag_s1 := tag,
                      rollback_target_tag := tag, last_rollback_finished := False, rollback_just_started := True,
                      frat_lock := True, frat_unlock_tag := 2 ^ tag_bits E\<rparr>);
          u2 = (case tag_map_resp s of None \<Rightarrow> u1\<lparr>storage_resp := None\<rparr>
                | Some checkpoint \<Rightarrow>
                    u1\<lparr>checkpoints_head := checkpoint, checkpoints_full := False,
                       storage_resp := Some (mb_read (storage_bank E) (storage s) checkpoint),
                       frat_tag_in_next_cycle := rollback_tag_s1 s\<rparr>)
      in case storage_resp s of None \<Rightarrow> u2
         | Some saved \<Rightarrow>
             u2\<lparr>frat := saved,
                last_rollback_finished := (rollback_target_tag s = frat_tag_in_next_cycle s \<and> c_rollback c = None)\<rparr>)"

text \<open>The \<^verbatim>\<open>free_tag\<close> method.\<close>

definition free_part :: "('s, 't) crat_env \<Rightarrow> crat_calls \<Rightarrow> ('s, 't) crat \<Rightarrow> ('s, 't) crat \<Rightarrow> ('s, 't) crat" where
  "free_part E c s u =
     (let u1 = (if c_free_tag c then u\<lparr>tags_tail := (tags_tail s + 1) mod 2 ^ tag_bits E\<rparr> else u)
      in if frees_checkpoint c s
         then (let u2 = u1\<lparr>checkpoints_tail := checkpoints_next_tail E c s\<rparr>
               in if makes_checkpoint c s = None then u2\<lparr>checkpoints_full := False\<rparr> else u2)
         else u1)"

text \<open>The activity and checkpoint bits of the tags.\<close>

definition masks_part :: "('s, 't) crat_env \<Rightarrow> crat_calls \<Rightarrow> ('s, 't) crat \<Rightarrow> ('s, 't) crat \<Rightarrow> ('s, 't) crat" where
  "masks_part E c s u =
     u\<lparr>active_tags := (\<lambda>t. (active_tags s t \<or> (allocates_tag c s = Some True \<and> t = tags_head s)) \<and>
                          \<not> rollback_mask E c s t \<and> \<not> (c_free_tag c \<and> t = tags_tail s)),
       checkpointed_tags := (\<lambda>t. (checkpointed_tags s t \<or> makes_checkpoint c s = Some t) \<and>
                          \<not> restored_mask s t \<and> \<not> (c_free_tag c \<and> t = tags_tail s))\<rparr>"

definition crat_cycle :: "('s, 't) crat_env \<Rightarrow> crat_calls \<Rightarrow> ('s, 't) crat \<Rightarrow> ('s, 't) crat" where
  "crat_cycle E c s =
     masks_part E c s (free_part E c s (rollback_part E c s (tag_part E c s (frat_part c s (checkpoint_part E c s s)))))"

text \<open>What \<^verbatim>\<open>get_active_tags\<close> returns, given the state of the core.\<close>

definition get_active_tags :: "bool \<Rightarrow> ('s, 't) crat \<Rightarrow> nat \<Rightarrow> bool" where
  "get_active_tags flushing s = (if flushing then (\<lambda>_. False) else active_tags s)"

text \<open>
  The calls that can be made: methods run only when ready, the assertions of the source hold, and
  the calls use numbers of the widths of their signals.
\<close>

definition crat_legal :: "('s, 't) crat_env \<Rightarrow> crat_calls \<Rightarrow> ('s, 't) crat \<Rightarrow> bool" where
  "crat_legal E c s \<longleftrightarrow>
     (case c_tag c of None \<Rightarrow> True | Some i \<Rightarrow> tag_ready i s) \<and>
     commit_checkpoint_ready c s \<and>
     (case c_commit_checkpoint c of None \<Rightarrow> True | Some (tag, _) \<Rightarrow> tag < 2 ^ tag_bits E) \<and>
     (c_flush_restore c \<noteq> None \<longrightarrow> last_rollback_finished s) \<and>
     (case c_rollback c of None \<Rightarrow> True | Some tag \<Rightarrow> tag < 2 ^ tag_bits E \<and> active_tags s tag \<and> checkpointed_tags s tag) \<and>
     (c_free_tag c \<longrightarrow> (tags_tail s + 1) mod 2 ^ tag_bits E \<noteq> tags_head s)"

section \<open>The registers after a cycle\<close>

text \<open>Each part leaves the registers it does not assign.\<close>

lemma tag_part_frame [simp]:
  "frat (tag_part E c s u) = frat u" "tags_tail (tag_part E c s u) = tags_tail u"
  "checkpoints_head (tag_part E c s u) = checkpoints_head u" "checkpoints_tail (tag_part E c s u) = checkpoints_tail u"
  "checkpoints_full (tag_part E c s u) = checkpoints_full u" "active_tags (tag_part E c s u) = active_tags u"
  "checkpointed_tags (tag_part E c s u) = checkpointed_tags u" "storage (tag_part E c s u) = storage u"
  "storage_resp (tag_part E c s u) = storage_resp u" "tag_map (tag_part E c s u) = tag_map u"
  "tag_map_resp (tag_part E c s u) = tag_map_resp u" "rollback_target_tag (tag_part E c s u) = rollback_target_tag u"
  "frat_lock (tag_part E c s u) = frat_lock u" "last_rollback_finished (tag_part E c s u) = last_rollback_finished u"
  "create_checkpoint_pipe (tag_part E c s u) = create_checkpoint_pipe u"
  "frat_tag_in_next_cycle (tag_part E c s u) = frat_tag_in_next_cycle u" "rollback_tag_s1 (tag_part E c s u) = rollback_tag_s1 u"
  by (simp_all add: tag_part_def Let_def split: option.splits)

lemma checkpoint_part_frame [simp]:
  "frat (checkpoint_part E c s u) = frat u" "tags_head (checkpoint_part E c s u) = tags_head u"
  "tags_tail (checkpoint_part E c s u) = tags_tail u" "checkpoints_tail (checkpoint_part E c s u) = checkpoints_tail u"
  "active_tags (checkpoint_part E c s u) = active_tags u" "checkpointed_tags (checkpoint_part E c s u) = checkpointed_tags u"
  "storage_resp (checkpoint_part E c s u) = storage_resp u" "tag_map_resp (checkpoint_part E c s u) = tag_map_resp u"
  "rollback_just_started (checkpoint_part E c s u) = rollback_just_started u"
  "rollback_target_tag (checkpoint_part E c s u) = rollback_target_tag u"
  "frat_unlock_tag (checkpoint_part E c s u) = frat_unlock_tag u"
  "last_rollback_finished (checkpoint_part E c s u) = last_rollback_finished u"
  "last_issued_tag (checkpoint_part E c s u) = last_issued_tag u"
  "next_tag_increment (checkpoint_part E c s u) = next_tag_increment u"
  "frat_tag_in_next_cycle (checkpoint_part E c s u) = frat_tag_in_next_cycle u"
  "rollback_tag_s1 (checkpoint_part E c s u) = rollback_tag_s1 u"
  by (simp_all add: checkpoint_part_def Let_def split: option.splits)

lemma frat_part_frame [simp]:
  "tags_head (frat_part c s u) = tags_head u" "tags_tail (frat_part c s u) = tags_tail u"
  "checkpoints_head (frat_part c s u) = checkpoints_head u" "checkpoints_tail (frat_part c s u) = checkpoints_tail u"
  "checkpoints_full (frat_part c s u) = checkpoints_full u" "active_tags (frat_part c s u) = active_tags u"
  "checkpointed_tags (frat_part c s u) = checkpointed_tags u" "storage (frat_part c s u) = storage u"
  "storage_resp (frat_part c s u) = storage_resp u" "tag_map (frat_part c s u) = tag_map u"
  "tag_map_resp (frat_part c s u) = tag_map_resp u" "rollback_just_started (frat_part c s u) = rollback_just_started u"
  "rollback_target_tag (frat_part c s u) = rollback_target_tag u" "frat_lock (frat_part c s u) = frat_lock u"
  "frat_unlock_tag (frat_part c s u) = frat_unlock_tag u" "last_rollback_finished (frat_part c s u) = last_rollback_finished u"
  "create_checkpoint_pipe (frat_part c s u) = create_checkpoint_pipe u" "last_issued_tag (frat_part c s u) = last_issued_tag u"
  "next_tag_increment (frat_part c s u) = next_tag_increment u"
  "frat_tag_in_next_cycle (frat_part c s u) = frat_tag_in_next_cycle u" "rollback_tag_s1 (frat_part c s u) = rollback_tag_s1 u"
  by (simp_all add: frat_part_def Let_def split: option.splits)

lemma rollback_part_frame [simp]:
  "tags_head (rollback_part E c s u) = tags_head u" "tags_tail (rollback_part E c s u) = tags_tail u"
  "checkpoints_tail (rollback_part E c s u) = checkpoints_tail u" "active_tags (rollback_part E c s u) = active_tags u"
  "checkpointed_tags (rollback_part E c s u) = checkpointed_tags u" "storage (rollback_part E c s u) = storage u"
  "tag_map (rollback_part E c s u) = tag_map u" "create_checkpoint_pipe (rollback_part E c s u) = create_checkpoint_pipe u"
  "last_issued_tag (rollback_part E c s u) = last_issued_tag u"
  "next_tag_increment (rollback_part E c s u) = next_tag_increment u"
  by (simp_all add: rollback_part_def Let_def split: option.splits)

lemma free_part_frame [simp]:
  "frat (free_part E c s u) = frat u" "tags_head (free_part E c s u) = tags_head u"
  "checkpoints_head (free_part E c s u) = checkpoints_head u" "active_tags (free_part E c s u) = active_tags u"
  "checkpointed_tags (free_part E c s u) = checkpointed_tags u" "storage (free_part E c s u) = storage u"
  "storage_resp (free_part E c s u) = storage_resp u" "tag_map (free_part E c s u) = tag_map u"
  "tag_map_resp (free_part E c s u) = tag_map_resp u" "rollback_just_started (free_part E c s u) = rollback_just_started u"
  "rollback_target_tag (free_part E c s u) = rollback_target_tag u" "frat_lock (free_part E c s u) = frat_lock u"
  "frat_unlock_tag (free_part E c s u) = frat_unlock_tag u"
  "last_rollback_finished (free_part E c s u) = last_rollback_finished u"
  "create_checkpoint_pipe (free_part E c s u) = create_checkpoint_pipe u"
  "last_issued_tag (free_part E c s u) = last_issued_tag u" "next_tag_increment (free_part E c s u) = next_tag_increment u"
  "frat_tag_in_next_cycle (free_part E c s u) = frat_tag_in_next_cycle u"
  "rollback_tag_s1 (free_part E c s u) = rollback_tag_s1 u"
  by (simp_all add: free_part_def Let_def split: option.splits)

lemma masks_part_frame [simp]:
  "frat (masks_part E c s u) = frat u" "tags_head (masks_part E c s u) = tags_head u"
  "tags_tail (masks_part E c s u) = tags_tail u" "checkpoints_head (masks_part E c s u) = checkpoints_head u"
  "checkpoints_tail (masks_part E c s u) = checkpoints_tail u" "checkpoints_full (masks_part E c s u) = checkpoints_full u"
  "storage (masks_part E c s u) = storage u" "storage_resp (masks_part E c s u) = storage_resp u"
  "tag_map (masks_part E c s u) = tag_map u" "tag_map_resp (masks_part E c s u) = tag_map_resp u"
  "rollback_just_started (masks_part E c s u) = rollback_just_started u"
  "rollback_target_tag (masks_part E c s u) = rollback_target_tag u" "frat_lock (masks_part E c s u) = frat_lock u"
  "frat_unlock_tag (masks_part E c s u) = frat_unlock_tag u"
  "last_rollback_finished (masks_part E c s u) = last_rollback_finished u"
  "create_checkpoint_pipe (masks_part E c s u) = create_checkpoint_pipe u"
  "last_issued_tag (masks_part E c s u) = last_issued_tag u" "next_tag_increment (masks_part E c s u) = next_tag_increment u"
  "frat_tag_in_next_cycle (masks_part E c s u) = frat_tag_in_next_cycle u"
  "rollback_tag_s1 (masks_part E c s u) = rollback_tag_s1 u"
  by (simp_all add: masks_part_def Let_def split: option.splits)

lemma crat_cycle_tags:
  "tags_head (crat_cycle E c s) = (if allocates_tag c s = None then tags_head s else next_tag E s)"
  "tags_tail (crat_cycle E c s) = (if c_free_tag c then (tags_tail s + 1) mod 2 ^ tag_bits E else tags_tail s)"
  "active_tags (crat_cycle E c s) t \<longleftrightarrow> (active_tags s t \<or> (allocates_tag c s = Some True \<and> t = tags_head s)) \<and>
     \<not> rollback_mask E c s t \<and> \<not> (c_free_tag c \<and> t = tags_tail s)"
  "checkpointed_tags (crat_cycle E c s) t \<longleftrightarrow> (checkpointed_tags s t \<or> makes_checkpoint c s = Some t) \<and>
     \<not> restored_mask s t \<and> \<not> (c_free_tag c \<and> t = tags_tail s)"
  by (simp add: crat_cycle_def tag_part_def Let_def allocates_tag_def split: option.splits)
    (simp_all add: crat_cycle_def free_part_def masks_part_def Let_def)

lemma crat_cycle_checkpoints:
  "checkpoints_head (crat_cycle E c s) =
     (case tag_map_resp s of Some ch \<Rightarrow> ch | None \<Rightarrow> if makes_checkpoint c s = None then checkpoints_head s else next_checkpoint E s)"
  "checkpoints_tail (crat_cycle E c s) = checkpoints_next_tail E c s"
  "create_checkpoint_pipe (crat_cycle E c s) = map_option (\<lambda>_. checkpoints_head s) (makes_checkpoint c s)"
  subgoal by (simp add: crat_cycle_def checkpoint_part_def rollback_part_def Let_def split: option.splits)
  subgoal by (simp add: crat_cycle_def free_part_def Let_def checkpoints_next_tail_def)
  subgoal by (simp add: crat_cycle_def checkpoint_part_def Let_def split: option.splits)
  done

lemma crat_cycle_memories:
  "storage (crat_cycle E c s) =
     (case create_checkpoint_pipe s of None \<Rightarrow> storage s | Some ch \<Rightarrow> mb_write (storage_bank E) [(ch, frat s)] (storage s))"
  "storage_resp (crat_cycle E c s) = map_option (mb_read (storage_bank E) (storage s)) (tag_map_resp s)"
  "tag_map (crat_cycle E c s) =
     (case makes_checkpoint c s of None \<Rightarrow> tag_map s
      | Some tag \<Rightarrow> mb_write (tag_map_bank E) [(tag, checkpoints_head s)] (tag_map s))"
  "tag_map_resp (crat_cycle E c s) = map_option (mb_read (tag_map_bank E) (tag_map s)) (c_rollback c)"
  by (simp_all add: crat_cycle_def checkpoint_part_def rollback_part_def Let_def split: option.splits)

lemma crat_cycle_frat:
  "frat (crat_cycle E c s) =
     (case storage_resp s of Some saved \<Rightarrow> saved
      | None \<Rightarrow> apply_renames (active_renames c s) (case c_flush_restore c of None \<Rightarrow> frat s | Some entries \<Rightarrow> entries))"
  by (simp add: crat_cycle_def frat_part_def rollback_part_def Let_def split: option.splits)

lemma crat_cycle_rollback:
  "rollback_target_tag (crat_cycle E c s) = (case c_rollback c of None \<Rightarrow> rollback_target_tag s | Some tag \<Rightarrow> tag)"
  "rollback_tag_s1 (crat_cycle E c s) = (case c_rollback c of None \<Rightarrow> rollback_tag_s1 s | Some tag \<Rightarrow> tag)"
  "frat_tag_in_next_cycle (crat_cycle E c s) = (if tag_map_resp s = None then frat_tag_in_next_cycle s else rollback_tag_s1 s)"
  by (simp_all add: crat_cycle_def rollback_part_def Let_def split: option.splits)

lemma crat_cycle_finished:
  "last_rollback_finished (crat_cycle E c s) =
     (if storage_resp s = None then last_rollback_finished s \<and> c_rollback c = None
      else rollback_target_tag s = frat_tag_in_next_cycle s \<and> c_rollback c = None)"
  by (cases "storage_resp s"; cases "c_rollback c")
    (simp_all add: crat_cycle_def rollback_part_def Let_def split: option.splits)

lemma crat_cycle_lock: "frat_lock (crat_cycle E c s) = (c_rollback c \<noteq> None \<or> (frat_lock s \<and> \<not> tag_valid c s))"
  by (cases "c_rollback c") (simp_all add: crat_cycle_def checkpoint_part_def rollback_part_def Let_def split: option.splits)

lemma crat_cycle_issued:
  "last_issued_tag (crat_cycle E c s) = (case c_tag c of None \<Rightarrow> last_issued_tag s | Some i \<Rightarrow> to_tag (tag_method_out i s))"
  by (simp add: crat_cycle_def tag_part_def Let_def split: option.splits)

section \<open>Tags\<close>

text \<open>The distance from \<open>lo\<close> to \<open>t\<close> on a ring of \<open>N\<close> numbers, and the number of elements of a ring buffer that is never empty.\<close>

definition ring_age :: "nat \<Rightarrow> nat \<Rightarrow> nat \<Rightarrow> nat" where
  "ring_age N lo t = (if lo \<le> t then t - lo else t + N - lo)"

definition ring_count :: "nat \<Rightarrow> nat \<Rightarrow> nat \<Rightarrow> nat" where
  "ring_count N hi lo = (if hi = lo then N else ring_age N lo hi)"

lemma mod_succ: "x < N \<Longrightarrow> (x + 1) mod N = (if x = N - 1 then 0 else x + 1)" for x N :: nat
  by auto

lemma ring_after:
  assumes "lo < N" "tag < N" "t < N"
  defines "a \<equiv> if tag = N - 1 then 0 else tag + 1" and "b \<equiv> if lo = 0 then N - 1 else lo - 1"
  shows "(a \<noteq> lo \<and> (if a \<le> b then a \<le> t \<and> t \<le> b else a \<le> t \<or> t \<le> b)) \<longleftrightarrow> ring_age N lo tag < ring_age N lo t"
  unfolding a_def b_def ring_age_def using assms(1-3) by auto

lemma ring_advance:
  assumes "hi < N" "lo < N" "t < N" "ring_age N lo t < ring_count N hi lo \<or> alloc \<and> t = hi"
    and "alloc \<Longrightarrow> hi \<noteq> lo" "free \<Longrightarrow> (lo + 1) mod N \<noteq> hi" "\<not> (free \<and> t = lo)"
  shows "ring_age N (if free then (lo + 1) mod N else lo) t <
    ring_count N (if alloc then (hi + 1) mod N else hi) (if free then (lo + 1) mod N else lo)"
  using assms
  by (cases alloc; cases free) (auto simp: ring_age_def ring_count_def mod_Suc split: if_splits)

definition tag_age :: "('s, 't) crat_env \<Rightarrow> ('s, 't) crat \<Rightarrow> nat \<Rightarrow> nat" where
  "tag_age E s t = ring_age (2 ^ tag_bits E) (tags_tail s) t"

text \<open>Active tags are allocated.\<close>

definition tags_inv :: "('s, 't) crat_env \<Rightarrow> ('s, 't) crat \<Rightarrow> bool" where
  "tags_inv E s \<longleftrightarrow> tags_head s < 2 ^ tag_bits E \<and> tags_tail s < 2 ^ tag_bits E \<and>
     (\<forall>t. active_tags s t \<longrightarrow> t < 2 ^ tag_bits E \<and> tag_age E s t < ring_count (2 ^ tag_bits E) (tags_head s) (tags_tail s))"

lemma rollback_mask_age:
  assumes E: "crat_env_spec E" and inv: "tags_inv E s" and c: "c_rollback c = Some tag" and t: "tag < 2 ^ tag_bits E" "t < 2 ^ tag_bits E"
  shows "rollback_mask E c s t \<longleftrightarrow> tag_age E s tag < tag_age E s t"
proof -
  define N lo where "N = (2 ^ tag_bits E :: nat)" and "lo = tags_tail s"
  have lo: "lo < N" using inv by (simp add: tags_inv_def N_def lo_def)
  have bound: "(lo + N - 1) mod N = (if lo = 0 then N - 1 else lo - 1)"
    using lo by (cases lo) auto
  have plus: "(tag + 1) mod N = (if tag = N - 1 then 0 else tag + 1)" using t(1) N_def by (intro mod_succ) simp
  have mask: "cyclic_mask E N a b t = (if a \<le> b then a \<le> t \<and> t \<le> b else a \<le> t \<or> t \<le> b)" if "a < N" "b < N" for a b
    using E that t(2) by (simp add: crat_env_spec_def N_def)
  have "(tag + 1) mod N < N" "(lo + N - 1) mod N < N" using lo by simp_all
  from mask [OF this] have "rollback_mask E c s t \<longleftrightarrow> (tag + 1) mod N \<noteq> lo \<and>
      (if (tag + 1) mod N \<le> (lo + N - 1) mod N then (tag + 1) mod N \<le> t \<and> t \<le> (lo + N - 1) mod N
       else (tag + 1) mod N \<le> t \<or> t \<le> (lo + N - 1) mod N)"
    by (simp add: rollback_mask_def c Let_def N_def [symmetric] lo_def [symmetric])
  also have "\<dots> \<longleftrightarrow> ring_age N lo tag < ring_age N lo t"
    unfolding bound plus using lo t by (intro ring_after) (simp_all add: N_def)
  finally show ?thesis by (simp add: tag_age_def N_def lo_def)
qed

lemma tags_inv_cycle:
  assumes E: "crat_env_spec E" and inv: "tags_inv E s" and legal: "crat_legal E c s"
  shows "tags_inv E (crat_cycle E c s)"
proof -
  let ?N = "2 ^ tag_bits E :: nat"
  have bounds: "tags_head s < ?N" "tags_tail s < ?N" using inv by (simp_all add: tags_inv_def)
  have alloc: "allocates_tag c s \<noteq> None \<Longrightarrow> tags_head s \<noteq> tags_tail s"
    using legal by (auto simp: crat_legal_def allocates_tag_def tag_ready_def Let_def split: option.splits if_splits)
  have free: "c_free_tag c \<Longrightarrow> (tags_tail s + 1) mod ?N \<noteq> tags_head s" using legal by (simp add: crat_legal_def)
  have "t < ?N \<and> tag_age E (crat_cycle E c s) t < ring_count ?N (tags_head (crat_cycle E c s)) (tags_tail (crat_cycle E c s))"
    if "active_tags (crat_cycle E c s) t" for t
  proof -
    have old: "active_tags s t \<or> (allocates_tag c s \<noteq> None \<and> t = tags_head s)" and kept: "\<not> (c_free_tag c \<and> t = tags_tail s)"
      using that by (auto simp: crat_cycle_tags)
    have t: "t < ?N" "tag_age E s t < ring_count ?N (tags_head s) (tags_tail s) \<or> allocates_tag c s \<noteq> None \<and> t = tags_head s"
      using old inv by (auto simp: tags_inv_def)
    show ?thesis
      using ring_advance [OF bounds t(1) t(2) [unfolded tag_age_def] alloc free kept] t(1)
      unfolding tag_age_def crat_cycle_tags next_tag_def by (cases "allocates_tag c s") simp_all
  qed
  then show ?thesis by (simp add: tags_inv_def crat_cycle_tags next_tag_def bounds)
qed

section \<open>Runs\<close>

definition crat_run :: "('s, 't) crat_env \<Rightarrow> crat_calls list \<Rightarrow> ('s, 't) crat \<Rightarrow> ('s, 't) crat" where
  "crat_run E cs s = fold (crat_cycle E) cs s"

fun legal_run :: "('s, 't) crat_env \<Rightarrow> crat_calls list \<Rightarrow> ('s, 't) crat \<Rightarrow> bool" where
  "legal_run E [] s \<longleftrightarrow> True"
| "legal_run E (c # cs) s \<longleftrightarrow> crat_legal E c s \<and> legal_run E cs (crat_cycle E c s)"

lemma legal_run_append: "legal_run E (cs @ cs') s \<longleftrightarrow> legal_run E cs s \<and> legal_run E cs' (crat_run E cs s)"
  by (induction cs arbitrary: s) (simp_all add: crat_run_def)

lemma run_invariant:
  assumes "\<And>c s. I s \<Longrightarrow> crat_legal E c s \<Longrightarrow> I (crat_cycle E c s)" "I s" "legal_run E cs s"
  shows "I (crat_run E cs s)"
  using assms(2,3) by (induction cs arbitrary: s) (simp_all add: crat_run_def assms(1))

lemma tags_inv_init: "crat_env_spec E \<Longrightarrow> tags_inv E (crat_init n st tm)"
  by (simp add: tags_inv_def crat_init_def tag_age_def ring_age_def ring_count_def crat_env_spec_def)

text \<open>
  In every state reached by legal calls, a rollback deactivates exactly the active tags that
  are younger than its target, including a tag that is allocated in the same cycle; older tags and the
  target itself keep their state, unless the oldest one is freed in the same cycle.
\<close>

lemma crat_rollback_deactivates:
  assumes "crat_env_spec E" "legal_run E cs (crat_init n st tm)" "s = crat_run E cs (crat_init n st tm)"
    and "crat_legal E c s" "c_rollback c = Some tag"
  shows "active_tags (crat_cycle E c s) t \<longleftrightarrow>
    active_tags s t \<and> tag_age E s t \<le> tag_age E s tag \<and> \<not> (c_free_tag c \<and> t = tags_tail s)"
proof -
  have inv: "tags_inv E s"
    using run_invariant [of "tags_inv E" E] tags_inv_cycle [OF assms(1)] tags_inv_init [OF assms(1)] assms(2,3) by blast
  have tag: "tag < 2 ^ tag_bits E" "tag_age E s tag < ring_count (2 ^ tag_bits E) (tags_head s) (tags_tail s)"
    using assms(4,5) inv by (auto simp: crat_legal_def tags_inv_def)
  have head: "tag_age E s tag < tag_age E s (tags_head s) \<and> tags_head s < 2 ^ tag_bits E" if "allocates_tag c s \<noteq> None"
  proof -
    have "tags_head s \<noteq> tags_tail s"
      using that assms(4) by (auto simp: crat_legal_def allocates_tag_def tag_ready_def Let_def split: option.splits if_splits)
    then show ?thesis using tag inv by (simp add: ring_count_def tag_age_def tags_inv_def)
  qed
  have "active_tags s t \<Longrightarrow> t < 2 ^ tag_bits E" using inv by (simp add: tags_inv_def)
  then show ?thesis
    using rollback_mask_age [OF assms(1) inv assms(5) tag(1)] head by (auto simp: crat_cycle_tags not_less)
qed

section \<open>Renaming in sequence\<close>

text \<open>The reference: one rename after the other, each on the table left by the previous one.\<close>

fun rename_seq :: "bool \<Rightarrow> rename_in option list \<Rightarrow> nat list \<Rightarrow> (nat \<times> nat) option list \<times> nat list" where
  "rename_seq v [] f = ([], f)"
| "rename_seq v (None # rs) f = (let (outs, f') = rename_seq v rs f in (None # outs, f'))"
| "rename_seq v (Some r # rs) f =
     (let (outs, f') = rename_seq v rs (if v \<and> rl_dst r \<noteq> 0 then f[rl_dst r := rp_dst r] else f)
      in (Some (f ! rl_s1 r, f ! rl_s2 r) # outs, f'))"

definition renames_ok :: "nat \<Rightarrow> rename_in option list \<Rightarrow> bool" where
  "renames_ok n rs \<longleftrightarrow> (\<forall>r. Some r \<in> set rs \<longrightarrow> rl_dst r < n \<and> rl_s1 r < n \<and> rl_s2 r < n)"

lemma renames_ok_Cons [simp]:
  "renames_ok n (None # rs) \<longleftrightarrow> renames_ok n rs"
  "renames_ok n (Some r # rs) \<longleftrightarrow> rl_dst r < n \<and> rl_s1 r < n \<and> rl_s2 r < n \<and> renames_ok n rs"
  by (auto simp: renames_ok_def)

lemma forward_apply:
  "renames_ok (length f) rs \<Longrightarrow> rl < length f \<Longrightarrow>
   forward_renames rl (map (valid_rename v) rs) (f ! rl) = apply_renames (map (valid_rename v) rs) f ! rl"
proof (induction v rs f rule: rename_seq.induct)
  case (3 v r rs f)
  then show ?case by (cases "v \<and> rl_dst r \<noteq> 0") (auto simp: nth_list_update)
qed simp_all

lemma rename_seq_apply: "snd (rename_seq v rs f) = apply_renames (map (valid_rename v) rs) f"
proof (induction v rs f rule: rename_seq.induct)
  case (3 v r rs f)
  then show ?case by (cases "v \<and> rl_dst r \<noteq> 0") (auto simp: Let_def split: prod.splits)
qed (auto simp: Let_def split: prod.splits)

lemma length_apply_renames [simp]: "length (apply_renames ars f) = length f"
  by (induction ars f rule: apply_renames.induct) simp_all

lemma rename_seq_nth:
  "renames_ok (length f) rs \<Longrightarrow> k < length rs \<Longrightarrow>
   fst (rename_seq v rs f) ! k =
     map_option (\<lambda>r. (apply_renames (map (valid_rename v) (take k rs)) f ! rl_s1 r,
                      apply_renames (map (valid_rename v) (take k rs)) f ! rl_s2 r)) (rs ! k)"
proof (induction v rs f arbitrary: k rule: rename_seq.induct)
  case (2 v rs f)
  then show ?case by (cases k) (auto simp: Let_def split: prod.splits)
next
  case (3 v r rs f)
  then show ?case by (cases k; cases "v \<and> rl_dst r \<noteq> 0") (auto simp: Let_def split: prod.splits)
qed simp

lemma length_rename_seq [simp]: "length (fst (rename_seq v rs f)) = length rs"
  by (induction v rs f rule: rename_seq.induct) (auto simp: Let_def split: prod.splits)

text \<open>
  The rename ports of a cycle behave as if their instructions were renamed one after the other:
  every port sees the destinations of the lower ports, and the table of the next cycle, when neither a
  restore nor a flush replaces it, is the result of the whole sequence.
\<close>

lemma crat_renames_in_sequence:
  assumes "renames_ok (length (frat s)) (c_rename c)"
  shows "map (rename_out c s) [0..<length (c_rename c)] = fst (rename_seq (tag_valid c s) (c_rename c) (frat s)) \<and>
    (storage_resp s = None \<and> c_flush_restore c = None \<longrightarrow>
       frat (crat_cycle E c s) = snd (rename_seq (tag_valid c s) (c_rename c) (frat s)))"
proof
  show "map (rename_out c s) [0..<length (c_rename c)] = fst (rename_seq (tag_valid c s) (c_rename c) (frat s))"
  proof (rule nth_equalityI)
    fix k
    assume "k < length (map (rename_out c s) [0..<length (c_rename c)])"
    then have k: "k < length (c_rename c)" by simp
    have ok: "renames_ok (length (frat s)) (take k (c_rename c))"
      using assms by (auto simp: renames_ok_def dest: in_set_takeD)
    have "rl_s1 r < length (frat s) \<and> rl_s2 r < length (frat s)" if "c_rename c ! k = Some r" for r
      using assms k that nth_mem [OF k] by (auto simp: renames_ok_def)
    then show "map (rename_out c s) [0..<length (c_rename c)] ! k = fst (rename_seq (tag_valid c s) (c_rename c) (frat s)) ! k"
      using rename_seq_nth [OF assms k] k forward_apply [OF ok]
      by (cases "c_rename c ! k") (simp_all add: rename_out_def frat_get_def active_renames_def take_map)
  qed simp
  show "storage_resp s = None \<and> c_flush_restore c = None \<longrightarrow>
      frat (crat_cycle E c s) = snd (rename_seq (tag_valid c s) (c_rename c) (frat s))"
    by (simp add: crat_cycle_frat rename_seq_apply active_renames_def)
qed

section \<open>Types of the registers\<close>

text \<open>A mapping of \<open>R\<close> logical registers to \<open>P\<close> physical ones.\<close>

definition table_ok :: "nat \<Rightarrow> nat \<Rightarrow> nat list \<Rightarrow> bool" where
  "table_ok R P f \<longleftrightarrow> length f = R \<and> (\<forall>p \<in> set f. p < P)"

definition crat_wf :: "nat \<Rightarrow> nat \<Rightarrow> ('s, 't) crat_env \<Rightarrow> ('s, 't) crat \<Rightarrow> bool" where
  "crat_wf R P E s \<longleftrightarrow>
     tags_head s < 2 ^ tag_bits E \<and> tags_tail s < 2 ^ tag_bits E \<and>
     checkpoints_head s < checkpoint_count E \<and> checkpoints_tail s < checkpoint_count E \<and>
     (\<forall>ch. create_checkpoint_pipe s = Some ch \<longrightarrow> ch < checkpoint_count E) \<and>
     (\<forall>ch. tag_map_resp s = Some ch \<longrightarrow> ch < checkpoint_count E) \<and>
     (\<forall>t < 2 ^ tag_bits E. mb_read (tag_map_bank E) (tag_map s) t < checkpoint_count E) \<and>
     table_ok R P (frat s) \<and> (\<forall>f. storage_resp s = Some f \<longrightarrow> table_ok R P f) \<and>
     (\<forall>ch < checkpoint_count E. table_ok R P (mb_read (storage_bank E) (storage s) ch))"

definition calls_typed :: "nat \<Rightarrow> nat \<Rightarrow> crat_calls \<Rightarrow> bool" where
  "calls_typed R P c \<longleftrightarrow> (\<forall>r. Some r \<in> set (c_rename c) \<longrightarrow> rl_dst r < R \<and> rp_dst r < P) \<and>
     (\<forall>f. c_flush_restore c = Some f \<longrightarrow> table_ok R P f)"

definition typed_run :: "nat \<Rightarrow> nat \<Rightarrow> crat_calls list \<Rightarrow> bool" where
  "typed_run R P cs \<longleftrightarrow> list_all (calls_typed R P) cs"

lemma table_ok_renames:
  "table_ok R P f \<Longrightarrow> (\<forall>r. Some r \<in> set rs \<longrightarrow> rl_dst r < R \<and> rp_dst r < P) \<Longrightarrow> table_ok R P (apply_renames (map (valid_rename v) rs) f)"
proof (induction v rs f rule: rename_seq.induct)
  case (3 v r rs f)
  have "table_ok R P (f[rl_dst r := rp_dst r])"
    using 3(2,3) set_update_subset_insert [of f "rl_dst r" "rp_dst r"] by (auto simp: table_ok_def)
  then show ?case using 3 by (cases "v \<and> rl_dst r \<noteq> 0") auto
qed simp_all

lemma mod_incr_less: "crat_env_spec E \<Longrightarrow> x < checkpoint_count E \<Longrightarrow> mod_incr E x (checkpoint_count E) < checkpoint_count E"
  by (auto simp: crat_env_spec_def)

lemma crat_memories_read:
  assumes "crat_env_spec E"
  shows "a < checkpoint_count E \<Longrightarrow> b < checkpoint_count E \<Longrightarrow>
      mb_read (storage_bank E) (mb_write (storage_bank E) [(a, f)] st) b = (if b = a then f else mb_read (storage_bank E) st b)"
    and "x < 2 ^ tag_bits E \<Longrightarrow> y < 2 ^ tag_bits E \<Longrightarrow>
      mb_read (tag_map_bank E) (mb_write (tag_map_bank E) [(x, ch)] tm) y = (if y = x then ch else mb_read (tag_map_bank E) tm y)"
  using assms memory_bank_read [of "checkpoint_count E" "storage_bank E" "[(a, f)]" b st]
    memory_bank_read [of "2 ^ tag_bits E" "tag_map_bank E" "[(x, ch)]" y tm]
  by (auto simp: crat_env_spec_def)

lemma makes_checkpoint_tag: "crat_legal E c s \<Longrightarrow> makes_checkpoint c s = Some tag \<Longrightarrow> tag < 2 ^ tag_bits E"
  by (auto simp: crat_legal_def makes_checkpoint_def split: option.splits if_splits)

lemma crat_wf_cycle:
  assumes E: "crat_env_spec E" and wf: "crat_wf R P E s" and legal: "crat_legal E c s" and typed: "calls_typed R P c"
  shows "crat_wf R P E (crat_cycle E c s)"
proof -
  let ?s = "crat_cycle E c s"
  have heads: "tags_head ?s < 2 ^ tag_bits E" "tags_tail ?s < 2 ^ tag_bits E"
    "checkpoints_head ?s < checkpoint_count E" "checkpoints_tail ?s < checkpoint_count E"
    using wf mod_incr_less [OF E]
    by (auto simp: crat_wf_def crat_cycle_tags crat_cycle_checkpoints next_tag_def next_checkpoint_def
        checkpoints_next_tail_def split: option.splits)
  have map: "mb_read (tag_map_bank E) (tag_map ?s) t < checkpoint_count E" if "t < 2 ^ tag_bits E" for t
    using wf that makes_checkpoint_tag [OF legal]
    by (auto simp: crat_wf_def crat_cycle_memories crat_memories_read [OF E] split: option.splits)
  have saved: "table_ok R P (mb_read (storage_bank E) (storage ?s) ch)" if "ch < checkpoint_count E" for ch
    using wf that by (auto simp: crat_wf_def crat_cycle_memories crat_memories_read [OF E] split: option.splits)
  have frat: "table_ok R P (frat ?s)"
    using wf typed by (auto simp: crat_wf_def crat_cycle_frat active_renames_def calls_typed_def intro!: table_ok_renames split: option.splits)
  have resp: "\<And>ch. create_checkpoint_pipe ?s = Some ch \<Longrightarrow> ch < checkpoint_count E"
    "\<And>ch. tag_map_resp ?s = Some ch \<Longrightarrow> ch < checkpoint_count E"
    "\<And>f. storage_resp ?s = Some f \<Longrightarrow> table_ok R P f"
    using wf legal by (auto simp: crat_wf_def crat_cycle_checkpoints crat_cycle_memories crat_legal_def)
  show ?thesis using heads map saved frat resp by (simp add: crat_wf_def)
qed

text \<open>
  C15. Every register of the table keeps its type: tags stay below their number, checkpoint indices
  below the number of checkpoints, also those read back from the tag memory, and the current table, the
  saved ones and the one being restored map every logical register to an existing physical one.
\<close>

theorem crat_well_typed:
  assumes "crat_env_spec E" "crat_wf R P E s" "legal_run E cs s" "typed_run R P cs"
  shows "crat_wf R P E (crat_run E cs s)"
  using assms(2-4) by (induction cs arbitrary: s) (simp_all add: crat_run_def typed_run_def crat_wf_cycle [OF assms(1)])

section \<open>Restoring a checkpoint\<close>

text \<open>No cycle of the run makes a checkpoint for the tag or reuses the checkpoint.\<close>

fun untouched :: "('s, 't) crat_env \<Rightarrow> nat \<Rightarrow> nat \<Rightarrow> crat_calls list \<Rightarrow> ('s, 't) crat \<Rightarrow> bool" where
  "untouched E tag ch [] s \<longleftrightarrow> True"
| "untouched E tag ch (c # cs) s \<longleftrightarrow>
     (case makes_checkpoint c s of None \<Rightarrow> True | Some t \<Rightarrow> t \<noteq> tag \<and> checkpoints_head s \<noteq> ch) \<and>
     untouched E tag ch cs (crat_cycle E c s)"

text \<open>The tag leads to a checkpoint whose saved table, on its way to the memory or already there, is \<open>f\<close>.\<close>

definition checkpoint_holds :: "('s, 't) crat_env \<Rightarrow> nat \<Rightarrow> nat \<Rightarrow> nat list \<Rightarrow> ('s, 't) crat \<Rightarrow> bool" where
  "checkpoint_holds E tag ch f s \<longleftrightarrow> mb_read (tag_map_bank E) (tag_map s) tag = ch \<and>
     (if create_checkpoint_pipe s = Some ch then frat s = f else mb_read (storage_bank E) (storage s) ch = f)"

lemma storage_cycle:
  assumes "crat_env_spec E" "crat_wf R P E s" "ch < checkpoint_count E" "checkpoint_holds E tag ch f s"
  shows "mb_read (storage_bank E) (storage (crat_cycle E c s)) ch = f"
  using assms by (auto simp: checkpoint_holds_def crat_cycle_memories crat_memories_read crat_wf_def split: option.splits if_splits)

lemma checkpoint_holds_cycle:
  assumes E: "crat_env_spec E" and wf: "crat_wf R P E s" and legal: "crat_legal E c s" and lt: "ch < checkpoint_count E" "tag < 2 ^ tag_bits E"
    and h: "checkpoint_holds E tag ch f s" and u: "untouched E tag ch [c] s"
  shows "checkpoint_holds E tag ch f (crat_cycle E c s)"
proof -
  have "mb_read (tag_map_bank E) (tag_map (crat_cycle E c s)) tag = ch"
    using h u lt makes_checkpoint_tag [OF legal]
    by (auto simp: checkpoint_holds_def crat_cycle_memories crat_memories_read [OF E] split: option.splits)
  moreover have "create_checkpoint_pipe (crat_cycle E c s) \<noteq> Some ch"
    using u by (auto simp: crat_cycle_checkpoints)
  ultimately show ?thesis using storage_cycle [OF E wf lt(1) h] by (simp add: checkpoint_holds_def)
qed

lemma checkpoint_holds_run:
  assumes E: "crat_env_spec E" and lt: "ch < checkpoint_count E" "tag < 2 ^ tag_bits E"
  shows "crat_wf R P E s \<Longrightarrow> legal_run E cs s \<Longrightarrow> typed_run R P cs \<Longrightarrow> checkpoint_holds E tag ch f s \<Longrightarrow> untouched E tag ch cs s \<Longrightarrow>
    checkpoint_holds E tag ch f (crat_run E cs s) \<and> crat_wf R P E (crat_run E cs s)"
proof (induction cs arbitrary: s)
  case (Cons c cs)
  have "crat_legal E c s" "calls_typed R P c" "untouched E tag ch [c] s" using Cons.prems by (simp_all add: typed_run_def)
  then have "crat_wf R P E (crat_cycle E c s)" "checkpoint_holds E tag ch f (crat_cycle E c s)"
    using crat_wf_cycle [OF E] checkpoint_holds_cycle [OF E _ _ lt] Cons.prems(1,4) by blast+
  then show ?case using Cons by (simp add: crat_run_def typed_run_def)
qed (simp add: crat_run_def)

text \<open>The three cycles of a restore.\<close>

lemma restore_pipeline:
  fixes E :: "('s, 't) crat_env" and c1 c2 :: crat_calls
  assumes E: "crat_env_spec E" and wf: "crat_wf R P E s" and h: "checkpoint_holds E tag ch f s" and lt: "ch < checkpoint_count E"
    and r: "c_rollback c = Some tag"
  defines "s1 \<equiv> crat_cycle E c s"
  defines "s2 \<equiv> crat_cycle E c1 s1"
  defines "s3 \<equiv> crat_cycle E c2 s2"
  shows "frat s3 = f"
    and "c_rollback c1 = None \<Longrightarrow> c_rollback c2 = None \<Longrightarrow> last_rollback_finished s3 \<and> frat_tag_in_next_cycle s2 = tag"
proof -
  have "tag_map_resp s1 = Some ch"
    using h r by (simp add: s1_def crat_cycle_memories checkpoint_holds_def)
  moreover have "mb_read (storage_bank E) (storage s1) ch = f"
    unfolding s1_def by (rule storage_cycle [OF E wf lt h])
  ultimately have resp: "storage_resp s2 = Some f" by (simp add: s2_def crat_cycle_memories)
  then show "frat s3 = f" by (simp add: s3_def crat_cycle_frat)
  show "c_rollback c1 = None \<Longrightarrow> c_rollback c2 = None \<Longrightarrow> last_rollback_finished s3 \<and> frat_tag_in_next_cycle s2 = tag"
    using resp r \<open>tag_map_resp s1 = Some ch\<close> by (simp add: s3_def crat_cycle_finished) (simp add: s2_def s1_def crat_cycle_rollback)
qed

text \<open>
  Round trip of a checkpoint: after a cycle that makes a checkpoint for a tag, and any legal run
  that neither makes another checkpoint for that tag nor reuses the checkpoint, a rollback to the tag
  restores, two cycles later, exactly the table as it was right after the cycle of the checkpoint, with
  its renames applied; without further rollbacks the restore is then reported as finished.
\<close>

lemma crat_checkpoint_roundtrip:
  fixes E :: "('s, 't) crat_env"
  assumes "crat_env_spec E" "crat_wf R P E s" "legal_run E (c # cs @ [cr]) s" "typed_run R P (c # cs @ [cr])"
    and "makes_checkpoint c s = Some tag" "c_rollback cr = Some tag"
    and "untouched E tag (checkpoints_head s) cs (crat_cycle E c s)"
  shows "frat (crat_run E (c # cs @ [cr, c1, c2]) s) = frat (crat_cycle E c s) \<and>
    (c_rollback c1 = None \<and> c_rollback c2 = None \<longrightarrow> last_rollback_finished (crat_run E (c # cs @ [cr, c1, c2]) s))"
proof -
  let ?ch = "checkpoints_head s" and ?s1 = "crat_cycle E c s"
  have lt: "?ch < checkpoint_count E" "tag < 2 ^ tag_bits E"
    using assms(2,3,5) makes_checkpoint_tag by (auto simp: crat_wf_def)
  have wf: "crat_wf R P E ?s1" using crat_wf_cycle [OF assms(1,2)] assms(3,4) by (simp add: typed_run_def)
  have "checkpoint_holds E tag ?ch (frat ?s1) ?s1"
    using assms(5) lt by (simp add: checkpoint_holds_def crat_cycle_memories crat_memories_read [OF assms(1)] crat_cycle_checkpoints)
  moreover have "legal_run E cs ?s1" using assms(3) by (simp add: legal_run_append)
  ultimately have "checkpoint_holds E tag ?ch (frat ?s1) (crat_run E cs ?s1) \<and> crat_wf R P E (crat_run E cs ?s1)"
    using checkpoint_holds_run [OF assms(1) lt wf] assms(4,7) by (simp add: typed_run_def)
  then show ?thesis
    using restore_pipeline [OF assms(1) _ _ lt(1) assms(6), where ?c1.0 = c1 and ?c2.0 = c2 and s = "crat_run E cs ?s1" and f = "frat ?s1" and R = R and P = P]
    by (simp add: crat_run_def)
qed

text \<open>
  C14. Rollbacks. In every state reached by legal calls, a rollback deactivates exactly the active tags that are younger than its
  target, including a tag that is allocated in the same cycle; older tags and the target itself keep their state, unless the
  oldest one is freed in the same cycle. And a checkpoint survives: after a cycle that makes a checkpoint for a tag, and any legal run that
  neither makes another checkpoint for that tag nor reuses the checkpoint, a rollback to the tag restores, two
  cycles later, exactly the table as it was right after the cycle of the checkpoint, with its renames applied; without further rollbacks
  the restore is then reported as finished.
\<close>

theorem crat_rollback_restores:
  fixes E :: "('s, 't) crat_env"
  assumes "crat_env_spec E" "legal_run E (pre @ c # cs @ [cr]) (crat_init n st tm)" "c_rollback cr = Some tag"
    and "s = crat_run E pre (crat_init n st tm)" "sr = crat_run E (c # cs) s"
    and "crat_wf R P E s" "typed_run R P (c # cs @ [cr])"
  shows "(active_tags (crat_cycle E cr sr) t \<longleftrightarrow>
      active_tags sr t \<and> tag_age E sr t \<le> tag_age E sr tag \<and> \<not> (c_free_tag cr \<and> t = tags_tail sr)) \<and>
    (makes_checkpoint c s = Some tag \<and> untouched E tag (checkpoints_head s) cs (crat_cycle E c s) \<longrightarrow>
      frat (crat_run E (c # cs @ [cr, c1, c2]) s) = frat (crat_cycle E c s) \<and>
      (c_rollback c1 = None \<and> c_rollback c2 = None \<longrightarrow> last_rollback_finished (crat_run E (c # cs @ [cr, c1, c2]) s)))"
proof (intro conjI)
  have legal: "legal_run E (c # cs @ [cr]) s" "legal_run E (pre @ c # cs) (crat_init n st tm)" "crat_legal E cr sr"
    using assms(2) by (simp_all add: legal_run_append assms(4,5) crat_run_def)
  have sr: "sr = crat_run E (pre @ c # cs) (crat_init n st tm)" by (simp add: assms(4,5) crat_run_def)
  show "active_tags (crat_cycle E cr sr) t \<longleftrightarrow>
      active_tags sr t \<and> tag_age E sr t \<le> tag_age E sr tag \<and> \<not> (c_free_tag cr \<and> t = tags_tail sr)"
    by (rule crat_rollback_deactivates [OF assms(1) legal(2) sr legal(3) assms(3)])
  show "makes_checkpoint c s = Some tag \<and> untouched E tag (checkpoints_head s) cs (crat_cycle E c s) \<longrightarrow>
      frat (crat_run E (c # cs @ [cr, c1, c2]) s) = frat (crat_cycle E c s) \<and>
      (c_rollback c1 = None \<and> c_rollback c2 = None \<longrightarrow> last_rollback_finished (crat_run E (c # cs @ [cr, c1, c2]) s))"
    using crat_checkpoint_roundtrip [OF assms(1,6) legal(1) assms(7) _ assms(3)] by blast
qed

section \<open>Examples\<close>

definition example_env :: "(nat \<Rightarrow> nat list, nat \<Rightarrow> nat) crat_env" where
  "example_env = \<lparr>tag_bits = 2, checkpoint_count = 2, mod_incr = (\<lambda>x m. (x + 1) mod m),
     cyclic_mask = (\<lambda>n a b i. if a \<le> b then a \<le> i \<and> i \<le> b else a \<le> i \<or> i \<le> b),
     storage_bank = fun_memory, tag_map_bank = fun_memory\<rparr>"

lemma example_env_spec: "crat_env_spec example_env"
  by (auto simp: crat_env_spec_def example_env_def fun_memory_spec)

abbreviation example_crat :: "(nat \<Rightarrow> nat list, nat \<Rightarrow> nat) crat" where
  "example_crat \<equiv> crat_init 2 (\<lambda>_. [0, 0]) (\<lambda>_. 0)"

lemma example_wf: "crat_wf 2 8 example_env example_crat"
  by (simp add: crat_wf_def crat_init_def example_env_def fun_memory_def table_ok_def)

text \<open>A branch that renames register 1 and makes a checkpoint, an instruction behind it, and the rollback.\<close>

abbreviation "branch_call \<equiv> no_calls\<lparr>c_commit_checkpoint := Some (0, True), c_rename := [Some \<lparr>rl_dst = 1, rp_dst = 3, rl_s1 = 1, rl_s2 = 0\<rparr>]\<rparr>"

abbreviation "next_call \<equiv> no_calls\<lparr>c_commit_checkpoint := Some (1, False), c_rename := [Some \<lparr>rl_dst = 1, rp_dst = 4, rl_s1 = 1, rl_s2 = 0\<rparr>]\<rparr>"

abbreviation "rollback_call \<equiv> no_calls\<lparr>c_rollback := Some 0\<rparr>"

lemmas example_simps = no_calls_def crat_init_def makes_checkpoint_def commit_tag_valid_def tag_valid_def active_renames_def

lemma example_legal: "legal_run example_env [branch_call, next_call, rollback_call] example_crat"
  by (simp add: crat_legal_def commit_checkpoint_ready_def example_simps crat_cycle_tags crat_cycle_lock crat_cycle_memories
      rollback_mask_def restored_mask_def allocates_tag_def) (simp add: example_env_def)

lemma example_typed: "typed_run 2 8 [branch_call, next_call, rollback_call]"
  by (simp add: typed_run_def calls_typed_def no_calls_def)

lemma example_branch_frat: "frat (crat_cycle example_env branch_call example_crat) = [0, 3]"
  by (simp add: crat_cycle_frat example_simps numeral_2_eq_2)

theorem crat_well_typed_witness:
  "crat_wf 2 8 example_env (crat_run example_env [branch_call, next_call, rollback_call] example_crat)"
  using crat_well_typed [OF example_env_spec example_wf example_legal example_typed] .

theorem crat_rollback_restores_witness:
  "active_tags (crat_cycle example_env rollback_call (crat_run example_env [branch_call, next_call] example_crat)) 0 \<and>
   frat (crat_run example_env [branch_call, next_call, rollback_call, no_calls, no_calls] example_crat) = [0, 3]"
proof -
  have legal: "legal_run example_env ([] @ branch_call # [next_call] @ [rollback_call]) example_crat" using example_legal by simp
  have typed: "typed_run 2 8 (branch_call # [next_call] @ [rollback_call])" using example_typed by simp
  have s: "example_crat = crat_run example_env [] example_crat" by (simp add: crat_run_def)
  have "makes_checkpoint branch_call example_crat = Some 0" by (simp add: example_simps)
  moreover have "untouched example_env 0 (checkpoints_head example_crat) [next_call] (crat_cycle example_env branch_call example_crat)"
    by (simp add: example_simps crat_cycle_lock)
  moreover have "c_rollback rollback_call = Some 0" by (simp add: no_calls_def)
  note c = crat_rollback_restores [OF example_env_spec legal this s refl example_wf typed]
  moreover have "active_tags (crat_run example_env [branch_call, next_call] example_crat) 0 \<and>
      tag_age example_env (crat_run example_env [branch_call, next_call] example_crat) 0 = 0"
    by (simp add: crat_run_def crat_cycle_tags example_simps rollback_mask_def allocates_tag_def tag_age_def ring_age_def)
  ultimately show ?thesis
    using c [of 0 no_calls no_calls] example_branch_frat by (simp add: no_calls_def)
qed

end
