(* ===== verification/Pmp.thy ===== *)
theory Pmp
  imports Isa_Consts Transactron "HOL-Library.Word"
begin

unbundle bit_operations_syntax

text \<open>
  The physical memory protection checker (\<^verbatim>\<open>priv/pmp.py\<close>): which entries match some or all of an
  aligned power-of-two area, the entry of highest priority, and the permissions that follow from it
  and from the privilege level. Addresses are natural numbers; a slice \<^verbatim>\<open>x[k:]\<close> is a division by a power
  of two and a complement is taken at the width of the signal. The reference reads off the entries as
  sets of words of memory, as the privileged architecture describes them.
\<close>

section \<open>The checker\<close>

datatype PMPOperationMode = PMP_LSU | PMP_INSTRUCTION_FETCH | PMP_MMU

text \<open>An entry: the fields of its configuration register that are used, and its address register.\<close>

record pmp_entry =
  cfg_R :: bool
  cfg_W :: bool
  cfg_X :: bool
  cfg_A :: PMPAFlagEncoding
  cfg_L :: bool
  pmp_addr :: nat

record pmp_result =
  res_r :: bool
  res_w :: bool
  res_x :: bool

abbreviation full_access :: pmp_result where
  "full_access \<equiv> \<lparr>res_r = True, res_w = True, res_x = True\<rparr>"

abbreviation no_access :: pmp_result where
  "no_access \<equiv> \<lparr>res_r = False, res_w = False, res_x = False\<rparr>"

text \<open>Generator parameters: the width of physical addresses, the grain and the size classes.\<close>

record pmp_params =
  pmp_addr_bits :: nat
  pmp_grain :: nat
  size_classes :: "nat list"

definition size_class_mask :: "pmp_params \<Rightarrow> nat \<Rightarrow> nat" where
  "size_class_mask p i = 2 ^ max (size_classes p ! i - 2) (pmp_grain p) - 1"

text \<open>The address with its low bits cleared.\<close>

definition clear_low :: "nat \<Rightarrow> nat \<Rightarrow> nat" where
  "clear_low k x = x div 2 ^ k * 2 ^ k"

definition masked_paddr :: "pmp_params \<Rightarrow> nat \<Rightarrow> nat" where
  "masked_paddr p paddr = clear_low (max (pmp_grain p + 2) (Min (set (size_classes p)))) paddr"

definition napot_mask :: "pmp_params \<Rightarrow> pmp_entry \<Rightarrow> nat" where
  "napot_mask p e =
     (case cfg_A e of
        PMPA_NAPOT \<Rightarrow>
          (let start_bit = pmp_grain p - 1; x = pmp_addr e div 2 ^ start_bit
           in take_bit (pmp_addr_bits p - 2) (push_bit start_bit (x XOR (x + 1))))
      | _ \<Rightarrow> 0) OR mask (pmp_grain p)"

definition is_napot :: "pmp_params \<Rightarrow> pmp_entry \<Rightarrow> bool" where
  "is_napot p e \<longleftrightarrow> cfg_A e = PMPA_NAPOT \<or> (cfg_A e = PMPA_NA4 \<and> pmp_grain p = 0)"

text \<open>The bottom of a range entry: the address of the previous entry.\<close>

definition tor_bottom :: "pmp_params \<Rightarrow> pmp_entry list \<Rightarrow> nat \<Rightarrow> nat" where
  "tor_bottom p es i = (if i > 0 then pmp_addr (es ! (i - 1)) div 2 ^ pmp_grain p else 0)"

definition addr_hi :: "pmp_params \<Rightarrow> nat \<Rightarrow> nat \<Rightarrow> nat" where
  "addr_hi p sc paddr = ((paddr div 4) OR size_class_mask p sc) div 2 ^ pmp_grain p"

definition common_mask :: "pmp_params \<Rightarrow> nat \<Rightarrow> pmp_entry \<Rightarrow> nat" where
  "common_mask p sc e = size_class_mask p sc OR napot_mask p e"

text \<open>\<^verbatim>\<open>x & ~m\<close>, with the complement at the width of the word addresses.\<close>

definition and_not :: "pmp_params \<Rightarrow> nat \<Rightarrow> nat \<Rightarrow> nat" where
  "and_not p x m = x AND (mask (pmp_addr_bits p - 2) XOR m)"

definition matches_any :: "pmp_params \<Rightarrow> nat \<Rightarrow> nat \<Rightarrow> pmp_entry list \<Rightarrow> nat \<Rightarrow> bool" where
  "matches_any p sc paddr es i =
     (let e = es ! i; lo = masked_paddr p paddr in
      if is_napot p e then and_not p (lo div 4) (common_mask p sc e) = and_not p (pmp_addr e) (common_mask p sc e)
      else if cfg_A e = PMPA_TOR then
        tor_bottom p es i \<le> addr_hi p sc paddr \<and> lo div 2 ^ (2 + pmp_grain p) < pmp_addr e div 2 ^ pmp_grain p
      else False)"

definition matches_all :: "pmp_params \<Rightarrow> nat \<Rightarrow> nat \<Rightarrow> pmp_entry list \<Rightarrow> nat \<Rightarrow> bool" where
  "matches_all p sc paddr es i =
     (let e = es ! i; lo = masked_paddr p paddr in
      if is_napot p e then common_mask p sc e = napot_mask p e
      else if cfg_A e = PMPA_TOR then
        tor_bottom p es i \<le> lo div 2 ^ (2 + pmp_grain p) \<and> addr_hi p sc paddr < pmp_addr e div 2 ^ pmp_grain p
      else False)"

text \<open>
  The selected entry: whether it covers the area, its permissions and its lock. The multiplexer of
  the library takes the first input whose condition holds, and otherwise the default.
\<close>

record pmp_selected =
  sel_all :: bool
  sel_data :: pmp_result
  sel_l :: bool

definition entry_data :: "pmp_entry \<Rightarrow> pmp_result" where
  "entry_data e = \<lparr>res_r = cfg_R e, res_w = cfg_W e, res_x = cfg_X e\<rparr>"

definition pmp_select :: "pmp_selected one_hot_mux \<Rightarrow> pmp_params \<Rightarrow> nat \<Rightarrow> nat \<Rightarrow> pmp_entry list \<Rightarrow> pmp_selected" where
  "pmp_select mux p sc paddr es =
     mux (map (\<lambda>i. (matches_any p sc paddr es i,
                    \<lparr>sel_all = matches_all p sc paddr es i, sel_data = entry_data (es ! i), sel_l = cfg_L (es ! i)\<rparr>)) [0..<length es])
       \<lparr>sel_all = True, sel_data = no_access, sel_l = False\<rparr>"

text \<open>The privilege of the access; the signal \<^verbatim>\<open>mpp\<close> is one bit wide.\<close>

definition effective_priv_mode :: "PMPOperationMode \<Rightarrow> PrivilegeLevel \<Rightarrow> bool \<Rightarrow> PrivilegeLevel \<Rightarrow> nat" where
  "effective_priv_mode mode priv mprv mpp =
     (case mode of
        PMP_LSU \<Rightarrow> if mprv then priv_value mpp mod 2 else priv_value priv
      | PMP_INSTRUCTION_FETCH \<Rightarrow> priv_value priv
      | PMP_MMU \<Rightarrow> priv_value Priv_SUPERVISOR)"

text \<open>The outputs \<^verbatim>\<open>uniform\<close> and \<^verbatim>\<open>result\<close>.\<close>

definition DynamicAreaPMPChecker ::
  "pmp_selected one_hot_mux \<Rightarrow> pmp_params \<Rightarrow> PMPOperationMode \<Rightarrow> PrivilegeLevel \<Rightarrow> bool \<Rightarrow> PrivilegeLevel \<Rightarrow>
   pmp_entry list \<Rightarrow> nat \<Rightarrow> nat \<Rightarrow> bool \<times> pmp_result" where
  "DynamicAreaPMPChecker mux p mode priv mprv mpp es sc paddr =
     (if es = [] then (True, full_access)
      else
        let selected = pmp_select mux p sc paddr es;
            uniform = (if list_all (\<lambda>c. c \<le> pmp_grain p + 2) (size_classes p) then True else sel_all selected);
            effective = effective_priv_mode mode priv mprv mpp
        in (uniform,
            if \<not> uniform then no_access
            else if mode \<noteq> PMP_MMU \<and> \<not> sel_l selected \<and> effective = priv_value Priv_MACHINE then full_access
            else sel_data selected))"

definition PMPChecker ::
  "pmp_selected one_hot_mux \<Rightarrow> nat \<Rightarrow> nat \<Rightarrow> nat \<Rightarrow> PMPOperationMode \<Rightarrow> PrivilegeLevel \<Rightarrow> bool \<Rightarrow> PrivilegeLevel \<Rightarrow>
   pmp_entry list \<Rightarrow> nat \<Rightarrow> bool \<times> pmp_result" where
  "PMPChecker mux bits grain access_size_log mode priv mprv mpp es paddr =
     DynamicAreaPMPChecker mux \<lparr>pmp_addr_bits = bits, pmp_grain = grain, size_classes = [access_size_log]\<rparr>
       mode priv mprv mpp es 0 paddr"

definition priority_mux_spec :: "'v one_hot_mux \<Rightarrow> bool" where
  "priority_mux_spec mux \<longleftrightarrow> (\<forall>cs d. mux cs d = (case find fst cs of None \<Rightarrow> d | Some c \<Rightarrow> snd c))"

section \<open>The architecture\<close>

text \<open>The number of low-order ones of an address register.\<close>

function trailing_ones :: "nat \<Rightarrow> nat" where
  "trailing_ones a = (if odd a then Suc (trailing_ones (a div 2)) else 0)"
  by pat_completeness auto
termination by (relation "measure id") (auto elim: oddE)

declare trailing_ones.simps [simp del]

text \<open>
  The words of memory that an entry covers. For a naturally aligned region the address register, with
  the bits below the grain read as ones, ends in a zero followed by ones that give its size.
\<close>

definition pmp_region :: "nat \<Rightarrow> pmp_entry list \<Rightarrow> nat \<Rightarrow> nat \<Rightarrow> bool" where
  "pmp_region grain es i y =
     (let e = es ! i in
      case cfg_A e of
        PMPA_OFF \<Rightarrow> False
      | PMPA_TOR \<Rightarrow> (if i > 0 then pmp_addr (es ! (i - 1)) div 2 ^ grain else 0) \<le> y div 2 ^ grain \<and>
                    y div 2 ^ grain < pmp_addr e div 2 ^ grain
      | PMPA_NA4 \<Rightarrow> grain = 0 \<and> y = pmp_addr e
      | PMPA_NAPOT \<Rightarrow> (let a = pmp_addr e OR mask (grain - 1); m = Suc (trailing_ones a) in y div 2 ^ m = a div 2 ^ m))"

text \<open>The words of an aligned area of \<open>2 ^ sc\<close> bytes.\<close>

definition area_words :: "nat \<Rightarrow> nat \<Rightarrow> nat list" where
  "area_words sc paddr = [paddr div 4 ..< paddr div 4 + 2 ^ (sc - 2)]"

definition pmp_reference ::
  "nat \<Rightarrow> PMPOperationMode \<Rightarrow> bool \<Rightarrow> pmp_entry list \<Rightarrow> nat \<Rightarrow> nat \<Rightarrow> bool \<times> pmp_result" where
  "pmp_reference grain mode machine es sc paddr =
     (let ys = area_words sc paddr in
      case find (\<lambda>i. list_ex (pmp_region grain es i) ys) [0..<length es] of
        None \<Rightarrow> (True, if es = [] \<or> mode \<noteq> PMP_MMU \<and> machine then full_access else no_access)
      | Some i \<Rightarrow>
          if list_all (pmp_region grain es i) ys
          then (True, if mode \<noteq> PMP_MMU \<and> machine \<and> \<not> cfg_L (es ! i) then full_access else entry_data (es ! i))
          else (False, no_access))"

section \<open>Naturally aligned blocks\<close>

lemma div_pow_mono: "k \<le> m \<Longrightarrow> x div 2 ^ k = y div 2 ^ k \<Longrightarrow> x div 2 ^ m = y div 2 ^ m" for x y :: nat
proof -
  assume "k \<le> m" "x div 2 ^ k = y div 2 ^ k"
  then have "x div 2 ^ k div 2 ^ (m - k) = y div 2 ^ k div 2 ^ (m - k)" by simp
  moreover have "z div 2 ^ k div 2 ^ (m - k) = z div 2 ^ m" for z :: nat
    using \<open>k \<le> m\<close> by (simp add: div_mult2_eq [symmetric] power_add [symmetric])
  ultimately show ?thesis by simp
qed

lemma nat_div_eq_iff: "0 < n \<Longrightarrow> x div n = q \<longleftrightarrow> q * n \<le> x \<and> x < q * n + n" for x n q :: nat
proof -
  assume n: "0 < n"
  have "x div n * n \<le> x \<and> x < x div n * n + n"
    using div_mult_mod_eq [of x n] mod_less_divisor [OF n, of x] by linarith
  moreover have "x div n = q" if "q * n \<le> x" "x < q * n + n"
    using that div_nat_eqI [of n q x] by (simp add: mult.commute)
  ultimately show ?thesis by blast
qed

lemma block_any:
  "(\<exists>y. y div 2 ^ k = b div 2 ^ k \<and> y div 2 ^ m = a div 2 ^ m) \<longleftrightarrow> b div 2 ^ max k m = a div 2 ^ max k m" for a b :: nat
proof
  assume "\<exists>y. y div 2 ^ k = b div 2 ^ k \<and> y div 2 ^ m = a div 2 ^ m"
  then obtain y where y: "y div 2 ^ k = b div 2 ^ k" "y div 2 ^ m = a div 2 ^ m" by blast
  then show "b div 2 ^ max k m = a div 2 ^ max k m"
    using div_pow_mono [OF max.cobounded1 y(1), of m] div_pow_mono [OF max.cobounded2 y(2), of k] by simp
next
  assume "b div 2 ^ max k m = a div 2 ^ max k m"
  then show "\<exists>y. y div 2 ^ k = b div 2 ^ k \<and> y div 2 ^ m = a div 2 ^ m"
    by (cases "k \<le> m") (auto simp: max_def intro: exI [of _ b] exI [of _ a])
qed

lemma block_all:
  fixes a b :: nat
  assumes "y div 2 ^ k = b div 2 ^ k" "y div 2 ^ m = a div 2 ^ m"
  shows "(\<forall>y. y div 2 ^ k = b div 2 ^ k \<longrightarrow> y div 2 ^ m = a div 2 ^ m) \<longleftrightarrow> k \<le> m"
proof
  assume "k \<le> m"
  then show "\<forall>y. y div 2 ^ k = b div 2 ^ k \<longrightarrow> y div 2 ^ m = a div 2 ^ m"
    using assms div_pow_mono [of k m] by metis
next
  assume all: "\<forall>y. y div 2 ^ k = b div 2 ^ k \<longrightarrow> y div 2 ^ m = a div 2 ^ m"
  show "k \<le> m"
  proof (rule ccontr)
    assume "\<not> k \<le> m"
    then have mk: "m < k" by simp
    let ?q = "b div 2 ^ k"
    have pow: "(2 :: nat) ^ k = 2 ^ (k - m) * 2 ^ m" using mk by (simp add: power_add [symmetric])
    have "(?q * 2 ^ k) div 2 ^ k = ?q" "(?q * 2 ^ k + 2 ^ m) div 2 ^ k = ?q"
      using mk by (simp_all add: div_mult_self3)
    then have "(?q * 2 ^ k) div 2 ^ m = (?q * 2 ^ k + 2 ^ m) div 2 ^ m" using all by metis
    then show False unfolding pow by (simp add: mult.assoc [symmetric])
  qed
qed

section \<open>The masks of naturally aligned entries\<close>

lemma mask_Suc_nat: "mask (Suc n) = Suc (2 * mask n :: nat)"
proof -
  have "(1 :: nat) \<le> 2 ^ n" by simp
  then show ?thesis unfolding mask_nat_def power_Suc by linarith
qed

lemma mask_div_2: "mask (Suc n) div 2 = (mask n :: nat)"
  by (simp add: mask_Suc_nat)

lemma xor_succ: "a XOR (a + 1) = mask (Suc (trailing_ones a))" for a :: nat
proof (induction a rule: trailing_ones.induct)
  case (1 a)
  show ?case
  proof (cases "odd a")
    case True
    then obtain b where a: "a = 2 * b + 1" by (elim oddE)
    then have IH: "b XOR (b + 1) = mask (Suc (trailing_ones b))" using 1 True by simp
    have "a XOR (a + 1) = (2 * b + 1) XOR (2 * (b + 1))" by (simp add: a)
    also have "\<dots> = 2 * (b XOR (b + 1)) + 1"
      by (simp add: xor_nat_rec [of "Suc (2 * b)"] xor_nat_rec [of "2 * b + 1"])
    finally show ?thesis using True IH trailing_ones.simps [of a]
      by (simp add: a mask_Suc_nat)
  next
    case False
    then obtain b where a: "a = 2 * b" by (auto elim: evenE)
    have "a XOR (a + 1) = 1" unfolding a by (simp add: xor_nat_rec [of "2 * b"])
    then show ?thesis using False trailing_ones.simps [of a] by (simp add: mask_nat_def)
  qed
qed

lemma trailing_ones_or_mask: "trailing_ones (a OR mask s) = s + trailing_ones (a div 2 ^ s)"
proof (induction s arbitrary: a)
  case (Suc s)
  have odd: "odd (a OR mask (Suc s))" by (simp add: even_or_iff mask_nat_def)
  have "(a OR mask (Suc s)) div 2 = (a div 2) OR mask s"
    using mask_div_2 [of s] by (simp add: or_nat_rec [of a])
  then show ?case using Suc [of "a div 2"] odd trailing_ones.simps [of "a OR mask (Suc s)"] by (simp add: div_mult2_eq)
qed simp

lemma bit_mask_nat: "bit (mask n :: nat) i \<longleftrightarrow> i < n"
  by (simp add: bit_mask_iff)

text \<open>The size of the region of a naturally aligned entry, as a power of two in words.\<close>

definition napot_bits :: "pmp_params \<Rightarrow> pmp_entry \<Rightarrow> nat" where
  "napot_bits p e = (if cfg_A e = PMPA_NAPOT then Suc (trailing_ones (pmp_addr e OR mask (pmp_grain p - 1))) else 0)"

lemma napot_mask_eq:
  assumes "is_napot p e" "pmp_grain p \<le> pmp_addr_bits p - 2"
  shows "napot_mask p e = mask (min (pmp_addr_bits p - 2) (napot_bits p e))" "pmp_grain p \<le> napot_bits p e"
proof -
  let ?st = "pmp_grain p - 1"
  show "pmp_grain p \<le> napot_bits p e"
    using assms(1) by (auto simp: is_napot_def napot_bits_def trailing_ones_or_mask)
  show "napot_mask p e = mask (min (pmp_addr_bits p - 2) (napot_bits p e))"
  proof (cases "cfg_A e = PMPA_NAPOT")
    case True
    have bits: "napot_bits p e = ?st + Suc (trailing_ones (pmp_addr e div 2 ^ ?st))"
      using True by (simp add: napot_bits_def trailing_ones_or_mask)
    show ?thesis
      unfolding napot_mask_def bits
      by (rule bit_eqI) (use True assms(2) in \<open>auto simp: Let_def xor_succ [simplified] bit_or_iff bit_take_bit_iff bit_push_bit_iff bit_mask_nat\<close>)
  next
    case False
    then show ?thesis using assms by (auto simp: is_napot_def napot_mask_def napot_bits_def)
  qed
qed

lemma and_not_eq_iff:
  assumes "x < 2 ^ (pmp_addr_bits p - 2)" "y < 2 ^ (pmp_addr_bits p - 2)" "m \<le> pmp_addr_bits p - 2"
  shows "and_not p x (mask m) = and_not p y (mask m) \<longleftrightarrow> x div 2 ^ m = y div 2 ^ m"
proof -
  have "and_not p z (mask m) = push_bit m (drop_bit m z)" if "z < 2 ^ (pmp_addr_bits p - 2)" for z
  proof (rule bit_eqI)
    fix n
    have "bit z n \<Longrightarrow> n < pmp_addr_bits p - 2"
      using that by (metis bit_take_bit_iff take_bit_nat_eq_self)
    then show "bit (and_not p z (mask m)) n = bit (push_bit m (drop_bit m z)) n"
      using assms(3) by (auto simp: and_not_def bit_and_iff bit_xor_iff bit_mask_nat bit_push_bit_iff bit_drop_bit_eq)
  qed
  then show ?thesis using assms by (simp add: push_bit_eq_mult drop_bit_eq_div)
qed

section \<open>The entries that match\<close>

definition pmp_input_ok :: "pmp_params \<Rightarrow> nat \<Rightarrow> pmp_entry list \<Rightarrow> nat \<Rightarrow> bool" where
  "pmp_input_ok p sc es paddr \<longleftrightarrow>
     sc < length (size_classes p) \<and> 2 \<le> pmp_addr_bits p \<and> pmp_grain p \<le> pmp_addr_bits p - 2 \<and> list_all (\<lambda>c. c \<le> pmp_addr_bits p) (size_classes p) \<and>
     paddr < 2 ^ pmp_addr_bits p \<and> 2 ^ (size_classes p ! sc) dvd paddr \<and>
     list_all (\<lambda>e. pmp_addr e < 2 ^ (pmp_addr_bits p - 2)) es"

lemma region_grain:
  assumes "y div 2 ^ grain = y' div 2 ^ grain"
  shows "pmp_region grain es i y = pmp_region grain es i y'"
proof -
  have "y div 2 ^ Suc (trailing_ones (a OR mask (grain - 1))) = y' div 2 ^ Suc (trailing_ones (a OR mask (grain - 1)))" for a :: nat
    by (rule div_pow_mono [OF _ assms]) (simp add: trailing_ones_or_mask)
  then show ?thesis using assms by (cases "cfg_A (es ! i)"; cases "grain = 0") (simp_all add: pmp_region_def Let_def)
qed

text \<open>An entry sees an area through the grains that it touches.\<close>

lemma area_extend:
  fixes b :: nat
  assumes "\<And>y y'. y div 2 ^ g = y' div 2 ^ g \<Longrightarrow> Q y = Q y'"
  shows "(\<exists>y. y div 2 ^ k = b div 2 ^ k \<and> Q y) \<longleftrightarrow> (\<exists>y. y div 2 ^ max k g = b div 2 ^ max k g \<and> Q y)" (is ?ex)
    and "(\<forall>y. y div 2 ^ k = b div 2 ^ k \<longrightarrow> Q y) \<longleftrightarrow> (\<forall>y. y div 2 ^ max k g = b div 2 ^ max k g \<longrightarrow> Q y)" (is ?all)
proof -
  have "?ex \<and> ?all"
  proof (cases "g \<le> k")
    case False
    then have "k \<le> g" by simp
    have same: "Q y = Q b" if "y div 2 ^ max k g = b div 2 ^ max k g" for y
      using assms [of y b] that \<open>k \<le> g\<close> by (simp add: max_def)
    have "y div 2 ^ max k g = b div 2 ^ max k g" if "y div 2 ^ k = b div 2 ^ k" for y
      using div_pow_mono [OF _ that, of "max k g"] by simp
    with same show ?thesis by metis
  qed (simp add: max_def)
  then show ?ex ?all by simp_all
qed

lemma area_words_set:
  assumes "2 ^ c dvd paddr"
  shows "set (area_words c paddr) = {y. y div 2 ^ (c - 2) = paddr div 4 div 2 ^ (c - 2)}"
proof -
  have "2 ^ (c - 2) dvd paddr div 4"
  proof (cases "2 \<le> c")
    case True
    then obtain d where "c = 2 + d" using le_Suc_ex by blast
    then have "(2 :: nat) ^ c = 4 * 2 ^ (c - 2)" by (simp add: power_add)
    then show ?thesis using assms by (auto simp: dvd_def)
  qed simp
  then obtain q where q: "paddr div 4 = 2 ^ (c - 2) * q" by (elim dvdE)
  have "y div 2 ^ (c - 2) = q \<longleftrightarrow> q * 2 ^ (c - 2) \<le> y \<and> y < q * 2 ^ (c - 2) + 2 ^ (c - 2)" for y
    by (rule nat_div_eq_iff) simp
  then have "{y. y div 2 ^ (c - 2) = q} = {q * 2 ^ (c - 2)..<q * 2 ^ (c - 2) + 2 ^ (c - 2)}"
    by (simp only: set_eq_iff mem_Collect_eq atLeastLessThan_iff simp_thms)
  moreover have "paddr div 4 div 2 ^ (c - 2) = q" unfolding q by simp
  ultimately show ?thesis unfolding area_words_def set_upt by (simp only: q mult.commute)
qed

text \<open>The first and the last grain of the area, which the range comparisons use.\<close>

lemma or_mask_div:
  fixes x :: nat
  assumes "g \<le> k"
  shows "(x OR (2 ^ k - 1)) div 2 ^ g = (x div 2 ^ k) * 2 ^ (k - g) + (2 ^ (k - g) - 1)"
proof -
  have "(x OR mask k) div 2 ^ g = (x div 2 ^ k) * 2 ^ (k - g) + mask (k - g)"
  proof (rule bit_eqI)
    fix n
    have "push_bit (k - g) (drop_bit k x) + mask (k - g) = push_bit (k - g) (drop_bit k x) OR mask (k - g)"
      by (rule disjunctive_add) (auto simp: bit_push_bit_iff bit_mask_nat)
    then have "(x div 2 ^ k) * 2 ^ (k - g) + mask (k - g) = push_bit (k - g) (drop_bit k x) OR mask (k - g)"
      by (simp add: push_bit_eq_mult drop_bit_eq_div)
    then show "bit ((x OR mask k) div 2 ^ g) n = bit ((x div 2 ^ k) * 2 ^ (k - g) + mask (k - g)) n"
      using assms by (auto simp: drop_bit_eq_div [symmetric] bit_drop_bit_eq bit_or_iff bit_push_bit_iff bit_mask_nat add.commute)
  qed
  then show ?thesis by (simp add: mask_nat_def)
qed

lemma grains_of_area:
  fixes b :: nat
  assumes "g \<le> k"
  shows "(\<exists>y. y div 2 ^ k = b div 2 ^ k \<and> R (y div 2 ^ g)) \<longleftrightarrow>
      (\<exists>h. b div 2 ^ k * 2 ^ (k - g) \<le> h \<and> h \<le> (b OR (2 ^ k - 1)) div 2 ^ g \<and> R h)"
proof -
  let ?N = "2 ^ (k - g) :: nat" and ?q = "b div 2 ^ k"
  have 1: "(\<exists>y. y div 2 ^ k = ?q \<and> R (y div 2 ^ g)) \<longleftrightarrow> (\<exists>h. h div ?N = ?q \<and> R h)"
  proof
    assume "\<exists>y. y div 2 ^ k = ?q \<and> R (y div 2 ^ g)"
    then obtain y where "y div 2 ^ k = ?q" "R (y div 2 ^ g)" by blast
    moreover have "y div 2 ^ g div ?N = y div 2 ^ k"
      using assms by (simp add: div_mult2_eq [symmetric] power_add [symmetric])
    ultimately show "\<exists>h. h div ?N = ?q \<and> R h" by metis
  next
    assume "\<exists>h. h div ?N = ?q \<and> R h"
    then obtain h where h: "h div ?N = ?q" "R h" by blast
    have "h * 2 ^ g div 2 ^ k = h * 2 ^ g div (2 ^ g * ?N)" using assms by (simp add: power_add [symmetric])
    then have "h * 2 ^ g div 2 ^ k = h div ?N" by (simp add: div_mult2_eq)
    then show "\<exists>y. y div 2 ^ k = ?q \<and> R (y div 2 ^ g)" using h by (intro exI [of _ "h * 2 ^ g"]) simp
  qed
  have 2: "h div ?N = ?q \<longleftrightarrow> ?q * ?N \<le> h \<and> h \<le> ?q * ?N + (?N - 1)" for h
  proof -
    have "0 < ?N" by simp
    then show ?thesis using nat_div_eq_iff [of ?N h ?q] by linarith
  qed
  show ?thesis unfolding 1 2 or_mask_div [OF assms] by (simp only: conj_assoc)
qed

text \<open>A range entry is degenerate when its bottom is not below its top; it then covers nothing.\<close>

definition tor_proper :: "pmp_params \<Rightarrow> pmp_entry list \<Rightarrow> nat \<Rightarrow> bool" where
  "tor_proper p es i \<longleftrightarrow> (cfg_A (es ! i) = PMPA_TOR \<longrightarrow> tor_bottom p es i < pmp_addr (es ! i) div 2 ^ pmp_grain p)"

text \<open>The width of the area in grains, as the masks see it.\<close>

definition area_bits :: "pmp_params \<Rightarrow> nat \<Rightarrow> nat" where
  "area_bits p sc = max (size_classes p ! sc - 2) (pmp_grain p)"

lemma masked_paddr_div:
  assumes ok: "pmp_input_ok p sc es paddr" and m: "area_bits p sc \<le> m"
  shows "masked_paddr p paddr div 4 div 2 ^ m = paddr div 4 div 2 ^ m"
proof -
  let ?k = "max (pmp_grain p + 2) (Min (set (size_classes p)))"
  have "Min (set (size_classes p)) \<le> size_classes p ! sc" using ok by (simp add: pmp_input_ok_def)
  then have "?k \<le> m + 2" using m by (auto simp: area_bits_def)
  then have "2 ^ ?k dvd (2 :: nat) ^ (m + 2)" by (rule le_imp_power_dvd)
  then obtain d where "(2 :: nat) ^ (m + 2) = 2 ^ ?k * d" by (elim dvdE)
  moreover have "x div 4 div 2 ^ m = x div 2 ^ (m + 2)" for x :: nat by (simp add: div_mult2_eq [symmetric] mult.commute)
  ultimately show ?thesis by (simp add: masked_paddr_def clear_low_def div_mult2_eq)
qed

lemma masked_paddr_first:
  assumes ok: "pmp_input_ok p sc es paddr"
  shows "masked_paddr p paddr div 2 ^ (2 + pmp_grain p) = paddr div 4 div 2 ^ area_bits p sc * 2 ^ (area_bits p sc - pmp_grain p)"
proof -
  let ?g = "pmp_grain p" and ?c = "size_classes p ! sc" and ?k = "max (pmp_grain p + 2) (Min (set (size_classes p)))"
  have min: "Min (set (size_classes p)) \<le> ?c" using ok by (simp add: pmp_input_ok_def)
  have dvd: "2 ^ ?c dvd paddr" using ok by (simp add: pmp_input_ok_def)
  have div4: "x div 2 ^ (2 + n) = x div 4 div 2 ^ n" for x n :: nat by (simp add: div_mult2_eq)
  show ?thesis
  proof (cases "?c - 2 \<le> ?g")
    case True
    then have k: "?k = 2 + ?g" "area_bits p sc = ?g" using min by (auto simp: area_bits_def)
    have "masked_paddr p paddr div 2 ^ (2 + ?g) = paddr div 2 ^ (2 + ?g)"
      unfolding masked_paddr_def clear_low_def k(1) by simp
    then show ?thesis by (simp only: k(2) diff_self_eq_0 power_0 mult_1_right div4)
  next
    case False
    then have k: "area_bits p sc = ?c - 2" "?k \<le> ?c" "?c = 2 + (?c - 2)" using min by (auto simp: area_bits_def)
    have "2 ^ ?k dvd paddr" using dvd le_imp_power_dvd [OF k(2), of "2 :: nat"] dvd_trans by blast
    then have "masked_paddr p paddr = paddr" by (simp add: masked_paddr_def clear_low_def)
    moreover have "paddr div 2 ^ (2 + ?g) = paddr div 4 div 2 ^ (?c - 2) * 2 ^ (?c - 2 - ?g)"
    proof -
      obtain q where q: "paddr = 2 ^ ?c * q" using dvd by (elim dvdE)
      have pow: "(2 :: nat) ^ ?c = 2 ^ (2 + ?g) * 2 ^ (?c - 2 - ?g)"
        unfolding power_add [symmetric] using False by (intro arg_cong [of _ _ "power 2"]) simp
      have "paddr div 2 ^ (2 + ?g) = 2 ^ (?c - 2 - ?g) * q" unfolding q pow by (simp add: mult.assoc)
      moreover have "paddr div 4 div 2 ^ (?c - 2) = paddr div 2 ^ ?c" using div4 [of paddr "?c - 2"] k(3) by metis
      ultimately show ?thesis by (simp add: q mult.commute)
    qed
    ultimately show ?thesis by (simp add: k(1))
  qed
qed

lemma size_class_mask_eq: "size_class_mask p sc = mask (area_bits p sc)"
  by (simp add: size_class_mask_def area_bits_def mask_nat_def)

lemma mask_or_mask: "mask m OR mask n = (mask (max m n) :: nat)"
  by (rule bit_eqI) (auto simp: bit_or_iff bit_mask_nat)

lemma mask_eq_iff_nat: "mask m = (mask n :: nat) \<longleftrightarrow> m = n"
proof
  assume "mask m = (mask n :: nat)"
  then have "(2 :: nat) ^ m = 2 ^ n" by (metis Suc_pred' mask_nat_def One_nat_def zero_less_numeral zero_less_power)
  then show "m = n" by simp
qed simp

lemma area_bits_le: "pmp_input_ok p sc es paddr \<Longrightarrow> area_bits p sc \<le> pmp_addr_bits p - 2"
  by (auto simp: pmp_input_ok_def area_bits_def list_all_length)

text \<open>A naturally aligned entry is a block of words.\<close>

lemma napot_region:
  assumes "is_napot p (es ! i)"
  shows "pmp_region (pmp_grain p) es i y \<longleftrightarrow> y div 2 ^ napot_bits p (es ! i) = pmp_addr (es ! i) div 2 ^ napot_bits p (es ! i)"
proof (cases "cfg_A (es ! i) = PMPA_NAPOT")
  case True
  let ?m = "napot_bits p (es ! i)" and ?s = "pmp_grain p - 1"
  have "?s \<le> ?m" using True by (simp add: napot_bits_def trailing_ones_or_mask)
  moreover have "(pmp_addr (es ! i) OR mask ?s) div 2 ^ ?s = pmp_addr (es ! i) div 2 ^ ?s"
    by (rule bit_eqI) (simp add: drop_bit_eq_div [symmetric] bit_drop_bit_eq bit_or_iff bit_mask_nat)
  ultimately have "(pmp_addr (es ! i) OR mask ?s) div 2 ^ ?m = pmp_addr (es ! i) div 2 ^ ?m" by (rule div_pow_mono)
  then show ?thesis using True by (simp add: pmp_region_def napot_bits_def Let_def)
next
  case False
  then show ?thesis using assms by (simp add: is_napot_def pmp_region_def napot_bits_def)
qed

lemma napot_matches:
  assumes ok: "pmp_input_ok p sc es paddr" and i: "i < length es" and n: "is_napot p (es ! i)"
  defines "K \<equiv> area_bits p sc"
  shows "matches_any p sc paddr es i \<longleftrightarrow> (\<exists>y. y div 2 ^ K = paddr div 4 div 2 ^ K \<and> pmp_region (pmp_grain p) es i y)"
    and "matches_any p sc paddr es i \<Longrightarrow> matches_all p sc paddr es i \<longleftrightarrow>
      (\<forall>y. y div 2 ^ K = paddr div 4 div 2 ^ K \<longrightarrow> pmp_region (pmp_grain p) es i y)"
proof -
  let ?W = "pmp_addr_bits p - 2" and ?e = "es ! i" and ?m = "napot_bits p (es ! i)"
  define M where "M = max K (min ?W ?m)"
  have g: "pmp_grain p \<le> ?W" using ok by (simp add: pmp_input_ok_def)
  have K: "K \<le> ?W" unfolding K_def by (rule area_bits_le [OF ok])
  have mask: "napot_mask p ?e = mask (min ?W ?m)" "common_mask p sc ?e = mask M"
    by (simp_all add: napot_mask_eq [OF n g] common_mask_def size_class_mask_eq mask_or_mask M_def K_def)
  have addr: "pmp_addr ?e < 2 ^ ?W" using ok i by (simp add: pmp_input_ok_def list_all_length)
  have bits: "pmp_addr_bits p = ?W + 2" using ok by (auto simp: pmp_input_ok_def)
  have base: "paddr div 4 < 2 ^ ?W" "masked_paddr p paddr div 4 < 2 ^ ?W"
  proof -
    have "(2 :: nat) ^ pmp_addr_bits p = 2 ^ ?W * 4" by (subst bits) (simp add: power_add)
    then have "paddr < 2 ^ ?W * 4" using ok by (simp add: pmp_input_ok_def)
    then show "paddr div 4 < 2 ^ ?W" by (simp add: div_less_iff_less_mult)
    moreover have "masked_paddr p paddr \<le> paddr" by (simp add: masked_paddr_def clear_low_def)
    ultimately show "masked_paddr p paddr div 4 < 2 ^ ?W" using div_le_mono [of "masked_paddr p paddr" paddr 4] by linarith
  qed
  have "M \<le> ?W" using K by (simp add: M_def)
  have block: "paddr div 4 div 2 ^ M = pmp_addr ?e div 2 ^ M \<longleftrightarrow> paddr div 4 div 2 ^ max K ?m = pmp_addr ?e div 2 ^ max K ?m"
  proof (cases "?m \<le> ?W")
    case False
    then have "M = ?W" "?W \<le> max K ?m" using K by (auto simp: M_def)
    moreover have "x div 2 ^ n = 0" if "x < 2 ^ ?W" "?W \<le> n" for x n :: nat
      using that power_increasing [of ?W n "2 :: nat"] by (intro div_less) linarith
    ultimately show ?thesis using base(1) addr by simp
  qed (simp add: M_def min_def)
  have any: "matches_any p sc paddr es i \<longleftrightarrow> paddr div 4 div 2 ^ max K ?m = pmp_addr ?e div 2 ^ max K ?m"
  proof -
    have "matches_any p sc paddr es i \<longleftrightarrow> and_not p (masked_paddr p paddr div 4) (mask M) = and_not p (pmp_addr ?e) (mask M)"
      by (simp only: matches_any_def Let_def n mask if_True)
    also have "\<dots> \<longleftrightarrow> masked_paddr p paddr div 4 div 2 ^ M = pmp_addr ?e div 2 ^ M"
      by (rule and_not_eq_iff [OF base(2) addr \<open>M \<le> ?W\<close>])
    also have "masked_paddr p paddr div 4 div 2 ^ M = paddr div 4 div 2 ^ M"
      by (rule masked_paddr_div [OF ok]) (simp add: M_def K_def)
    finally show ?thesis unfolding block .
  qed
  show "matches_any p sc paddr es i \<longleftrightarrow> (\<exists>y. y div 2 ^ K = paddr div 4 div 2 ^ K \<and> pmp_region (pmp_grain p) es i y)"
    unfolding napot_region [OF n] block_any by (rule any)
  show "matches_all p sc paddr es i \<longleftrightarrow> (\<forall>y. y div 2 ^ K = paddr div 4 div 2 ^ K \<longrightarrow> pmp_region (pmp_grain p) es i y)"
    if some: "matches_any p sc paddr es i"
  proof -
    obtain y where "y div 2 ^ K = paddr div 4 div 2 ^ K" "y div 2 ^ ?m = pmp_addr ?e div 2 ^ ?m"
      using iffD2 [OF block_any iffD1 [OF any some]] by blast
    then have "(\<forall>y. y div 2 ^ K = paddr div 4 div 2 ^ K \<longrightarrow> pmp_region (pmp_grain p) es i y) \<longleftrightarrow> K \<le> ?m"
      unfolding napot_region [OF n] by (rule block_all)
    moreover have "matches_all p sc paddr es i \<longleftrightarrow> K \<le> ?m"
      using n K by (auto simp: matches_all_def Let_def mask mask_eq_iff_nat M_def)
    ultimately show ?thesis by simp
  qed
qed

lemma tor_region:
  assumes "cfg_A (es ! i) = PMPA_TOR"
  shows "pmp_region (pmp_grain p) es i y \<longleftrightarrow>
    tor_bottom p es i \<le> y div 2 ^ pmp_grain p \<and> y div 2 ^ pmp_grain p < pmp_addr (es ! i) div 2 ^ pmp_grain p"
  using assms by (simp add: pmp_region_def tor_bottom_def)

text \<open>A range entry that is not degenerate, or any range entry on an area inside one grain.\<close>

lemma tor_matches:
  assumes ok: "pmp_input_ok p sc es paddr" and t: "cfg_A (es ! i) = PMPA_TOR" and proper: "tor_proper p es i \<or> area_bits p sc = pmp_grain p"
  defines "K \<equiv> area_bits p sc"
  shows "matches_any p sc paddr es i \<longleftrightarrow> (\<exists>y. y div 2 ^ K = paddr div 4 div 2 ^ K \<and> pmp_region (pmp_grain p) es i y)"
    and "matches_all p sc paddr es i \<longleftrightarrow> (\<forall>y. y div 2 ^ K = paddr div 4 div 2 ^ K \<longrightarrow> pmp_region (pmp_grain p) es i y)"
proof -
  let ?g = "pmp_grain p" and ?b = "tor_bottom p es i" and ?t = "pmp_addr (es ! i) div 2 ^ pmp_grain p"
  define lo hi where "lo = paddr div 4 div 2 ^ K * 2 ^ (K - ?g)" and "hi = addr_hi p sc paddr"
  have g: "?g \<le> K" by (simp add: K_def area_bits_def)
  have hi: "(paddr div 4 OR (2 ^ K - 1)) div 2 ^ ?g = hi"
    by (simp add: hi_def addr_hi_def size_class_mask_def K_def area_bits_def)
  have first: "masked_paddr p paddr div 2 ^ (2 + ?g) = lo" unfolding lo_def K_def by (rule masked_paddr_first [OF ok])
  have le: "lo \<le> hi" and single: "K = ?g \<Longrightarrow> lo = hi"
  proof -
    have "hi = lo + (2 ^ (K - ?g) - 1)" using or_mask_div [OF g, of "paddr div 4"] unfolding hi lo_def .
    then show "lo \<le> hi" by linarith
    show "K = ?g \<Longrightarrow> lo = hi" using \<open>hi = lo + (2 ^ (K - ?g) - 1)\<close> by simp
  qed
  have matches: "matches_any p sc paddr es i \<longleftrightarrow> ?b \<le> hi \<and> lo < ?t" "matches_all p sc paddr es i \<longleftrightarrow> ?b \<le> lo \<and> hi < ?t"
    using t first by (simp_all add: matches_any_def matches_all_def is_napot_def Let_def hi_def)
  have grains: "(\<exists>y. y div 2 ^ K = paddr div 4 div 2 ^ K \<and> R (y div 2 ^ ?g)) \<longleftrightarrow> (\<exists>h. lo \<le> h \<and> h \<le> hi \<and> R h)" for R
    using grains_of_area [OF g, of "paddr div 4" R] unfolding hi lo_def by simp
  show "matches_any p sc paddr es i \<longleftrightarrow> (\<exists>y. y div 2 ^ K = paddr div 4 div 2 ^ K \<and> pmp_region ?g es i y)"
  proof -
    have "(\<exists>h. lo \<le> h \<and> h \<le> hi \<and> ?b \<le> h \<and> h < ?t) \<longleftrightarrow> ?b \<le> hi \<and> lo < ?t"
    proof
      assume "?b \<le> hi \<and> lo < ?t"
      then show "\<exists>h. lo \<le> h \<and> h \<le> hi \<and> ?b \<le> h \<and> h < ?t"
        using proper t le single by (intro exI [of _ "max lo ?b"]) (auto simp: tor_proper_def K_def)
    qed auto
    then show ?thesis unfolding matches tor_region [of es i p, OF t] using grains [of "\<lambda>h. ?b \<le> h \<and> h < ?t"] by simp
  qed
  have "(\<forall>h. lo \<le> h \<and> h \<le> hi \<longrightarrow> ?b \<le> h \<and> h < ?t) \<longleftrightarrow> ?b \<le> lo \<and> hi < ?t"
    using le by (auto dest: le_less_trans)
  then show "matches_all p sc paddr es i \<longleftrightarrow> (\<forall>y. y div 2 ^ K = paddr div 4 div 2 ^ K \<longrightarrow> pmp_region ?g es i y)"
    unfolding matches tor_region [of es i p, OF t] using grains [of "\<lambda>h. \<not> (?b \<le> h \<and> h < ?t)"] by blast
qed

text \<open>
  A degenerate range covers no word, but it is taken to touch an area of several grains that reaches from its bottom, or above, down
  below its top.
\<close>

definition empty_range_inside :: "nat \<Rightarrow> pmp_entry list \<Rightarrow> nat \<Rightarrow> nat list \<Rightarrow> bool" where
  "empty_range_inside grain es i ys \<longleftrightarrow>
     (let bottom = (if i > 0 then pmp_addr (es ! (i - 1)) div 2 ^ grain else 0); top = pmp_addr (es ! i) div 2 ^ grain
      in cfg_A (es ! i) = PMPA_TOR \<and> top \<le> bottom \<and> list_ex (\<lambda>y. bottom \<le> y div 2 ^ grain) ys \<and> list_ex (\<lambda>y. y div 2 ^ grain < top) ys)"

lemma tor_empty:
  assumes ok: "pmp_input_ok p sc es paddr" and t: "cfg_A (es ! i) = PMPA_TOR" and improper: "\<not> tor_proper p es i"
  shows "\<not> pmp_region (pmp_grain p) es i y"
    and "matches_any p sc paddr es i \<Longrightarrow> \<not> matches_all p sc paddr es i \<and> area_bits p sc \<noteq> pmp_grain p \<and>
      empty_range_inside (pmp_grain p) es i (area_words (size_classes p ! sc) paddr)"
proof -
  let ?g = "pmp_grain p" and ?b = "tor_bottom p es i" and ?t = "pmp_addr (es ! i) div 2 ^ pmp_grain p" and ?K = "area_bits p sc"
  let ?lo = "paddr div 4 div 2 ^ ?K * 2 ^ (?K - ?g)"
  have empty: "?t \<le> ?b" using improper t by (simp add: tor_proper_def)
  then show "\<not> pmp_region ?g es i y" unfolding tor_region [of es i p, OF t] by simp
  have g: "?g \<le> ?K" by (simp add: area_bits_def)
  have hi: "(paddr div 4 OR (2 ^ ?K - 1)) div 2 ^ ?g = addr_hi p sc paddr"
    by (simp add: addr_hi_def size_class_mask_def area_bits_def)
  have le: "addr_hi p sc paddr = ?lo + (2 ^ (?K - ?g) - 1)" using or_mask_div [OF g, of "paddr div 4"] unfolding hi .
  assume any: "matches_any p sc paddr es i"
  have matches: "?b \<le> addr_hi p sc paddr \<and> ?lo < ?t" "matches_all p sc paddr es i \<longleftrightarrow> ?b \<le> ?lo \<and> addr_hi p sc paddr < ?t"
    using any t masked_paddr_first [OF ok] by (simp_all add: matches_any_def matches_all_def is_napot_def Let_def)
  have several: "?K \<noteq> ?g"
  proof
    assume "?K = ?g"
    then show False using matches(1) le empty by simp
  qed
  then have K: "?K = size_classes p ! sc - 2" by (auto simp: area_bits_def)
  have "2 ^ (size_classes p ! sc) dvd paddr" using ok by (simp add: pmp_input_ok_def)
  note words = area_words_set [OF this]
  have grains: "list_ex (\<lambda>y. R (y div 2 ^ ?g)) (area_words (size_classes p ! sc) paddr) \<longleftrightarrow> (\<exists>h. ?lo \<le> h \<and> h \<le> addr_hi p sc paddr \<and> R h)" for R
    using grains_of_area [OF g, of "paddr div 4" R] unfolding hi list_ex_iff words K [symmetric] by auto
  have ends: "list_ex (\<lambda>y. ?b \<le> y div 2 ^ ?g) (area_words (size_classes p ! sc) paddr)" "list_ex (\<lambda>y. y div 2 ^ ?g < ?t) (area_words (size_classes p ! sc) paddr)"
  proof -
    have "?lo \<le> addr_hi p sc paddr" unfolding le by (rule le_add1)
    then show "list_ex (\<lambda>y. ?b \<le> y div 2 ^ ?g) (area_words (size_classes p ! sc) paddr)"
      unfolding grains [of "\<lambda>h. ?b \<le> h"] using matches(1) by (intro exI [of _ "addr_hi p sc paddr"]) blast
    show "list_ex (\<lambda>y. y div 2 ^ ?g < ?t) (area_words (size_classes p ! sc) paddr)"
      unfolding grains [of "\<lambda>h. h < ?t"] using matches(1) \<open>?lo \<le> addr_hi p sc paddr\<close> by (intro exI [of _ ?lo]) blast
  qed
  then have "empty_range_inside ?g es i (area_words (size_classes p ! sc) paddr)"
    using t empty by (simp add: empty_range_inside_def tor_bottom_def Let_def)
  moreover have "\<not> matches_all p sc paddr es i" using matches(2) empty le by linarith
  ultimately show "\<not> matches_all p sc paddr es i \<and> ?K \<noteq> ?g \<and> empty_range_inside ?g es i (area_words (size_classes p ! sc) paddr)"
    using several by blast
qed

lemma entry_matches:
  assumes ok: "pmp_input_ok p sc es paddr" and i: "i < length es" and proper: "tor_proper p es i \<or> area_bits p sc = pmp_grain p"
  shows "matches_any p sc paddr es i \<longleftrightarrow> list_ex (pmp_region (pmp_grain p) es i) (area_words (size_classes p ! sc) paddr)"
    and "matches_any p sc paddr es i \<Longrightarrow> matches_all p sc paddr es i \<longleftrightarrow>
      list_all (pmp_region (pmp_grain p) es i) (area_words (size_classes p ! sc) paddr)"
proof -
  let ?c = "size_classes p ! sc" and ?Q = "pmp_region (pmp_grain p) es i" and ?K = "area_bits p sc"
  have "2 ^ ?c dvd paddr" using ok by (simp add: pmp_input_ok_def)
  note words = area_words_set [OF this]
  have ex: "list_ex ?Q (area_words ?c paddr) \<longleftrightarrow> (\<exists>y. y div 2 ^ ?K = paddr div 4 div 2 ^ ?K \<and> ?Q y)"
    and all: "list_all ?Q (area_words ?c paddr) \<longleftrightarrow> (\<forall>y. y div 2 ^ ?K = paddr div 4 div 2 ^ ?K \<longrightarrow> ?Q y)"
    unfolding list_ex_iff list_all_iff words area_bits_def
    using area_extend [where Q = ?Q and k = "?c - 2" and b = "paddr div 4" and g = "pmp_grain p", OF region_grain]
    by auto
  have off: "\<not> is_napot p (es ! i) \<Longrightarrow> cfg_A (es ! i) \<noteq> PMPA_TOR \<Longrightarrow> \<not> matches_any p sc paddr es i \<and> \<not> ?Q y" for y
    by (cases "cfg_A (es ! i)") (auto simp: matches_any_def is_napot_def pmp_region_def Let_def)
  show "matches_any p sc paddr es i \<longleftrightarrow> list_ex ?Q (area_words ?c paddr)"
    unfolding ex using napot_matches(1) [OF ok i] tor_matches(1) [OF ok _ proper] off by blast
  show "matches_any p sc paddr es i \<Longrightarrow> matches_all p sc paddr es i \<longleftrightarrow> list_all ?Q (area_words ?c paddr)"
    unfolding all using napot_matches(2) [OF ok i] tor_matches(2) [OF ok _ proper] off by blast
qed

section \<open>The checker implements the architecture\<close>

lemma find_map_index: "find fst (map (\<lambda>i. (P i, f i)) xs) = map_option (\<lambda>i. (P i, f i)) (find P xs)"
  by (induction xs) auto

lemma find_upt_Some: "find P [0..<n] = Some i \<Longrightarrow> i < n \<and> P i \<and> (\<forall>j < i. \<not> P j)"
  by (auto simp: find_Some_iff)

lemma find_upt: "i < n \<Longrightarrow> P i \<Longrightarrow> (\<And>j. j < i \<Longrightarrow> \<not> P j) \<Longrightarrow> find P [0..<n] = Some i"
  unfolding find_Some_iff by (intro exI [of _ i]) simp

lemma effective_machine:
  "mode \<noteq> PMP_MMU \<Longrightarrow> \<not> (mode = PMP_LSU \<and> mprv \<and> mpp = Priv_MACHINE) \<Longrightarrow>
   effective_priv_mode mode priv mprv mpp = priv_value Priv_MACHINE \<longleftrightarrow> (if mode = PMP_LSU \<and> mprv then mpp else priv) = Priv_MACHINE"
  by (cases mode; cases mpp; cases priv) (auto simp: effective_priv_mode_def)

text \<open>The entry that decides is that of the architecture, unless it is an empty range inside the area.\<close>

lemma entry_decides:
  assumes ok: "pmp_input_ok p sc es paddr" and i: "i < length es"
  defines "ys \<equiv> area_words (size_classes p ! sc) paddr"
  shows "list_ex (pmp_region (pmp_grain p) es i) ys \<Longrightarrow>
      matches_any p sc paddr es i \<and> (matches_all p sc paddr es i \<longleftrightarrow> list_all (pmp_region (pmp_grain p) es i) ys)"
    and "matches_any p sc paddr es i \<Longrightarrow> \<not> list_ex (pmp_region (pmp_grain p) es i) ys \<Longrightarrow>
      \<not> matches_all p sc paddr es i \<and> area_bits p sc \<noteq> pmp_grain p \<and> empty_range_inside (pmp_grain p) es i ys"
proof -
  have improper: "cfg_A (es ! i) = PMPA_TOR" if "\<not> tor_proper p es i" using that by (simp add: tor_proper_def)
  show "list_ex (pmp_region (pmp_grain p) es i) ys \<Longrightarrow>
      matches_any p sc paddr es i \<and> (matches_all p sc paddr es i \<longleftrightarrow> list_all (pmp_region (pmp_grain p) es i) ys)"
    using entry_matches [OF ok i] tor_empty(1) [OF ok improper] unfolding ys_def list_ex_iff by (cases "tor_proper p es i") blast+
  show "matches_any p sc paddr es i \<Longrightarrow> \<not> list_ex (pmp_region (pmp_grain p) es i) ys \<Longrightarrow>
      \<not> matches_all p sc paddr es i \<and> area_bits p sc \<noteq> pmp_grain p \<and> empty_range_inside (pmp_grain p) es i ys"
    using entry_matches(1) [OF ok i] tor_empty(2) [OF ok improper] unfolding ys_def by (cases "tor_proper p es i") blast+
qed

lemma pmp_decision:
  assumes "priority_mux_spec mux" "pmp_input_ok p sc es paddr" "\<not> (mode = PMP_LSU \<and> mprv \<and> mpp = Priv_MACHINE)"
  shows "DynamicAreaPMPChecker mux p mode priv mprv mpp es sc paddr =
      pmp_reference (pmp_grain p) mode ((if mode = PMP_LSU \<and> mprv then mpp else priv) = Priv_MACHINE) es (size_classes p ! sc) paddr \<or>
    DynamicAreaPMPChecker mux p mode priv mprv mpp es sc paddr = (False, no_access) \<and>
      (\<exists>i < length es. empty_range_inside (pmp_grain p) es i (area_words (size_classes p ! sc) paddr) \<and>
        (\<forall>j < i. \<not> list_ex (pmp_region (pmp_grain p) es j) (area_words (size_classes p ! sc) paddr)))"
proof -
  let ?ys = "area_words (size_classes p ! sc) paddr" and ?Q = "pmp_region (pmp_grain p) es"
  let ?small = "list_all (\<lambda>c. c \<le> pmp_grain p + 2) (size_classes p)"
  have one: "area_bits p sc = pmp_grain p" if ?small
    using that assms(2) by (auto simp: pmp_input_ok_def area_bits_def list_all_length)
  note decides = entry_decides [OF assms(2)]
  have small_all: "list_all (?Q i) ?ys" if "?small" and some: "list_ex (?Q i) ?ys" for i
  proof -
    have "2 ^ (size_classes p ! sc) dvd paddr" using assms(2) by (simp add: pmp_input_ok_def)
    note words = area_words_set [OF this]
    have le: "size_classes p ! sc - 2 \<le> pmp_grain p" using one [OF \<open>?small\<close>] by (simp add: area_bits_def max_def split: if_splits)
    have "y div 2 ^ pmp_grain p = y' div 2 ^ pmp_grain p" if "y \<in> set ?ys" "y' \<in> set ?ys" for y y'
      by (rule div_pow_mono [OF le]) (use that words in \<open>simp only: mem_Collect_eq\<close>)
    moreover obtain y0 where "y0 \<in> set ?ys" "?Q i y0" using some unfolding list_ex_iff by blast
    ultimately show ?thesis unfolding list_all_iff using region_grain by blast
  qed
  show ?thesis
  proof (cases "find (matches_any p sc paddr es) [0..<length es]")
    case None
    then have "find (\<lambda>i. list_ex (?Q i) ?ys) [0..<length es] = None" using decides(1) by (auto simp: find_None_iff)
    moreover have "pmp_select mux p sc paddr es = \<lparr>sel_all = True, sel_data = no_access, sel_l = False\<rparr>"
      using assms(1) None by (simp add: pmp_select_def priority_mux_spec_def find_map_index)
    ultimately show ?thesis using effective_machine [OF _ assms(3)]
      by (auto simp: DynamicAreaPMPChecker_def pmp_reference_def Let_def)
  next
    case (Some i)
    note first = find_upt_Some [OF Some]
    then have i: "i < length es" "matches_any p sc paddr es i" by blast+
    have not_before: "\<not> list_ex (?Q j) ?ys" if "j < i" for j using first decides(1) [of j] that i(1) by (meson less_trans)
    have sel: "pmp_select mux p sc paddr es = \<lparr>sel_all = matches_all p sc paddr es i, sel_data = entry_data (es ! i), sel_l = cfg_L (es ! i)\<rparr>"
      using assms(1) Some by (simp add: pmp_select_def priority_mux_spec_def find_map_index)
    show ?thesis
    proof (cases "list_ex (?Q i) ?ys")
      case True
      have found: "find (\<lambda>i. list_ex (?Q i) ?ys) [0..<length es] = Some i"
        by (rule find_upt [where P = "\<lambda>i. list_ex (?Q i) ?ys"]) (use i(1) True not_before in simp_all)
      note e = decides(1) [OF i(1) True]
      define M where "M \<longleftrightarrow> (if mode = PMP_LSU \<and> mprv then mpp else priv) = Priv_MACHINE"
      have "mode \<noteq> PMP_MMU \<and> \<not> cfg_L (es ! i) \<and> effective_priv_mode mode priv mprv mpp = priv_value Priv_MACHINE \<longleftrightarrow>
          mode \<noteq> PMP_MMU \<and> M \<and> \<not> cfg_L (es ! i)"
        unfolding M_def using effective_machine [OF _ assms(3)] by blast
      moreover have "es \<noteq> []" using i(1) by auto
      ultimately have "DynamicAreaPMPChecker mux p mode priv mprv mpp es sc paddr =
          (list_all (?Q i) ?ys, if \<not> list_all (?Q i) ?ys then no_access
             else if mode \<noteq> PMP_MMU \<and> M \<and> \<not> cfg_L (es ! i) then full_access else entry_data (es ! i))"
        unfolding DynamicAreaPMPChecker_def Let_def sel pmp_selected.simps using conjunct2 [OF e] small_all [OF _ True]
        by (cases ?small) (simp_all only: if_True if_False simp_thms)
      then show ?thesis unfolding M_def [symmetric] pmp_reference_def Let_def found by simp
    next
      case False
      note e = decides(2) [OF i(1) i(2) False]
      then have "\<not> ?small" using one by blast
      then have "DynamicAreaPMPChecker mux p mode priv mprv mpp es sc paddr = (False, no_access)"
        using sel e i(1) by (auto simp: DynamicAreaPMPChecker_def Let_def)
      then show ?thesis using e i(1) not_before by blast
    qed
  qed
qed

text \<open>The permissions of the second include those of the first.\<close>

definition grants_at_most :: "pmp_result \<Rightarrow> pmp_result \<Rightarrow> bool" where
  "grants_at_most r r' \<longleftrightarrow> (res_r r \<longrightarrow> res_r r') \<and> (res_w r \<longrightarrow> res_w r') \<and> (res_x r \<longrightarrow> res_x r')"

lemma pmp_reference_machine:
  "grants_at_most (snd (pmp_reference grain mode False es sc paddr)) (snd (pmp_reference grain mode machine es sc paddr))"
  by (auto simp: pmp_reference_def grants_at_most_def Let_def split: option.split)

text \<open>
  C17. On every aligned area of a supported size the checker grants nothing that the privileged architecture denies, and it decides
  exactly as that prescribes but for two cases. The architecture: the entry of lowest index that covers some word of the area is
  decisive; if it does not cover all of it the access fails; otherwise its permissions apply, except that machine mode is only
  restricted by locked entries; and without a matching entry only machine mode has access. The first case are data accesses with
  MPRV set and MPP machine mode: the selected privilege goes through a signal of one bit, so that they are checked as those of
  a lower mode. The second are areas of several grains with an empty range inside: they may be denied, though the range covers no word of them and no
  earlier entry does.
\<close>

theorem pmp_checker_correct:
  assumes "priority_mux_spec mux" "pmp_input_ok p sc es paddr"
  shows "let checked = DynamicAreaPMPChecker mux p mode priv mprv mpp es sc paddr;
      reference = (\<lambda>machine. pmp_reference (pmp_grain p) mode machine es (size_classes p ! sc) paddr);
      machine = ((if mode = PMP_LSU \<and> mprv then mpp else priv) = Priv_MACHINE)
    in (checked = reference (machine \<and> \<not> (mode = PMP_LSU \<and> mprv \<and> mpp = Priv_MACHINE)) \<or>
        checked = (False, no_access) \<and>
          (\<exists>i < length es. empty_range_inside (pmp_grain p) es i (area_words (size_classes p ! sc) paddr) \<and>
        (\<forall>j < i. \<not> list_ex (pmp_region (pmp_grain p) es j) (area_words (size_classes p ! sc) paddr)))) \<and>
      grants_at_most (snd checked) (snd (reference machine))"
proof -
  let ?truncated = "mode = PMP_LSU \<and> mprv \<and> mpp = Priv_MACHINE" and ?m = "(if mode = PMP_LSU \<and> mprv then mpp else priv) = Priv_MACHINE"
  let ?ref = "\<lambda>machine. pmp_reference (pmp_grain p) mode machine es (size_classes p ! sc) paddr"
  let ?c = "DynamicAreaPMPChecker mux p mode priv mprv mpp es sc paddr"
  let ?empty = "\<exists>i < length es. empty_range_inside (pmp_grain p) es i (area_words (size_classes p ! sc) paddr) \<and>
    (\<forall>j < i. \<not> list_ex (pmp_region (pmp_grain p) es j) (area_words (size_classes p ! sc) paddr))"
  have d: "?c = ?ref (?m \<and> \<not> ?truncated) \<or> ?c = (False, no_access) \<and> ?empty"
  proof (cases ?truncated)
    case True
    then have "?c = DynamicAreaPMPChecker mux p mode priv mprv Priv_SUPERVISOR es sc paddr"
      by (simp add: DynamicAreaPMPChecker_def effective_priv_mode_def)
    then show ?thesis using pmp_decision [OF assms, of mode mprv Priv_SUPERVISOR priv] True by simp
  next
    case False
    show ?thesis using pmp_decision [OF assms False, of priv] False by simp
  qed
  have "grants_at_most (snd (?ref (?m \<and> \<not> ?truncated))) (snd (?ref ?m))"
  proof (cases ?truncated)
    case True
    then show ?thesis using pmp_reference_machine [of "pmp_grain p" mode es "size_classes p ! sc" paddr] by simp
  qed (auto simp: grants_at_most_def)
  then have "grants_at_most (snd ?c) (snd (?ref ?m))" using d by (elim disjE) (auto simp: grants_at_most_def)
  then show ?thesis using d by (simp only: Let_def simp_thms)
qed

lemma first_mux_priority: "priority_mux_spec first_mux"
  by (simp add: priority_mux_spec_def first_mux_def)

definition example_pmp :: "pmp_entry list" where
  "example_pmp = [\<lparr>cfg_R = True, cfg_W = False, cfg_X = False, cfg_A = PMPA_NAPOT, cfg_L = False, pmp_addr = 3\<rparr>]"

lemma trailing_ones_3: "trailing_ones 3 = 2"
  by (simp add: trailing_ones.simps [of 3] trailing_ones.simps [of "Suc 0"] trailing_ones.simps [of 0])

theorem pmp_checker_correct_witness:
  "DynamicAreaPMPChecker first_mux \<lparr>pmp_addr_bits = 34, pmp_grain = 0, size_classes = [2]\<rparr> PMP_LSU Priv_USER False Priv_USER example_pmp 0 8 =
    (True, \<lparr>res_r = True, res_w = False, res_x = False\<rparr>)"
proof -
  let ?p = "\<lparr>pmp_addr_bits = 34, pmp_grain = 0, size_classes = [2]\<rparr>"
  have "pmp_input_ok ?p 0 example_pmp 8" by (simp add: pmp_input_ok_def example_pmp_def)
  from pmp_checker_correct [OF first_mux_priority this, of PMP_LSU Priv_USER False Priv_USER] show ?thesis
    by (simp add: pmp_reference_def example_pmp_def area_words_def pmp_region_def trailing_ones_3 entry_data_def empty_range_inside_def Let_def)
qed

text \<open>Both cases occur: an area that no entry matches is denied although machine mode has access to it, and one around an empty range as well.\<close>

lemma pmp_departures:
  "DynamicAreaPMPChecker first_mux \<lparr>pmp_addr_bits = 34, pmp_grain = 0, size_classes = [2]\<rparr> PMP_LSU Priv_MACHINE True Priv_MACHINE example_pmp 0 64 =
     (True, no_access)"
  "pmp_reference 0 PMP_LSU True example_pmp 2 64 = (True, full_access)"
  "DynamicAreaPMPChecker first_mux \<lparr>pmp_addr_bits = 34, pmp_grain = 0, size_classes = [4]\<rparr> PMP_INSTRUCTION_FETCH Priv_MACHINE False Priv_USER
     [(hd example_pmp)\<lparr>cfg_A := PMPA_OFF, pmp_addr := 2\<rparr>, (hd example_pmp)\<lparr>cfg_A := PMPA_TOR, pmp_addr := 2\<rparr>] 0 0 = (False, no_access)"
proof -
  let ?p = "\<lparr>pmp_addr_bits = 34, pmp_grain = 0, size_classes = [2]\<rparr>"
  have "pmp_input_ok ?p 0 example_pmp 64" by (simp add: pmp_input_ok_def example_pmp_def)
  from pmp_decision [OF first_mux_priority this, of PMP_LSU True Priv_SUPERVISOR Priv_MACHINE]
  have "DynamicAreaPMPChecker first_mux ?p PMP_LSU Priv_MACHINE True Priv_SUPERVISOR example_pmp 0 64 = (True, no_access)"
    by (simp add: pmp_reference_def example_pmp_def area_words_def pmp_region_def trailing_ones_3 empty_range_inside_def Let_def)
  moreover have "DynamicAreaPMPChecker first_mux ?p PMP_LSU Priv_MACHINE True Priv_MACHINE =
    DynamicAreaPMPChecker first_mux ?p PMP_LSU Priv_MACHINE True Priv_SUPERVISOR"
    by (simp add: fun_eq_iff DynamicAreaPMPChecker_def effective_priv_mode_def)
  ultimately show "DynamicAreaPMPChecker first_mux ?p PMP_LSU Priv_MACHINE True Priv_MACHINE example_pmp 0 64 = (True, no_access)"
    by (simp only:)
  show "pmp_reference 0 PMP_LSU True example_pmp 2 64 = (True, full_access)"
    by (simp add: pmp_reference_def example_pmp_def area_words_def pmp_region_def trailing_ones_3)
  show "DynamicAreaPMPChecker first_mux \<lparr>pmp_addr_bits = 34, pmp_grain = 0, size_classes = [4]\<rparr> PMP_INSTRUCTION_FETCH Priv_MACHINE False Priv_USER
     [(hd example_pmp)\<lparr>cfg_A := PMPA_OFF, pmp_addr := 2\<rparr>, (hd example_pmp)\<lparr>cfg_A := PMPA_TOR, pmp_addr := 2\<rparr>] 0 0 = (False, no_access)"
    by (simp add: DynamicAreaPMPChecker_def pmp_select_def first_mux_def matches_any_def matches_all_def is_napot_def tor_bottom_def addr_hi_def
        size_class_mask_def masked_paddr_def clear_low_def example_pmp_def)
qed

end
