(* ===== verification/Csr_Address.thy ===== *)
theory Csr_Address
  imports Isa_Consts
begin

text \<open>
  The addresses of the control and status registers and the offsets of their fields
  (\<^verbatim>\<open>arch/csr_address.py\<close>), as tables from names to numbers in the order of the source, and the access
  rights that the unit for CSR instructions reads off an address
  (\<^verbatim>\<open>func_blocks/csr/csr_unit.py\<close>, \<^verbatim>\<open>_csr_access_privilege\<close>).
\<close>

section \<open>Addresses\<close>

definition unprivileged_csrs :: "(string \<times> nat) list" where
  "unprivileged_csrs =
    [(''FFLAGS'', 1), (''FRM'', 2), (''FCSR'', 3), (''SSP'', 17), (''CYCLE'', 3072), (''TIME'', 3073),
     (''INSTRET'', 3074), (''HPMCOUNTER3'', 3075), (''HPMCOUNTER4'', 3076), (''HPMCOUNTER5'', 3077),
     (''HPMCOUNTER6'', 3078), (''HPMCOUNTER7'', 3079), (''HPMCOUNTER8'', 3080), (''HPMCOUNTER9'', 3081),
     (''HPMCOUNTER10'', 3082), (''HPMCOUNTER11'', 3083), (''HPMCOUNTER12'', 3084), (''HPMCOUNTER13'', 3085),
     (''HPMCOUNTER14'', 3086), (''HPMCOUNTER15'', 3087), (''HPMCOUNTER16'', 3088), (''HPMCOUNTER17'', 3089),
     (''HPMCOUNTER18'', 3090), (''HPMCOUNTER19'', 3091), (''HPMCOUNTER20'', 3092), (''HPMCOUNTER21'', 3093),
     (''HPMCOUNTER22'', 3094), (''HPMCOUNTER23'', 3095), (''HPMCOUNTER24'', 3096), (''HPMCOUNTER25'', 3097),
     (''HPMCOUNTER26'', 3098), (''HPMCOUNTER27'', 3099), (''HPMCOUNTER28'', 3100), (''HPMCOUNTER29'', 3101),
     (''HPMCOUNTER30'', 3102), (''HPMCOUNTER31'', 3103), (''CYCLEH'', 3200), (''TIMEH'', 3201),
     (''INSTRETH'', 3202), (''HPMCOUNTER3H'', 3203), (''HPMCOUNTER4H'', 3204), (''HPMCOUNTER5H'', 3205),
     (''HPMCOUNTER6H'', 3206), (''HPMCOUNTER7H'', 3207), (''HPMCOUNTER8H'', 3208), (''HPMCOUNTER9H'', 3209),
     (''HPMCOUNTER10H'', 3210), (''HPMCOUNTER11H'', 3211), (''HPMCOUNTER12H'', 3212), (''HPMCOUNTER13H'', 3213),
     (''HPMCOUNTER14H'', 3214), (''HPMCOUNTER15H'', 3215), (''HPMCOUNTER16H'', 3216), (''HPMCOUNTER17H'', 3217),
     (''HPMCOUNTER18H'', 3218), (''HPMCOUNTER19H'', 3219), (''HPMCOUNTER20H'', 3220), (''HPMCOUNTER21H'', 3221),
     (''HPMCOUNTER22H'', 3222), (''HPMCOUNTER23H'', 3223), (''HPMCOUNTER24H'', 3224), (''HPMCOUNTER25H'', 3225),
     (''HPMCOUNTER26H'', 3226), (''HPMCOUNTER27H'', 3227), (''HPMCOUNTER28H'', 3228), (''HPMCOUNTER29H'', 3229),
     (''HPMCOUNTER30H'', 3230), (''HPMCOUNTER31H'', 3231)]"

definition supervisor_csrs :: "(string \<times> nat) list" where
  "supervisor_csrs =
    [(''SSTATUS'', 256), (''SIE'', 260), (''STVEC'', 261), (''SCOUNTEREN'', 262), (''SENVCFG'', 266),
     (''SCOUNTINHIBIT'', 288), (''SSCRATCH'', 320), (''SEPC'', 321), (''SCAUSE'', 322), (''STVAL'', 323),
     (''SIP'', 324), (''SCOUNTOVF'', 3488), (''SATP'', 384), (''STIMECMP'', 333), (''STIMECMPH'', 349),
     (''SCONTEXT'', 1448), (''SSTATEEN0'', 268), (''SSTATEEN1'', 269), (''SSTATEEN2'', 270), (''SSTATEEN3'', 271)]"

definition hypervisor_csrs :: "(string \<times> nat) list" where
  "hypervisor_csrs =
    [(''HSTATUS'', 1536), (''HEDELEG'', 1538), (''HIDELEG'', 1539), (''HIE'', 1540), (''HCOUNTEREN'', 1542),
     (''HGEIE'', 1543), (''HEDELEGH'', 1554), (''HTVAL'', 1603), (''HIP'', 1604), (''HVIP'', 1605),
     (''HTINST'', 1610), (''HGEIP'', 3602), (''HENVCFG'', 1546), (''HENVCFGH'', 1562), (''HGATP'', 1664),
     (''HCONTEXT'', 1704), (''HTIMEDELTA'', 1541), (''HTIMEDELTAH'', 1557), (''HSTATEEN0'', 1548),
     (''HSTATEEN1'', 1549), (''HSTATEEN2'', 1550), (''HSTATEEN3'', 1551), (''HSTATEEN0H'', 1564),
     (''HSTATEEN1H'', 1565), (''HSTATEEN2H'', 1566), (''HSTATEEN3H'', 1567), (''VSSTATUS'', 512), (''VSIE'', 516),
     (''VSTVEC'', 517), (''VSSCRATCH'', 576), (''VSEPC'', 577), (''VSCAUSE'', 578), (''VSTVAL'', 579),
     (''VSIP'', 580), (''VSATP'', 640)]"

definition machine_csrs :: "(string \<times> nat) list" where
  "machine_csrs =
    [(''MVENDORID'', 3857), (''MARCHID'', 3858), (''MIMPID'', 3859), (''MHARTID'', 3860), (''MCONFIGPTR'', 3861),
     (''MSTATUS'', 768), (''MISA'', 769), (''MEDELEG'', 770), (''MIDELEG'', 771), (''MIE'', 772), (''MTVEC'', 773),
     (''MCOUNTEREN'', 774), (''MSTATUSH'', 784), (''MEDELEGH'', 786), (''MSCRATCH'', 832), (''MEPC'', 833),
     (''MCAUSE'', 834), (''MTVAL'', 835), (''MIP'', 836), (''MTINST'', 842), (''MTVAL2'', 843), (''MENVCFG'', 778),
     (''MENVCFGH'', 794), (''MSECCFG'', 1863), (''MSECCFGH'', 1879)]"

definition machine_pmp_csrs :: "(string \<times> nat) list" where
  "machine_pmp_csrs =
    [(''PMPCFG0'', 928), (''PMPCFG1'', 929), (''PMPCFG2'', 930), (''PMPCFG3'', 931), (''PMPCFG4'', 932),
     (''PMPCFG5'', 933), (''PMPCFG6'', 934), (''PMPCFG7'', 935), (''PMPCFG8'', 936), (''PMPCFG9'', 937),
     (''PMPCFG10'', 938), (''PMPCFG11'', 939), (''PMPCFG12'', 940), (''PMPCFG13'', 941), (''PMPCFG14'', 942),
     (''PMPCFG15'', 943), (''PMPADDR0'', 944), (''PMPADDR1'', 945), (''PMPADDR2'', 946), (''PMPADDR3'', 947),
     (''PMPADDR4'', 948), (''PMPADDR5'', 949), (''PMPADDR6'', 950), (''PMPADDR7'', 951), (''PMPADDR8'', 952),
     (''PMPADDR9'', 953), (''PMPADDR10'', 954), (''PMPADDR11'', 955), (''PMPADDR12'', 956), (''PMPADDR13'', 957),
     (''PMPADDR14'', 958), (''PMPADDR15'', 959), (''PMPADDR16'', 960), (''PMPADDR17'', 961), (''PMPADDR18'', 962),
     (''PMPADDR19'', 963), (''PMPADDR20'', 964), (''PMPADDR21'', 965), (''PMPADDR22'', 966), (''PMPADDR23'', 967),
     (''PMPADDR24'', 968), (''PMPADDR25'', 969), (''PMPADDR26'', 970), (''PMPADDR27'', 971), (''PMPADDR28'', 972),
     (''PMPADDR29'', 973), (''PMPADDR30'', 974), (''PMPADDR31'', 975), (''PMPADDR32'', 976), (''PMPADDR33'', 977),
     (''PMPADDR34'', 978), (''PMPADDR35'', 979), (''PMPADDR36'', 980), (''PMPADDR37'', 981), (''PMPADDR38'', 982),
     (''PMPADDR39'', 983), (''PMPADDR40'', 984), (''PMPADDR41'', 985), (''PMPADDR42'', 986), (''PMPADDR43'', 987),
     (''PMPADDR44'', 988), (''PMPADDR45'', 989), (''PMPADDR46'', 990), (''PMPADDR47'', 991), (''PMPADDR48'', 992),
     (''PMPADDR49'', 993), (''PMPADDR50'', 994), (''PMPADDR51'', 995), (''PMPADDR52'', 996), (''PMPADDR53'', 997),
     (''PMPADDR54'', 998), (''PMPADDR55'', 999), (''PMPADDR56'', 1000), (''PMPADDR57'', 1001),
     (''PMPADDR58'', 1002), (''PMPADDR59'', 1003), (''PMPADDR60'', 1004), (''PMPADDR61'', 1005),
     (''PMPADDR62'', 1006), (''PMPADDR63'', 1007)]"

definition machine_state_csrs :: "(string \<times> nat) list" where
  "machine_state_csrs =
    [(''MSTATEEN0'', 780), (''MSTATEEN1'', 781), (''MSTATEEN2'', 782), (''MSTATEEN3'', 783), (''MSTATEEN0H'', 796),
     (''MSTATEEN1H'', 797), (''MSTATEEN2H'', 798), (''MSTATEEN3H'', 799), (''MNSCRATCH'', 1856), (''MNEPC'', 1857),
     (''MNCAUSE'', 1858), (''MNSTATUS'', 1860)]"

definition machine_counter_csrs :: "(string \<times> nat) list" where
  "machine_counter_csrs =
    [(''MCYCLE'', 2816), (''MINSTRET'', 2818), (''MHPMCOUNTER3'', 2819), (''MHPMCOUNTER4'', 2820),
     (''MHPMCOUNTER5'', 2821), (''MHPMCOUNTER6'', 2822), (''MHPMCOUNTER7'', 2823), (''MHPMCOUNTER8'', 2824),
     (''MHPMCOUNTER9'', 2825), (''MHPMCOUNTER10'', 2826), (''MHPMCOUNTER11'', 2827), (''MHPMCOUNTER12'', 2828),
     (''MHPMCOUNTER13'', 2829), (''MHPMCOUNTER14'', 2830), (''MHPMCOUNTER15'', 2831), (''MHPMCOUNTER16'', 2832),
     (''MHPMCOUNTER17'', 2833), (''MHPMCOUNTER18'', 2834), (''MHPMCOUNTER19'', 2835), (''MHPMCOUNTER20'', 2836),
     (''MHPMCOUNTER21'', 2837), (''MHPMCOUNTER22'', 2838), (''MHPMCOUNTER23'', 2839), (''MHPMCOUNTER24'', 2840),
     (''MHPMCOUNTER25'', 2841), (''MHPMCOUNTER26'', 2842), (''MHPMCOUNTER27'', 2843), (''MHPMCOUNTER28'', 2844),
     (''MHPMCOUNTER29'', 2845), (''MHPMCOUNTER30'', 2846), (''MHPMCOUNTER31'', 2847), (''MCYCLEH'', 2944),
     (''MINSTRETH'', 2946), (''MHPMCOUNTER3H'', 2947), (''MHPMCOUNTER4H'', 2948), (''MHPMCOUNTER5H'', 2949),
     (''MHPMCOUNTER6H'', 2950), (''MHPMCOUNTER7H'', 2951), (''MHPMCOUNTER8H'', 2952), (''MHPMCOUNTER9H'', 2953),
     (''MHPMCOUNTER10H'', 2954), (''MHPMCOUNTER11H'', 2955), (''MHPMCOUNTER12H'', 2956), (''MHPMCOUNTER13H'', 2957),
     (''MHPMCOUNTER14H'', 2958), (''MHPMCOUNTER15H'', 2959), (''MHPMCOUNTER16H'', 2960), (''MHPMCOUNTER17H'', 2961),
     (''MHPMCOUNTER18H'', 2962), (''MHPMCOUNTER19H'', 2963), (''MHPMCOUNTER20H'', 2964), (''MHPMCOUNTER21H'', 2965),
     (''MHPMCOUNTER22H'', 2966), (''MHPMCOUNTER23H'', 2967), (''MHPMCOUNTER24H'', 2968), (''MHPMCOUNTER25H'', 2969),
     (''MHPMCOUNTER26H'', 2970), (''MHPMCOUNTER27H'', 2971), (''MHPMCOUNTER28H'', 2972), (''MHPMCOUNTER29H'', 2973),
     (''MHPMCOUNTER30H'', 2974), (''MHPMCOUNTER31H'', 2975)]"

definition machine_counter_setup_csrs :: "(string \<times> nat) list" where
  "machine_counter_setup_csrs =
    [(''MCOUNTINHIBIT'', 800), (''MHPMEVENT3'', 803), (''MHPMEVENT4'', 804), (''MHPMEVENT5'', 805),
     (''MHPMEVENT6'', 806), (''MHPMEVENT7'', 807), (''MHPMEVENT8'', 808), (''MHPMEVENT9'', 809),
     (''MHPMEVENT10'', 810), (''MHPMEVENT11'', 811), (''MHPMEVENT12'', 812), (''MHPMEVENT13'', 813),
     (''MHPMEVENT14'', 814), (''MHPMEVENT15'', 815), (''MHPMEVENT16'', 816), (''MHPMEVENT17'', 817),
     (''MHPMEVENT18'', 818), (''MHPMEVENT19'', 819), (''MHPMEVENT20'', 820), (''MHPMEVENT21'', 821),
     (''MHPMEVENT22'', 822), (''MHPMEVENT23'', 823), (''MHPMEVENT24'', 824), (''MHPMEVENT25'', 825),
     (''MHPMEVENT26'', 826), (''MHPMEVENT27'', 827), (''MHPMEVENT28'', 828), (''MHPMEVENT29'', 829),
     (''MHPMEVENT30'', 830), (''MHPMEVENT31'', 831), (''MHPMEVENT3H'', 1827), (''MHPMEVENT4H'', 1828),
     (''MHPMEVENT5H'', 1829), (''MHPMEVENT6H'', 1830), (''MHPMEVENT7H'', 1831), (''MHPMEVENT8H'', 1832),
     (''MHPMEVENT9H'', 1833), (''MHPMEVENT10H'', 1834), (''MHPMEVENT11H'', 1835), (''MHPMEVENT12H'', 1836),
     (''MHPMEVENT13H'', 1837), (''MHPMEVENT14H'', 1838), (''MHPMEVENT15H'', 1839), (''MHPMEVENT16H'', 1840),
     (''MHPMEVENT17H'', 1841), (''MHPMEVENT18H'', 1842), (''MHPMEVENT19H'', 1843), (''MHPMEVENT20H'', 1844),
     (''MHPMEVENT21H'', 1845), (''MHPMEVENT22H'', 1846), (''MHPMEVENT23H'', 1847), (''MHPMEVENT24H'', 1848),
     (''MHPMEVENT25H'', 1849), (''MHPMEVENT26H'', 1850), (''MHPMEVENT27H'', 1851), (''MHPMEVENT28H'', 1852),
     (''MHPMEVENT29H'', 1853), (''MHPMEVENT30H'', 1854), (''MHPMEVENT31H'', 1855)]"

definition debug_csrs :: "(string \<times> nat) list" where
  "debug_csrs =
    [(''TSELECT'', 1952), (''TDATA1'', 1953), (''TDATA2'', 1954), (''TDATA3'', 1955), (''MCONTEXT'', 1960),
     (''DCSR'', 1968), (''DPC'', 1969), (''DSCRATCH0'', 1970), (''DSCRATCH1'', 1971)]"

definition internal_csrs :: "(string \<times> nat) list" where
  "internal_csrs =
    [(''COREBLOCKS_TEST_CSR'', 2047), (''COREBLOCKS_TEST_EXIT_CSR'', 2302), (''COREBLOCKS_TEST_PRIV_MODE'', 2303)]"

definition CSRAddress :: "(string \<times> nat) list" where
  "CSRAddress =
     unprivileged_csrs @ supervisor_csrs @ hypervisor_csrs @ machine_csrs @
     machine_pmp_csrs @ machine_state_csrs @ machine_counter_csrs @
     machine_counter_setup_csrs @ debug_csrs @ internal_csrs"

section \<open>Fields\<close>

definition PMPXCFG_WIDTH :: nat where
  "PMPXCFG_WIDTH = 8"

definition MstatusFieldOffsets :: "(string \<times> int) list" where
  "MstatusFieldOffsets =
    [(''SIE'', 1), (''MIE'', 3), (''SPIE'', 5), (''UBE'', 6), (''MPIE'', 7), (''SPP'', 8), (''VS'', 9),
     (''MPP'', 11), (''FS'', 13), (''XS'', 15), (''MPRV'', 17), (''SUM'', 18), (''MXR'', 19), (''TVM'', 20),
     (''TW'', 21), (''TSR'', 22), (''SPELP'', 23), (''SDT'', 24), (''UXL'', 32), (''SXL'', 34), (''SBE'', 36),
     (''MBE'', 37), (''GVA'', 38), (''MPV'', 39), (''MPELP'', 40), (''MDT'', 41), (''SD'', -1)]"

definition MenvcfgFieldOffsets :: "(string \<times> nat) list" where
  "MenvcfgFieldOffsets =
    [(''FIOM'', 0), (''LPE'', 2), (''SSE'', 3), (''CBIE'', 4), (''CBCFE'', 6), (''CBZE'', 7), (''PMM'', 32),
     (''DTE'', 59), (''CDE'', 60), (''ADUE'', 61), (''PBMTE'', 62), (''STCE'', 63)]"

definition CounterEnableFieldOffsets :: "(string \<times> nat) list" where
  "CounterEnableFieldOffsets =
    [(''CY'', 0), (''TM'', 1), (''IR'', 2), (''HPM3'', 3), (''HPM4'', 4), (''HPM5'', 5), (''HPM6'', 6),
     (''HPM7'', 7), (''HPM8'', 8), (''HPM9'', 9), (''HPM10'', 10), (''HPM11'', 11), (''HPM12'', 12),
     (''HPM13'', 13), (''HPM14'', 14), (''HPM15'', 15), (''HPM16'', 16), (''HPM17'', 17), (''HPM18'', 18),
     (''HPM19'', 19), (''HPM20'', 20), (''HPM21'', 21), (''HPM22'', 22), (''HPM23'', 23), (''HPM24'', 24),
     (''HPM25'', 25), (''HPM26'', 26), (''HPM27'', 27), (''HPM28'', 28), (''HPM29'', 29), (''HPM30'', 30),
     (''HPM31'', 31)]"

definition mstatus_field_length :: "string \<Rightarrow> nat" where
  "mstatus_field_length f = (if f \<in> set [''VS'', ''MPP'', ''FS'', ''XS'', ''UXL'', ''SXL''] then 2 else 1)"

definition menvcfg_field_length :: "string \<Rightarrow> nat" where
  "menvcfg_field_length f = (if f \<in> set [''PMM'', ''CBIE''] then 2 else 1)"

definition sstatus_field_subset :: "string list" where
  "sstatus_field_subset =
     [''SIE'', ''SPIE'', ''UBE'', ''SPP'', ''VS'', ''FS'', ''XS'', ''SUM'', ''MXR'', ''SPELP'', ''SDT'', ''SD'']"

definition senvcfg_field_subset :: "string list" where
  "senvcfg_field_subset = [''FIOM'', ''LPE'', ''SSE'', ''CBIE'', ''CBCFE'', ''CBZE'']"

section \<open>Access rights\<close>

text \<open>
  The library function \<^verbatim>\<open>bits_from_int\<close> is a parameter; it extracts \<open>len\<close> bits from bit \<open>lo\<close> on.
\<close>

type_synonym bits_from_int = "nat \<Rightarrow> nat \<Rightarrow> nat \<Rightarrow> nat"

definition bits_from_int_spec :: "bits_from_int \<Rightarrow> bool" where
  "bits_from_int_spec bfi \<longleftrightarrow> (\<forall>n lo len. bfi n lo len = n div 2 ^ lo mod 2 ^ len)"

definition csr_access_privilege :: "bits_from_int \<Rightarrow> nat \<Rightarrow> PrivilegeLevel \<times> bool" where
  "csr_access_privilege bfi addr =
     (let read_only = (bfi addr 10 2 = 3); lvl = bfi addr 8 2 in
      if lvl = 0 then (Priv_USER, read_only)
      else if lvl = 1 then (Priv_SUPERVISOR, read_only)
      else if lvl = 2 then (Priv_SUPERVISOR, read_only)
      else (Priv_MACHINE, read_only))"

text \<open>All registers of a table need the given privilege.\<close>

definition needs :: "PrivilegeLevel \<Rightarrow> (string \<times> nat) list \<Rightarrow> bool" where
  "needs p t \<longleftrightarrow> list_all (\<lambda>(n, a). a div 256 mod 4 \<in> (case p of Priv_USER \<Rightarrow> {0} | Priv_SUPERVISOR \<Rightarrow> {1, 2} | Priv_MACHINE \<Rightarrow> {3})) t"

lemma needs_privilege:
  assumes "bits_from_int_spec bfi" "needs p t" "(n, a) \<in> set t"
  shows "fst (csr_access_privilege bfi a) = p"
  using assms by (cases p) (auto simp: needs_def list_all_iff csr_access_privilege_def bits_from_int_spec_def Let_def)

lemmas csr_tables = unprivileged_csrs_def supervisor_csrs_def hypervisor_csrs_def machine_csrs_def machine_pmp_csrs_def
  machine_state_csrs_def machine_counter_csrs_def machine_counter_setup_csrs_def debug_csrs_def internal_csrs_def

lemma csr_addresses_bounded: "list_all (\<lambda>(n, a). a < 4096) CSRAddress"
  by (simp add: CSRAddress_def csr_tables)

lemma csr_groups_need:
  "needs Priv_USER unprivileged_csrs" "needs Priv_SUPERVISOR supervisor_csrs" "needs Priv_SUPERVISOR hypervisor_csrs"
  "needs Priv_MACHINE machine_csrs" "needs Priv_MACHINE machine_pmp_csrs" "needs Priv_MACHINE machine_state_csrs"
  "needs Priv_MACHINE machine_counter_csrs" "needs Priv_MACHINE machine_counter_setup_csrs" "needs Priv_MACHINE debug_csrs"
  by (simp_all add: csr_tables needs_def)

lemma csr_addresses_distinct: "distinct (map snd CSRAddress)"
  by (simp add: CSRAddress_def csr_tables)

text \<open>
  C20. The address table is consistent with the access rights derived from an address: all addresses
  are different twelve-bit numbers; the unprivileged registers are accessible from user mode, the
  supervisor, hypervisor and virtual supervisor ones from supervisor mode, and every machine-mode and
  debug register only from machine mode.
\<close>

theorem csr_addresses_consistent:
  assumes "bits_from_int_spec bfi"
  shows "distinct (map snd CSRAddress) \<and> (\<forall>(n, a) \<in> set CSRAddress. a < 4096) \<and>
    (\<forall>(n, a) \<in> set unprivileged_csrs. fst (csr_access_privilege bfi a) = Priv_USER) \<and>
    (\<forall>(n, a) \<in> set (supervisor_csrs @ hypervisor_csrs). fst (csr_access_privilege bfi a) = Priv_SUPERVISOR) \<and>
    (\<forall>(n, a) \<in> set (machine_csrs @ machine_pmp_csrs @ machine_state_csrs @ machine_counter_csrs @ machine_counter_setup_csrs @ debug_csrs).
       fst (csr_access_privilege bfi a) = Priv_MACHINE)"
proof -
  have all: "\<forall>(n, a) \<in> set t. fst (csr_access_privilege bfi a) = p" if "needs p t" for p t
    using needs_privilege [OF assms that] by blast
  have "\<forall>(n, a) \<in> set CSRAddress. a < 4096" using csr_addresses_bounded by (simp only: list_all_iff)
  then show ?thesis
    unfolding set_append ball_Un by (intro conjI csr_addresses_distinct all csr_groups_need)
qed

theorem csr_addresses_consistent_witness:
  "fst (csr_access_privilege (\<lambda>n lo len. n div 2 ^ lo mod 2 ^ len) 768) = Priv_MACHINE"
proof -
  have "(''MSTATUS'', 768) \<in> set machine_csrs" by (simp add: machine_csrs_def)
  moreover have "bits_from_int_spec (\<lambda>n lo len. n div 2 ^ lo mod 2 ^ len)" by (simp add: bits_from_int_spec_def)
  ultimately show ?thesis using csr_addresses_consistent [of "\<lambda>n lo len. n div 2 ^ lo mod 2 ^ len"] unfolding set_append ball_Un by blast
qed

end
