(* ===== verification/Csr_Register.thy ===== *)
theory Csr_Register
  imports Main "HOL-Library.Word"
begin

unbundle bit_operations_syntax

text \<open>
  Control and status registers (\<^verbatim>\<open>priv/csr/csr_register.py\<close>, \<^verbatim>\<open>aliased.py\<close>, \<^verbatim>\<open>shadow.py\<close>,
  \<^verbatim>\<open>double_shadow.py\<close>, \<^verbatim>\<open>double_counter.py\<close>). Values are natural numbers below two to the width of the
  register. What a register offers to CSR instructions is the locale \<open>csr_port\<close>: a read and a write with
  an operation, where every visible bit is either writable, and then follows the operation, or kept. The
  plain register and every shadow of a port are such ports. The fields of an aliased register may have filters, so its writes
  are described field by field.
\<close>

section \<open>CSRRegister\<close>

datatype WriteOpType = CSR_WRITE | CSR_SET | CSR_CLEAR

text \<open>The complement at a width.\<close>

definition not_at :: "nat \<Rightarrow> nat \<Rightarrow> nat" where
  "not_at w x = mask w XOR take_bit w x"

lemma bit_not_at: "bit (not_at w x) i \<longleftrightarrow> i < w \<and> \<not> bit x i"
  by (auto simp: not_at_def bit_xor_iff bit_mask_iff bit_take_bit_iff)

definition fu_write_combine_default :: "nat \<Rightarrow> nat \<Rightarrow> WriteOpType \<Rightarrow> nat \<Rightarrow> nat" where
  "fu_write_combine_default w data mode read_val =
     (case mode of
        CSR_WRITE \<Rightarrow> data
      | CSR_SET \<Rightarrow> read_val OR data
      | CSR_CLEAR \<Rightarrow> read_val AND not_at w data)"

text \<open>The parameters of a register; a filter gives whether a write is performed, and the data.\<close>

record csr_config =
  csr_width :: nat
  ro_bits :: nat
  csr_init :: nat
  fu_write_priority :: bool
  fu_write_filtermap :: "nat \<Rightarrow> bool \<times> nat"
  fu_read_map :: "nat \<Rightarrow> nat"
  fu_access_filter :: "nat \<Rightarrow> bool"
  fu_write_combine :: "nat \<Rightarrow> WriteOpType \<Rightarrow> nat \<Rightarrow> nat"

definition plain_csr :: "nat \<Rightarrow> nat \<Rightarrow> nat \<Rightarrow> csr_config" where
  "plain_csr w ro init =
     \<lparr>csr_width = w, ro_bits = ro, csr_init = init, fu_write_priority = True, fu_write_filtermap = (\<lambda>d. (True, d)),
      fu_read_map = (\<lambda>d. d), fu_access_filter = (\<lambda>_. True), fu_write_combine = fu_write_combine_default w\<rparr>"

record csr =
  csr_value :: nat
  side_effect_read :: bool
  side_effect_write :: bool

definition csr_reset :: "csr_config \<Rightarrow> csr" where
  "csr_reset cfg = \<lparr>csr_value = csr_init cfg, side_effect_read = False, side_effect_write = False\<rparr>"

text \<open>The calls of a cycle: \<^verbatim>\<open>write\<close>, \<^verbatim>\<open>_fu_write\<close> with its operation and \<^verbatim>\<open>_fu_read\<close>.\<close>

record csr_calls =
  call_write :: "nat option"
  call_fu_write :: "(nat \<times> WriteOpType) option"
  call_fu_read :: bool

definition fu_read :: "csr_config \<Rightarrow> csr \<Rightarrow> nat" where
  "fu_read cfg s = fu_read_map cfg (csr_value s)"

text \<open>The data that reaches \<^verbatim>\<open>_internal_fu_write\<close> through the combining map, the filter and the map.\<close>

definition fu_write_internal :: "csr_config \<Rightarrow> csr_calls \<Rightarrow> csr \<Rightarrow> nat option" where
  "fu_write_internal cfg c s =
     (case call_fu_write c of None \<Rightarrow> None
      | Some (data, op) \<Rightarrow>
          let combined = take_bit (csr_width cfg) (fu_write_combine cfg data op (fu_read cfg s));
              (perform, d) = fu_write_filtermap cfg combined
          in if perform then Some (take_bit (csr_width cfg) d) else None)"

definition csr_cycle :: "csr_config \<Rightarrow> csr_calls \<Rightarrow> csr \<Rightarrow> csr" where
  "csr_cycle cfg c s =
     (let w = csr_width cfg; ro = ro_bits cfg in
      \<lparr>csr_value =
         (case (fu_write_internal cfg c s, map_option (take_bit w) (call_write c)) of
            (Some d, Some wr) \<Rightarrow> if fu_write_priority cfg then (d AND not_at w ro) OR (wr AND ro) else wr
          | (Some d, None) \<Rightarrow> (d AND not_at w ro) OR (csr_value s AND ro)
          | (None, Some wr) \<Rightarrow> wr
          | (None, None) \<Rightarrow> csr_value s),
       side_effect_read = call_fu_read c,
       side_effect_write = (fu_write_internal cfg c s \<noteq> None)\<rparr>)"

record csr_read_result =
  rr_data :: nat
  rr_read :: bool
  rr_written :: bool

definition csr_read :: "csr \<Rightarrow> csr_read_result" where
  "csr_read s = \<lparr>rr_data = csr_value s, rr_read = side_effect_read s, rr_written = side_effect_write s\<rparr>"

definition csr_read_comb :: "csr_config \<Rightarrow> csr_calls \<Rightarrow> csr \<Rightarrow> csr_read_result" where
  "csr_read_comb cfg c s =
     \<lparr>rr_data = (case fu_write_internal cfg c s of Some d \<Rightarrow> d | None \<Rightarrow> csr_value s),
      rr_read = call_fu_read c, rr_written = (fu_write_internal cfg c s \<noteq> None)\<rparr>"

definition csr_fu_access_valid :: "csr_config \<Rightarrow> nat \<Rightarrow> bool" where
  "csr_fu_access_valid cfg priv_mode = fu_access_filter cfg priv_mode"

text \<open>A cycle in which only a CSR instruction writes.\<close>

definition csr_fu_write :: "csr_config \<Rightarrow> WriteOpType \<Rightarrow> nat \<Rightarrow> csr \<Rightarrow> csr" where
  "csr_fu_write cfg op data s = csr_cycle cfg \<lparr>call_write = None, call_fu_write = Some (data, op), call_fu_read = True\<rparr> s"

section \<open>AliasedCSR\<close>

text \<open>An assignment to the slice \<^verbatim>\<open>[start : start + width]\<close>.\<close>

definition set_slice :: "nat \<Rightarrow> nat \<Rightarrow> nat \<Rightarrow> nat \<Rightarrow> nat" where
  "set_slice start w v x = take_bit start x OR push_bit start (take_bit w v) OR push_bit (start + w) (drop_bit (start + w) x)"

text \<open>The fields with their positions, and the constant fields with their widths.\<close>

record aliased_csr =
  alias_fields :: "(nat \<times> csr_config) list"
  ro_values :: "(nat \<times> nat \<times> nat) list"

definition alias_value :: "aliased_csr \<Rightarrow> nat list \<Rightarrow> nat" where
  "alias_value a vals =
     fold (\<lambda>(start, w, v) x. set_slice start w v x) (ro_values a)
       (fold (\<lambda>((start, cfg), v) x. set_slice start (csr_width cfg) v x) (zip (alias_fields a) vals) 0)"

definition alias_fu_read :: "aliased_csr \<Rightarrow> csr list \<Rightarrow> nat" where
  "alias_fu_read a ss = alias_value a (map2 (\<lambda>(start, cfg) s. fu_read cfg s) (alias_fields a) ss)"

definition alias_fu_write :: "aliased_csr \<Rightarrow> WriteOpType \<Rightarrow> nat \<Rightarrow> csr list \<Rightarrow> csr list" where
  "alias_fu_write a op data ss =
     map2 (\<lambda>(start, cfg) s. csr_fu_write cfg op (take_bit (csr_width cfg) (drop_bit start data)) s) (alias_fields a) ss"

definition alias_write :: "aliased_csr \<Rightarrow> nat \<Rightarrow> csr list \<Rightarrow> csr list" where
  "alias_write a data ss =
     map2 (\<lambda>(start, cfg) s. csr_cycle cfg \<lparr>call_write = Some (take_bit (csr_width cfg) (drop_bit start data)),
                                          call_fu_write = None, call_fu_read = False\<rparr> s) (alias_fields a) ss"

definition alias_read :: "aliased_csr \<Rightarrow> csr list \<Rightarrow> csr_read_result" where
  "alias_read a ss =
     \<lparr>rr_data = alias_value a (map csr_value ss), rr_read = list_ex side_effect_read ss, rr_written = list_ex side_effect_write ss\<rparr>"

definition alias_read_comb :: "aliased_csr \<Rightarrow> csr_calls list \<Rightarrow> csr list \<Rightarrow> csr_read_result" where
  "alias_read_comb a cs ss =
     (let rs = map2 (\<lambda>(start, cfg) (c, s). csr_read_comb cfg c s) (alias_fields a) (zip cs ss)
      in \<lparr>rr_data = alias_value a (map rr_data rs), rr_read = list_ex rr_read rs, rr_written = list_ex rr_written rs\<rparr>)"

definition alias_fu_access_valid :: "aliased_csr \<Rightarrow> nat \<Rightarrow> bool" where
  "alias_fu_access_valid a priv_mode = list_all (\<lambda>(start, cfg). csr_fu_access_valid cfg priv_mode) (alias_fields a)"

section \<open>ShadowCSR\<close>

text \<open>A window of a register of width \<open>W\<close>: its offset and width, and the masks.\<close>

record shadow_csr =
  shadow_offset :: nat
  shadow_width :: nat
  read_mask :: nat
  write_mask :: nat

datatype csr_error = Invalid_offset | Invalid_width | Width_required

text \<open>The checks of the constructor; a public register has the width of the machine.\<close>

definition ShadowCSR :: "nat \<Rightarrow> nat \<Rightarrow> bool \<Rightarrow> nat option \<Rightarrow> nat option \<Rightarrow> nat option \<Rightarrow> nat option \<Rightarrow> csr_error + shadow_csr" where
  "ShadowCSR xlen W public width offset rmask wmask =
     (let off = (case offset of None \<Rightarrow> 0 | Some x \<Rightarrow> x) in
      case (case width of Some w \<Rightarrow> Inr w | None \<Rightarrow> if public then Inr xlen else if off = 0 then Inr W else Inl Width_required) of
        Inl e \<Rightarrow> Inl e
      | Inr w \<Rightarrow>
          if W \<le> off then Inl Invalid_offset
          else if W < off + w then Inl Invalid_width
          else Inr \<lparr>shadow_offset = off, shadow_width = w,
                    read_mask = (case rmask of None \<Rightarrow> mask w | Some m \<Rightarrow> take_bit w m),
                    write_mask = (case wmask of None \<Rightarrow> mask w | Some m \<Rightarrow> take_bit w m)\<rparr>)"

definition full_writemask :: "shadow_csr \<Rightarrow> nat" where
  "full_writemask h = push_bit (shadow_offset h) (write_mask h)"

definition shadow_view :: "shadow_csr \<Rightarrow> nat \<Rightarrow> nat" where
  "shadow_view h x = drop_bit (shadow_offset h) x AND read_mask h"

text \<open>The data that a write of the shadow passes on; \<open>old\<close> is the value of the shadowed register.\<close>

definition shadow_write_data :: "nat \<Rightarrow> shadow_csr \<Rightarrow> nat \<Rightarrow> nat \<Rightarrow> nat" where
  "shadow_write_data W h old data = (push_bit (shadow_offset h) data AND full_writemask h) OR (old AND not_at W (full_writemask h))"

definition shadow_fu_write_data :: "nat \<Rightarrow> shadow_csr \<Rightarrow> WriteOpType \<Rightarrow> nat \<Rightarrow> nat \<Rightarrow> nat" where
  "shadow_fu_write_data W h op old data =
     (if op = CSR_WRITE then shadow_write_data W h old data else push_bit (shadow_offset h) data AND full_writemask h)"

section \<open>DoubleShadowCSR and DoubleCounterCSR\<close>

text \<open>The shadows of a 64-bit register: the low one, and the high one on RV32.\<close>

definition double_shadow_low :: "nat \<Rightarrow> bool \<Rightarrow> csr_error + shadow_csr" where
  "double_shadow_low xlen writable = ShadowCSR xlen 64 True None (Some 0) None (if writable then None else Some 0)"

definition double_shadow_high :: "nat \<Rightarrow> bool \<Rightarrow> (csr_error + shadow_csr) option" where
  "double_shadow_high xlen writable =
     (if xlen = 32 then Some (ShadowCSR xlen 64 True None (Some 32) None (if writable then None else Some 0)) else None)"

definition counter_config :: "bool \<Rightarrow> csr_config" where
  "counter_config read_only_zero = plain_csr 64 (if read_only_zero then mask 64 else 0) 0"

text \<open>A cycle of the counter: whether it is incremented, and the access of an instruction.\<close>

definition counter_cycle :: "bool \<Rightarrow> bool \<Rightarrow> (nat \<times> WriteOpType) option \<Rightarrow> csr \<Rightarrow> csr" where
  "counter_cycle read_only_zero increment fu s =
     csr_cycle (counter_config read_only_zero)
       \<lparr>call_write = (if increment \<and> \<not> read_only_zero then Some (csr_value s + 1) else None), call_fu_write = fu, call_fu_read = False\<rparr> s"

section \<open>Ports for CSR instructions\<close>

text \<open>The value of a writable bit after an operation.\<close>

definition op_bit :: "WriteOpType \<Rightarrow> bool \<Rightarrow> bool \<Rightarrow> bool" where
  "op_bit op old new = (case op of CSR_WRITE \<Rightarrow> new | CSR_SET \<Rightarrow> old \<or> new | CSR_CLEAR \<Rightarrow> old \<and> \<not> new)"

locale csr_port =
  fixes valid :: "'s \<Rightarrow> bool"
    and width :: nat
    and get :: "'s \<Rightarrow> nat"
    and put :: "WriteOpType \<Rightarrow> nat \<Rightarrow> 's \<Rightarrow> 's"
    and writable :: "nat \<Rightarrow> bool"
  assumes valid_put: "valid s \<Longrightarrow> valid (put op d s)"
    and get_bounded: "valid s \<Longrightarrow> bit (get s) i \<Longrightarrow> i < width"
    and get_put: "valid s \<Longrightarrow> i < width \<Longrightarrow>
      bit (get (put op d s)) i = (if writable i then op_bit op (bit (get s) i) (bit d i) else bit (get s) i)"
begin

lemma get_put_bit:
  "valid s \<Longrightarrow> bit (get (put op d s)) i \<longleftrightarrow>
   i < width \<and> (if writable i then op_bit op (bit (get s) i) (bit d i) else bit (get s) i)"
  using get_put get_bounded valid_put by metis

lemma write_write: "valid s \<Longrightarrow> get (put CSR_WRITE d (put op d' s)) = get (put CSR_WRITE d s)"
  by (rule bit_eqI) (auto simp: get_put_bit valid_put op_bit_def)

lemma set_then_clear: "valid s \<Longrightarrow> i < width \<Longrightarrow> writable i \<Longrightarrow> bit d i \<Longrightarrow> \<not> bit (get (put CSR_CLEAR d (put CSR_SET d s))) i"
  by (simp add: get_put_bit valid_put op_bit_def)

lemma swap_back: "valid s \<Longrightarrow> get (put CSR_WRITE (get s) (put op d s)) = get s"
  using get_bounded by (intro bit_eqI) (auto simp: get_put_bit valid_put op_bit_def)

lemma read_only_kept: "valid s \<Longrightarrow> \<not> writable i \<Longrightarrow> bit (get (fold (\<lambda>(op, d). put op d) ops s)) i = bit (get s) i"
proof (induction ops arbitrary: s)
  case (Cons x ops)
  then show ?case using get_bounded [OF Cons.prems(1)] by (cases x) (auto simp: valid_put get_put_bit)
qed simp

end

text \<open>A register without filters.\<close>

definition csr_ok :: "csr_config \<Rightarrow> csr \<Rightarrow> bool" where
  "csr_ok cfg s \<longleftrightarrow> csr_value s < 2 ^ csr_width cfg"

lemma bit_bound: "x < 2 ^ w \<Longrightarrow> bit x i \<Longrightarrow> i < w" for x :: nat
  by (metis bit_take_bit_iff take_bit_nat_eq_self)

lemma bounded_bits: "(\<And>i. bit x i \<Longrightarrow> i < w) \<Longrightarrow> x < 2 ^ w" for x :: nat
  by (metis bit_eqI bit_take_bit_iff take_bit_nat_less_exp)

lemma bit_combine_default:
  "i < w \<Longrightarrow> bit (fu_write_combine_default w d op old) i = op_bit op (bit old i) (bit d i)"
  by (cases op) (auto simp: fu_write_combine_default_def op_bit_def bit_or_iff bit_and_iff bit_not_at)

lemma plain_fu_write:
  assumes "cfg = plain_csr w ro init" "csr_ok cfg s"
  shows "bit (csr_value (csr_fu_write cfg op d s)) i \<longleftrightarrow>
    i < w \<and> (if bit ro i then bit (csr_value s) i else op_bit op (bit (csr_value s) i) (bit d i))"
proof -
  have "bit (csr_value s) i \<Longrightarrow> i < w" using assms bit_bound by (simp add: csr_ok_def plain_csr_def)
  then show ?thesis
    using bit_combine_default [of i w d op "csr_value s"]
    by (auto simp: csr_fu_write_def csr_cycle_def fu_write_internal_def assms(1) plain_csr_def fu_read_def Let_def
        bit_or_iff bit_and_iff bit_not_at bit_take_bit_iff)
qed

interpretation plain: csr_port "csr_ok (plain_csr w ro init)" w csr_value "csr_fu_write (plain_csr w ro init)" "\<lambda>i. \<not> bit ro i" for w ro init
proof
  fix s op d i
  assume ok: "csr_ok (plain_csr w ro init) s"
  show "csr_ok (plain_csr w ro init) (csr_fu_write (plain_csr w ro init) op d s)"
    unfolding csr_ok_def by (rule bounded_bits) (simp add: plain_fu_write [OF refl ok], simp add: plain_csr_def)
  show "bit (csr_value s) i \<Longrightarrow> i < w" using ok bit_bound by (simp add: csr_ok_def plain_csr_def)
  show "i < w \<Longrightarrow> bit (csr_value (csr_fu_write (plain_csr w ro init) op d s)) i =
      (if \<not> bit ro i then op_bit op (bit (csr_value s) i) (bit d i) else bit (csr_value s) i)"
    using plain_fu_write [OF refl ok] by simp
qed

text \<open>A shadow of a port, with its reads and writes through the masks.\<close>

definition shadow_get :: "shadow_csr \<Rightarrow> ('s \<Rightarrow> nat) \<Rightarrow> 's \<Rightarrow> nat" where
  "shadow_get h get s = shadow_view h (get s)"

definition shadow_put ::
  "nat \<Rightarrow> shadow_csr \<Rightarrow> ('s \<Rightarrow> nat) \<Rightarrow> (WriteOpType \<Rightarrow> nat \<Rightarrow> 's \<Rightarrow> 's) \<Rightarrow> WriteOpType \<Rightarrow> nat \<Rightarrow> 's \<Rightarrow> 's" where
  "shadow_put W h get put op data s = put op (shadow_fu_write_data W h op (get s) data) s"

definition shadow_fits :: "nat \<Rightarrow> shadow_csr \<Rightarrow> bool" where
  "shadow_fits W h \<longleftrightarrow> shadow_offset h + shadow_width h \<le> W \<and> read_mask h < 2 ^ shadow_width h \<and> write_mask h < 2 ^ shadow_width h"

lemma ShadowCSR_fits: "ShadowCSR xlen W public width offset rmask wmask = Inr h \<Longrightarrow> shadow_fits W h"
  by (auto simp: ShadowCSR_def shadow_fits_def Let_def split: sum.splits option.splits if_splits)

lemma bit_full_writemask: "bit (full_writemask h) j \<longleftrightarrow> shadow_offset h \<le> j \<and> bit (write_mask h) (j - shadow_offset h)"
  by (simp add: full_writemask_def bit_push_bit_iff)

lemma bit_shadow_fu_write_data:
  "j < W \<Longrightarrow> bit (shadow_fu_write_data W h op old d) j \<longleftrightarrow>
   (if bit (full_writemask h) j then bit d (j - shadow_offset h) else op = CSR_WRITE \<and> bit old j)"
  by (auto simp: shadow_fu_write_data_def shadow_write_data_def bit_or_iff bit_and_iff bit_not_at bit_push_bit_iff bit_full_writemask)

locale csr_shadow = csr_port valid width get put writable
  for valid :: "'s \<Rightarrow> bool" and width get put writable +
  fixes h :: shadow_csr
  assumes fits: "shadow_fits width h"
begin

text \<open>A write through the shadow acts on the bits of the window that the write mask allows, and on nothing else.\<close>

lemma shadow_put_bit:
  assumes "valid s" "j < width"
  shows "bit (get (shadow_put width h get put op d s)) j =
    (if writable j \<and> bit (full_writemask h) j then op_bit op (bit (get s) j) (bit d (j - shadow_offset h)) else bit (get s) j)"
  using assms
  by (cases op) (auto simp: shadow_put_def get_put_bit bit_shadow_fu_write_data op_bit_def)

lemma shadow_frame: "valid s \<Longrightarrow> \<not> bit (full_writemask h) j \<Longrightarrow> bit (get (shadow_put width h get put op d s)) j = bit (get s) j"
  using shadow_put_bit get_bounded valid_put unfolding shadow_put_def by metis

lemma bit_shadow_get: "bit (shadow_get h get s) i \<longleftrightarrow> bit (read_mask h) i \<and> bit (get s) (i + shadow_offset h)"
  by (auto simp: shadow_get_def shadow_view_def bit_and_iff bit_drop_bit_eq add.commute)

end

sublocale csr_shadow \<subseteq> shadow: csr_port valid "shadow_width h" "shadow_get h get" "shadow_put width h get put"
  "\<lambda>i. bit (read_mask h) i \<and> bit (write_mask h) i \<and> writable (i + shadow_offset h)"
proof
  fix s op d i
  assume v: "valid s"
  show "valid (shadow_put width h get put op d s)" using valid_put [OF v] by (simp add: shadow_put_def)
  show "bit (shadow_get h get s) i \<Longrightarrow> i < shadow_width h"
    using fits bit_bound [of "read_mask h"] by (simp add: bit_shadow_get shadow_fits_def)
  assume i: "i < shadow_width h"
  then have "i + shadow_offset h < width" using fits by (simp add: shadow_fits_def)
  then show "bit (shadow_get h get (shadow_put width h get put op d s)) i =
      (if bit (read_mask h) i \<and> bit (write_mask h) i \<and> writable (i + shadow_offset h)
       then op_bit op (bit (shadow_get h get s) i) (bit d i) else bit (shadow_get h get s) i)"
    by (auto simp: bit_shadow_get shadow_put_bit [OF v] bit_full_writemask)
qed

section \<open>Aliased registers\<close>

lemma bit_set_slice:
  "bit (set_slice start w v x) i = (if start \<le> i \<and> i < start + w then bit v (i - start) else bit x i)"
  by (auto simp: set_slice_def bit_or_iff bit_take_bit_iff bit_push_bit_iff bit_drop_bit_eq)

text \<open>
  The fields and the constant fields are at disjoint positions. The fields are read as they are and combined by the default; a
  filter may refuse the value of a write, or change it.
\<close>

definition slices :: "aliased_csr \<Rightarrow> (nat \<times> nat) list" where
  "slices a = map (\<lambda>(start, cfg). (start, csr_width cfg)) (alias_fields a) @ map (\<lambda>(start, w, v). (start, w)) (ro_values a)"

definition in_slice :: "nat \<Rightarrow> nat \<times> nat \<Rightarrow> bool" where
  "in_slice i sl \<longleftrightarrow> fst sl \<le> i \<and> i < fst sl + snd sl"

definition alias_disjoint :: "aliased_csr \<Rightarrow> bool" where
  "alias_disjoint a \<longleftrightarrow> pairwise (\<lambda>j k. \<forall>i. \<not> (in_slice i (slices a ! j) \<and> in_slice i (slices a ! k))) {..<length (slices a)}"

definition alias_ok :: "nat \<Rightarrow> aliased_csr \<Rightarrow> bool" where
  "alias_ok W a \<longleftrightarrow> alias_disjoint a \<and>
     (\<forall>sl \<in> set (slices a). fst sl + snd sl \<le> W) \<and>
     (\<forall>(start, cfg) \<in> set (alias_fields a). fu_read_map cfg = (\<lambda>d. d) \<and> fu_write_combine cfg = fu_write_combine_default (csr_width cfg))"

definition alias_unfiltered :: "aliased_csr \<Rightarrow> nat \<Rightarrow> bool" where
  "alias_unfiltered a i \<longleftrightarrow> (\<forall>(start, cfg) \<in> set (alias_fields a). start \<le> i \<and> i < start + csr_width cfg \<longrightarrow> (\<forall>d. fu_write_filtermap cfg d = (True, d)))"

definition alias_states_ok :: "aliased_csr \<Rightarrow> csr list \<Rightarrow> bool" where
  "alias_states_ok a ss \<longleftrightarrow> length ss = length (alias_fields a) \<and> (\<forall>k < length ss. csr_ok (snd (alias_fields a ! k)) (ss ! k))"

lemma bit_fold_slices:
  "bit (fold (\<lambda>(start, w, v) x. set_slice start w v x) ts x) i =
   (case find (\<lambda>(start, w, v). start \<le> i \<and> i < start + w) (rev ts) of None \<Rightarrow> bit x i | Some (start, w, v) \<Rightarrow> bit v (i - start))"
proof (induction ts arbitrary: x rule: rev_induct)
  case (snoc t ts)
  obtain start w v where t: "t = (start, w, v)" by (cases t) auto
  show ?case using snoc by (simp add: t bit_set_slice)
qed simp

lemma alias_value_slices:
  "length vals = length (alias_fields a) \<Longrightarrow>
   alias_value a vals = fold (\<lambda>(start, w, v) x. set_slice start w v x)
     (map2 (\<lambda>(start, cfg) v. (start, csr_width cfg, v)) (alias_fields a) vals @ ro_values a) 0"
  by (simp add: alias_value_def fold_map comp_def split_def)

lemma find_append: "find P (xs @ ys) = (case find P xs of None \<Rightarrow> find P ys | Some x \<Rightarrow> Some x)"
  by (induction xs) auto

lemma find_unique:
  assumes "k < length xs" "P (xs ! k)" "\<And>j. j < length xs \<Longrightarrow> P (xs ! j) \<Longrightarrow> j = k"
  shows "find P (rev xs) = Some (xs ! k)"
proof -
  have "xs ! k \<in> set (rev xs)" using assms(1) by simp
  then have "find P (rev xs) \<noteq> None" using assms(2) by (metis find_None_iff)
  then obtain x where x: "find P (rev xs) = Some x" by blast
  then obtain n where "n < length (rev xs)" "P (rev xs ! n)" "x = rev xs ! n" by (auto simp: find_Some_iff)
  then have "x \<in> set xs" "P x" using nth_mem [of n "rev xs"] by simp_all
  then show ?thesis using x assms(3) by (auto simp: in_set_conv_nth)
qed

text \<open>A bit of the aliased register comes from the field that holds it, and otherwise from the constants.\<close>

lemma alias_bit_field:
  assumes ok: "alias_disjoint a" and len: "length vals = length (alias_fields a)" and k: "k < length (alias_fields a)"
    and i: "in_slice i (slices a ! k)"
  shows "bit (alias_value a vals) i = bit (vals ! k) (i - fst (alias_fields a ! k))"
proof -
  let ?ts = "map2 (\<lambda>(start, cfg) v. (start, csr_width cfg, v)) (alias_fields a) vals @ ro_values a"
  have slice: "j < length ?ts \<Longrightarrow> (case ?ts ! j of (start, w, v) \<Rightarrow> start \<le> i \<and> i < start + w) \<longleftrightarrow> in_slice i (slices a ! j)" for j
    using len by (auto simp: slices_def in_slice_def nth_append split: prod.splits)
  have "find (\<lambda>(start, w, v). start \<le> i \<and> i < start + w) (rev ?ts) = Some (?ts ! k)"
  proof (rule find_unique)
    show "j = k" if "j < length ?ts" "case ?ts ! j of (start, w, v) \<Rightarrow> start \<le> i \<and> i < start + w" for j
    proof (rule ccontr)
      assume ne: "j \<noteq> k"
      have "j \<in> {..<length (slices a)}" "k \<in> {..<length (slices a)}" using that(1) k len by (simp_all add: slices_def)
      moreover have "in_slice i (slices a ! j)" using slice [OF that(1)] that(2) by simp
      moreover have "pairwise (\<lambda>j k. \<forall>i. \<not> (in_slice i (slices a ! j) \<and> in_slice i (slices a ! k))) {..<length (slices a)}"
        using ok by (simp only: alias_disjoint_def)
      ultimately show False using i pairwiseD [OF _ _ _ ne] by blast
    qed
  qed (use k len i slice in simp_all)
  then show ?thesis
    unfolding alias_value_slices [OF len] bit_fold_slices using k len by (simp add: nth_append split_def)
qed

lemma alias_bit_other:
  assumes len: "length vals = length (alias_fields a)" "length vals' = length (alias_fields a)"
    and i: "\<And>k. k < length (alias_fields a) \<Longrightarrow> \<not> in_slice i (slices a ! k)"
  shows "bit (alias_value a vals) i = bit (alias_value a vals') i"
proof -
  have none: "find (\<lambda>(start, w, v). start \<le> i \<and> i < start + w) (rev (map2 (\<lambda>(start, cfg) v. (start, csr_width cfg, v)) (alias_fields a) vals)) = None"
    if "length vals = length (alias_fields a)" for vals
    unfolding find_None_iff
  proof
    assume "\<exists>x. x \<in> set (rev (map2 (\<lambda>(start, cfg) v. (start, csr_width cfg, v)) (alias_fields a) vals)) \<and>
        (case x of (start, w, v) \<Rightarrow> start \<le> i \<and> i < start + w)"
    then obtain k where "k < length (alias_fields a)" "in_slice i (slices a ! k)"
      using that by (auto simp: set_zip slices_def in_slice_def nth_append split_def) (metis fst_conv snd_conv)
    then show False using i by blast
  qed
  show ?thesis
    unfolding alias_value_slices [OF len(1)] alias_value_slices [OF len(2)] bit_fold_slices rev_append find_append
      none [OF len(1)] none [OF len(2)] by (simp split: option.splits)
qed

text \<open>The writable bits: those of a field that are not read-only there.\<close>

definition alias_writable :: "aliased_csr \<Rightarrow> nat \<Rightarrow> bool" where
  "alias_writable a i \<longleftrightarrow> list_ex (\<lambda>(start, cfg). start \<le> i \<and> i < start + csr_width cfg \<and> \<not> bit (ro_bits cfg) (i - start)) (alias_fields a)"

lemma alias_ok_disjoint: "alias_ok W a \<Longrightarrow> alias_disjoint a"
  by (simp add: alias_ok_def)

lemma alias_writable_field:
  assumes ok: "alias_ok W a" and k: "k < length (alias_fields a)" and i: "in_slice i (slices a ! k)"
  shows "alias_writable a i \<longleftrightarrow> \<not> bit (ro_bits (snd (alias_fields a ! k))) (i - fst (alias_fields a ! k))"
proof -
  have field: "in_slice i (slices a ! j) \<longleftrightarrow> fst (alias_fields a ! j) \<le> i \<and> i < fst (alias_fields a ! j) + csr_width (snd (alias_fields a ! j))"
    if "j < length (alias_fields a)" for j using that by (simp add: slices_def in_slice_def nth_append split_def)
  have pw: "pairwise (\<lambda>j k. \<forall>i. \<not> (in_slice i (slices a ! j) \<and> in_slice i (slices a ! k))) {..<length (slices a)}"
    using ok by (simp only: alias_ok_def alias_disjoint_def)
  have only: "j = k" if "j < length (alias_fields a)" "in_slice i (slices a ! j)" for j
  proof (rule ccontr)
    assume "j \<noteq> k"
    moreover have "j \<in> {..<length (slices a)}" "k \<in> {..<length (slices a)}" using that(1) k by (simp_all add: slices_def)
    ultimately show False using pairwiseD [OF pw] i that(2) by blast
  qed
  have "alias_writable a i \<longleftrightarrow> (\<exists>j < length (alias_fields a). in_slice i (slices a ! j) \<and>
      \<not> bit (ro_bits (snd (alias_fields a ! j))) (i - fst (alias_fields a ! j)))"
    unfolding alias_writable_def list_ex_length using field by (simp add: split_def conj_assoc cong: conj_cong)
  then show ?thesis using only k i by blast
qed

lemma alias_identity:
  assumes "alias_ok W a" "k < length (alias_fields a)"
  shows "fu_read_map (snd (alias_fields a ! k)) = (\<lambda>d. d)"
    "fu_write_combine (snd (alias_fields a ! k)) = fu_write_combine_default (csr_width (snd (alias_fields a ! k)))"
proof -
  have "\<forall>f \<in> set (alias_fields a). fu_read_map (snd f) = (\<lambda>d. d) \<and> fu_write_combine (snd f) = fu_write_combine_default (csr_width (snd f))"
    using assms(1) unfolding alias_ok_def split_def by blast
  then show "fu_read_map (snd (alias_fields a ! k)) = (\<lambda>d. d)"
    "fu_write_combine (snd (alias_fields a ! k)) = fu_write_combine_default (csr_width (snd (alias_fields a ! k)))"
    using nth_mem [OF assms(2)] by blast+
qed

lemma alias_reads: "alias_ok W a \<Longrightarrow> length ss = length (alias_fields a) \<Longrightarrow> alias_fu_read a ss = alias_value a (map csr_value ss)"
proof -
  assume ok: "alias_ok W a" and len: "length ss = length (alias_fields a)"
  have "map2 (\<lambda>(start, cfg) s. fu_read cfg s) (alias_fields a) ss = map csr_value ss"
    by (rule nth_equalityI) (simp_all add: len fu_read_def split_def alias_identity(1) [OF ok])
  then show ?thesis by (simp add: alias_fu_read_def)
qed

text \<open>What a field becomes when a CSR instruction asks for a value.\<close>

definition field_write :: "csr_config \<Rightarrow> nat \<Rightarrow> nat \<Rightarrow> nat" where
  "field_write cfg requested old =
     (case fu_write_filtermap cfg requested of
        (False, _) \<Rightarrow> old
      | (True, v) \<Rightarrow> (take_bit (csr_width cfg) v AND not_at (csr_width cfg) (ro_bits cfg)) OR (old AND ro_bits cfg))"

lemma alias_field_write:
  assumes ok: "alias_ok W a" and len: "length ss = length (alias_fields a)" and k: "k < length (alias_fields a)"
  shows "csr_value (alias_fu_write a op d ss ! k) =
    field_write (snd (alias_fields a ! k))
      (take_bit (csr_width (snd (alias_fields a ! k))) (fu_write_combine_default (csr_width (snd (alias_fields a ! k)))
         (take_bit (csr_width (snd (alias_fields a ! k))) (drop_bit (fst (alias_fields a ! k)) d)) op (csr_value (ss ! k))))
      (csr_value (ss ! k))"
  using k len
  by (auto simp: alias_fu_write_def split_def csr_fu_write_def csr_cycle_def fu_write_internal_def fu_read_def field_write_def Let_def
      alias_identity [OF ok k] split: bool.splits)

lemma unfiltered_field:
  assumes "alias_unfiltered a i" "k < length (alias_fields a)" "in_slice i (slices a ! k)"
  shows "fu_write_filtermap (snd (alias_fields a ! k)) d = (True, d)"
proof -
  have "fst (alias_fields a ! k) \<le> i \<and> i < fst (alias_fields a ! k) + csr_width (snd (alias_fields a ! k))"
    using assms(2,3) by (simp add: slices_def in_slice_def nth_append split_def)
  moreover have "\<forall>f \<in> set (alias_fields a). fst f \<le> i \<and> i < fst f + csr_width (snd f) \<longrightarrow> (\<forall>d. fu_write_filtermap (snd f) d = (True, d))"
    using assms(1) unfolding alias_unfiltered_def split_def .
  ultimately show ?thesis using nth_mem [OF assms(2)] by blast
qed

lemma field_write_bit:
  assumes "\<And>d. fu_write_filtermap cfg d = (True, d)" "n < csr_width cfg"
  shows "bit (field_write cfg v old) n \<longleftrightarrow> (if bit (ro_bits cfg) n then bit old n else bit v n)"
  using assms by (auto simp: field_write_def bit_or_iff bit_and_iff bit_not_at bit_take_bit_iff)

text \<open>The value that an instruction on a shadow asks for, in the shadowed register: the operation, on the bits under the mask.\<close>

definition window_request :: "nat \<Rightarrow> shadow_csr \<Rightarrow> WriteOpType \<Rightarrow> nat \<Rightarrow> nat \<Rightarrow> nat" where
  "window_request W h op d old =
     (let m = full_writemask h; new = push_bit (shadow_offset h) d in
      case op of
        CSR_WRITE \<Rightarrow> (new AND m) OR (old AND not_at W m)
      | CSR_SET \<Rightarrow> old OR (new AND m)
      | CSR_CLEAR \<Rightarrow> old AND not_at W (new AND m))"

lemma bit_window_request:
  "j < W \<Longrightarrow> bit (window_request W h op d old) j \<longleftrightarrow>
   (if bit (full_writemask h) j then op_bit op (bit old j) (bit d (j - shadow_offset h)) else bit old j)"
  by (cases op) (auto simp: window_request_def Let_def bit_or_iff bit_and_iff bit_not_at bit_push_bit_iff bit_full_writemask op_bit_def)

lemma alias_field_bound: "alias_ok W a \<Longrightarrow> k < length (alias_fields a) \<Longrightarrow> fst (alias_fields a ! k) + csr_width (snd (alias_fields a ! k)) \<le> W"
proof -
  assume ok: "alias_ok W a" and k: "k < length (alias_fields a)"
  have "(fst (alias_fields a ! k), csr_width (snd (alias_fields a ! k))) \<in> set (slices a)"
    using nth_mem [OF k] by (force simp: slices_def split_def)
  then show ?thesis using ok unfolding alias_ok_def by fastforce
qed

lemma alias_read_field:
  assumes ok: "alias_ok W a" and len: "length ss = length (alias_fields a)" and k: "k < length (alias_fields a)" and n: "n < csr_width (snd (alias_fields a ! k))"
  shows "bit (alias_fu_read a ss) (fst (alias_fields a ! k) + n) \<longleftrightarrow> bit (csr_value (ss ! k)) n"
proof -
  have "in_slice (fst (alias_fields a ! k) + n) (slices a ! k)" using k n by (simp add: slices_def in_slice_def nth_append split_def)
  from alias_bit_field [OF alias_ok_disjoint [OF ok] _ k this, of "map csr_value ss"] show ?thesis
    using len k by (simp add: alias_reads [OF ok len])
qed

lemma csr_field_through_shadow:
  assumes ok: "alias_ok W a" and len: "length ss = length (alias_fields a)" and k: "k < length (alias_fields a)"
  shows "csr_value (shadow_put W h (alias_fu_read a) (alias_fu_write a) op d ss ! k) =
    field_write (snd (alias_fields a ! k))
      (take_bit (csr_width (snd (alias_fields a ! k))) (drop_bit (fst (alias_fields a ! k)) (window_request W h op d (alias_fu_read a ss))))
      (csr_value (ss ! k))"
proof -
  let ?start = "fst (alias_fields a ! k)" and ?w = "csr_width (snd (alias_fields a ! k))" and ?old = "csr_value (ss ! k)"
  let ?D = "shadow_fu_write_data W h op (alias_fu_read a ss) d"
  have "take_bit ?w (fu_write_combine_default ?w (take_bit ?w (drop_bit ?start ?D)) op ?old) =
      take_bit ?w (drop_bit ?start (window_request W h op d (alias_fu_read a ss)))"
  proof (rule bit_eqI)
    fix n
    show "bit (take_bit ?w (fu_write_combine_default ?w (take_bit ?w (drop_bit ?start ?D)) op ?old)) n \<longleftrightarrow>
        bit (take_bit ?w (drop_bit ?start (window_request W h op d (alias_fu_read a ss)))) n"
    proof (cases "n < ?w")
      case True
      then have W: "?start + n < W" using alias_field_bound [OF ok k] by simp
      show ?thesis
        using True bit_window_request [OF W] bit_shadow_fu_write_data [OF W] alias_read_field [OF ok len k True]
        by (cases op) (auto simp: bit_take_bit_iff bit_drop_bit_eq bit_combine_default op_bit_def)
    qed (simp add: bit_take_bit_iff)
  qed
  then show ?thesis using alias_field_write [OF ok len k] by (simp add: shadow_put_def)
qed

section \<open>Counters\<close>

definition counter_low :: shadow_csr where
  "counter_low = \<lparr>shadow_offset = 0, shadow_width = 32, read_mask = mask 32, write_mask = mask 32\<rparr>"

definition counter_high :: shadow_csr where
  "counter_high = \<lparr>shadow_offset = 32, shadow_width = 32, read_mask = mask 32, write_mask = mask 32\<rparr>"

lemma double_shadow_32: "double_shadow_low 32 True = Inr counter_low" "double_shadow_high 32 True = Some (Inr counter_high)"
  by (simp_all add: double_shadow_low_def double_shadow_high_def ShadowCSR_def counter_low_def counter_high_def)

interpretation low: csr_shadow "csr_ok (plain_csr 64 ro 0)" 64 csr_value "csr_fu_write (plain_csr 64 ro 0)" "\<lambda>i. \<not> bit ro i" counter_low for ro
  by unfold_locales (rule ShadowCSR_fits [OF double_shadow_32(1) [unfolded double_shadow_low_def]])

interpretation high: csr_shadow "csr_ok (plain_csr 64 ro 0)" 64 csr_value "csr_fu_write (plain_csr 64 ro 0)" "\<lambda>i. \<not> bit ro i" counter_high for ro
  by unfold_locales (simp add: shadow_fits_def counter_high_def mask_nat_def)

lemma counter_halves:
  assumes "csr_value s < 2 ^ 64"
  shows "shadow_get counter_low csr_value s = csr_value s mod 2 ^ 32" "shadow_get counter_high csr_value s = csr_value s div 2 ^ 32"
proof -
  have "csr_value s div 2 ^ 32 < 2 ^ 32" using assms by (simp add: div_less_iff_less_mult)
  then show "shadow_get counter_low csr_value s = csr_value s mod 2 ^ 32" "shadow_get counter_high csr_value s = csr_value s div 2 ^ 32"
    by (simp_all add: shadow_get_def shadow_view_def counter_low_def counter_high_def take_bit_eq_mask [symmetric] take_bit_eq_mod drop_bit_eq_div)
qed

lemma shadow_write_halves:
  assumes s: "csr_ok (counter_config False) s" and h: "h \<in> {counter_low, counter_high}"
  shows "shadow_get counter_low csr_value (shadow_put 64 h csr_value (csr_fu_write (counter_config False)) CSR_WRITE d s) =
      (if h = counter_low then take_bit 32 d else shadow_get counter_low csr_value s)"
    and "shadow_get counter_high csr_value (shadow_put 64 h csr_value (csr_fu_write (counter_config False)) CSR_WRITE d s) =
      (if h = counter_high then take_bit 32 d else shadow_get counter_high csr_value s)"
proof -
  have ok: "csr_ok (plain_csr 64 0 0) s" and cfg: "counter_config False = plain_csr 64 0 0" using s by (simp_all add: counter_config_def)
  have ne: "counter_low \<noteq> counter_high" by (simp add: counter_low_def counter_high_def)
  have masks: "bit (full_writemask counter_low) j \<longleftrightarrow> j < 32" "bit (full_writemask counter_high) j \<longleftrightarrow> 32 \<le> j \<and> j < 64" for j
    by (auto simp: bit_full_writemask counter_low_def counter_high_def bit_mask_iff)
  have lows: "bit (shadow_get counter_low csr_value t) i \<longleftrightarrow> i < 32 \<and> bit (csr_value t) i"
    and highs: "bit (shadow_get counter_high csr_value t) i \<longleftrightarrow> i < 32 \<and> bit (csr_value t) (i + 32)" for t :: csr and i
    using low.bit_shadow_get [of t i] high.bit_shadow_get [of t i] by (simp_all add: counter_low_def counter_high_def bit_mask_iff)
  have off: "shadow_offset counter_low = 0" "shadow_offset counter_high = 32" by (simp_all add: counter_low_def counter_high_def)
  note puts = low.shadow_put_bit [OF ok, simplified] high.shadow_put_bit [OF ok, simplified]
  show "shadow_get counter_low csr_value (shadow_put 64 h csr_value (csr_fu_write (counter_config False)) CSR_WRITE d s) =
      (if h = counter_low then take_bit 32 d else shadow_get counter_low csr_value s)"
    using h ne unfolding cfg by (intro bit_eqI) (auto simp: lows puts masks op_bit_def bit_take_bit_iff off)
  show "shadow_get counter_high csr_value (shadow_put 64 h csr_value (csr_fu_write (counter_config False)) CSR_WRITE d s) =
      (if h = counter_high then take_bit 32 d else shadow_get counter_high csr_value s)"
    using h ne unfolding cfg by (intro bit_eqI) (auto simp: highs puts masks op_bit_def bit_take_bit_iff off)
qed

lemma counter_cycle_values:
  assumes "csr_ok (counter_config z) s"
  shows "csr_value (counter_cycle False inc None s) = (if inc then (csr_value s + 1) mod 2 ^ 64 else csr_value s)"
    and "csr_value (counter_cycle False inc (Some (d, CSR_WRITE)) s) = take_bit 64 d"
    and "csr_value s = 0 \<Longrightarrow> csr_value (counter_cycle True inc fu s) = 0"
proof -
  have full: "x AND not_at 64 0 = take_bit 64 x" for x
    by (rule bit_eqI) (auto simp: bit_and_iff bit_not_at bit_take_bit_iff)
  have none: "take_bit 64 x AND not_at 64 (mask 64) = 0" for x
    by (rule bit_eqI) (auto simp: bit_and_iff bit_not_at bit_take_bit_iff bit_mask_iff)
  show "csr_value (counter_cycle False inc None s) = (if inc then (csr_value s + 1) mod 2 ^ 64 else csr_value s)"
    by (simp add: counter_cycle_def csr_cycle_def fu_write_internal_def Let_def counter_config_def plain_csr_def take_bit_eq_mod)
  show "csr_value (counter_cycle False inc (Some (d, CSR_WRITE)) s) = take_bit 64 d"
    by (simp add: counter_cycle_def csr_cycle_def fu_write_internal_def Let_def counter_config_def plain_csr_def
        fu_write_combine_default_def full)
  show "csr_value s = 0 \<Longrightarrow> csr_value (counter_cycle True inc fu s) = 0"
    by (cases fu) (auto simp: counter_cycle_def csr_cycle_def fu_write_internal_def Let_def counter_config_def plain_csr_def none)
qed

section \<open>Main results\<close>

text \<open>
  CSR instructions on a shadow of an aliased register: where no filter is in force, a
  write through a window with a write mask changes exactly the bits of the underlying fields that lie
  under the mask and are not read-only, by the operation of the instruction (write, set or clear), and
  leaves every other bit as it was.
\<close>

lemma csr_write_through_shadow:
  assumes ok: "alias_ok W a" and len: "length ss = length (alias_fields a)" and j: "j < W" and f: "alias_unfiltered a j"
  shows "bit (alias_fu_read a (shadow_put W h (alias_fu_read a) (alias_fu_write a) op d ss)) j =
    (if alias_writable a j \<and> shadow_offset h \<le> j \<and> bit (write_mask h) (j - shadow_offset h)
     then op_bit op (bit (alias_fu_read a ss) j) (bit d (j - shadow_offset h))
     else bit (alias_fu_read a ss) j)"
proof -
  let ?ss = "shadow_put W h (alias_fu_read a) (alias_fu_write a) op d ss"
  have len': "length ?ss = length (alias_fields a)" using len by (simp add: shadow_put_def alias_fu_write_def)
  show ?thesis
  proof (cases "\<exists>k < length (alias_fields a). in_slice j (slices a ! k)")
    case True
    then obtain k where k: "k < length (alias_fields a)" "in_slice j (slices a ! k)" by blast
    then obtain n where n: "n < csr_width (snd (alias_fields a ! k))" "j = fst (alias_fields a ! k) + n"
      by (auto simp: slices_def in_slice_def nth_append split_def intro: that [of "j - fst (alias_fields a ! k)"])
    note r = alias_read_field [OF ok len k(1) n(1)] alias_read_field [OF ok len' k(1) n(1)]
    have "bit (csr_value (?ss ! k)) n \<longleftrightarrow> (if bit (ro_bits (snd (alias_fields a ! k))) n then bit (csr_value (ss ! k)) n
        else bit (window_request W h op d (alias_fu_read a ss)) j)"
      unfolding csr_field_through_shadow [OF ok len k(1)] field_write_bit [OF unfiltered_field [OF f k] n(1)]
      using n by (simp add: bit_take_bit_iff bit_drop_bit_eq)
    then show ?thesis
      using r alias_writable_field [OF ok k] n unfolding bit_window_request [OF j] by (simp add: bit_full_writemask)
  next
    case False
    then have "\<not> alias_writable a j"
      by (fastforce simp: alias_writable_def list_ex_length slices_def in_slice_def nth_append split_def)
    then show ?thesis
      unfolding alias_reads [OF ok len] alias_reads [OF ok len']
      using alias_bit_other [of "map csr_value ?ss" a "map csr_value ss" j] False len len' by auto
  qed
qed

text \<open>
  A 64-bit counter and its two 32-bit registers on RV32: the registers show the halves of the
  counter; a CSR write to one of them replaces that half and keeps the other; without an instruction an
  increment adds one modulo \<open>2 ^ 64\<close>, an instruction that writes in the same cycle wins over it, and a
  counter that is not implemented stays zero whatever happens.
\<close>

lemma csr_counter_behaviour:
  assumes "csr_ok (counter_config False) s" "h \<in> {counter_low, counter_high}"
  shows "csr_value s = shadow_get counter_low csr_value s + 2 ^ 32 * shadow_get counter_high csr_value s \<and>
    shadow_get h csr_value (shadow_put 64 h csr_value (csr_fu_write (counter_config False)) CSR_WRITE d s) = take_bit 32 d \<and>
    (\<forall>h' \<in> {counter_low, counter_high} - {h}. shadow_get h' csr_value
       (shadow_put 64 h csr_value (csr_fu_write (counter_config False)) CSR_WRITE d s) = shadow_get h' csr_value s) \<and>
    csr_value (counter_cycle False True None s) = (csr_value s + 1) mod 2 ^ 64 \<and>
    csr_value (counter_cycle False True (Some (d, CSR_WRITE)) s) = take_bit 64 d \<and>
    (csr_value s = 0 \<longrightarrow> csr_value (counter_cycle True inc fu s) = 0)"
proof -
  have lt: "csr_value s < 2 ^ 64" using assms(1) by (simp add: csr_ok_def counter_config_def plain_csr_def)
  have "counter_low \<noteq> counter_high" by (simp add: counter_low_def counter_high_def)
  then show ?thesis
    using counter_halves [OF lt] shadow_write_halves [OF assms] counter_cycle_values [OF assms(1)] assms(2)
    by (auto simp: mult.commute)
qed

end
