(* ===== verification/Csr_Instances.thy ===== *)
theory Csr_Instances
  imports Csr_Address Csr_Register Isa
begin

unbundle bit_operations_syntax

text \<open>
  The registers of machine and supervisor mode (\<^verbatim>\<open>priv/csr/csr_instances.py\<close>): the fields of
  \<^verbatim>\<open>mstatus\<close>, \<^verbatim>\<open>menvcfg\<close> and \<^verbatim>\<open>mtvec\<close>, the mask of \<^verbatim>\<open>sstatus\<close>, the value of \<^verbatim>\<open>misa\<close>, the counter enables
  and the filters that keep fields legal, among them the locks of the memory protection registers.
\<close>

section \<open>Parameters\<close>

record csr_gen =
  cg_xlen :: nat
  cg_extensions :: "Extension set"
  cg_user_mode :: bool
  cg_supervisor_mode :: bool
  cg_sstc :: bool
  cg_supported_schemes :: "SatpMode set"
  cg_hpm_counters_count :: nat
  cg_pmp_grain :: nat
  cg_pmp_register_count :: nat

section \<open>Counter enables\<close>

definition counteren_writable_mask :: "nat \<Rightarrow> nat" where
  "counteren_writable_mask hpm_counters_count =
     fold (\<lambda>counter m. m OR push_bit counter 1) ([0, 1, 2] @ [3..<3 + hpm_counters_count]) 0"

definition counteren_access_filter :: "csr_gen \<Rightarrow> nat \<Rightarrow> nat \<Rightarrow> nat \<Rightarrow> nat \<Rightarrow> bool" where
  "counteren_access_filter g counteren_bit mcounteren scounteren priv_mode =
     (let machine_disallowed = priv_mode < priv_value Priv_MACHINE \<and> \<not> bit mcounteren counteren_bit;
          supervisor_disallowed = cg_supervisor_mode g \<and> priv_mode < priv_value Priv_SUPERVISOR \<and> \<not> bit scounteren counteren_bit
      in \<not> (machine_disallowed \<or> supervisor_disallowed))"

definition mcounteren :: "csr_gen \<Rightarrow> csr_config" where
  "mcounteren g = plain_csr (cg_xlen g) (not_at (cg_xlen g) (counteren_writable_mask (cg_hpm_counters_count g))) 0"

section \<open>misa\<close>

text \<open>The bit of a single-letter extension, as the enumeration \<^verbatim>\<open>MisaExtension\<close> assigns it; names are in lower case here.\<close>

definition misa_letter :: "string \<Rightarrow> nat" where
  "misa_letter name =
     (case name of [c] \<Rightarrow> let k = (of_char c :: nat) in if 97 \<le> k \<and> k \<le> 122 then push_bit (k - 97) 1 else 0 | _ \<Rightarrow> 0)"

definition misa_value :: "csr_gen \<Rightarrow> py_error + nat" where
  "misa_value g =
     (case from_xlen (cg_xlen g) of Inl e \<Rightarrow> Inl e
      | Inr misa_xlen \<Rightarrow>
          Inr (fold (\<lambda>e m. if e \<in> cg_extensions g then m OR misa_letter (extension_name e) else m) Extension_members 0
               OR (if cg_supervisor_mode g then misa_bit Misa_S else 0) OR (if cg_user_mode g then misa_bit Misa_U else 0)
               OR push_bit (cg_xlen g - 2) (xlen_encoding_value misa_xlen)))"

section \<open>mstatus\<close>

definition mstatus_offset :: "csr_gen \<Rightarrow> string \<Rightarrow> nat" where
  "mstatus_offset g f =
     (case map_of MstatusFieldOffsets f of None \<Rightarrow> 0 | Some i \<Rightarrow> if i < 0 then cg_xlen g - nat (- i) else nat i)"

definition filter_legal_priv_mode :: "csr_gen \<Rightarrow> nat \<Rightarrow> bool \<times> nat" where
  "filter_legal_priv_mode g v =
     (if v = priv_value Priv_MACHINE then True
      else if v = priv_value Priv_SUPERVISOR then cg_supervisor_mode g
      else if v = priv_value Priv_USER then cg_user_mode g else False, v)"

definition bit_field :: "bool \<Rightarrow> csr_config" where
  "bit_field read_only = plain_csr 1 (if read_only then 1 else 0) 0"

definition mstatus_mpp :: "csr_gen \<Rightarrow> csr_config" where
  "mstatus_mpp g = (plain_csr 2 0 (priv_value Priv_MACHINE))\<lparr>fu_write_filtermap := filter_legal_priv_mode g\<rparr>"

definition mstatus_fields :: "csr_gen \<Rightarrow> (string \<times> csr_config) list" where
  "mstatus_fields g =
     [(''MIE'', bit_field False), (''MPIE'', bit_field False), (''MPP'', mstatus_mpp g),
      (''MPRV'', bit_field (\<not> cg_user_mode g)),
      (''SUM'', bit_field (cg_supported_schemes g = {Satp_BARE})),
      (''MXR'', bit_field (\<not> cg_supervisor_mode g)), (''TVM'', bit_field (\<not> cg_supervisor_mode g)),
      (''TSR'', bit_field (\<not> cg_supervisor_mode g)), (''SPP'', bit_field (\<not> cg_supervisor_mode g)),
      (''SPIE'', bit_field (\<not> cg_supervisor_mode g)), (''SIE'', bit_field (\<not> cg_supervisor_mode g)),
      (''TW'', bit_field (\<not> cg_user_mode g))]"

definition mstatus_ro_fields :: "csr_gen \<Rightarrow> (string \<times> nat \<times> nat) list" where
  "mstatus_ro_fields g =
     (if cg_xlen g = 64 then
        [(''UXL'', 2, if cg_user_mode g then xlen_encoding_value XlenEncoding_W64 else 0),
         (''SXL'', 2, if cg_supervisor_mode g then xlen_encoding_value XlenEncoding_W64 else 0)] else []) @
     [(''UBE'', 1, 0), (''SBE'', 1, 0), (''MBE'', 1, 0),
      (''VS'', 2, if Ext_V \<in> cg_extensions g then 3 else 0), (''FS'', 2, if Ext_F \<in> cg_extensions g then 3 else 0), (''XS'', 2, 0),
      (''SD'', 1, if Ext_V \<in> cg_extensions g \<or> Ext_F \<in> cg_extensions g then 1 else 0)]"

definition mstatus :: "csr_gen \<Rightarrow> aliased_csr" where
  "mstatus g = \<lparr>alias_fields = map (\<lambda>(f, cfg). (mstatus_offset g f, cfg)) (mstatus_fields g),
                ro_values = map (\<lambda>(f, w, v). (mstatus_offset g f, w, v)) (mstatus_ro_fields g)\<rparr>"

definition sstatus_mask :: "csr_gen \<Rightarrow> nat" where
  "sstatus_mask g =
     fold (\<lambda>f m. if cg_xlen g = 32 \<and> f = ''UXL'' then m
                 else m OR push_bit (mstatus_offset g f) (2 ^ mstatus_field_length f - 1)) sstatus_field_subset 0"

definition sstatus :: "csr_gen \<Rightarrow> csr_error + shadow_csr" where
  "sstatus g = ShadowCSR (cg_xlen g) 64 True None None (Some (sstatus_mask g)) (Some (sstatus_mask g))"

section \<open>Other registers\<close>

definition menvcfg :: "csr_gen \<Rightarrow> aliased_csr option" where
  "menvcfg g =
     (if cg_user_mode g then
        Some \<lparr>alias_fields = [(0, bit_field (cg_supported_schemes g = {Satp_BARE})), (63, bit_field (\<not> cg_sstc g))], ro_values = []\<rparr>
      else None)"

definition filter_legal_tvec_mode :: "nat \<Rightarrow> bool \<times> nat" where
  "filter_legal_tvec_mode v = (v = trap_vector_mode_value TrapVector_DIRECT \<or> v = trap_vector_mode_value TrapVector_VECTORED, v)"

definition tvec :: "csr_gen \<Rightarrow> aliased_csr" where
  "tvec g = \<lparr>alias_fields = [(2, plain_csr (cg_xlen g - 2) 0 0), (0, (plain_csr 2 0 0)\<lparr>fu_write_filtermap := filter_legal_tvec_mode\<rparr>)],
             ro_values = []\<rparr>"

definition mepc_ro_bits :: "csr_gen \<Rightarrow> nat" where
  "mepc_ro_bits g = (if Ext_ZCA \<in> cg_extensions g then 1 else 3)"

definition sepc_ro_bits :: "csr_gen \<Rightarrow> nat" where
  "sepc_ro_bits g = (if Ext_C \<in> cg_extensions g then 1 else 3)"

definition satp_access_valid :: "bool \<Rightarrow> nat \<Rightarrow> bool" where
  "satp_access_valid tvm priv_mode =
     (if priv_mode = priv_value Priv_MACHINE then True else if priv_mode = priv_value Priv_SUPERVISOR then \<not> tvm else False)"

text \<open>The mode field of \<^verbatim>\<open>satp\<close> is its last one.\<close>

definition satp_write_filter :: "csr_gen \<Rightarrow> nat \<Rightarrow> bool \<times> nat" where
  "satp_write_filter g v =
     (let mode = (if cg_xlen g = 64 then v div 2 ^ 60 else v div 2 ^ 31)
      in (\<exists>m \<in> cg_supported_schemes g. satp_mode_value m = mode, v))"

section \<open>Memory protection registers\<close>

text \<open>The fields of a configuration register: R, W and X at bits 0 to 2, A at bits 3 and 4, L at bit 7.\<close>

definition cfg_a :: "nat \<Rightarrow> nat" where
  "cfg_a v = take_bit 2 (drop_bit 3 v)"

definition pmp_filtermap :: "csr_gen \<Rightarrow> nat \<Rightarrow> nat \<Rightarrow> bool \<times> nat" where
  "pmp_filtermap g old v =
     (let r = bit v 0; w = (if \<not> r \<and> bit v 1 then False else bit v 1);
          a = (if cg_pmp_grain g \<ge> 1 then (if cfg_a v = pmp_a_value PMPA_NA4 then pmp_a_value PMPA_OFF else cfg_a v) else cfg_a v)
      in (\<not> bit old 7, of_bool r OR push_bit 1 (of_bool w) OR push_bit 2 (of_bool (bit v 2)) OR push_bit 3 a OR push_bit 7 (of_bool (bit v 7))))"

definition pmpaddr_filtermap :: "nat list \<Rightarrow> nat \<Rightarrow> nat \<Rightarrow> bool \<times> nat" where
  "pmpaddr_filtermap pmpxcfg idx value =
     (let current_locked = bit (pmpxcfg ! idx) 7;
          next_locked_tor = (if idx + 1 < length pmpxcfg
                             then bit (pmpxcfg ! (idx + 1)) 7 \<and> cfg_a (pmpxcfg ! (idx + 1)) = pmp_a_value PMPA_TOR else False)
      in (\<not> (current_locked \<or> next_locked_tor), value))"

definition pmpaddr_fu_read_map :: "csr_gen \<Rightarrow> nat \<Rightarrow> nat \<Rightarrow> nat" where
  "pmpaddr_fu_read_map g cfg value =
     (let G = cg_pmp_grain g;
          napot_value = (if G \<ge> 2 then mask (G - 1) OR push_bit (G - 1) (drop_bit (G - 1) value) else value);
          tor_value = (if G \<ge> 1 then push_bit G (drop_bit G value) else value)
      in if cfg_a cfg = pmp_a_value PMPA_NAPOT \<or> cfg_a cfg = pmp_a_value PMPA_NA4 then napot_value else tor_value)"

definition pmpcfg_config :: "csr_gen \<Rightarrow> nat \<Rightarrow> csr_config" where
  "pmpcfg_config g old = (plain_csr PMPXCFG_WIDTH 0 0)\<lparr>fu_write_filtermap := pmp_filtermap g old\<rparr>"

definition pmpaddr_config :: "csr_gen \<Rightarrow> nat list \<Rightarrow> nat \<Rightarrow> csr_config" where
  "pmpaddr_config g pmpxcfg idx =
     (plain_csr (cg_xlen g) 0 0)\<lparr>fu_write_filtermap := pmpaddr_filtermap pmpxcfg idx,
                                 fu_read_map := pmpaddr_fu_read_map g (pmpxcfg ! idx)\<rparr>"

section \<open>Event counters\<close>

text \<open>The counters incremented by a report: those that are implemented and select a reported event.\<close>

definition hpm_event_report :: "csr_gen \<Rightarrow> (nat \<Rightarrow> nat) \<Rightarrow> (HPMEvent \<Rightarrow> bool) \<Rightarrow> nat \<Rightarrow> bool" where
  "hpm_event_report g mhpmevent events i \<longleftrightarrow> 3 \<le> i \<and> i < 3 + cg_hpm_counters_count g \<and>
     list_ex (\<lambda>event. event \<noteq> HPM_NO_EVENT \<and> mhpmevent i = hpm_event_value event \<and> events event) [HPM_NO_EVENT, HPM_BRANCH_MISPREDICTION]"

section \<open>Layout of mstatus\<close>

lemma disjoint_slices:
  assumes "sorted_wrt (\<lambda>x y. fst x + snd x \<le> fst y \<or> fst y + snd y \<le> fst x) (slices a)"
  shows "alias_disjoint a"
  unfolding alias_disjoint_def
proof (rule pairwiseI, intro allI notI)
  fix j k i
  assume jk: "j \<in> {..<length (slices a)}" "k \<in> {..<length (slices a)}" "j \<noteq> k"
    and i: "in_slice i (slices a ! j) \<and> in_slice i (slices a ! k)"
  have "fst (slices a ! j) + snd (slices a ! j) \<le> fst (slices a ! k) \<or> fst (slices a ! k) + snd (slices a ! k) \<le> fst (slices a ! j)"
    using assms jk unfolding sorted_wrt_iff_nth_less by (metis lessThan_iff linorder_neqE_nat)
  then show False using i by (auto simp: in_slice_def)
qed

lemma mstatus_offsets [simp]:
  "mstatus_offset g ''SIE'' = 1" "mstatus_offset g ''MIE'' = 3" "mstatus_offset g ''SPIE'' = 5" "mstatus_offset g ''UBE'' = 6"
  "mstatus_offset g ''MPIE'' = 7" "mstatus_offset g ''SPP'' = 8" "mstatus_offset g ''VS'' = 9" "mstatus_offset g ''MPP'' = 11"
  "mstatus_offset g ''FS'' = 13" "mstatus_offset g ''XS'' = 15" "mstatus_offset g ''MPRV'' = 17" "mstatus_offset g ''SUM'' = 18"
  "mstatus_offset g ''MXR'' = 19" "mstatus_offset g ''TVM'' = 20" "mstatus_offset g ''TW'' = 21" "mstatus_offset g ''TSR'' = 22"
  "mstatus_offset g ''SPELP'' = 23" "mstatus_offset g ''SDT'' = 24" "mstatus_offset g ''UXL'' = 32" "mstatus_offset g ''SXL'' = 34"
  "mstatus_offset g ''SBE'' = 36" "mstatus_offset g ''MBE'' = 37" "mstatus_offset g ''SD'' = cg_xlen g - 1"
  by (simp_all add: mstatus_offset_def MstatusFieldOffsets_def)

lemma field_widths [simp]: "csr_width (bit_field r) = 1" "csr_width (mstatus_mpp g) = 2"
  by (simp_all add: bit_field_def mstatus_mpp_def plain_csr_def)

lemma mstatus_disjoint: "cg_xlen g = 32 \<or> cg_xlen g = 64 \<Longrightarrow> alias_disjoint (mstatus g)"
  by (rule disjoint_slices) (auto simp: slices_def mstatus_def mstatus_fields_def mstatus_ro_fields_def)

text \<open>A field that is not under the mask of a shadow keeps its value, also behind a filter.\<close>

definition identity_field :: "csr_config \<Rightarrow> bool" where
  "identity_field cfg \<longleftrightarrow> fu_read_map cfg = (\<lambda>d. d) \<and> fu_write_combine cfg = fu_write_combine_default (csr_width cfg) \<and>
     (\<forall>d. snd (fu_write_filtermap cfg d) = d)"

lemma field_kept:
  assumes cfg: "identity_field cfg" and ok: "csr_ok cfg s"
    and d: "\<And>n. n < csr_width cfg \<Longrightarrow> bit d n \<longleftrightarrow> op = CSR_WRITE \<and> bit (csr_value s) n"
  shows "csr_value (csr_fu_write cfg op d s) = csr_value s"
proof -
  let ?w = "csr_width cfg" and ?v = "csr_value s"
  have v: "take_bit ?w ?v = ?v" using ok by (simp add: csr_ok_def take_bit_nat_eq_self)
  have "take_bit ?w (fu_write_combine_default ?w d op ?v) = ?v"
    by (rule bit_eqI) (use d bit_bound [of ?v ?w] ok in \<open>auto simp: bit_take_bit_iff bit_combine_default csr_ok_def op_bit_def split: WriteOpType.splits\<close>)
  moreover have "(?v AND not_at ?w r) OR (?v AND r) = ?v" for r
    by (rule bit_eqI) (use bit_bound [of ?v ?w] ok in \<open>auto simp: csr_ok_def bit_or_iff bit_and_iff bit_not_at\<close>)
  ultimately show ?thesis
    using cfg v by (auto simp: csr_fu_write_def csr_cycle_def fu_write_internal_def identity_field_def fu_read_def Let_def
        case_prod_beta split: option.splits if_splits)
qed

lemma alias_read_identity:
  assumes "list_all (\<lambda>(start, cfg). identity_field cfg) (alias_fields a)" "length ss = length (alias_fields a)"
  shows "alias_fu_read a ss = alias_value a (map csr_value ss)"
proof -
  have "map2 (\<lambda>(start, cfg) s. fu_read cfg s) (alias_fields a) ss = map csr_value ss"
    using assms by (intro nth_equalityI) (auto simp: list_all_length identity_field_def fu_read_def split_def)
  then show ?thesis by (simp add: alias_fu_read_def)
qed

lemma shadow_keeps_field:
  assumes a: "alias_disjoint a" "list_all (\<lambda>(start, cfg). identity_field cfg) (alias_fields a)"
    and ss: "alias_states_ok a ss" and k: "k < length (alias_fields a)" "alias_fields a ! k = (start, cfg)" "start + csr_width cfg \<le> W"
    and m: "\<And>n. n < csr_width cfg \<Longrightarrow> \<not> bit (full_writemask h) (start + n)"
  shows "csr_value (shadow_put W h (alias_fu_read a) (alias_fu_write a) op d ss ! k) = csr_value (ss ! k)"
proof -
  have len: "length ss = length (alias_fields a)" using ss by (simp add: alias_states_ok_def)
  let ?d = "shadow_fu_write_data W h op (alias_fu_read a ss) d"
  have "bit (alias_fu_read a ss) (start + n) \<longleftrightarrow> bit (csr_value (ss ! k)) n" if "n < csr_width cfg" for n
  proof -
    have "in_slice (start + n) (slices a ! k)" using k that by (simp add: slices_def in_slice_def nth_append)
    from alias_bit_field [OF a(1) _ k(1) this, of "map csr_value ss"] show ?thesis
      using len k by (simp add: alias_read_identity [OF a(2) len])
  qed
  then have "bit (take_bit (csr_width cfg) (drop_bit start ?d)) n \<longleftrightarrow> op = CSR_WRITE \<and> bit (csr_value (ss ! k)) n"
    if "n < csr_width cfg" for n
    using that m [OF that] k(3) by (simp add: bit_take_bit_iff bit_drop_bit_eq bit_shadow_fu_write_data)
  moreover have "identity_field cfg" using a(2) k by (auto simp: list_all_length)
  moreover have "csr_ok cfg (ss ! k)" using ss k len by (metis alias_states_ok_def snd_conv)
  ultimately have "csr_value (csr_fu_write cfg op (take_bit (csr_width cfg) (drop_bit start ?d)) (ss ! k)) = csr_value (ss ! k)"
    using field_kept by blast
  then show ?thesis using k len by (simp add: shadow_put_def alias_fu_write_def)
qed

section \<open>Protection of the machine-mode fields\<close>

definition in_sstatus :: "csr_gen \<Rightarrow> string \<Rightarrow> nat \<Rightarrow> bool" where
  "in_sstatus g f i \<longleftrightarrow> mstatus_offset g f \<le> i \<and> i < mstatus_offset g f + mstatus_field_length f"

lemma bit_field_mask: "bit (push_bit a (2 ^ n - 1) :: nat) i \<longleftrightarrow> a \<le> i \<and> i < a + n"
  unfolding mask_nat_def [symmetric] by (auto simp: bit_push_bit_iff bit_mask_iff)

lemma bit_fold_fields:
  fixes m0 :: nat
  shows
  "bit (fold (\<lambda>f m. if P f then m else m OR push_bit (mstatus_offset g f) (2 ^ mstatus_field_length f - 1)) fs m0) i \<longleftrightarrow>
   bit m0 i \<or> (\<exists>f \<in> set fs. \<not> P f \<and> in_sstatus g f i)"
proof (induction fs arbitrary: m0)
  case (Cons f fs)
  then show ?case using bit_field_mask [of "mstatus_offset g f" "mstatus_field_length f" i]
    by (auto simp: bit_or_iff in_sstatus_def)
qed simp

lemma sstatus_mask_bits: "bit (sstatus_mask g) i \<longleftrightarrow> (\<exists>f \<in> set sstatus_field_subset. in_sstatus g f i)"
  unfolding sstatus_mask_def bit_fold_fields by (auto simp: sstatus_field_subset_def)

lemma machine_bits_not_in_sstatus:
  assumes "cg_xlen g = 32 \<or> cg_xlen g = 64" "i \<in> {3, 7, 11, 12, 17, 20, 21, 22, 32, 33}"
  shows "\<not> bit (sstatus_mask g) i"
  using assms unfolding sstatus_mask_bits sstatus_field_subset_def in_sstatus_def by (auto simp: mstatus_field_length_def)

text \<open>The fields of \<^verbatim>\<open>mstatus\<close> that only machine mode may write, with their positions in the list.\<close>

definition machine_fields :: "nat set" where
  "machine_fields = {0, 1, 2, 3, 6, 7, 11}"

lemma machine_field_names: "map (\<lambda>k. fst (mstatus_fields g ! k)) [0, 1, 2, 3, 6, 7, 11] = [''MIE'', ''MPIE'', ''MPP'', ''MPRV'', ''TVM'', ''TSR'', ''TW'']"
  by (simp add: mstatus_fields_def)

lemma mstatus_identity: "list_all (\<lambda>(start, cfg). identity_field cfg) (alias_fields (mstatus g))"
  by (simp add: mstatus_def mstatus_fields_def identity_field_def bit_field_def mstatus_mpp_def plain_csr_def filter_legal_priv_mode_def)

lemma sstatus_shadow:
  assumes "sstatus g = Inr h"
  shows "shadow_offset h = 0" "write_mask h = take_bit (cg_xlen g) (sstatus_mask g)"
  using assms by (auto simp: sstatus_def ShadowCSR_def split: if_splits)

text \<open>
  The supervisor view protects the machine-mode fields: no CSR instruction on \<^verbatim>\<open>sstatus\<close>, whatever
  its operation and operand, changes the interrupt enables MIE and MPIE, the previous privilege MPP, or
  the controls MPRV, TVM, TSR and TW of \<^verbatim>\<open>mstatus\<close>; the fields of \<^verbatim>\<open>mstatus\<close> do not overlap.
\<close>

lemma sstatus_protects_machine_fields:
  assumes "cg_xlen g = 32 \<or> cg_xlen g = 64" "sstatus g = Inr h" "alias_states_ok (mstatus g) ss" "k \<in> machine_fields"
  shows "alias_disjoint (mstatus g) \<and>
    csr_value (shadow_put 64 h (alias_fu_read (mstatus g)) (alias_fu_write (mstatus g)) op d ss ! k) = csr_value (ss ! k)"
proof -
  let ?a = "mstatus g"
  have "\<exists>start cfg. k < length (alias_fields ?a) \<and> alias_fields ?a ! k = (start, cfg) \<and> start + csr_width cfg \<le> 64 \<and>
      (\<forall>n < csr_width cfg. start + n \<in> {3, 7, 11, 12, 17, 20, 21, 22})"
    using assms(4) by (auto simp: machine_fields_def mstatus_def mstatus_fields_def less_Suc_eq numeral_2_eq_2)
  then obtain start cfg where k: "k < length (alias_fields ?a)" "alias_fields ?a ! k = (start, cfg)" "start + csr_width cfg \<le> 64"
      "\<forall>n < csr_width cfg. start + n \<in> {3, 7, 11, 12, 17, 20, 21, 22}" by blast
  have "\<not> bit (full_writemask h) (start + n)" if "n < csr_width cfg" for n
    using machine_bits_not_in_sstatus [OF assms(1), of "start + n"] k(4) that sstatus_shadow [OF assms(2)]
    by (auto simp: bit_full_writemask bit_take_bit_iff)
  then show ?thesis
    using shadow_keeps_field [OF mstatus_disjoint [OF assms(1)] mstatus_identity assms(3) k(1-3)] mstatus_disjoint [OF assms(1)] by blast
qed

definition example_gen :: csr_gen where
  "example_gen = \<lparr>cg_xlen = 32, cg_extensions = {}, cg_user_mode = True, cg_supervisor_mode = True, cg_sstc = False,
     cg_supported_schemes = {Satp_BARE}, cg_hpm_counters_count = 0, cg_pmp_grain = 0, cg_pmp_register_count = 0\<rparr>"

definition example_mstatus :: "csr list" where
  "example_mstatus = map (\<lambda>(f, cfg). csr_reset cfg) (mstatus_fields example_gen)"

text \<open>On RV64 the field UXL, which the architecture shows in \<^verbatim>\<open>sstatus\<close>, is not in its mask.\<close>

lemma sstatus_hides_uxl:
  "cg_xlen g = 64 \<Longrightarrow> sstatus g = Inr h \<Longrightarrow> \<not> bit (shadow_view h x) 32 \<and> \<not> bit (shadow_view h x) 33"
  using machine_bits_not_in_sstatus [of g 32] machine_bits_not_in_sstatus [of g 33]
  by (auto simp: sstatus_def ShadowCSR_def shadow_view_def bit_and_iff bit_take_bit_iff split: if_splits)

text \<open>The alignment of \<^verbatim>\<open>sepc\<close> depends on the extension C, that of \<^verbatim>\<open>mepc\<close> on Zca.\<close>

lemma sepc_alignment_differs:
  "Ext_ZCA \<in> cg_extensions g \<Longrightarrow> Ext_C \<notin> cg_extensions g \<Longrightarrow> mepc_ro_bits g = 1 \<and> sepc_ro_bits g = 3"
  by (simp add: mepc_ro_bits_def sepc_ro_bits_def)


section \<open>Memory protection locks\<close>

definition cfg_legal :: "csr_gen \<Rightarrow> nat \<Rightarrow> bool" where
  "cfg_legal g v \<longleftrightarrow> (bit v 1 \<longrightarrow> bit v 0) \<and> \<not> bit v 5 \<and> \<not> bit v 6 \<and> (1 \<le> cg_pmp_grain g \<longrightarrow> cfg_a v \<noteq> pmp_a_value PMPA_NA4) \<and> v < 2 ^ PMPXCFG_WIDTH"

lemma bit_push_of_bool: "bit (push_bit n (of_bool b) :: nat) i \<longleftrightarrow> b \<and> i = n"
  by (auto simp: bit_push_bit_iff bit_of_bool_iff)

lemmas cfg_bits = bit_take_bit_iff bit_drop_bit_eq bit_or_iff bit_push_of_bool

lemma cfg_a_filtered:
  "cfg_a (of_bool r OR push_bit 1 (of_bool w) OR push_bit 2 (of_bool x) OR push_bit 3 (take_bit 2 a) OR push_bit 7 (of_bool l)) = take_bit 2 a"
  unfolding cfg_a_def
  by (rule bit_eqI, unfold cfg_bits) (auto simp: bit_push_bit_iff bit_of_bool_iff bit_take_bit_iff)

lemma pmp_filtermap_legal: "cfg_legal g (snd (pmp_filtermap g old v))"
proof -
  define a where "a = (if cg_pmp_grain g \<ge> 1 \<and> cfg_a v = pmp_a_value PMPA_NA4 then pmp_a_value PMPA_OFF else cfg_a v)"
  have a: "take_bit 2 a = a" by (simp add: a_def cfg_a_def)
  let ?v = "of_bool (bit v 0) OR push_bit 1 (of_bool (bit v 0 \<and> bit v 1)) OR push_bit 2 (of_bool (bit v 2)) OR push_bit 3 (take_bit 2 a)
    OR push_bit 7 (of_bool (bit v 7)) :: nat"
  have v: "snd (pmp_filtermap g old v) = ?v" unfolding a by (auto simp: pmp_filtermap_def Let_def a_def)
  have "?v < 2 ^ PMPXCFG_WIDTH"
    by (rule bounded_bits, unfold cfg_bits) (auto simp: PMPXCFG_WIDTH_def bit_take_bit_iff bit_push_bit_iff bit_of_bool_iff)
  moreover have "1 \<le> cg_pmp_grain g \<longrightarrow> take_bit 2 a \<noteq> pmp_a_value PMPA_NA4" unfolding a by (simp add: a_def)
  ultimately show ?thesis unfolding v cfg_legal_def cfg_a_filtered cfg_bits
    by (simp add: bit_take_bit_iff bit_push_bit_iff bit_of_bool_iff) (cases "bit v 0"; simp add: bit_0)
qed

lemma pmpcfg_write:
  "csr_value (csr_fu_write (pmpcfg_config g (csr_value s)) op d s) = csr_value s \<or>
   (\<not> bit (csr_value s) 7 \<and> cfg_legal g (csr_value (csr_fu_write (pmpcfg_config g (csr_value s)) op d s)))"
proof -
  let ?v = "take_bit PMPXCFG_WIDTH (fu_write_combine_default PMPXCFG_WIDTH d op (csr_value s))"
  have f: "fst (pmp_filtermap g (csr_value s) ?v) \<longleftrightarrow> \<not> bit (csr_value s) 7" by (simp add: pmp_filtermap_def Let_def)
  have *: "cfg_legal g x \<Longrightarrow> (take_bit PMPXCFG_WIDTH x AND not_at PMPXCFG_WIDTH 0) = x" for x
    by (rule bit_eqI) (auto simp: cfg_legal_def bit_or_iff bit_and_iff bit_not_at take_bit_nat_eq_self dest: bit_bound)
  show ?thesis
    using pmp_filtermap_legal [of g "csr_value s" ?v] f
    by (auto simp: csr_fu_write_def csr_cycle_def fu_write_internal_def pmpcfg_config_def plain_csr_def fu_read_def Let_def * split: prod.splits)
qed

lemma pmpaddr_locked:
  assumes "bit (cfgs ! idx) 7 \<or> idx + 1 < length cfgs \<and> bit (cfgs ! (idx + 1)) 7 \<and> cfg_a (cfgs ! (idx + 1)) = pmp_a_value PMPA_TOR"
  shows "csr_value (csr_fu_write (pmpaddr_config g cfgs idx) op d t) = csr_value t"
  using assms by (auto simp: csr_fu_write_def csr_cycle_def fu_write_internal_def pmpaddr_config_def pmpaddr_filtermap_def Let_def)

text \<open>
  The locks of the memory protection registers hold against every CSR instruction: a locked configuration
  keeps its value, an address register keeps its value when its own entry is locked or the next entry is a locked
  top-of-range one, and every configuration stays legal (no write permission without read permission, reserved bits
  clear, no four-byte regions with a coarser grain).
\<close>

lemma pmp_locks_hold:
  assumes "cfg_legal g (csr_value s)"
  shows "cfg_legal g (csr_value (csr_fu_write (pmpcfg_config g (csr_value s)) op d s)) \<and>
    (bit (csr_value s) 7 \<longrightarrow> csr_value (csr_fu_write (pmpcfg_config g (csr_value s)) op d s) = csr_value s) \<and>
    (bit (cfgs ! idx) 7 \<or> idx + 1 < length cfgs \<and> bit (cfgs ! (idx + 1)) 7 \<and> cfg_a (cfgs ! (idx + 1)) = pmp_a_value PMPA_TOR \<longrightarrow>
       csr_value (csr_fu_write (pmpaddr_config g cfgs idx) op d t) = csr_value t)"
  using assms pmpcfg_write [of g s op d] pmpaddr_locked [of cfgs idx g op d t] by auto

text \<open>
  C19. Machine-mode state is protected. No CSR instruction on \<^verbatim>\<open>sstatus\<close>, whatever its operation and operand, changes the
  interrupt enables MIE and MPIE, the previous privilege MPP, or the controls MPRV, TVM, TSR and TW of
  \<^verbatim>\<open>mstatus\<close>, whose fields do not overlap. The locks of the memory protection registers hold against every CSR
  instruction: a locked configuration keeps its value, an address register keeps its value when its own entry is locked or
  the next entry is a locked top-of-range one, and every configuration stays legal (no write permission
  without read permission, reserved bits clear, no four-byte regions with a coarser grain).
\<close>

theorem machine_state_protected:
  assumes "cg_xlen g = 32 \<or> cg_xlen g = 64" "sstatus g = Inr h" "alias_states_ok (mstatus g) ss" "k \<in> machine_fields"
    and "cfg_legal g (csr_value s)"
  shows "alias_disjoint (mstatus g) \<and>
    csr_value (shadow_put 64 h (alias_fu_read (mstatus g)) (alias_fu_write (mstatus g)) op d ss ! k) = csr_value (ss ! k) \<and>
    cfg_legal g (csr_value (csr_fu_write (pmpcfg_config g (csr_value s)) op d s)) \<and>
    (bit (csr_value s) 7 \<longrightarrow> csr_value (csr_fu_write (pmpcfg_config g (csr_value s)) op d s) = csr_value s) \<and>
    (bit (cfgs ! idx) 7 \<or> idx + 1 < length cfgs \<and> bit (cfgs ! (idx + 1)) 7 \<and> cfg_a (cfgs ! (idx + 1)) = pmp_a_value PMPA_TOR \<longrightarrow>
       csr_value (csr_fu_write (pmpaddr_config g cfgs idx) op d t) = csr_value t)"
  using sstatus_protects_machine_fields [OF assms(1-4), of op d] pmp_locks_hold [OF assms(5), of op d cfgs idx t] by simp

theorem machine_state_protected_witness:
  "csr_value (shadow_put 64 (projr (sstatus example_gen)) (alias_fu_read (mstatus example_gen)) (alias_fu_write (mstatus example_gen))
     CSR_WRITE 31 example_mstatus ! 2) = 3 \<and>
   csr_value (csr_fu_write (pmpcfg_config example_gen 137) CSR_WRITE 31 ((csr_reset (plain_csr 8 0 0))\<lparr>csr_value := 137\<rparr>)) = 137"
proof -
  let ?s = "(csr_reset (plain_csr 8 0 0))\<lparr>csr_value := 137\<rparr>"
  have legal: "cfg_legal example_gen (csr_value ?s)" by (simp add: cfg_legal_def PMPXCFG_WIDTH_def example_gen_def)
  have ok: "alias_states_ok (mstatus example_gen) example_mstatus"
    by (auto simp: alias_states_ok_def example_mstatus_def mstatus_def mstatus_fields_def less_Suc_eq csr_ok_def csr_reset_def
        bit_field_def mstatus_mpp_def plain_csr_def)
  have "\<exists>h. sstatus example_gen = Inr h" by (simp add: sstatus_def ShadowCSR_def example_gen_def)
  then have h: "sstatus example_gen = Inr (projr (sstatus example_gen))" by auto
  have x: "cg_xlen example_gen = 32 \<or> cg_xlen example_gen = 64" by (simp add: example_gen_def)
  have k: "2 \<in> machine_fields" by (simp add: machine_fields_def)
  have m: "csr_value (example_mstatus ! 2) = 3"
    by (simp add: example_gen_def example_mstatus_def mstatus_fields_def csr_reset_def mstatus_mpp_def plain_csr_def)
  note c = machine_state_protected [OF x h ok k legal, of CSR_WRITE 31 "[]" 0 ?s]
  have "bit (csr_value ?s) 7" by (simp add: bit_0)
  then have "csr_value (csr_fu_write (pmpcfg_config example_gen (csr_value ?s)) CSR_WRITE 31 ?s) = csr_value ?s" using c by blast
  then show ?thesis using conjunct1 [OF conjunct2 [OF c]] m by simp
qed

section \<open>Accesses to aliased registers\<close>

text \<open>The aliased status and trap vector registers meet the conditions on aliased registers.\<close>

lemma aliases_ok:
  assumes "cg_xlen g = 32 \<or> cg_xlen g = 64"
  shows "alias_ok 64 (mstatus g)" "alias_ok (cg_xlen g) (tvec g)"
proof -
  have "\<forall>sl \<in> set (slices (mstatus g)). fst sl + snd sl \<le> 64"
    using assms by (auto simp: slices_def mstatus_def mstatus_fields_def mstatus_ro_fields_def)
  moreover have "\<forall>(start, cfg) \<in> set (alias_fields (mstatus g)). fu_read_map cfg = (\<lambda>d. d) \<and> fu_write_combine cfg = fu_write_combine_default (csr_width cfg)"
    using mstatus_identity [of g] by (auto simp: list_all_iff identity_field_def)
  ultimately show "alias_ok 64 (mstatus g)" using mstatus_disjoint [OF assms] unfolding alias_ok_def by blast
  have "alias_disjoint (tvec g)" by (rule disjoint_slices) (use assms in \<open>auto simp: slices_def tvec_def plain_csr_def\<close>)
  then show "alias_ok (cg_xlen g) (tvec g)" using assms by (auto simp: alias_ok_def slices_def tvec_def plain_csr_def)
qed

text \<open>
  C18. CSR instructions on a shadow of an aliased register whose fields are at disjoint positions, such as \<^verbatim>\<open>mstatus\<close>,
  \<^verbatim>\<open>mtvec\<close> and \<^verbatim>\<open>stvec\<close> of every configuration for 32 or 64 bits. The instruction asks for the value that its operation (write,
  set or clear) gives on the bits under the write mask of the window. Every field, with its filter, takes what the filter makes of the
  part of this value at its position, apart from its read-only bits, or is kept when the filter refuses it. So a
  bit outside the filtered fields follows the operation exactly when it lies under the mask and is a writable bit of a field, and is kept
  otherwise. A
  64-bit counter is shown by its two 32-bit registers: a CSR write to one of them replaces that half and keeps the other;
  without an instruction an increment adds one modulo \<open>2 ^ 64\<close>, an instruction that writes in the same cycle
  wins over it, and a counter that is not implemented stays zero whatever happens.
\<close>

theorem csr_access_through_windows:
  assumes "alias_ok W a" "length ss = length (alias_fields a)" "csr_ok (counter_config False) s" "half \<in> {counter_low, counter_high}"
  shows "let ss' = shadow_put W h (alias_fu_read a) (alias_fu_write a) op d ss in
    (\<forall>k < length (alias_fields a). case alias_fields a ! k of (start, cfg) \<Rightarrow>
       csr_value (ss' ! k) = field_write cfg (take_bit (csr_width cfg) (drop_bit start (window_request W h op d (alias_fu_read a ss)))) (csr_value (ss ! k))) \<and>
    (\<forall>j < W. alias_unfiltered a j \<longrightarrow> bit (alias_fu_read a ss') j =
      (if alias_writable a j \<and> shadow_offset h \<le> j \<and> bit (write_mask h) (j - shadow_offset h)
       then op_bit op (bit (alias_fu_read a ss) j) (bit d (j - shadow_offset h))
       else bit (alias_fu_read a ss) j)) \<and>
    (cg_xlen g = 32 \<or> cg_xlen g = 64 \<longrightarrow> alias_ok 64 (mstatus g) \<and> alias_ok (cg_xlen g) (tvec g)) \<and>
    csr_value s = shadow_get counter_low csr_value s + 2 ^ 32 * shadow_get counter_high csr_value s \<and>
    shadow_get half csr_value (shadow_put 64 half csr_value (csr_fu_write (counter_config False)) CSR_WRITE v s) = take_bit 32 v \<and>
    (\<forall>h' \<in> {counter_low, counter_high} - {half}. shadow_get h' csr_value
       (shadow_put 64 half csr_value (csr_fu_write (counter_config False)) CSR_WRITE v s) = shadow_get h' csr_value s) \<and>
    csr_value (counter_cycle False True None s) = (csr_value s + 1) mod 2 ^ 64 \<and>
    csr_value (counter_cycle False True (Some (v, CSR_WRITE)) s) = take_bit 64 v \<and>
    (csr_value s = 0 \<longrightarrow> csr_value (counter_cycle True inc fu s) = 0)"
  unfolding Let_def
proof (intro conjI allI impI)
  fix k
  assume "k < length (alias_fields a)"
  from csr_field_through_shadow [OF assms(1,2) this]
  show "case alias_fields a ! k of (start, cfg) \<Rightarrow> csr_value (shadow_put W h (alias_fu_read a) (alias_fu_write a) op d ss ! k) =
      field_write cfg (take_bit (csr_width cfg) (drop_bit start (window_request W h op d (alias_fu_read a ss)))) (csr_value (ss ! k))"
    by (simp add: split_def)
qed (use csr_write_through_shadow [OF assms(1,2)] aliases_ok csr_counter_behaviour [OF assms(3,4)] in blast)+

text \<open>
  On \<^verbatim>\<open>mstatus\<close> of a 32-bit core the reserved value of MPP is refused and user mode is accepted; on \<^verbatim>\<open>sstatus\<close> the supervisor
  interrupt enable is set.
\<close>

theorem csr_access_through_windows_witness:
  "csr_value (shadow_put 64 counter_low (alias_fu_read (mstatus example_gen)) (alias_fu_write (mstatus example_gen)) CSR_WRITE 4096 example_mstatus ! 2) = 3 \<and>
   csr_value (shadow_put 64 counter_low (alias_fu_read (mstatus example_gen)) (alias_fu_write (mstatus example_gen)) CSR_WRITE 0 example_mstatus ! 2) = 0 \<and>
   bit (alias_fu_read (mstatus example_gen) (shadow_put 64 (projr (sstatus example_gen)) (alias_fu_read (mstatus example_gen))
     (alias_fu_write (mstatus example_gen)) CSR_SET 2 example_mstatus)) 1"
proof -
  let ?a = "mstatus example_gen" and ?s = "csr_reset (plain_csr 64 0 0)"
  have ok: "alias_ok 64 ?a" by (rule aliases_ok) (simp add: example_gen_def)
  have len: "length example_mstatus = length (alias_fields ?a)" by (simp add: example_mstatus_def mstatus_def)
  have s: "csr_ok (counter_config False) ?s" "counter_low \<in> {counter_low, counter_high}"
    by (simp_all add: csr_ok_def counter_config_def plain_csr_def csr_reset_def)
  note c = csr_access_through_windows [OF ok len s, unfolded Let_def]
  have k: "2 < length (alias_fields ?a)" and field: "alias_fields ?a ! 2 = (11, mstatus_mpp example_gen)"
    and old: "csr_value (example_mstatus ! 2) = 3"
    by (simp_all add: mstatus_def mstatus_fields_def example_mstatus_def csr_reset_def mstatus_mpp_def plain_csr_def)
  have mask: "full_writemask counter_low = mask 32" and off: "shadow_offset counter_low = 0" by (simp_all add: full_writemask_def counter_low_def)
  have req: "take_bit 2 (drop_bit 11 (window_request 64 counter_low CSR_WRITE x r)) = take_bit 2 (drop_bit 11 x)" for x r
    by (rule bit_eqI) (auto simp: bit_take_bit_iff bit_drop_bit_eq bit_window_request mask off bit_mask_iff op_bit_def)
  have mpp: "csr_value (shadow_put 64 counter_low (alias_fu_read ?a) (alias_fu_write ?a) CSR_WRITE x example_mstatus ! 2) =
      field_write (mstatus_mpp example_gen) (take_bit 2 (drop_bit 11 x)) 3" for x
  proof -
    have "case alias_fields ?a ! 2 of (start, cfg) \<Rightarrow>
        csr_value (shadow_put 64 counter_low (alias_fu_read ?a) (alias_fu_write ?a) CSR_WRITE x example_mstatus ! 2) =
        field_write cfg (take_bit (csr_width cfg) (drop_bit start (window_request 64 counter_low CSR_WRITE x (alias_fu_read ?a example_mstatus))))
          (csr_value (example_mstatus ! 2))"
      by (rule conjunct1 [OF c [of counter_low CSR_WRITE x], rule_format, OF k])
    then show ?thesis by (simp add: field old req)
  qed
  have "field_write (mstatus_mpp example_gen) 2 3 = 3" "field_write (mstatus_mpp example_gen) 0 3 = 0"
    by (simp_all add: field_write_def mstatus_mpp_def plain_csr_def filter_legal_priv_mode_def example_gen_def)
  then have "csr_value (shadow_put 64 counter_low (alias_fu_read ?a) (alias_fu_write ?a) CSR_WRITE 4096 example_mstatus ! 2) = 3"
    "csr_value (shadow_put 64 counter_low (alias_fu_read ?a) (alias_fu_write ?a) CSR_WRITE 0 example_mstatus ! 2) = 0"
    unfolding mpp by (simp_all add: drop_bit_eq_div take_bit_eq_mod)
  moreover have "bit (alias_fu_read ?a (shadow_put 64 (projr (sstatus example_gen)) (alias_fu_read ?a) (alias_fu_write ?a) CSR_SET 2 example_mstatus)) 1"
  proof -
    have u: "alias_unfiltered ?a 1"
      by (auto simp: alias_unfiltered_def mstatus_def mstatus_fields_def bit_field_def plain_csr_def)
    have w: "alias_writable ?a 1"
      by (simp add: alias_writable_def mstatus_def mstatus_fields_def bit_field_def plain_csr_def example_gen_def)
    have "\<exists>h. sstatus example_gen = Inr h" by (simp add: sstatus_def ShadowCSR_def example_gen_def)
    then have h: "sstatus example_gen = Inr (projr (sstatus example_gen))" by auto
    have "in_sstatus example_gen ''SIE'' 1" by (simp add: in_sstatus_def mstatus_field_length_def)
    then have "bit (sstatus_mask example_gen) 1" unfolding sstatus_mask_bits by (auto simp: sstatus_field_subset_def)
    then have m: "shadow_offset (projr (sstatus example_gen)) = 0" "bit (write_mask (projr (sstatus example_gen))) 1"
      using sstatus_shadow [OF h] by (simp_all add: bit_take_bit_iff example_gen_def)
    have b: "bit (2 :: nat) 1" by (simp add: bit_iff_odd)
    have "\<forall>j < 64. alias_unfiltered ?a j \<longrightarrow> bit (alias_fu_read ?a (shadow_put 64 (projr (sstatus example_gen)) (alias_fu_read ?a) (alias_fu_write ?a)
          CSR_SET 2 example_mstatus)) j =
        (if alias_writable ?a j \<and> shadow_offset (projr (sstatus example_gen)) \<le> j \<and>
            bit (write_mask (projr (sstatus example_gen))) (j - shadow_offset (projr (sstatus example_gen)))
         then op_bit CSR_SET (bit (alias_fu_read ?a example_mstatus) j) (bit (2 :: nat) (j - shadow_offset (projr (sstatus example_gen))))
         else bit (alias_fu_read ?a example_mstatus) j)"
      by (rule conjunct1 [OF conjunct2 [OF c [of "projr (sstatus example_gen)" CSR_SET 2]]])
    from this [THEN spec, of 1] show ?thesis using u w m b by (simp add: op_bit_def del: One_nat_def)
  qed
  ultimately show ?thesis by blast
qed

end
