(* ===== verification/Exception_Register.thy ===== *)
theory Exception_Register
  imports Isa_Consts "HOL-Library.Word"
begin

text \<open>
  The exception information register (\<^verbatim>\<open>priv/traps/exception.py\<close>): of the exceptions reported by the functional
  units it keeps the oldest one in program order, drops it when its instruction is rolled back, and keeps it
  for retirement while the core is flushed. Reports reach it through library FIFOs, which only delay them.
\<close>

section \<open>Model\<close>

record (overloaded) 'a exc_report =
  er_cause :: ExceptionCause
  er_rob_id :: nat
  er_tag :: nat
  er_pc :: "'a word"
  er_mtval :: "'a word"

record (overloaded) 'a eir =
  eir_data :: "'a exc_report"
  eir_valid :: bool

text \<open>
  The inputs of a cycle: the active tags, whether the core is flushing, the first index of the reorder
  buffer, a call of \<^verbatim>\<open>report\<close> and one of \<^verbatim>\<open>clear\<close>.
\<close>

record (overloaded) 'a eir_calls =
  active_tags :: "nat \<Rightarrow> bool"
  core_flushing :: bool
  rob_start_idx :: nat
  call_report :: "'a exc_report option"
  call_clear :: bool

text \<open>The difference of two indices of \<open>n\<close> bits is one bit wider; read as unsigned it is taken modulo \<open>2 ^ (n + 1)\<close>.\<close>

definition rob_distance :: "nat \<Rightarrow> nat \<Rightarrow> nat \<Rightarrow> nat" where
  "rob_distance n a b = nat ((int a - int b) mod 2 ^ (n + 1))"

definition should_write :: "nat \<Rightarrow> 'a::len eir_calls \<Rightarrow> 'a eir \<Rightarrow> 'a exc_report \<Rightarrow> bool" where
  "should_write n c s arg =
     (if \<not> active_tags c (er_tag arg) \<or> (eir_valid s \<and> er_rob_id arg = er_rob_id (eir_data s)) then False
      else if eir_valid s then rob_distance n (er_rob_id arg) (rob_start_idx c) < rob_distance n (er_rob_id (eir_data s)) (rob_start_idx c)
      else True)"

definition eir_cycle :: "nat \<Rightarrow> 'a::len eir_calls \<Rightarrow> 'a eir \<Rightarrow> 'a eir" where
  "eir_cycle n c s =
     (let s1 = (if \<not> active_tags c (er_tag (eir_data s)) \<and> \<not> core_flushing c then s\<lparr>eir_valid := False\<rparr> else s);
          s2 = (case call_report c of None \<Rightarrow> s1
                | Some arg \<Rightarrow> if should_write n c s arg then \<lparr>eir_data = arg, eir_valid = True\<rparr> else s1)
      in if call_clear c then s2\<lparr>eir_valid := False\<rparr> else s2)"

definition eir_get :: "'a::len eir \<Rightarrow> 'a exc_report \<times> bool" where
  "eir_get s = (eir_data s, eir_valid s)"

section \<open>Age in the reorder buffer\<close>

lemma mod_wrap: "t < N \<Longrightarrow> d < N \<Longrightarrow> \<not> t + d < N \<Longrightarrow> (t + d) mod N = t + d - (N :: nat)"
  by (simp add: mod_if)

lemma rob_distance_window:
  assumes "start \<le> q" "q < start + 2 ^ n"
  shows "rob_distance n (q mod 2 ^ n) (start mod 2 ^ n) = q - start + (if start mod 2 ^ n + (q - start) < 2 ^ n then 0 else 2 ^ n)"
proof -
  let ?N = "2 ^ n :: nat" and ?t = "start mod 2 ^ n" and ?d = "q - start"
  have d: "?d < ?N" "?t < ?N" using assms by auto
  have q: "q mod ?N = (?t + ?d) mod ?N" using assms(1) by (metis le_add_diff_inverse mod_add_left_eq)
  show ?thesis
  proof (cases "?t + ?d < ?N")
    case True
    then have "q mod ?N = ?t + ?d" using q by simp
    then have "int (q mod ?N) - int ?t = int ?d" by simp
    moreover have "?d < 2 ^ (n + 1)" using d by simp
    then have "int ?d < 2 ^ (n + 1)" by (metis of_nat_less_numeral_power_cancel_iff)
    then have "int ?d mod 2 ^ (n + 1) = int ?d" by (intro mod_pos_pos_trivial) simp_all
    ultimately have e: "(int (q mod ?N) - int ?t) mod 2 ^ (n + 1) = int ?d" by simp
    show ?thesis unfolding rob_distance_def e using True by simp
  next
    case False
    then have "q mod ?N = ?t + ?d - ?N" using q mod_wrap [OF d(2,1) False] by simp
    then have "int (q mod ?N) - int ?t = int (?d + ?N) - 2 ^ (n + 1)" using False by (simp add: of_nat_diff)
    moreover have "(int (?d + ?N) - 2 ^ (n + 1)) mod 2 ^ (n + 1) = int (?d + ?N) mod 2 ^ (n + 1)" by (rule minus_mod_self2)
    moreover have "?d + ?N < 2 ^ (n + 1)" using d by simp
    then have "int (?d + ?N) < 2 ^ (n + 1)" by (metis of_nat_less_numeral_power_cancel_iff)
    then have "int (?d + ?N) mod 2 ^ (n + 1) = int (?d + ?N)" by (intro mod_pos_pos_trivial) simp_all
    ultimately have e: "(int (q mod ?N) - int ?t) mod 2 ^ (n + 1) = int (?d + ?N)" by simp
    show ?thesis unfolding rob_distance_def e nat_int using False by simp
  qed
qed

lemma rob_distance_order:
  assumes "start \<le> q" "q < start + 2 ^ n" "start \<le> q'" "q' < start + 2 ^ n"
  shows "rob_distance n (q mod 2 ^ n) (start mod 2 ^ n) < rob_distance n (q' mod 2 ^ n) (start mod 2 ^ n) \<longleftrightarrow> q < q'"
  unfolding rob_distance_window [OF assms(1,2)] rob_distance_window [OF assms(3,4)] using assms by auto

lemma rob_id_inj:
  assumes "start \<le> q" "q < start + 2 ^ n" "start \<le> q'" "q' < start + 2 ^ n" "q mod 2 ^ n = q' mod (2 ^ n :: nat)"
  shows "q = q'"
  using rob_distance_order [OF assms(1-4)] rob_distance_order [OF assms(3,4,1,2)] assms(5) by auto

section \<open>Pending exceptions\<close>

text \<open>
  The abstract state: the exceptions reported on the current path, each with the position of its instruction
  in program order. A rollback removes those whose tag became inactive, and a clear removes all. In the
  inputs of a cycle, \<open>head\<close> is the position of the first instruction of the reorder buffer.
\<close>

type_synonym 'a pending = "(nat \<times> 'a exc_report) list"

record (overloaded) 'a eir_input =
  in_active :: "nat \<Rightarrow> bool"
  in_flushing :: bool
  in_head :: nat
  in_report :: "(nat \<times> 'a exc_report) option"
  in_clear :: bool

definition calls_of :: "nat \<Rightarrow> 'a::len eir_input \<Rightarrow> 'a eir_calls" where
  "calls_of n i = \<lparr>active_tags = in_active i, core_flushing = in_flushing i, rob_start_idx = in_head i mod 2 ^ n,
     call_report = map_option snd (in_report i), call_clear = in_clear i\<rparr>"

lemma calls_of_simps [simp]:
  "active_tags (calls_of n i) = in_active i" "core_flushing (calls_of n i) = in_flushing i" "rob_start_idx (calls_of n i) = in_head i mod 2 ^ n"
  "call_report (calls_of n i) = map_option snd (in_report i)" "call_clear (calls_of n i) = in_clear i"
  by (simp_all add: calls_of_def)

definition reported :: "'a::len eir_input \<Rightarrow> 'a pending" where
  "reported i = (case in_report i of None \<Rightarrow> [] | Some r \<Rightarrow> [r])"

definition pending_next :: "'a::len eir_input \<Rightarrow> 'a pending \<Rightarrow> 'a pending" where
  "pending_next i ps =
     (if in_clear i then []
      else (if in_flushing i then ps else filter (\<lambda>(q, r). in_active i (er_tag r)) ps) @
           filter (\<lambda>(q, r). in_active i (er_tag r)) (reported i))"

text \<open>
  A cycle is legal when it is one of a core: a rollback reaches the pending exceptions before anything of the new path is reported, so
  the pending exceptions that it makes inactive are younger than every other one and than a report of an active tag in that cycle; and
  in a cycle with a report of an active tag, it and the pending exceptions belong to instructions of the reorder buffer, which has at
  most \<open>2 ^ n\<close> of them. Reports of inactive tags, of any instruction and at any time, are legal, and so is any position of the head of
  the reorder buffer in the other cycles.
\<close>

definition eir_legal :: "nat \<Rightarrow> 'a::len eir_input \<Rightarrow> 'a pending \<Rightarrow> bool" where
  "eir_legal n i ps \<longleftrightarrow>
     (\<forall>(q, r) \<in> set ps. \<not> in_active i (er_tag r) \<longrightarrow>
        (\<forall>(q', r') \<in> set (ps @ reported i). in_active i (er_tag r') \<longrightarrow> q' < q)) \<and>
     (\<forall>(q', r') \<in> set (reported i). in_active i (er_tag r') \<longrightarrow>
        (\<forall>(q, r) \<in> set (ps @ reported i). er_rob_id r = q mod 2 ^ n \<and> in_head i \<le> q \<and> q < in_head i + 2 ^ n))"

fun eir_run :: "nat \<Rightarrow> 'a::len eir_input list \<Rightarrow> 'a eir \<Rightarrow> 'a eir" where
  "eir_run n [] s = s"
| "eir_run n (i # ins) s = eir_run n ins (eir_cycle n (calls_of n i) s)"

fun pending_run :: "'a::len eir_input list \<Rightarrow> 'a pending \<Rightarrow> 'a pending" where
  "pending_run [] ps = ps"
| "pending_run (i # ins) ps = pending_run ins (pending_next i ps)"

fun eir_legal_run :: "nat \<Rightarrow> 'a::len eir_input list \<Rightarrow> 'a pending \<Rightarrow> bool" where
  "eir_legal_run n [] ps \<longleftrightarrow> True"
| "eir_legal_run n (i # ins) ps \<longleftrightarrow> eir_legal n i ps \<and> eir_legal_run n ins (pending_next i ps)"

definition holds_oldest :: "'a::len eir \<Rightarrow> 'a pending \<Rightarrow> bool" where
  "holds_oldest s ps \<longleftrightarrow> (eir_valid s \<longleftrightarrow> ps \<noteq> []) \<and>
     (eir_valid s \<longrightarrow> (\<exists>q. (q, eir_data s) \<in> set ps \<and> (\<forall>(q', r) \<in> set ps. q \<le> q')))"

lemma legal_inactive:
  assumes "eir_legal n i ps" "(q, d) \<in> set ps" "\<not> in_active i (er_tag d)" "(q', r) \<in> set (ps @ reported i)" "in_active i (er_tag r)"
  shows "q' < q"
  using assms unfolding eir_legal_def by blast

lemma legal_window:
  assumes "eir_legal n i ps" "in_report i = Some (q', arg)" "in_active i (er_tag arg)" "(q, r) \<in> set (ps @ reported i)"
  shows "er_rob_id r = q mod 2 ^ n" "in_head i \<le> q" "q < in_head i + 2 ^ n"
proof -
  have "(q', arg) \<in> set (reported i)" using assms(2) by (simp add: reported_def)
  then have "\<forall>(q, r) \<in> set (ps @ reported i). er_rob_id r = q mod 2 ^ n \<and> in_head i \<le> q \<and> q < in_head i + 2 ^ n"
    using assms(1,3) unfolding eir_legal_def by blast
  then show "er_rob_id r = q mod 2 ^ n" "in_head i \<le> q" "q < in_head i + 2 ^ n" using assms(4) by blast+
qed

lemma should_write_iff:
  assumes legal: "eir_legal n i ps" and r: "in_report i = Some (q', arg)" and q: "(q, eir_data s) \<in> set ps" and v: "eir_valid s"
  shows "should_write n (calls_of n i) s arg \<longleftrightarrow> in_active i (er_tag arg) \<and> q' < q"
proof (cases "in_active i (er_tag arg)")
  case True
  have "(q', arg) \<in> set (ps @ reported i)" "(q, eir_data s) \<in> set (ps @ reported i)" using r q by (simp_all add: reported_def)
  note w = legal_window [OF legal r True this(1)] legal_window [OF legal r True this(2)]
  have "er_rob_id arg = er_rob_id (eir_data s) \<longrightarrow> q' = q" using rob_id_inj w by metis
  then show ?thesis using rob_distance_order [OF w(2,3,5,6)] v w(1,4) True by (auto simp: should_write_def)
qed (simp add: should_write_def)

lemma holds_oldest_step:
  assumes legal: "eir_legal n i ps" and h: "holds_oldest s ps"
  shows "holds_oldest (eir_cycle n (calls_of n i) s) (pending_next i ps)"
proof (cases "eir_valid s")
  case False
  then have "ps = []" using h by (simp add: holds_oldest_def)
  then show ?thesis using False
    by (auto simp: holds_oldest_def eir_cycle_def pending_next_def  should_write_def reported_def Let_def split: option.splits)
next
  case True
  then obtain q where q: "(q, eir_data s) \<in> set ps" "\<forall>(q', r) \<in> set ps. q \<le> q'" using h by (auto simp: holds_oldest_def)
  note suffix = legal_inactive [OF legal q(1)]
  have keep: "filter (\<lambda>(q, r). in_active i (er_tag r)) ps = []" if "\<not> in_active i (er_tag (eir_data s))"
    using suffix [OF that] q(2) by (fastforce simp: filter_empty_conv)
  show ?thesis
  proof (cases "in_report i")
    case None
    then show ?thesis using True q keep
      by (auto simp: holds_oldest_def eir_cycle_def pending_next_def  reported_def Let_def filter_empty_conv)
  next
    case (Some r)
    obtain q' arg where r: "in_report i = Some (q', arg)" using Some by (cases r) simp
    note w = should_write_iff [OF legal r q(1) True]
    have older: "\<not> in_active i (er_tag (eir_data s)) \<Longrightarrow> in_active i (er_tag arg) \<Longrightarrow> q' < q"
      using suffix [of q' arg] r by (simp add: reported_def)
    consider "in_clear i" | "\<not> in_clear i" "in_active i (er_tag arg)" "q' < q"
      | "\<not> in_clear i" "\<not> (in_active i (er_tag arg) \<and> q' < q)" "in_active i (er_tag (eir_data s)) \<or> in_flushing i"
      | "\<not> in_clear i" "\<not> in_active i (er_tag arg)" "\<not> in_active i (er_tag (eir_data s))" "\<not> in_flushing i"
      using older by blast
    then show ?thesis
    proof cases
      case 1
      then show ?thesis by (simp add: holds_oldest_def pending_next_def eir_cycle_def  Let_def)
    next
      case 2
      have "eir_cycle n (calls_of n i) s = \<lparr>eir_data = arg, eir_valid = True\<rparr>"
        using w 2 r by (auto simp: eir_cycle_def Let_def)
      moreover have "(q', arg) \<in> set (pending_next i ps)" "set (pending_next i ps) \<subseteq> insert (q', arg) (set ps)"
        using 2 r by (auto simp: pending_next_def reported_def)
      ultimately show ?thesis using 2 q(2) unfolding holds_oldest_def by (fastforce dest: subsetD)
    next
      case 3
      have "eir_cycle n (calls_of n i) s = s" using w 3 r by (auto simp: eir_cycle_def Let_def)
      moreover have "(q, eir_data s) \<in> set (pending_next i ps)" using 3 q(1) by (auto simp: pending_next_def)
      moreover have "set (pending_next i ps) \<subseteq> set ps \<union> {(q'', r'). q \<le> q''}" using 3 r by (auto simp: pending_next_def reported_def)
      ultimately show ?thesis using True q(2) unfolding holds_oldest_def by (fastforce dest: subsetD)
    next
      case 4
      have "eir_valid (eir_cycle n (calls_of n i) s) = False" using w 4 r by (auto simp: eir_cycle_def Let_def)
      then show ?thesis using 4 r keep by (simp add: holds_oldest_def pending_next_def reported_def)
    qed
  qed
qed

lemma holds_oldest_run:
  "eir_legal_run n ins ps \<Longrightarrow> holds_oldest s ps \<Longrightarrow> holds_oldest (eir_run n ins s) (pending_run ins ps)"
  by (induction ins arbitrary: s ps) (simp_all add: holds_oldest_step)

text \<open>
  C21. The register always holds the oldest pending exception: after any legal run from reset, with reports in any order, rollbacks,
  late reports of rolled back instructions, flushes and clears, it is valid exactly when an exception is pending on the current
  path, and then its contents are a pending exception of an instruction not younger than any other.
\<close>

theorem eir_keeps_oldest:
  assumes "eir_legal_run n ins []" "\<not> eir_valid s0"
  shows "let s = eir_run n ins s0; ps = pending_run ins [] in
    (snd (eir_get s) \<longleftrightarrow> ps \<noteq> []) \<and> (snd (eir_get s) \<longrightarrow> (\<exists>q. (q, fst (eir_get s)) \<in> set ps \<and> (\<forall>(q', r) \<in> set ps. q \<le> q')))"
proof -
  have "holds_oldest s0 []" using assms(2) by (simp add: holds_oldest_def)
  from holds_oldest_run [OF assms(1) this] show ?thesis by (simp add: holds_oldest_def eir_get_def Let_def)
qed

text \<open>
  A wrong-path exception is pending and rolled back; one of the new path is reported, then a late one of an older instruction of the
  wrong path; and the core is flushed, with the head of the reorder buffer past the trapping instruction.
\<close>

definition example_report :: "nat \<Rightarrow> nat \<Rightarrow> 32 exc_report" where
  "example_report q tag = \<lparr>er_cause = Cause_BREAKPOINT, er_rob_id = q mod 4, er_tag = tag, er_pc = of_nat q, er_mtval = 0\<rparr>"

definition example_input :: "nat list \<Rightarrow> bool \<Rightarrow> nat \<Rightarrow> (nat \<times> nat) option \<Rightarrow> 32 eir_input" where
  "example_input active flushing head report =
     \<lparr>in_active = (\<lambda>t. t \<in> set active), in_flushing = flushing, in_head = head,
      in_report = map_option (\<lambda>(q, tag). (q, example_report q tag)) report, in_clear = False\<rparr>"

definition example_reports :: "32 eir_input list" where
  "example_reports =
     [example_input [0, 1] False 3 (Some (6, 1)), example_input [0, 1] False 3 (Some (5, 1)), example_input [0] False 4 None,
      example_input [0, 2] False 5 (Some (8, 2)), example_input [0, 2] False 5 (Some (7, 2)), example_input [0, 2] False 5 (Some (6, 1)),
      example_input [] True 7 None, example_input [] True 9 None]"

theorem eir_keeps_oldest_witness:
  "eir_get (eir_run 2 example_reports \<lparr>eir_data = example_report 0 0, eir_valid = False\<rparr>) = (example_report 7 2, True)"
proof -
  let ?s0 = "\<lparr>eir_data = example_report 0 0, eir_valid = False\<rparr>"
  have "eir_legal_run 2 example_reports []" "\<not> eir_valid ?s0"
    by (simp_all add: example_reports_def example_input_def eir_legal_def pending_next_def reported_def example_report_def)
  from eir_keeps_oldest [OF this] have "snd (eir_get (eir_run 2 example_reports ?s0))"
    "fst (eir_get (eir_run 2 example_reports ?s0)) = example_report 7 2"
    by (auto simp: Let_def example_reports_def example_input_def pending_next_def reported_def example_report_def)
  then show ?thesis by (simp add: prod_eq_iff)
qed

end
