(* ===== verification/Csr_Unit.thy ===== *)
theory Csr_Unit
  imports Csr_Address Csr_Register Frontend_Decode Exception_Register
begin

text \<open>
  The unit that executes CSR instructions (\<^verbatim>\<open>func_blocks/csr/csr_unit.py\<close>). It holds one instruction, waits for its
  operand and for the permission of the side-effect guard, accesses the register in one cycle and keeps
  the result until it is taken; an illegal access is reported with the re-encoded instruction.
\<close>

section \<open>Registers seen by the unit\<close>

text \<open>
  The protocol of a public register: whether the access is valid in a privilege mode, what \<^verbatim>\<open>_fu_read\<close> returns,
  and the state after a cycle in which \<^verbatim>\<open>_fu_read\<close> and \<^verbatim>\<open>_fu_write\<close> are called or not.
\<close>

record 's csr_protocol =
  p_access_valid :: "nat \<Rightarrow> 's \<Rightarrow> bool"
  p_fu_read :: "'s \<Rightarrow> nat"
  p_access :: "bool \<Rightarrow> (nat \<times> WriteOpType) option \<Rightarrow> 's \<Rightarrow> 's"

datatype regfile_error = Already_registered nat

fun create_regfile :: "(nat \<times> 's csr_protocol) list \<Rightarrow> (nat \<times> 's csr_protocol) list \<Rightarrow> regfile_error + (nat \<times> 's csr_protocol) list" where
  "create_regfile regfile [] = Inr regfile"
| "create_regfile regfile ((number, csr) # csrs) =
     (if number \<in> fst ` set regfile then Inl (Already_registered number) else create_regfile (regfile @ [(number, csr)]) csrs)"

section \<open>State and calls\<close>

record csr_instr =
  ci_valid :: bool
  ci_rp_s1 :: nat
  ci_rp_s1_reg :: nat
  ci_rp_dst :: nat
  ci_rob_id :: nat
  ci_op_type :: OpType
  ci_funct3 :: bits
  ci_s1_val :: nat
  ci_imm :: bits
  ci_csr :: nat
  ci_pc :: nat
  ci_tag :: nat
  ci_ftq_ptr :: nat

record csr_unit =
  cu_reserved :: bool
  cu_done :: bool
  cu_exception :: bool
  cu_result :: nat
  cu_instr :: csr_instr

text \<open>
  The inputs of a cycle: whether the side-effect guard lets the transaction run, the privilege mode,
  the active tags, the calls of \<^verbatim>\<open>select\<close>, \<^verbatim>\<open>insert\<close>, \<^verbatim>\<open>update\<close> and \<^verbatim>\<open>get_result\<close>, and the interrupt signal.
\<close>

record csr_unit_in =
  ui_guard :: bool
  ui_priv_mode :: nat
  ui_active :: "nat \<Rightarrow> bool"
  ui_select :: bool
  ui_insert :: "csr_instr option"
  ui_updates :: "(nat \<times> nat) list"
  ui_get_result :: bool
  ui_interrupt :: bool

definition f3_is :: "csr_instr \<Rightarrow> Funct3 \<Rightarrow> bool" where
  "f3_is i f \<longleftrightarrow> ci_funct3 i = to_bits 3 (funct3 f)"

definition should_read_csr :: "csr_instr \<Rightarrow> bool" where
  "should_read_csr i \<longleftrightarrow>
     (f3_is i F3_CSRRW \<and> ci_rp_dst i \<noteq> 0) \<or> f3_is i F3_CSRRS \<or> f3_is i F3_CSRRC \<or>
     (f3_is i F3_CSRRWI \<and> ci_rp_dst i \<noteq> 0) \<or> f3_is i F3_CSRRSI \<or> f3_is i F3_CSRRCI"

definition should_write_csr :: "csr_instr \<Rightarrow> bool" where
  "should_write_csr i \<longleftrightarrow>
     f3_is i F3_CSRRW \<or> (f3_is i F3_CSRRS \<and> ci_rp_s1_reg i \<noteq> 0) \<or> (f3_is i F3_CSRRC \<and> ci_rp_s1_reg i \<noteq> 0) \<or>
     f3_is i F3_CSRRWI \<or> (f3_is i F3_CSRRSI \<and> ci_s1_val i \<noteq> 0) \<or> (f3_is i F3_CSRRCI \<and> ci_s1_val i \<noteq> 0)"

definition write_type :: "csr_instr \<Rightarrow> WriteOpType" where
  "write_type i =
     (if f3_is i F3_CSRRW \<or> f3_is i F3_CSRRWI then CSR_WRITE
      else if f3_is i F3_CSRRS \<or> f3_is i F3_CSRRSI then CSR_SET
      else if f3_is i F3_CSRRC \<or> f3_is i F3_CSRRCI then CSR_CLEAR else CSR_WRITE)"

definition ready_to_process :: "csr_unit \<Rightarrow> bool" where
  "ready_to_process u \<longleftrightarrow> ci_valid (cu_instr u) \<and> ci_rp_s1 (cu_instr u) = 0"

definition csr_fires :: "csr_unit_in \<Rightarrow> csr_unit \<Rightarrow> bool" where
  "csr_fires i u \<longleftrightarrow> ready_to_process u \<and> \<not> cu_done u \<and> ui_guard i"

text \<open>The transaction: the exception flag it sets, the value it reads and the state of the registers after it.\<close>

definition csr_transaction ::
  "bits_from_int \<Rightarrow> (nat \<times> 's csr_protocol) list \<Rightarrow> nat \<Rightarrow> csr_instr \<Rightarrow> 's \<Rightarrow> bool \<times> nat option \<times> 's" where
  "csr_transaction bfi regfile current_priv_mode i cs =
     (case map_of regfile (ci_csr i) of None \<Rightarrow> (True, None, cs)
      | Some p \<Rightarrow>
          let (priv_level_required, read_only) = csr_access_privilege bfi (ci_csr i);
              priv_valid = priv_value priv_level_required \<le> current_priv_mode;
              rd = should_read_csr i; wr = should_write_csr i
          in if priv_valid \<and> p_access_valid p current_priv_mode cs
             then (read_only \<and> wr, if rd then Some (p_fu_read p cs) else None,
                   p_access p rd (if wr \<and> \<not> read_only then Some (ci_s1_val i, write_type i) else None) cs)
             else (True, None, cs))"

definition insert_instr :: "csr_instr \<Rightarrow> csr_instr" where
  "insert_instr d = (if ci_op_type d = OpType_CSR_IMM then d\<lparr>ci_s1_val := of_bits (bslice 0 5 (ci_imm d)), ci_valid := True\<rparr> else d\<lparr>ci_valid := True\<rparr>)"

text \<open>The register number is compared with the one before the cycle; the last matching call wins.\<close>

definition update_instr :: "nat \<Rightarrow> nat \<times> nat \<Rightarrow> csr_instr \<Rightarrow> csr_instr" where
  "update_instr rp upd i = (case upd of (reg_id, reg_val) \<Rightarrow> if reg_id = rp then i\<lparr>ci_s1_val := reg_val, ci_rp_s1 := 0\<rparr> else i)"

definition csr_unit_cycle ::
  "bits_from_int \<Rightarrow> (nat \<times> 's csr_protocol) list \<Rightarrow> csr_unit_in \<Rightarrow> csr_unit \<times> 's \<Rightarrow> csr_unit \<times> 's" where
  "csr_unit_cycle bfi regfile inp us =
     (let (u, cs) = us; (exc, res, cs') = csr_transaction bfi regfile (ui_priv_mode inp) (cu_instr u) cs; fires = csr_fires inp u;
          u1 = (if fires then u\<lparr>cu_result := (case res of Some r \<Rightarrow> r | None \<Rightarrow> cu_result u),
                               cu_exception := (exc \<or> cu_exception u), cu_done := True\<rparr> else u);
          u2 = (if ui_select inp then u1\<lparr>cu_reserved := True\<rparr> else u1);
          u3 = (case ui_insert inp of None \<Rightarrow> u2 | Some d \<Rightarrow> u2\<lparr>cu_instr := insert_instr d\<rparr>);
          u4 = u3\<lparr>cu_instr := fold (update_instr (ci_rp_s1 (cu_instr u))) (ui_updates inp) (cu_instr u3)\<rparr>;
          u5 = (if ui_get_result inp
                then u4\<lparr>cu_reserved := False, cu_done := False, cu_exception := False, cu_instr := (cu_instr u4)\<lparr>ci_valid := False\<rparr>\<rparr>
                else u4)
      in (u5, if fires then cs' else cs))"

section \<open>Results\<close>

record csr_answer =
  ca_rob_id :: nat
  ca_rp_dst :: nat
  ca_result :: nat
  ca_exception :: bool

record csr_result =
  cr_answer :: csr_answer
  cr_report :: "(ExceptionCause \<times> nat \<times> bits) option"
  cr_resume :: "(nat \<times> nat) option"

definition get_result_ready :: "csr_unit_in \<Rightarrow> csr_unit \<Rightarrow> bool" where
  "get_result_ready i u \<longleftrightarrow> cu_done u \<or> (ready_to_process u \<and> \<not> ui_active i (ci_tag (cu_instr u)))"

text \<open>The fields of the immediate, which the decoder fills: the five-bit immediate at the bottom, \<open>rd\<close> and \<open>rs1\<close> at the top.\<close>

definition csr_mtval :: "nat \<Rightarrow> nat \<Rightarrow> csr_instr \<Rightarrow> bits" where
  "csr_mtval xl rlog i =
     zext xl (to_bits 2 3 @ to_bits 5 (opcode_value Opcode_SYSTEM) @ zext 5 (bslice (xl - 2 * rlog) (xl - rlog) (ci_imm i)) @ ci_funct3 i @
       (if ci_op_type i = OpType_CSR_IMM then bslice 0 5 (ci_imm i) else zext 5 (bslice (xl - rlog) xl (ci_imm i))) @ to_bits 12 (ci_csr i))"

definition get_result :: "nat \<Rightarrow> nat \<Rightarrow> csr_unit_in \<Rightarrow> csr_unit \<Rightarrow> csr_result" where
  "get_result xl rlog inp u =
     (let i = cu_instr u; flush = \<not> ui_active inp (ci_tag i); pc4 = (ci_pc i + 4) mod 2 ^ xl
      in \<lparr>cr_answer = \<lparr>ca_rob_id = ci_rob_id i, ca_rp_dst = ci_rp_dst i, ca_result = cu_result u, ca_exception = (cu_exception u \<or> ui_interrupt inp)\<rparr>,
          cr_report = (if cu_exception u then Some (Cause_ILLEGAL_INSTRUCTION, ci_pc i, csr_mtval xl rlog i)
                       else if ui_interrupt inp then Some (Cause_COREBLOCKS_ASYNC_INTERRUPT, pc4, to_bits xl 0) else None),
          cr_resume = (if \<not> flush \<and> \<not> cu_exception u \<and> \<not> ui_interrupt inp then Some (ci_ftq_ptr i, pc4) else None)\<rparr>)"

section \<open>What a CSR instruction does\<close>

text \<open>
  The instruction by its architectural meaning: operation, whether the operand is an immediate, register
  number, whether \<open>rd\<close> and the source are other than zero.
\<close>

definition csr_kind :: "csr_instr \<Rightarrow> (WriteOpType \<times> bool) option" where
  "csr_kind i =
     map_of [(1, (CSR_WRITE, False)), (2, (CSR_SET, False)), (3, (CSR_CLEAR, False)),
             (5, (CSR_WRITE, True)), (6, (CSR_SET, True)), (7, (CSR_CLEAR, True))] (of_bits (ci_funct3 i))"

definition csr_min_priv :: "nat \<Rightarrow> nat" where
  "csr_min_priv n = (let k = n div 256 mod 4 in if k = 2 then 1 else k)"

definition csr_read_only :: "nat \<Rightarrow> bool" where
  "csr_read_only n \<longleftrightarrow> n div 1024 mod 4 = 3"

definition zicsr_spec ::
  "(nat \<times> 's csr_protocol) list \<Rightarrow> nat \<Rightarrow> nat \<Rightarrow> WriteOpType \<Rightarrow> bool \<Rightarrow> bool \<Rightarrow> nat \<Rightarrow> 's \<Rightarrow> (nat option \<times> 's) option" where
  "zicsr_spec regfile priv number op rd_nz src_nz operand cs =
     (let reads = (op \<noteq> CSR_WRITE \<or> rd_nz); writes = (op = CSR_WRITE \<or> src_nz) in
      case map_of regfile number of None \<Rightarrow> None
      | Some p \<Rightarrow>
          if csr_min_priv number \<le> priv \<and> p_access_valid p priv cs \<and> (writes \<longrightarrow> \<not> csr_read_only number)
          then Some (if reads then Some (p_fu_read p cs) else None, p_access p reads (if writes then Some (operand, op) else None) cs)
          else None)"

definition instr_spec :: "(nat \<times> 's csr_protocol) list \<Rightarrow> nat \<Rightarrow> csr_instr \<Rightarrow> 's \<Rightarrow> (nat option \<times> 's) option" where
  "instr_spec regfile priv i cs =
     (case csr_kind i of None \<Rightarrow> None
      | Some (op, imm) \<Rightarrow>
          zicsr_spec regfile priv (ci_csr i) op (ci_rp_dst i \<noteq> 0) (if imm then ci_s1_val i \<noteq> 0 else ci_rp_s1_reg i \<noteq> 0) (ci_s1_val i) cs)"

lemma access_privilege_spec:
  "bits_from_int_spec bfi \<Longrightarrow> priv_value (fst (csr_access_privilege bfi n)) = csr_min_priv n \<and> snd (csr_access_privilege bfi n) = csr_read_only n"
  by (auto simp: bits_from_int_spec_def csr_access_privilege_def csr_min_priv_def csr_read_only_def Let_def)

lemma f3_is_iff: "length (ci_funct3 i) = 3 \<Longrightarrow> f3_is i f \<longleftrightarrow> of_bits (ci_funct3 i) = funct3 f mod 8"
  unfolding f3_is_def using of_bits_inject [of "ci_funct3 i" "to_bits 3 (funct3 f)"] of_bits_to_bits [of 3 "funct3 f"]
  by (simp del: to_bits_numeral of_bits_to_bits)

lemma csr_kind_cases:
  assumes "length (ci_funct3 i) = 3" "csr_kind i = Some (op, imm)"
  shows "should_read_csr i \<longleftrightarrow> op \<noteq> CSR_WRITE \<or> ci_rp_dst i \<noteq> 0"
    "should_write_csr i \<longleftrightarrow> op = CSR_WRITE \<or> (if imm then ci_s1_val i \<noteq> 0 else ci_rp_s1_reg i \<noteq> 0)"
    "write_type i = op"
  using assms(2) by (auto simp: csr_kind_def should_read_csr_def should_write_csr_def write_type_def f3_is_iff [OF assms(1)] split: if_splits)

lemma transaction_spec:
  assumes bfi: "bits_from_int_spec bfi" and f3: "length (ci_funct3 i) = 3" and k: "csr_kind i \<noteq> None"
  shows "case instr_spec regfile priv i cs of
      None \<Rightarrow> fst (csr_transaction bfi regfile priv i cs) \<and>
        (snd (snd (csr_transaction bfi regfile priv i cs)) = cs \<or>
         (\<exists>p. map_of regfile (ci_csr i) = Some p \<and> snd (snd (csr_transaction bfi regfile priv i cs)) = p_access p (should_read_csr i) None cs))
    | Some (r, cs') \<Rightarrow> csr_transaction bfi regfile priv i cs = (False, r, cs')"
proof -
  obtain op imm where k: "csr_kind i = Some (op, imm)" using k by auto
  obtain lvl ro where lvl: "csr_access_privilege bfi (ci_csr i) = (lvl, ro)" by fastforce
  have "priv_value lvl = csr_min_priv (ci_csr i)" "ro = csr_read_only (ci_csr i)"
    using access_privilege_spec [OF bfi, of "ci_csr i"] lvl by auto
  then show ?thesis
    using csr_kind_cases [OF f3 k]
    by (auto simp: instr_spec_def zicsr_spec_def k csr_transaction_def lvl Let_def split: option.splits)
qed

section \<open>Runs\<close>

definition csr_unit_run ::
  "bits_from_int \<Rightarrow> (nat \<times> 's csr_protocol) list \<Rightarrow> csr_unit_in list \<Rightarrow> csr_unit \<times> 's \<Rightarrow> csr_unit \<times> 's" where
  "csr_unit_run bfi regfile ins us = fold (csr_unit_cycle bfi regfile) ins us"

text \<open>Cycles between the insertion of an instruction and the call that takes its result; registers are announced under their numbers, which are not 0.\<close>

definition quiet :: "nat \<Rightarrow> nat \<Rightarrow> csr_unit_in \<Rightarrow> bool" where
  "quiet rp x inp \<longleftrightarrow> ui_insert inp = None \<and> \<not> ui_get_result inp \<and> (\<forall>(r, v) \<in> set (ui_updates inp). r \<noteq> 0 \<and> (r = rp \<longrightarrow> v = x))"

definition waiting :: "csr_instr \<Rightarrow> nat \<Rightarrow> csr_unit \<Rightarrow> bool" where
  "waiting i x u \<longleftrightarrow> \<not> cu_done u \<and> \<not> cu_exception u \<and> (cu_instr u = i \<or> cu_instr u = i\<lparr>ci_s1_val := x, ci_rp_s1 := 0\<rparr>)"

definition finished :: "csr_instr \<Rightarrow> nat \<Rightarrow> (nat \<times> 's csr_protocol) list \<Rightarrow> nat \<Rightarrow> 's \<Rightarrow> csr_unit \<times> 's \<Rightarrow> bool" where
  "finished i x regfile priv cs us \<longleftrightarrow>
     cu_done (fst us) \<and> cu_instr (fst us) = i\<lparr>ci_s1_val := x, ci_rp_s1 := 0\<rparr> \<and>
     (case instr_spec regfile priv (i\<lparr>ci_s1_val := x\<rparr>) cs of
        None \<Rightarrow> cu_exception (fst us) \<and>
          (snd us = cs \<or> (\<exists>p rd. map_of regfile (ci_csr i) = Some p \<and> snd us = p_access p rd None cs))
      | Some (r, cs') \<Rightarrow> \<not> cu_exception (fst us) \<and> snd us = cs' \<and> (\<forall>v. r = Some v \<longrightarrow> cu_result (fst us) = v))"

lemma fold_updates:
  assumes "\<forall>(r, v) \<in> set ups. r = rp \<longrightarrow> v = x"
  shows "fold (update_instr rp) ups i = i \<or> fold (update_instr rp) ups i = i\<lparr>ci_s1_val := x, ci_rp_s1 := 0\<rparr>"
  using assms
proof (induction ups arbitrary: i)
  case (Cons upd ups)
  obtain r v where u: "upd = (r, v)" by fastforce
  have "\<forall>(r, v) \<in> set ups. r = rp \<longrightarrow> v = x" using Cons.prems by simp
  note ih = Cons.IH [OF this]
  show ?case
  proof (cases "r = rp")
    case True
    then have "update_instr rp upd i = i\<lparr>ci_s1_val := x, ci_rp_s1 := 0\<rparr>" using Cons.prems u by (simp add: update_instr_def)
    then show ?thesis using ih [of "i\<lparr>ci_s1_val := x, ci_rp_s1 := 0\<rparr>"] by simp
  next
    case False
    then show ?thesis using ih [of i] u by (simp add: update_instr_def)
  qed
qed simp

lemma fold_updates_zero: "\<forall>(r, v) \<in> set ups. r \<noteq> 0 \<Longrightarrow> fold (update_instr 0) ups i = i"
  by (induction ups arbitrary: i) (auto simp: update_instr_def)

lemma instr_spec_rp [simp]: "instr_spec regfile priv (i\<lparr>ci_s1_val := x, ci_rp_s1 := r\<rparr>) cs = instr_spec regfile priv (i\<lparr>ci_s1_val := x\<rparr>) cs"
  by (simp add: instr_spec_def csr_kind_def)

lemma waiting_step:
  assumes bfi: "bits_from_int_spec bfi" and i: "length (ci_funct3 i) = 3" "csr_kind i \<noteq> None" "ci_valid i" "ci_rp_s1 i = 0 \<longrightarrow> x = ci_s1_val i"
    and w: "waiting i x u" and q: "quiet (ci_rp_s1 i) x inp"
  shows "(snd (csr_unit_cycle bfi regfile inp (u, cs)) = cs \<and> waiting i x (fst (csr_unit_cycle bfi regfile inp (u, cs))) \<and> \<not> csr_fires inp u) \<or>
    (csr_fires inp u \<and> finished i x regfile (ui_priv_mode inp) cs (csr_unit_cycle bfi regfile inp (u, cs)))"
proof (cases "csr_fires inp u")
  case False
  have "fold (update_instr (ci_rp_s1 (cu_instr u))) (ui_updates inp) (cu_instr u) \<in> {cu_instr u, i\<lparr>ci_s1_val := x, ci_rp_s1 := 0\<rparr>}"
    using w q fold_updates [of "ui_updates inp" "ci_rp_s1 i" x i] fold_updates_zero [of "ui_updates inp"]
    by (fastforce simp: waiting_def quiet_def)
  then show ?thesis using False w q by (auto simp: csr_unit_cycle_def waiting_def quiet_def Let_def case_prod_beta)
next
  case True
  have u: "cu_instr u = i\<lparr>ci_s1_val := x, ci_rp_s1 := 0\<rparr>" using True w i by (auto simp: waiting_def csr_fires_def ready_to_process_def)
  have "fold (update_instr 0) (ui_updates inp) (cu_instr u) = cu_instr u"
    by (rule fold_updates_zero) (use q in \<open>auto simp: quiet_def\<close>)
  moreover have "length (ci_funct3 (cu_instr u)) = 3" "csr_kind (cu_instr u) \<noteq> None" using u i by (simp_all add: csr_kind_def)
  note transaction_spec [OF bfi this, of regfile "ui_priv_mode inp" cs]
  ultimately show ?thesis using True w q
    by (auto simp: csr_unit_cycle_def finished_def waiting_def quiet_def u Let_def case_prod_beta split: option.splits)
qed

lemma finished_step:
  assumes f: "finished i x regfile priv cs us" and q: "quiet (ci_rp_s1 i) x inp"
  shows "finished i x regfile priv cs (csr_unit_cycle bfi regfile inp us)"
proof -
  have "fold (update_instr 0) (ui_updates inp) (cu_instr (fst us)) = cu_instr (fst us)"
    by (rule fold_updates_zero) (use q in \<open>auto simp: quiet_def\<close>)
  moreover have "\<not> csr_fires inp (fst us)" "ci_rp_s1 (cu_instr (fst us)) = 0" using f by (auto simp: finished_def csr_fires_def)
  ultimately have "snd (csr_unit_cycle bfi regfile inp us) = snd us" "cu_instr (fst (csr_unit_cycle bfi regfile inp us)) = cu_instr (fst us)"
    "cu_done (fst (csr_unit_cycle bfi regfile inp us)) = cu_done (fst us)" "cu_exception (fst (csr_unit_cycle bfi regfile inp us)) = cu_exception (fst us)"
    "cu_result (fst (csr_unit_cycle bfi regfile inp us)) = cu_result (fst us)"
    using q by (auto simp: csr_unit_cycle_def quiet_def Let_def case_prod_beta)
  then show ?thesis using f unfolding finished_def by (simp only:)
qed

lemma finished_run: "finished i x regfile priv cs us \<Longrightarrow> list_all (quiet (ci_rp_s1 i) x) ins \<Longrightarrow> finished i x regfile priv cs (csr_unit_run bfi regfile ins us)"
  by (induction ins arbitrary: us) (simp_all add: csr_unit_run_def finished_step)

lemma waiting_run:
  assumes "bits_from_int_spec bfi" "length (ci_funct3 i) = 3" "csr_kind i \<noteq> None" "ci_valid i" "ci_rp_s1 i = 0 \<longrightarrow> x = ci_s1_val i"
  shows "waiting i x u \<Longrightarrow> list_all (quiet (ci_rp_s1 i) x) ins \<Longrightarrow>
    (snd (csr_unit_run bfi regfile ins (u, cs)) = cs \<and> waiting i x (fst (csr_unit_run bfi regfile ins (u, cs)))) \<or>
    (\<exists>inp \<in> set ins. ui_guard inp \<and> finished i x regfile (ui_priv_mode inp) cs (csr_unit_run bfi regfile ins (u, cs)))"
proof (induction ins arbitrary: u)
  case Nil
  then show ?case by (simp add: csr_unit_run_def)
next
  case (Cons inp ins)
  let ?us = "csr_unit_cycle bfi regfile inp (u, cs)"
  have q: "quiet (ci_rp_s1 i) x inp" "list_all (quiet (ci_rp_s1 i) x) ins" using Cons.prems(2) by simp_all
  have run: "csr_unit_run bfi regfile (inp # ins) (u, cs) = csr_unit_run bfi regfile ins (fst ?us, snd ?us)" by (simp add: csr_unit_run_def)
  from waiting_step [OF assms Cons.prems(1) q(1), of regfile cs] show ?case
  proof (elim disjE conjE)
    assume "snd ?us = cs" "waiting i x (fst ?us)"
    then show ?thesis using Cons.IH [OF _ q(2), of "fst ?us"] run by auto
  next
    assume "csr_fires inp u" "finished i x regfile (ui_priv_mode inp) cs ?us"
    then show ?thesis using finished_run [OF _ q(2), of regfile "ui_priv_mode inp" cs ?us bfi] run by (auto simp: csr_fires_def)
  qed
qed

lemma csr_done_when_granted:
  "ready_to_process u \<Longrightarrow> ui_guard inp \<Longrightarrow> ui_get_result inp = False \<Longrightarrow> cu_done (fst (csr_unit_cycle bfi regfile inp (u, cs)))"
  by (auto simp: csr_unit_cycle_def csr_fires_def Let_def case_prod_beta split: option.splits)

section \<open>Re-encoding\<close>

lemma zext_take:
  assumes "length v = 5" "rlog \<le> 5" "\<not> any (drop rlog v)"
  shows "zext 5 (take rlog v) = v"
proof -
  have "drop rlog v = replicate (5 - rlog) False"
    using assms by (intro nth_equalityI) (auto simp: any_def list_ex_length)
  then show ?thesis using assms append_take_drop_id [of rlog v] by (simp add: zext_def min_def)
qed

lemma bslice_split: "a \<le> b \<Longrightarrow> b \<le> c \<Longrightarrow> bslice a c v = bslice a b v @ bslice b c v"
  using take_add [of "b - a" "c - b" "drop a v"] by (simp add: bslice_def)

lemma csr_encodings:
  assumes "(e, opt) \<in> set (supported_encodings exts)" "opt \<in> {OpType_CSR_REG, OpType_CSR_IMM}"
  shows "enc_opcode e = Opcode_SYSTEM" "enc_funct3 e \<noteq> None" "enc_type_override e = None" "\<not> enc_rd_zero e" "\<not> enc_rs1_zero e"
proof -
  have "list_all (\<lambda>(e, opt). opt \<in> {OpType_CSR_REG, OpType_CSR_IMM} \<longrightarrow> enc_opcode e = Opcode_SYSTEM \<and> enc_funct3 e \<noteq> None \<and>
      enc_type_override e = None \<and> \<not> enc_rd_zero e \<and> \<not> enc_rs1_zero e) (supported_encodings (set Extension_members))"
    by code_simp
  then show "enc_opcode e = Opcode_SYSTEM" "enc_funct3 e \<noteq> None" "enc_type_override e = None" "\<not> enc_rd_zero e" "\<not> enc_rs1_zero e"
    using assms supported_subset [of exts] by (auto simp: list_all_iff)
qed

lemma decode_imm_csr:
  assumes "ms_itype st = InstrType_I" "ms_optype st \<in> {OpType_CSR_REG, OpType_CSR_IMM}" "\<not> opcode_is (r_opcode r) Opcode_OP_IMM"
  shows "decode_imm xl rlog r st w =
    take (xl - 2 * rlog) (if ms_optype st = OpType_CSR_IMM then zext xl (instr_extract 15 5 w) else sext xl (instr_extract 20 12 w)) @ r_rd r @ r_rs1 r"
  using assms unfolding decode_imm_def by (elim insertE emptyE) (simp_all only: Let_def InstrType.case OpType.distinct simp_thms if_True if_False)

lemma legal_registers:
  assumes "\<not> d_illegal (instr_decode xl rlog encs w)"
    "ms_optype (match_encodings encs (decode_fields rlog w)) \<notin> {OpType_FENCEI, OpType_FENCE}"
  shows "ms_itype (match_encodings encs (decode_fields rlog w)) \<in> set rd_itypes \<Longrightarrow> \<not> ms_rd_invalid (match_encodings encs (decode_fields rlog w)) \<Longrightarrow>
      \<not> any (drop rlog (r_rd_field (decode_fields rlog w)))"
    "ms_itype (match_encodings encs (decode_fields rlog w)) \<in> set rs1_itypes \<Longrightarrow> \<not> ms_rs1_invalid (match_encodings encs (decode_fields rlog w)) \<Longrightarrow>
      ms_optype (match_encodings encs (decode_fields rlog w)) \<noteq> OpType_CSR_IMM \<Longrightarrow> \<not> any (drop rlog (r_rs1_field (decode_fields rlog w)))"
  using assms unfolding instr_decode_def Let_def by simp_all

text \<open>What a legal CSR instruction decodes to.\<close>

lemma csr_decoded:
  assumes w: "length w = 32" and encs: "set encs = set (supported_encodings exts)" and d: "d = instr_decode xl rlog encs w"
    and opt: "d_optype d \<in> {OpType_CSR_REG, OpType_CSR_IMM}" and legal: "\<not> d_illegal d"
  shows "bslice 0 2 w = to_bits 2 3" "bslice 2 7 w = to_bits 5 (opcode_value Opcode_SYSTEM)" "d_funct3 d = bslice 12 15 w" "d_funct3_v d"
    "\<not> any (drop rlog (bslice 7 12 w))" "d_optype d = OpType_CSR_REG \<Longrightarrow> \<not> any (drop rlog (bslice 15 20 w))" "d_csr d = bslice 20 32 w"
    "d_imm d = take (xl - 2 * rlog) (if d_optype d = OpType_CSR_IMM then zext xl (bslice 15 20 w) else sext xl (bslice 20 32 w))
      @ take rlog (bslice 7 12 w) @ take rlog (bslice 15 20 w)"
proof -
  let ?r = "decode_fields rlog w" and ?st = "match_encodings encs (decode_fields rlog w)"
  obtain e where e: "(e, d_optype d) \<in> set (supported_encodings exts)" "enc_match ?r e" "?st = apply_encoding (e, d_optype d) (match_init ?r)"
    using w encs
  proof (cases rule: match_encodings_cases [where rlog = rlog])
    case none
    then show ?thesis using d opt by (simp add: match_init_def)
  next
    case (one e opt)
    then show ?thesis using d that [of e] encs by (simp add: apply_encoding_def Let_def)
  qed
  note c = csr_encodings [OF e(1) opt]
  have op: "instr_extract 2 5 w = to_bits 5 (opcode_value Opcode_SYSTEM)"
    using enc_match_fields(1) [OF e(2)] c(1) by (simp add: opcode_is_def decode_fields_def Let_def del: to_bits_numeral)
  then have lui: "\<not> is_lui w" by (simp add: is_lui_def)
  have fields: "r_rd ?r = take rlog (bslice 7 12 w)" "r_rs1 ?r = take rlog (bslice 15 20 w)"
    using lui by (simp_all add: decode_fields_def instr_extract_def Let_def)
  have raw: "r_rd_field ?r = bslice 7 12 w" "r_rs1_field ?r = bslice 15 20 w" by (simp_all add: decode_fields_def instr_extract_def Let_def)
  have not_shift: "\<not> opcode_is (r_opcode ?r) Opcode_OP_IMM" using op by (simp add: opcode_is_def decode_fields_def Let_def)
  have ty: "ms_itype ?st = InstrType_I"
    using e(3) c(3) op by (simp add: apply_encoding_def match_init_def decode_fields_def Let_def type_of_opcode_def opcode_is_def)
  show "bslice 2 7 w = to_bits 5 (opcode_value Opcode_SYSTEM)" using op by (simp add: instr_extract_def)
  show "bslice 0 2 w = to_bits 2 3" using legal d by (auto simp: instr_decode_def instr_extract_def Let_def)
  show "d_funct3 d = bslice 12 15 w" "d_csr d = bslice 20 32 w" using lui d by (simp_all add: instr_decode_def decode_fields_def instr_extract_def Let_def)
  have st: "ms_optype ?st = d_optype d" "\<not> ms_rd_invalid ?st" "\<not> ms_rs1_invalid ?st" "ms_funct3_v ?st"
    using e(3) c by (simp_all add: apply_encoding_def Let_def)
  show "d_funct3_v d" using st d by (simp add: instr_decode_def Let_def)
  have nf: "ms_optype ?st \<notin> {OpType_FENCEI, OpType_FENCE}" using st(1) opt by auto
  have it: "ms_itype ?st \<in> set rd_itypes" "ms_itype ?st \<in> set rs1_itypes" by (simp_all add: ty rd_itypes_def rs1_itypes_def)
  note regs = legal_registers [OF legal [unfolded d] nf, unfolded raw]
  show "\<not> any (drop rlog (bslice 7 12 w))" by (rule regs(1) [OF it(1) st(2)])
  show "\<not> any (drop rlog (bslice 15 20 w))" if "d_optype d = OpType_CSR_REG"
    by (rule regs(2) [OF it(2) st(3)]) (simp add: st(1) that)
  show "d_imm d = take (xl - 2 * rlog) (if d_optype d = OpType_CSR_IMM then zext xl (bslice 15 20 w) else sext xl (bslice 20 32 w))
      @ take rlog (bslice 7 12 w) @ take rlog (bslice 15 20 w)"
    using decode_imm_csr [OF ty _ not_shift, of xl rlog w] st(1) opt unfolding d instr_decode_sel fields by (simp add: instr_extract_def)
qed

lemma packed_imm:
  assumes "length b = xl" "2 * r \<le> xl" "length p = r" "length q = r"
  shows "bslice (xl - 2 * r) (xl - r) (take (xl - 2 * r) b @ p @ q) = p" "bslice (xl - r) xl (take (xl - 2 * r) b @ p @ q) = q"
  using assms by (simp_all add: bslice_def)

lemma packed_imm_low: "length v = 5 \<Longrightarrow> 5 \<le> n \<Longrightarrow> n \<le> xl \<Longrightarrow> bslice 0 5 (take n (zext xl v) @ ys) = v"
  by (simp add: bslice_def zext_def)

definition from_decoder :: "decoded_instr \<Rightarrow> csr_instr \<Rightarrow> bool" where
  "from_decoder di i \<longleftrightarrow> ci_op_type i = op_type (di_exec_fn di) \<and> ci_funct3 i = fn_funct3 (di_exec_fn di) \<and> ci_imm i = di_imm di \<and> ci_csr i = of_bits (di_csr di)"

text \<open>
  The value reported for an illegal CSR access is the instruction itself: whatever legal CSR instruction the decode
  stage passes on, the unit puts it together again from its fields, on RV32 and RV64 and also with sixteen registers.
\<close>

lemma csr_mtval_roundtrip:
  assumes "length (ri_instr ri) = 32" "set encs = set (supported_encodings exts)" "xl = 32 \<or> xl = 64" "rlog = 4 \<or> rlog = 5"
    "op_type (di_exec_fn (decode_stage xl rlog encs ri)) \<in> {OpType_CSR_REG, OpType_CSR_IMM}" "from_decoder (decode_stage xl rlog encs ri) i"
  shows "csr_mtval xl rlog i = zext xl (ri_instr ri)"
proof -
  let ?w = "ri_instr ri" and ?d = "instr_decode xl rlog encs (ri_instr ri)"
  have legal: "\<not> d_illegal ?d" "\<not> any (ri_access_fault ri)" and opt: "d_optype ?d \<in> {OpType_CSR_REG, OpType_CSR_IMM}"
    using assms(5) by (auto simp: decode_stage_def Let_def split: if_splits)
  note c = csr_decoded [OF assms(1,2) refl opt legal(1)]
  have i: "ci_op_type i = d_optype ?d" "ci_funct3 i = bslice 12 15 ?w" "ci_imm i = d_imm ?d" "to_bits 12 (ci_csr i) = bslice 20 32 ?w"
    using assms(1,6) legal c(3,4,7) to_bits_of_bits [of "bslice 20 32 ?w"] unfolding from_decoder_def decode_stage_def Let_def
    by (simp_all del: to_bits_numeral instr_decode_sel)
  let ?b = "if d_optype ?d = OpType_CSR_IMM then zext xl (bslice 15 20 ?w) else sext xl (bslice 20 32 ?w)"
  have len: "length ?b = xl" using assms(1,3) by (auto simp: zext_def sext_def)
  have r: "2 * rlog \<le> xl" "rlog \<le> 5" "5 \<le> xl - 2 * rlog" using assms(3,4) by auto
  have parts: "length (bslice 7 12 ?w) = 5" "length (bslice 15 20 ?w) = 5" using assms(1) by simp_all
  then have takes: "length (take rlog (bslice 7 12 ?w)) = rlog" "length (take rlog (bslice 15 20 ?w)) = rlog" using r by simp_all
  note packed = packed_imm [OF len r(1) takes]
  have rd: "zext 5 (bslice (xl - 2 * rlog) (xl - rlog) (ci_imm i)) = bslice 7 12 ?w"
    unfolding i(3) c(8) packed(1) by (rule zext_take [OF parts(1) r(2) c(5)])
  have rs: "zext 5 (bslice (xl - rlog) xl (ci_imm i)) = bslice 15 20 ?w" if "d_optype ?d = OpType_CSR_REG"
    unfolding i(3) c(8) packed(2) by (rule zext_take [OF parts(2) r(2) c(6) [OF that]])
  have im: "bslice 0 5 (ci_imm i) = bslice 15 20 ?w" if "d_optype ?d = OpType_CSR_IMM"
    unfolding i(3) c(8) that if_P [OF refl] by (rule packed_imm_low [OF parts(2) r(3)]) simp
  have "?w = bslice 0 2 ?w @ bslice 2 7 ?w @ bslice 7 12 ?w @ bslice 12 15 ?w @ bslice 15 20 ?w @ bslice 20 32 ?w"
    using assms(1) bslice_split [of 0 2 32 ?w] bslice_split [of 2 7 32 ?w] bslice_split [of 7 12 32 ?w] bslice_split [of 12 15 32 ?w]
      bslice_split [of 15 20 32 ?w] by simp
  moreover have "(if ci_op_type i = OpType_CSR_IMM then bslice 0 5 (ci_imm i) else zext 5 (bslice (xl - rlog) xl (ci_imm i))) = bslice 15 20 ?w"
    using rs im opt i(1) by auto
  ultimately show ?thesis unfolding csr_mtval_def rd i(2,4) c(1) [symmetric] c(2) [symmetric] by simp
qed

text \<open>The instruction \<^verbatim>\<open>csrrw x0, mtvec, x5\<close>.\<close>

definition example_csr_word :: bits where
  "example_csr_word = ITypeInstr Opcode_SYSTEM (f3b F3_CSRRW) (to_bits 5 0) (to_bits 5 5) (to_bits 12 0x305)"

definition example_csr_fetch :: raw_instr where
  "example_csr_fetch = \<lparr>ri_instr = example_csr_word, ri_pc = to_bits 32 0, ri_rvc = False, ri_access_fault = [False, False],
     ri_commit_checkpoint = False, ri_ftq_ptr = to_bits 4 0, ri_ftq_offset = to_bits 4 0\<rparr>"

definition example_csr_instr :: csr_instr where
  "example_csr_instr =
     (let di = decode_stage 32 5 (supported_encodings {Ext_ZICSR}) example_csr_fetch in
      \<lparr>ci_valid = True, ci_rp_s1 = 7, ci_rp_s1_reg = 7, ci_rp_dst = 0, ci_rob_id = 3, ci_op_type = op_type (di_exec_fn di),
       ci_funct3 = fn_funct3 (di_exec_fn di), ci_s1_val = 0, ci_imm = di_imm di, ci_csr = of_bits (di_csr di), ci_pc = 0, ci_tag = 0, ci_ftq_ptr = 0\<rparr>)"

lemma example_csr_decodes:
  "length example_csr_word = 32" "d_optype (instr_decode 32 5 (supported_encodings {Ext_ZICSR}) example_csr_word) = OpType_CSR_REG"
  "\<not> d_illegal (instr_decode 32 5 (supported_encodings {Ext_ZICSR}) example_csr_word)"
proof -
  let ?e = "Encoding Opcode_SYSTEM (Some F3_CSRRW) None None"
  show len: "length example_csr_word = 32" by (simp add: example_csr_word_def IType_layout)
  have e: "(?e, OpType_CSR_REG) \<in> set (supported_encodings {Ext_ZICSR})" by (simp add: supported_encodings_def Let_def optypes_by_extensions_def)
  moreover have m: "enc_match (decode_fields 5 example_csr_word) ?e"
    unfolding example_csr_word_def by (subst enc_match_I) (simp_all add: Encoding_def)
  ultimately show "d_optype (instr_decode 32 5 (supported_encodings {Ext_ZICSR}) example_csr_word) = OpType_CSR_REG"
    using decoder_optype [OF len refl, of OpType_CSR_REG] by blast
  have "decodable {Ext_ZICSR} example_csr_word" unfolding decodable_def using e m by blast
  moreover have "bslice 0 2 example_csr_word = [True, True]" by (simp add: example_csr_word_def IType_layout opcode_bits_def bslice_eval)
  ultimately show "\<not> d_illegal (instr_decode 32 5 (supported_encodings {Ext_ZICSR}) example_csr_word)"
    using decode_illegal_32regs [OF len refl] by blast
qed

section \<open>Execution\<close>

definition csr_register_protocol :: "csr_config \<Rightarrow> csr csr_protocol" where
  "csr_register_protocol cfg =
     \<lparr>p_access_valid = (\<lambda>priv s. csr_fu_access_valid cfg priv), p_fu_read = fu_read cfg,
      p_access = (\<lambda>rd wr s. csr_cycle cfg \<lparr>call_write = None, call_fu_write = wr, call_fu_read = rd\<rparr> s)\<rparr>"

lemma finished_result:
  assumes "finished i x regfile priv cs (u', cs')" "\<not> ui_interrupt out"
  shows "cu_done u'" "ca_rob_id (cr_answer (get_result xl rlog out u')) = ci_rob_id i" "ca_rp_dst (cr_answer (get_result xl rlog out u')) = ci_rp_dst i"
    "(case instr_spec regfile priv (i\<lparr>ci_s1_val := x\<rparr>) cs of
      Some (v, cs2) \<Rightarrow> \<not> ca_exception (cr_answer (get_result xl rlog out u')) \<and> cr_report (get_result xl rlog out u') = None \<and> cs' = cs2 \<and>
        v \<in> {None, Some (ca_result (cr_answer (get_result xl rlog out u')))}
    | None \<Rightarrow> ca_exception (cr_answer (get_result xl rlog out u')) \<and>
        cr_report (get_result xl rlog out u') = Some (Cause_ILLEGAL_INSTRUCTION, ci_pc i, csr_mtval xl rlog i) \<and> cr_resume (get_result xl rlog out u') = None \<and>
        (cs' = cs \<or> (\<exists>p rd. map_of regfile (ci_csr i) = Some p \<and> cs' = p_access p rd None cs)))"
  using assms by (auto simp: finished_def get_result_def csr_mtval_def Let_def split: option.splits) (metis option.exhaust)

text \<open>The word of a legal CSR instruction, as the decode stage passes it on to the unit.\<close>

definition legal_csr_word :: "nat \<Rightarrow> nat \<Rightarrow> (encoding \<times> OpType) list \<Rightarrow> Extension set \<Rightarrow> raw_instr \<Rightarrow> csr_instr \<Rightarrow> bool" where
  "legal_csr_word xl rlog encs exts ri i \<longleftrightarrow>
     length (ri_instr ri) = 32 \<and> set encs = set (supported_encodings exts) \<and> (xl = 32 \<or> xl = 64) \<and> (rlog = 4 \<or> rlog = 5) \<and>
     op_type (di_exec_fn (decode_stage xl rlog encs ri)) \<in> {OpType_CSR_REG, OpType_CSR_IMM} \<and> from_decoder (decode_stage xl rlog encs ri) i"

lemma legal_csr_mtval: "legal_csr_word xl rlog encs exts ri i \<Longrightarrow> csr_mtval xl rlog i = zext xl (ri_instr ri)"
  unfolding legal_csr_word_def by (elim conjE) (rule csr_mtval_roundtrip)

text \<open>
  C22. A CSR instruction takes effect exactly once and as the architecture prescribes: from its insertion until its
  result is taken, whatever registers are announced and whenever the side-effect guard opens, the unit either still waits and
  no register has changed, or it has finished, the registers are those after one access in the privilege mode of a cycle in which
  the guard was open, with the operand as announced, and the answer holds the value read. If the register does
  not exist, the privilege is too low or a read-only register would be written, the answer is an exception, reported
  as an illegal instruction, and no register is written; the value reported is the instruction word itself, put together again from the
  fields of whatever legal CSR instruction the decode stage passed on.
\<close>

theorem csr_unit_executes:
  assumes "bits_from_int_spec bfi" "length (ci_funct3 i) = 3" "csr_kind i \<noteq> None" "ci_valid i" "ci_rp_s1 i = 0 \<longrightarrow> x = ci_s1_val i"
    "cu_instr u = i" "\<not> cu_done u" "\<not> cu_exception u" "list_all (quiet (ci_rp_s1 i) x) ins" "\<not> ui_interrupt out"
  shows "let (u', cs') = csr_unit_run bfi regfile ins (u, cs); r = get_result xl rlog out u' in
    if cu_done u' then
      ca_rob_id (cr_answer r) = ci_rob_id i \<and> ca_rp_dst (cr_answer r) = ci_rp_dst i \<and>
      (\<exists>inp \<in> set ins. ui_guard inp \<and>
        (case instr_spec regfile (ui_priv_mode inp) (i\<lparr>ci_s1_val := x\<rparr>) cs of
          Some (v, cs2) \<Rightarrow> \<not> ca_exception (cr_answer r) \<and> cr_report r = None \<and> cs' = cs2 \<and> v \<in> {None, Some (ca_result (cr_answer r))}
        | None \<Rightarrow> ca_exception (cr_answer r) \<and> cr_report r = Some (Cause_ILLEGAL_INSTRUCTION, ci_pc i, csr_mtval xl rlog i) \<and> cr_resume r = None \<and>
            (\<forall>ri exts encs. legal_csr_word xl rlog encs exts ri i \<longrightarrow> csr_mtval xl rlog i = zext xl (ri_instr ri)) \<and>
            (cs' = cs \<or> (\<exists>p rd. map_of regfile (ci_csr i) = Some p \<and> cs' = p_access p rd None cs))))
    else cs' = cs"
proof -
  have w: "waiting i x u" using assms(6-8) by (simp add: waiting_def)
  obtain u' cs' where run: "csr_unit_run bfi regfile ins (u, cs) = (u', cs')" by fastforce
  from waiting_run [OF assms(1-5) w assms(9), of regfile cs] consider
    "cs' = cs" "\<not> cu_done u'" | inp where "inp \<in> set ins" "ui_guard inp" "finished i x regfile (ui_priv_mode inp) cs (u', cs')"
    unfolding run by (auto simp: waiting_def)
  then show ?thesis
  proof cases
    case 1
    then show ?thesis by (simp add: run Let_def)
  next
    case (2 inp)
    note f = finished_result [OF 2(3) assms(10)]
    show ?thesis
      unfolding run Let_def prod.case if_P [OF f(1)]
    proof (intro conjI bexI [OF _ 2(1)])
      show "case instr_spec regfile (ui_priv_mode inp) (i\<lparr>ci_s1_val := x\<rparr>) cs of
          Some (v, cs2) \<Rightarrow> \<not> ca_exception (cr_answer (get_result xl rlog out u')) \<and> cr_report (get_result xl rlog out u') = None \<and> cs' = cs2 \<and>
            v \<in> {None, Some (ca_result (cr_answer (get_result xl rlog out u')))}
        | None \<Rightarrow> ca_exception (cr_answer (get_result xl rlog out u')) \<and>
            cr_report (get_result xl rlog out u') = Some (Cause_ILLEGAL_INSTRUCTION, ci_pc i, csr_mtval xl rlog i) \<and>
            cr_resume (get_result xl rlog out u') = None \<and>
            (\<forall>ri exts encs. legal_csr_word xl rlog encs exts ri i \<longrightarrow> csr_mtval xl rlog i = zext xl (ri_instr ri)) \<and>
            (cs' = cs \<or> (\<exists>p rd. map_of regfile (ci_csr i) = Some p \<and> cs' = p_access p rd None cs))"
        using f(4) [of xl rlog] legal_csr_mtval by (auto split: option.splits)
    qed (use 2(2) f(2,3) in simp_all)
  qed
qed

definition example_instr :: csr_instr where
  "example_instr = \<lparr>ci_valid = True, ci_rp_s1 = 7, ci_rp_s1_reg = 7, ci_rp_dst = 4, ci_rob_id = 3, ci_op_type = OpType_CSR_REG,
     ci_funct3 = [True, False, False], ci_s1_val = 0, ci_imm = to_bits 32 0, ci_csr = 0x305, ci_pc = 0, ci_tag = 0, ci_ftq_ptr = 0\<rparr>"

definition example_unit :: csr_unit where
  "example_unit = \<lparr>cu_reserved = True, cu_done = False, cu_exception = False, cu_result = 0, cu_instr = example_instr\<rparr>"

definition example_inputs :: "csr_unit_in list" where
  "example_inputs =
     (let quiet_in = \<lparr>ui_guard = True, ui_priv_mode = 3, ui_active = (\<lambda>_. True), ui_select = False, ui_insert = None, ui_updates = [],
                     ui_get_result = False, ui_interrupt = False\<rparr>
      in [quiet_in\<lparr>ui_updates := [(7, 64)]\<rparr>, quiet_in])"

theorem csr_unit_executes_witness:
  "csr_value (snd (csr_unit_run (\<lambda>n lo len. n div 2 ^ lo mod 2 ^ len) [(0x305, csr_register_protocol (plain_csr 32 0 0))] example_inputs
     (example_unit, csr_reset (plain_csr 32 0 0)))) = 64"
proof -
  let ?bfi = "\<lambda>n lo len. n div 2 ^ lo mod 2 ^ len :: nat" and ?p = "csr_register_protocol (plain_csr 32 0 0)"
  let ?run = "csr_unit_run ?bfi [(0x305, ?p)] example_inputs (example_unit, csr_reset (plain_csr 32 0 0))"
  have fin: "cu_done (fst ?run)"
    by (simp add: csr_unit_run_def example_inputs_def example_unit_def example_instr_def csr_unit_cycle_def csr_fires_def ready_to_process_def
        update_instr_def Let_def case_prod_beta)
  have k: "csr_kind example_instr = Some (CSR_WRITE, False)" by (simp add: csr_kind_def example_instr_def)
  have "instr_spec [(0x305, ?p)] 3 (example_instr\<lparr>ci_s1_val := 64\<rparr>) (csr_reset (plain_csr 32 0 0)) =
      Some (Some 0, csr_cycle (plain_csr 32 0 0) \<lparr>call_write = None, call_fu_write = Some (64, CSR_WRITE), call_fu_read = True\<rparr> (csr_reset (plain_csr 32 0 0)))"
    by (simp add: instr_spec_def csr_kind_def example_instr_def zicsr_spec_def csr_min_priv_def csr_read_only_def csr_register_protocol_def
        csr_fu_access_valid_def plain_csr_def fu_read_def csr_reset_def Let_def)
  moreover have "\<forall>inp \<in> set example_inputs. ui_priv_mode inp = 3" by (simp add: example_inputs_def Let_def)
  moreover have "list_all (quiet (ci_rp_s1 example_instr) 64) example_inputs" by (simp add: example_inputs_def example_instr_def quiet_def Let_def)
  ultimately have "snd ?run = csr_cycle (plain_csr 32 0 0) \<lparr>call_write = None, call_fu_write = Some (64, CSR_WRITE), call_fu_read = True\<rparr> (csr_reset (plain_csr 32 0 0))"
    using csr_unit_executes [of ?bfi example_instr 64 example_unit example_inputs "hd example_inputs" "[(0x305, ?p)]" "csr_reset (plain_csr 32 0 0)" 32 5] fin k
    by (auto simp: bits_from_int_spec_def example_unit_def Let_def case_prod_beta) (auto simp: example_instr_def example_inputs_def)
  then show ?thesis
    by (simp add: csr_cycle_def fu_write_internal_def plain_csr_def fu_write_combine_default_def csr_reset_def not_at_def fu_read_def Let_def
        flip: take_bit_eq_mask)
qed

end
