(* ===== verification/Rs.thy ===== *)
theory Rs
  imports Transactron Rob
begin

text \<open>
  Reservation stations (\<^verbatim>\<open>func_blocks/fu/common/rs.py\<close>, \<^verbatim>\<open>fifo_rs.py\<close>), the wakeup logic (\<^verbatim>\<open>scheduler/wakeup_select.py\<close>) and the
  announcement of results (\<^verbatim>\<open>backend/announcement.py\<close>). A station holds instructions until the registers they wait for
  are announced. The locale \<open>rs_allocator\<close> is the contract of the allocator of rows; the allocator of
  \<^verbatim>\<open>FifoRS\<close> is part of the code and interprets it, the one of \<^verbatim>\<open>RS\<close> is a library module and a parameter.
\<close>

section \<open>Rows\<close>

record ('v, 'd) rs_row =
  rp_s1 :: nat
  rp_s2 :: nat
  s1_val :: 'v
  s2_val :: 'v
  row_data :: 'd
  rec_full :: bool

text \<open>A row is ready when it is full and waits for no register.\<close>

definition data_ready :: "('v, 'd) rs_row \<Rightarrow> bool" where
  "data_ready row \<longleftrightarrow> rp_s1 row = 0 \<and> rp_s2 row = 0 \<and> rec_full row"

text \<open>The calls of \<^verbatim>\<open>update\<close> in a cycle, one entry per way; \<open>matches\<close> is a row of \<^verbatim>\<open>matches_s1\<close> or \<^verbatim>\<open>matches_s2\<close>.\<close>

type_synonym 'v rs_updates = "(nat \<times> 'v) option list"

definition rs_matches :: "'v rs_updates \<Rightarrow> nat \<Rightarrow> bool list" where
  "rs_matches ups rp = map (\<lambda>u. case u of None \<Rightarrow> False | Some (reg_id, reg_val) \<Rightarrow> rp = reg_id) ups"

definition update_val :: "'v one_hot_mux \<Rightarrow> 'v :: zero rs_updates \<Rightarrow> nat \<Rightarrow> 'v" where
  "update_val mux ups rp = mux (map2 (\<lambda>c u. (c, case u of None \<Rightarrow> 0 | Some (reg_id, reg_val) \<Rightarrow> reg_val)) (rs_matches ups rp) ups) 0"

definition update_row :: "'v one_hot_mux \<Rightarrow> 'v :: zero rs_updates \<Rightarrow> ('v, 'd) rs_row \<Rightarrow> ('v, 'd) rs_row" where
  "update_row mux ups row =
     (let row1 = (if list_ex id (rs_matches ups (rp_s1 row)) then row\<lparr>rp_s1 := 0, s1_val := update_val mux ups (rp_s1 row)\<rparr> else row)
      in if list_ex id (rs_matches ups (rp_s2 row)) then row1\<lparr>rp_s2 := 0, s2_val := update_val mux ups (rp_s2 row)\<rparr> else row1)"

section \<open>Stations\<close>

text \<open>The calls of a cycle besides \<^verbatim>\<open>select\<close>: \<^verbatim>\<open>insert\<close>, \<^verbatim>\<open>update\<close> and \<^verbatim>\<open>take\<close>, whose argument is a position in the order of the allocator.\<close>

record ('v, 'd) rs_calls =
  rs_insert :: "(nat \<times> ('v, 'd) rs_row) option"
  rs_update :: "'v rs_updates"
  rs_take :: "nat option"

type_synonym ('v, 'd) rs_rows = "nat \<Rightarrow> ('v, 'd) rs_row"

definition rs_cycle :: "'v one_hot_mux \<Rightarrow> (nat \<Rightarrow> nat) \<Rightarrow> ('v :: zero, 'd) rs_calls \<Rightarrow> ('v, 'd) rs_rows \<Rightarrow> ('v, 'd) rs_rows" where
  "rs_cycle mux order c rows =
     (let rows1 = (\<lambda>i. update_row mux (rs_update c) (rows i));
          rows2 = (case rs_insert c of None \<Rightarrow> rows1 | Some (rs_entry_id, rs_data) \<Rightarrow> rows1(rs_entry_id := rs_data\<lparr>rec_full := True\<rparr>))
      in case rs_take c of None \<Rightarrow> rows2 | Some idx \<Rightarrow> rows2(order idx := (rows2 (order idx))\<lparr>rec_full := False\<rparr>))"

text \<open>
  The row returned by \<^verbatim>\<open>take\<close>; the record drops the register numbers it waited for. The selector has one row per
  entry and selects the actual one.
\<close>

definition rs_take_out :: "('v \<times> 'v \<times> 'd) one_hot_mux \<Rightarrow> ('v \<times> 'v \<times> 'd) \<Rightarrow> nat \<Rightarrow> (nat \<Rightarrow> nat) \<Rightarrow> nat \<Rightarrow> ('v, 'd) rs_rows \<Rightarrow> 'v \<times> 'v \<times> 'd" where
  "rs_take_out mux zero_row n order idx rows =
     mux (map (\<lambda>i. (order idx = i, (s1_val (rows i), s2_val (rows i), row_data (rows i)))) [0..<n]) zero_row"

text \<open>The ready list for a functional unit: rows of its operations that may be taken, in the order of the allocator.\<close>

definition ready_list :: "('d \<Rightarrow> bool) \<Rightarrow> (nat \<Rightarrow> bool) \<Rightarrow> nat \<Rightarrow> ('v, 'd) rs_rows \<Rightarrow> nat \<Rightarrow> bool" where
  "ready_list op_vector takeable n rows i \<longleftrightarrow> i < n \<and> data_ready (rows i) \<and> op_vector (row_data (rows i)) \<and> takeable i"

definition get_ready_list :: "('d \<Rightarrow> bool) \<Rightarrow> (nat \<Rightarrow> bool) \<Rightarrow> nat \<Rightarrow> (nat \<Rightarrow> nat) \<Rightarrow> ('v, 'd) rs_rows \<Rightarrow> bool list option" where
  "get_ready_list op_vector takeable n order rows =
     (if \<exists>i < n. ready_list op_vector takeable n rows i
      then Some (map (\<lambda>i. ready_list op_vector takeable n rows (order i)) [0..<n]) else None)"

text \<open>Wakeup: the position chosen by the library's priority encoder, when a row is ready and the unit accepts an instruction.\<close>

definition wakeup_select :: "(bool list \<Rightarrow> nat) \<Rightarrow> bool \<Rightarrow> bool list option \<Rightarrow> nat option" where
  "wakeup_select prio_encoder issue_ready ready = (if issue_ready then map_option prio_encoder ready else None)"

definition prio_encoder_spec :: "(bool list \<Rightarrow> nat) \<Rightarrow> bool" where
  "prio_encoder_spec enc \<longleftrightarrow> (\<forall>bs. True \<in> set bs \<longrightarrow> enc bs < length bs \<and> bs ! enc bs)"

section \<open>Announcement\<close>

record 'v pushed_result =
  pr_result :: 'v
  pr_rob_id :: nat
  pr_rp_dst :: nat
  pr_exception :: bool

text \<open>The calls made for a pushed result: \<^verbatim>\<open>rob_mark_done\<close>, \<^verbatim>\<open>rf_write_val\<close> and, unless the destination is register 0, \<^verbatim>\<open>rs_update\<close>.\<close>

record 'v announcement =
  an_mark_done :: "nat \<times> bool"
  an_rf_write :: "nat \<times> 'v"
  an_rs_update :: "(nat \<times> 'v) option"

definition push_result :: "'v pushed_result \<Rightarrow> 'v announcement" where
  "push_result r =
     \<lparr>an_mark_done = (pr_rob_id r, pr_exception r), an_rf_write = (pr_rp_dst r, pr_result r),
      an_rs_update = (if pr_rp_dst r \<noteq> 0 then Some (pr_rp_dst r, pr_result r) else None)\<rparr>"

section \<open>The allocator of FifoRS\<close>

record fifo_alloc =
  fa_front :: nat
  fa_back :: nat
  fa_reserved :: "nat \<Rightarrow> bool"

text \<open>The increment modulo the number of rows is a library function, and a parameter.\<close>

definition incr_spec :: "(nat \<Rightarrow> nat \<Rightarrow> nat) \<Rightarrow> bool" where
  "incr_spec incr \<longleftrightarrow> (\<forall>i n. i < n \<longrightarrow> incr i n = (i + 1) mod n)"

definition fifo_order :: "fifo_alloc \<Rightarrow> nat \<Rightarrow> nat" where
  "fifo_order q i = fa_front q"

definition fifo_takeable :: "fifo_alloc \<Rightarrow> nat \<Rightarrow> bool" where
  "fifo_takeable q i \<longleftrightarrow> i = fa_front q"

definition fifo_alloc_ready :: "nat \<Rightarrow> fifo_alloc \<Rightarrow> bool" where
  "fifo_alloc_ready n q \<longleftrightarrow> \<not> list_all (fa_reserved q) [0..<n]"

definition fifo_ident :: "fifo_alloc \<Rightarrow> nat" where
  "fifo_ident q = fa_back q"

definition fifo_cycle :: "(nat \<Rightarrow> nat \<Rightarrow> nat) \<Rightarrow> nat \<Rightarrow> bool \<Rightarrow> nat option \<Rightarrow> fifo_alloc \<Rightarrow> fifo_alloc" where
  "fifo_cycle mod_incr n al fr q =
     (let q1 = (if al then q\<lparr>fa_reserved := (fa_reserved q)(fa_back q := True), fa_back := mod_incr (fa_back q) n\<rparr> else q)
      in if fr \<noteq> None then q1\<lparr>fa_reserved := (fa_reserved q1)(fa_front q := False), fa_front := mod_incr (fa_front q) n\<rparr> else q1)"

definition fifo_init :: fifo_alloc where
  "fifo_init = \<lparr>fa_front = 0, fa_back = 0, fa_reserved = (\<lambda>_. False)\<rparr>"

section \<open>The contract of an allocator\<close>

text \<open>
  Rows are handed out as identifiers; \<open>ids\<close> are the allocated ones in the order of allocation. A row is freed by
  its position in the order, which is translated by \<open>order\<close>.
\<close>

locale rs_allocator =
  fixes n :: nat and ok :: "'q \<Rightarrow> bool" and ids :: "'q \<Rightarrow> nat list" and alloc_ready :: "'q \<Rightarrow> bool" and ident :: "'q \<Rightarrow> nat"
    and cycle :: "bool \<Rightarrow> nat option \<Rightarrow> 'q \<Rightarrow> 'q" and order :: "'q \<Rightarrow> nat \<Rightarrow> nat" and takeable :: "'q \<Rightarrow> nat \<Rightarrow> bool"
  assumes ids_rows: "ok q \<Longrightarrow> distinct (ids q) \<and> set (ids q) \<subseteq> {..<n}"
    and ident_fresh: "ok q \<Longrightarrow> alloc_ready q \<Longrightarrow> ident q < n \<and> ident q \<notin> set (ids q)"
    and cycle_ok: "ok q \<Longrightarrow> (al \<Longrightarrow> alloc_ready q) \<Longrightarrow> (\<And>i. fr = Some i \<Longrightarrow> takeable q (order q i) \<and> order q i \<in> set (ids q)) \<Longrightarrow> ok (cycle al fr q)"
    and cycle_ids: "ok q \<Longrightarrow> (al \<Longrightarrow> alloc_ready q) \<Longrightarrow> (\<And>i. fr = Some i \<Longrightarrow> takeable q (order q i) \<and> order q i \<in> set (ids q)) \<Longrightarrow>
      ids (cycle al fr q) = (case fr of None \<Rightarrow> ids q | Some i \<Rightarrow> remove1 (order q i) (ids q)) @ (if al then [ident q] else [])"
begin

text \<open>The calls of a station and its allocator in a cycle: rows are inserted under identifiers handed out before, and taken only when ready.\<close>

definition legal :: "bool \<Rightarrow> ('v, 'd) rs_calls \<Rightarrow> 'q \<Rightarrow> ('v, 'd) rs_rows \<Rightarrow> bool" where
  "legal sel c q rows \<longleftrightarrow> (sel \<longrightarrow> alloc_ready q) \<and>
     (\<forall>e row. rs_insert c = Some (e, row) \<longrightarrow> e \<in> set (ids q) \<and> \<not> rec_full (rows e)) \<and>
     (\<forall>i. rs_take c = Some i \<longrightarrow> takeable q (order q i) \<and> data_ready (rows (order q i)))"

definition inv :: "'q \<times> ('v, 'd) rs_rows \<Rightarrow> bool" where
  "inv s \<longleftrightarrow> ok (fst s) \<and> (\<forall>i. rec_full (snd s i) \<longrightarrow> i \<in> set (ids (fst s)))"

definition step :: "'v one_hot_mux \<Rightarrow> bool \<Rightarrow> ('v :: zero, 'd) rs_calls \<Rightarrow> 'q \<times> ('v, 'd) rs_rows \<Rightarrow> 'q \<times> ('v, 'd) rs_rows" where
  "step mux sel c s = (cycle sel (rs_take c) (fst s), rs_cycle mux (order (fst s)) c (snd s))"

lemma rec_full_cycle:
  "rec_full (rs_cycle mux ord c rows i) \<longleftrightarrow>
     (rec_full (rows i) \<or> (\<exists>row. rs_insert c = Some (i, row))) \<and> (\<forall>k. rs_take c = Some k \<longrightarrow> ord k \<noteq> i)"
  by (auto simp: rs_cycle_def update_row_def Let_def split: option.splits)

lemma step_inv:
  assumes "inv s" "legal sel c (fst s) (snd s)"
  shows "inv (step mux sel c s)"
    "ids (fst (step mux sel c s)) = (case rs_take c of None \<Rightarrow> ids (fst s) | Some i \<Rightarrow> remove1 (order (fst s) i) (ids (fst s))) @ (if sel then [ident (fst s)] else [])"
proof -
  let ?q = "fst s" and ?rows = "snd s"
  have ok: "ok ?q" and full: "\<And>i. rec_full (?rows i) \<Longrightarrow> i \<in> set (ids ?q)" using assms(1) by (auto simp: inv_def)
  have take: "takeable ?q (order ?q i) \<and> order ?q i \<in> set (ids ?q)" if "rs_take c = Some i" for i
    using assms(2) that full by (auto simp: legal_def data_ready_def)
  have sel: "sel \<Longrightarrow> alloc_ready ?q" using assms(2) by (simp add: legal_def)
  note ids' = cycle_ids [OF ok sel take] and ok' = cycle_ok [OF ok sel take]
  show "ids (fst (step mux sel c s)) = (case rs_take c of None \<Rightarrow> ids ?q | Some i \<Rightarrow> remove1 (order ?q i) (ids ?q)) @ (if sel then [ident ?q] else [])"
    by (simp add: step_def ids')
  have "i \<in> set (ids ?q) \<and> (\<forall>k. rs_take c = Some k \<longrightarrow> order ?q k \<noteq> i)" if "rec_full (rs_cycle mux (order ?q) c ?rows i)" for i
    using that assms(2) full by (auto simp: rec_full_cycle legal_def)
  then show "inv (step mux sel c s)"
    using ids_rows [OF ok] by (fastforce simp: inv_def step_def ok' ids' split: option.splits)
qed

end

section \<open>FifoRS\<close>

text \<open>The allocated rows of a FIFO station are the rows from the front on, up to the back; when the two meet it is empty or full.\<close>

definition fifo_count :: "nat \<Rightarrow> fifo_alloc \<Rightarrow> nat" where
  "fifo_count n q = (if fa_back q = fa_front q then if fa_reserved q (fa_front q) then n else 0 else (fa_back q + n - fa_front q) mod n)"

definition fifo_ids :: "nat \<Rightarrow> fifo_alloc \<Rightarrow> nat list" where
  "fifo_ids n q = map (\<lambda>k. (fa_front q + k) mod n) [0..<fifo_count n q]"

definition fifo_rep :: "nat \<Rightarrow> fifo_alloc \<Rightarrow> nat \<Rightarrow> bool" where
  "fifo_rep n q c \<longleftrightarrow> fa_front q < n \<and> c \<le> n \<and> fa_back q = (fa_front q + c) mod n \<and> (\<forall>i. fa_reserved q i \<longleftrightarrow> (\<exists>k < c. i = (fa_front q + k) mod n))"

definition fifo_ok :: "nat \<Rightarrow> fifo_alloc \<Rightarrow> bool" where
  "fifo_ok n q \<longleftrightarrow> (\<exists>c. fifo_rep n q c)"

lemma fifo_rep_count:
  assumes "fifo_rep n q c"
  shows "fifo_count n q = c"
proof -
  have r: "fa_front q < n" "c \<le> n" "fa_back q = (fa_front q + c) mod n" "fa_reserved q (fa_front q) \<longleftrightarrow> (\<exists>k < c. fa_front q = (fa_front q + k) mod n)"
    using assms by (auto simp: fifo_rep_def)
  show ?thesis
  proof (cases "c = 0 \<or> c = n")
    case True
    then show ?thesis using r by (auto simp: fifo_count_def)
  next
    case False
    have ne: "fa_back q \<noteq> fa_front q" using add_mod_inject [of c n 0 "fa_front q"] r False by auto
    have "(fa_back q + n - fa_front q) mod n = c" using r False by (cases "fa_front q + c < n") (auto simp: mod_if)
    then show ?thesis using ne by (simp add: fifo_count_def)
  qed
qed

lemma fifo_rep_alloc:
  assumes "incr_spec incr" "fifo_rep n q c" "c < n"
  shows "fifo_rep n (q\<lparr>fa_reserved := (fa_reserved q)(fa_back q := True), fa_back := incr (fa_back q) n\<rparr>) (Suc c)"
  using assms by (auto simp: fifo_rep_def incr_spec_def mod_Suc_eq less_Suc_eq)

lemma fifo_rep_free:
  assumes "incr_spec incr" "fifo_rep n q (Suc c)"
  shows "fifo_rep n (q\<lparr>fa_reserved := (fa_reserved q)(fa_front q := False), fa_front := incr (fa_front q) n\<rparr>) c"
proof -
  have r: "fa_front q < n" "Suc c \<le> n" "fa_back q = (fa_front q + Suc c) mod n" "\<And>i. fa_reserved q i \<longleftrightarrow> (\<exists>k < Suc c. i = (fa_front q + k) mod n)"
    using assms(2) by (auto simp: fifo_rep_def)
  have "((fa_reserved q)(fa_front q := False)) i \<longleftrightarrow> (\<exists>k < c. i = (fa_front q + 1 + k) mod n)" for i
  proof -
    have ne: "(fa_front q + 1 + k) mod n \<noteq> fa_front q" if "k < c" for k
      using add_mod_inject [of "Suc k" n 0 "fa_front q"] that r(1,2) by auto
    have "fa_reserved q i \<longleftrightarrow> i = fa_front q \<or> (\<exists>k < c. i = (fa_front q + 1 + k) mod n)"
      unfolding r(4) less_Suc_eq_0_disj using r(1) by auto
    moreover have "\<not> (\<exists>k < c. i = (fa_front q + 1 + k) mod n)" if "i = fa_front q" using ne that by metis
    ultimately show ?thesis by auto
  qed
  moreover have "incr (fa_front q) n = (fa_front q + 1) mod n" using assms(1) r(1) by (simp add: incr_spec_def)
  ultimately show ?thesis using r(1-3) by (simp add: fifo_rep_def mod_simps)
qed

lemma fifo_full: "fifo_rep n q c \<Longrightarrow> fifo_alloc_ready n q \<Longrightarrow> c < n"
proof (rule ccontr)
  assume r: "fifo_rep n q c" "fifo_alloc_ready n q" "\<not> c < n"
  then have c: "c = n" by (simp add: fifo_rep_def)
  have "\<exists>k < n. i = (fa_front q + k) mod n" if "i < n" for i
    using r(1) that by (intro exI [of _ "(i + n - fa_front q) mod n"]) (auto simp: fifo_rep_def mod_simps)
  then show False using r c by (auto simp: fifo_alloc_ready_def fifo_rep_def list_all_iff)
qed

lemma fifo_ids_rep: "fifo_rep n q c \<Longrightarrow> fifo_ids n q = map (\<lambda>k. (fa_front q + k) mod n) [0..<c]"
  by (simp add: fifo_ids_def fifo_rep_count)

lemma fifo_rs_allocator:
  assumes incr: "incr_spec incr"
  shows "rs_allocator n (fifo_ok n) (fifo_ids n) (fifo_alloc_ready n) fifo_ident (fifo_cycle incr n) fifo_order fifo_takeable"
proof
  fix q
  assume "fifo_ok n q"
  then obtain c where c: "fifo_rep n q c" by (auto simp: fifo_ok_def)
  have ids: "fifo_ids n q = map (\<lambda>k. (fa_front q + k) mod n) [0..<c]" and n: "fa_front q < n" "c \<le> n"
    and bk: "fa_back q = (fa_front q + c) mod n"
    using c fifo_ids_rep by (auto simp: fifo_rep_def)
  have inj: "inj_on (\<lambda>k. (fa_front q + k) mod n) {0..<c}"
    using n by (auto intro!: inj_onI dest: add_mod_inject [rotated 2])
  show "distinct (fifo_ids n q) \<and> set (fifo_ids n q) \<subseteq> {..<n}" using n inj by (auto simp: ids distinct_map)
  show "fifo_ident q < n \<and> fifo_ident q \<notin> set (fifo_ids n q)" if "fifo_alloc_ready n q"
    using fifo_full [OF c that] n by (fastforce simp: ids fifo_ident_def bk dest: add_mod_inject [rotated 2])
  fix al fr
  assume al: "al \<Longrightarrow> fifo_alloc_ready n q" and fr: "\<And>i. fr = Some i \<Longrightarrow> fifo_takeable q (fifo_order q i) \<and> fifo_order q i \<in> set (fifo_ids n q)"
  define q1 where "q1 = (if al then q\<lparr>fa_reserved := (fa_reserved q)(fa_back q := True), fa_back := incr (fa_back q) n\<rparr> else q)"
  define c1 where "c1 = (if al then Suc c else c)"
  have q1: "fifo_rep n q1 c1" "fa_front q1 = fa_front q"
    using fifo_rep_alloc [OF incr c] fifo_full [OF c] al c by (auto simp: q1_def c1_def)
  have cyc: "fifo_cycle incr n al fr q = (if fr \<noteq> None then q1\<lparr>fa_reserved := (fa_reserved q1)(fa_front q := False), fa_front := incr (fa_front q) n\<rparr> else q1)"
    by (simp add: fifo_cycle_def q1_def Let_def)
  have pos: "0 < c" if "fr \<noteq> None" using fr that by (auto simp: ids)
  have rep: "fifo_rep n (fifo_cycle incr n al fr q) (if fr \<noteq> None then c1 - 1 else c1)"
    using fifo_rep_free [OF incr, of n q1 "c1 - 1"] q1 pos by (auto simp: cyc c1_def)
  then show "fifo_ok n (fifo_cycle incr n al fr q)" by (auto simp: fifo_ok_def)
  have ids1: "map (\<lambda>k. (fa_front q + k) mod n) [0..<c1] = fifo_ids n q @ (if al then [fifo_ident q] else [])"
    by (simp add: ids c1_def fifo_ident_def bk)
  show "fifo_ids n (fifo_cycle incr n al fr q) =
      (case fr of None \<Rightarrow> fifo_ids n q | Some i \<Rightarrow> remove1 (fifo_order q i) (fifo_ids n q)) @ (if al then [fifo_ident q] else [])"
  proof (cases fr)
    case None
    then have "fa_front (fifo_cycle incr n al fr q) = fa_front q" using q1 cyc by simp
    then have "fifo_ids n (fifo_cycle incr n al fr q) = map (\<lambda>k. (fa_front q + k) mod n) [0..<c1]" using fifo_ids_rep [OF rep] None by simp
    then show ?thesis unfolding ids1 using None by simp
  next
    case (Some i)
    have front: "fa_front (fifo_cycle incr n al fr q) = (fa_front q + 1) mod n" unfolding cyc using Some incr n by (simp add: incr_spec_def)
    have "fifo_ids n (fifo_cycle incr n al fr q) = map (\<lambda>k. (fa_front q + Suc k) mod n) [0..<c1 - 1]"
      unfolding fifo_ids_rep [OF rep] front using Some by (simp add: mod_simps)
    also have "... = tl (map (\<lambda>k. (fa_front q + k) mod n) [0..<c1])"
      by (cases c1) (simp_all add: upt_conv_Cons map_Suc_upt [symmetric] del: upt_Suc)
    also have "... = remove1 (fifo_order q i) (fifo_ids n q) @ (if al then [fifo_ident q] else [])"
      unfolding ids1 using pos Some n by (simp add: ids fifo_order_def upt_conv_Cons)
    finally show ?thesis using Some by simp
  qed
qed

interpretation fifo_rs: rs_allocator n "fifo_ok n" "fifo_ids n" "fifo_alloc_ready n" fifo_ident "fifo_cycle (\<lambda>i n. (i + 1) mod n) n" fifo_order fifo_takeable
  for n
  by (rule fifo_rs_allocator) (simp add: incr_spec_def)

section \<open>Announcements wake up operands\<close>

definition announced :: "'v rs_updates \<Rightarrow> (nat \<times> 'v) list" where
  "announced ups = concat (map (\<lambda>u. case u of None \<Rightarrow> [] | Some a \<Rightarrow> [a]) ups)"

text \<open>What a row becomes: an operand whose register is announced takes the announced value.\<close>

definition wake :: "(nat \<times> 'v) list \<Rightarrow> ('v, 'd) rs_row \<Rightarrow> ('v, 'd) rs_row" where
  "wake anns row =
     (let row1 = (case map_of anns (rp_s1 row) of None \<Rightarrow> row | Some v \<Rightarrow> row\<lparr>rp_s1 := 0, s1_val := v\<rparr>)
      in case map_of anns (rp_s2 row) of None \<Rightarrow> row1 | Some v \<Rightarrow> row1\<lparr>rp_s2 := 0, s2_val := v\<rparr>)"

lemma set_announced: "set (announced ups) = {a. Some a \<in> set ups}"
  by (force simp: announced_def split: option.splits)

lemma announced_unique:
  "distinct (map fst (announced ups)) \<Longrightarrow> j < length ups \<Longrightarrow> k < length ups \<Longrightarrow> ups ! j = Some (r, v) \<Longrightarrow> ups ! k = Some (r, w) \<Longrightarrow> j = k"
proof (induction ups arbitrary: j k)
  case (Cons u ups)
  have no: "\<not> (\<exists>i < length ups. ups ! i = Some (r, x))" if "u = Some (r, y)" for x y
  proof
    assume "\<exists>i < length ups. ups ! i = Some (r, x)"
    then have "(r, x) \<in> set (announced ups)" unfolding set_announced by (metis mem_Collect_eq nth_mem)
    then show False using Cons.prems(1) that by (force simp: announced_def)
  qed
  have "distinct (map fst (announced ups))" using Cons.prems(1) by (simp add: announced_def)
  then show ?case using Cons.IH Cons.prems no by (cases j; cases k) auto
qed simp

lemma matches_iff: "list_ex id (rs_matches ups r) \<longleftrightarrow> map_of (announced ups) r \<noteq> None"
proof -
  have "list_ex id (rs_matches ups r) \<longleftrightarrow> (\<exists>v. Some (r, v) \<in> set ups)"
    by (force simp: rs_matches_def list_ex_iff split: option.splits)
  then show ?thesis by (force simp: map_of_eq_None_iff set_announced image_iff)
qed

lemma update_val_announced:
  assumes mux: "one_hot_mux_spec mux" and d: "distinct (map fst (announced ups))" and r: "map_of (announced ups) r = Some v"
  shows "update_val mux ups r = v"
proof -
  have "Some (r, v) \<in> set ups" using map_of_SomeD [OF r] by (simp add: set_announced)
  then obtain k where k: "k < length ups" "ups ! k = Some (r, v)" by (auto simp: in_set_conv_nth)
  let ?cs = "map2 (\<lambda>c u. (c, case u of None \<Rightarrow> 0 | Some (reg_id, reg_val) \<Rightarrow> reg_val)) (rs_matches ups r) ups"
  have "mux ?cs 0 = snd (?cs ! k)"
  proof (rule one_hot_mux_select [OF mux])
    show "fst (?cs ! k)" "k < length ?cs" using k by (simp_all add: rs_matches_def)
    fix j
    assume "j < length ?cs" "fst (?cs ! j)"
    then show "j = k" using announced_unique [OF d _ k(1) _ k(2), of j] by (auto simp: rs_matches_def split: option.splits)
  qed
  then show ?thesis using k by (simp add: update_val_def rs_matches_def)
qed

lemma update_row_wake:
  assumes "one_hot_mux_spec mux" "distinct (map fst (announced ups))"
  shows "update_row mux ups row = wake (announced ups) row"
  using update_val_announced [OF assms]
  by (auto simp: update_row_def wake_def matches_iff Let_def split: option.splits)

section \<open>A station as a list of instructions\<close>

definition slot :: "('v, 'd) rs_rows \<Rightarrow> nat \<Rightarrow> ('v, 'd) rs_row option" where
  "slot rows i = (if rec_full (rows i) then Some (rows i) else None)"

lemma wake_full [simp]: "rec_full (wake anns row) = rec_full row" "row_data (wake anns row) = row_data row"
  by (auto simp: wake_def Let_def split: option.splits)

lemma slot_cycle:
  assumes "one_hot_mux_spec mux" "distinct (map fst (announced (rs_update c)))" "\<And>k. rs_take c = Some k \<Longrightarrow> ord k \<noteq> i"
  shows "slot (rs_cycle mux ord c rows) i =
    (case rs_insert c of Some (e, row) \<Rightarrow> if e = i then Some (row\<lparr>rec_full := True\<rparr>) else map_option (wake (announced (rs_update c))) (slot rows i)
     | None \<Rightarrow> map_option (wake (announced (rs_update c))) (slot rows i))"
  using assms(3) by (auto simp: slot_def rs_cycle_def update_row_wake [OF assms(1,2)] Let_def split: option.splits)

text \<open>
  The abstract station: slots in the order of allocation, empty until the instruction is inserted. In a cycle
  operands wake up, an instruction may be inserted at a position, the instruction at a position may be
  taken, and a slot may be reserved at the end.
\<close>

definition slots_next ::
  "(nat \<times> 'v) list \<Rightarrow> (nat \<times> ('v, 'd) rs_row) option \<Rightarrow> nat option \<Rightarrow> bool \<Rightarrow> ('v, 'd) rs_row option list \<Rightarrow> ('v, 'd) rs_row option list" where
  "slots_next anns ins tk sel l =
     (let l1 = map (map_option (wake anns)) l;
          l2 = (case ins of None \<Rightarrow> l1 | Some (p, row) \<Rightarrow> l1[p := Some (row\<lparr>rec_full := True\<rparr>)]);
          l3 = (case tk of None \<Rightarrow> l2 | Some p \<Rightarrow> take p l2 @ drop (Suc p) l2)
      in l3 @ (if sel then [None] else []))"

lemma remove1_nth: "distinct xs \<Longrightarrow> p < length xs \<Longrightarrow> remove1 (xs ! p) xs = take p xs @ drop (Suc p) xs"
proof (induction xs arbitrary: p)
  case (Cons x xs)
  then show ?case by (cases p) auto
qed simp

lemma map_update_at:
  assumes "distinct xs" "p < length xs"
  shows "(map f xs)[p := y] = map (\<lambda>i. if xs ! p = i then y else f i) xs"
  using assms by (intro nth_equalityI) (auto simp: nth_list_update nth_eq_iff_index_eq)

context rs_allocator
begin

definition slots :: "'q \<times> ('v, 'd) rs_rows \<Rightarrow> ('v, 'd) rs_row option list" where
  "slots s = map (slot (snd s)) (ids (fst s))"

lemma step_slots:
  assumes inv: "inv s" and legal: "legal sel c (fst s) (snd s)"
    and mux: "one_hot_mux_spec mux" "distinct (map fst (announced (rs_update c)))"
    and ins: "\<And>e row. rs_insert c = Some (e, row) \<Longrightarrow> p < length (ids (fst s)) \<and> ids (fst s) ! p = e"
    and tk: "\<And>i. rs_take c = Some i \<Longrightarrow> t < length (ids (fst s)) \<and> ids (fst s) ! t = order (fst s) i"
  shows "slots (step mux sel c s) =
    slots_next (announced (rs_update c)) (map_option (\<lambda>(e, row). (p, row)) (rs_insert c)) (map_option (\<lambda>_. t) (rs_take c)) sel (slots s)"
proof -
  let ?q = "fst s" and ?rows = "snd s" and ?anns = "announced (rs_update c)"
  have ok: "ok ?q" and full: "\<And>i. rec_full (?rows i) \<Longrightarrow> i \<in> set (ids ?q)" using inv by (auto simp: inv_def)
  have d: "distinct (ids ?q)" using ids_rows [OF ok] by blast
  define g where "g = (\<lambda>i. case rs_insert c of Some (e, row) \<Rightarrow> if e = i then Some (row\<lparr>rec_full := True\<rparr>) else map_option (wake ?anns) (slot ?rows i)
     | None \<Rightarrow> map_option (wake ?anns) (slot ?rows i))"
  have g: "slot (rs_cycle mux (order ?q) c ?rows) i = g i" if "\<And>k. rs_take c = Some k \<Longrightarrow> order ?q k \<noteq> i" for i
    unfolding g_def by (rule slot_cycle [OF mux that])
  have fresh: "slot (rs_cycle mux (order ?q) c ?rows) (ident ?q) = None" if sel
  proof -
    have "ident ?q \<notin> set (ids ?q)" using ident_fresh [OF ok] legal that by (auto simp: legal_def)
    then have "\<not> rec_full (?rows (ident ?q))" "\<And>row. rs_insert c \<noteq> Some (ident ?q, row)" using full legal by (auto simp: legal_def)
    then show ?thesis by (simp add: slot_def rec_full_cycle)
  qed
  have upd: "(case map_option (\<lambda>(e, row). (p, row)) (rs_insert c) of None \<Rightarrow> map (map_option (wake ?anns)) (slots s)
      | Some (p, row) \<Rightarrow> (map (map_option (wake ?anns)) (slots s))[p := Some (row\<lparr>rec_full := True\<rparr>)]) = map g (ids ?q)"
    using ins map_update_at [OF d, of p] by (auto simp: g_def slots_def comp_def split: option.splits)
  have ids': "ids (fst (step mux sel c s)) = (case rs_take c of None \<Rightarrow> ids ?q | Some i \<Rightarrow> remove1 (order ?q i) (ids ?q)) @ (if sel then [ident ?q] else [])"
    by (rule step_inv(2) [OF inv legal])
  have kept: "map (slot (rs_cycle mux (order ?q) c ?rows)) (case rs_take c of None \<Rightarrow> ids ?q | Some i \<Rightarrow> remove1 (order ?q i) (ids ?q)) =
      (case map_option (\<lambda>_. t) (rs_take c) of None \<Rightarrow> map g (ids ?q) | Some p \<Rightarrow> take p (map g (ids ?q)) @ drop (Suc p) (map g (ids ?q)))"
  proof (cases "rs_take c")
    case None
    then show ?thesis using g by simp
  next
    case (Some i)
    then have t: "t < length (ids ?q)" "ids ?q ! t = order ?q i" using tk by auto
    have "map (slot (rs_cycle mux (order ?q) c ?rows)) (remove1 (order ?q i) (ids ?q)) = map g (remove1 (order ?q i) (ids ?q))"
      using g Some d by (intro map_cong refl) auto
    then show ?thesis using remove1_nth [OF d t(1)] t(2) Some by (simp add: take_map drop_map)
  qed
  show ?thesis
    unfolding slots_next_def Let_def upd using kept fresh ids' by (simp add: slots_def step_def)
qed

end

section \<open>Wakeup and select\<close>

text \<open>
  The functional units of a block, each with its operations and whether its \<^verbatim>\<open>issue\<close> is ready, compete for the single
  \<^verbatim>\<open>take\<close>: of the wakeup transactions that can run the library's arbiter grants one.
\<close>

definition grant_spec :: "(bool list \<Rightarrow> nat option) \<Rightarrow> bool" where
  "grant_spec grant \<longleftrightarrow> (\<forall>bs. case grant bs of None \<Rightarrow> True \<notin> set bs | Some u \<Rightarrow> u < length bs \<and> bs ! u)"

definition issue_select ::
  "(bool list \<Rightarrow> nat) \<Rightarrow> (bool list \<Rightarrow> nat option) \<Rightarrow> (nat \<Rightarrow> bool) \<Rightarrow> nat \<Rightarrow> (nat \<Rightarrow> nat) \<Rightarrow> (('d \<Rightarrow> bool) \<times> bool) list \<Rightarrow> ('v, 'd) rs_rows \<Rightarrow>
   (nat \<times> nat) option" where
  "issue_select enc grant takeable n order units rows =
     (let wakeups = map (\<lambda>(ops, issue_ready). wakeup_select enc issue_ready (get_ready_list ops takeable n order rows)) units
      in case grant (map (\<lambda>w. w \<noteq> None) wakeups) of None \<Rightarrow> None | Some u \<Rightarrow> map_option (Pair u) (wakeups ! u))"

lemma no_some: "True \<notin> set (map (\<lambda>w. w \<noteq> None) ws) \<Longrightarrow> \<forall>w \<in> set ws. w = None"
  by (induction ws) auto

lemma issue_select_granted:
  assumes "grant_spec grant"
  shows "issue_select enc grant takeable n order units rows = None \<longleftrightarrow>
      (\<forall>(ops, issue_ready) \<in> set units. \<not> (issue_ready \<and> get_ready_list ops takeable n order rows \<noteq> None))"
    and "issue_select enc grant takeable n order units rows = Some (u, idx) \<Longrightarrow>
      u < length units \<and> snd (units ! u) \<and> (\<exists>bs. get_ready_list (fst (units ! u)) takeable n order rows = Some bs \<and> idx = enc bs)"
proof -
  let ?w = "map (\<lambda>(ops, issue_ready). wakeup_select enc issue_ready (get_ready_list ops takeable n order rows)) units"
  let ?g = "grant (map (\<lambda>w. w \<noteq> None) ?w)"
  have spec: "case ?g of None \<Rightarrow> True \<notin> set (map (\<lambda>w. w \<noteq> None) ?w) | Some u \<Rightarrow> u < length units \<and> ?w ! u \<noteq> None"
  proof (cases ?g)
    case None
    then show ?thesis using assms [unfolded grant_spec_def, THEN spec, of "map (\<lambda>w. w \<noteq> None) ?w"] by simp
  next
    case (Some u)
    then have "u < length ?w" "map (\<lambda>w. w \<noteq> None) ?w ! u"
      using assms [unfolded grant_spec_def, THEN spec, of "map (\<lambda>w. w \<noteq> None) ?w"] by simp_all
    then show ?thesis unfolding Some by simp
  qed
  have sel: "issue_select enc grant takeable n order units rows = (case ?g of None \<Rightarrow> None | Some u \<Rightarrow> map_option (Pair u) (?w ! u))"
    by (simp add: issue_select_def Let_def)
  have none: "issue_select enc grant takeable n order units rows = None \<longleftrightarrow> (\<forall>w \<in> set ?w. w = None)"
  proof (cases ?g)
    case None
    then have "True \<notin> set (map (\<lambda>w. w \<noteq> None) ?w)" using spec by simp
    then have "\<forall>w \<in> set ?w. w = None" by (rule no_some)
    moreover have "issue_select enc grant takeable n order units rows = None" unfolding sel None by simp
    ultimately show ?thesis by blast
  next
    case (Some u)
    have "u < length units \<and> ?w ! u \<noteq> None" using spec unfolding Some option.case .
    then have u: "u < length ?w" "?w ! u \<noteq> None" unfolding length_map by blast+
    have "issue_select enc grant takeable n order units rows \<noteq> None" unfolding sel Some option.case option.map_disc_iff by (rule u(2))
    moreover have "\<not> (\<forall>w \<in> set ?w. w = None)" using bspec [OF _ nth_mem [OF u(1)], of "\<lambda>w. w = None"] u(2) by (rule contrapos_nn [rotated])
    ultimately show ?thesis by (simp only: simp_thms)
  qed
  show "issue_select enc grant takeable n order units rows = None \<longleftrightarrow>
      (\<forall>(ops, issue_ready) \<in> set units. \<not> (issue_ready \<and> get_ready_list ops takeable n order rows \<noteq> None))"
    unfolding none by (auto simp: wakeup_select_def)
  show "u < length units \<and> snd (units ! u) \<and> (\<exists>bs. get_ready_list (fst (units ! u)) takeable n order rows = Some bs \<and> idx = enc bs)"
    if "issue_select enc grant takeable n order units rows = Some (u, idx)"
  proof -
    have u: "u < length units" "?w ! u = Some idx" using that spec unfolding sel by (auto split: option.splits)
    then show ?thesis by (auto simp: wakeup_select_def split: prod.splits if_splits)
  qed
qed

text \<open>With a contract of the priority encoder, and an order that lists every row, what a unit takes is a ready row of its operations.\<close>

lemma wakeup_takes_ready:
  assumes "prio_encoder_spec enc" "{..<n} \<subseteq> order ` {..<n}" "get_ready_list ops takeable n order rows = Some bs"
  shows "enc bs < n \<and> ready_list ops takeable n rows (order (enc bs))"
proof -
  have bs: "bs = map (\<lambda>i. ready_list ops takeable n rows (order i)) [0..<n]" and some: "\<exists>i < n. ready_list ops takeable n rows i"
    using assms(3) by (auto simp: get_ready_list_def split: if_splits)
  obtain i where i: "i < n" "ready_list ops takeable n rows i" using some by blast
  then obtain j where "j < n" "order j = i" using assms(2) by auto
  then have "True \<in> set bs" using i unfolding bs by (auto simp: image_iff)
  then have e: "enc bs < length bs" "bs ! enc bs" using assms(1) unfolding prio_encoder_spec_def by blast+
  have "enc bs < n" using e(1) by (simp add: bs)
  moreover have "bs ! j = ready_list ops takeable n rows (order j)" if "j < n" for j using that by (simp add: bs)
  ultimately show ?thesis using e(2) by blast
qed

section \<open>Main result\<close>

definition fifo_station :: "(nat \<Rightarrow> nat \<Rightarrow> nat) \<Rightarrow> nat \<Rightarrow> 'v one_hot_mux \<Rightarrow> bool \<Rightarrow> ('v :: zero, 'd) rs_calls \<Rightarrow>
  fifo_alloc \<times> ('v, 'd) rs_rows \<Rightarrow> fifo_alloc \<times> ('v, 'd) rs_rows" where
  "fifo_station incr n mux sel c s = (fifo_cycle incr n sel (rs_take c) (fst s), rs_cycle mux (fifo_order (fst s)) c (snd s))"

definition fifo_issue ::
  "(bool list \<Rightarrow> nat) \<Rightarrow> (bool list \<Rightarrow> nat option) \<Rightarrow> nat \<Rightarrow> (('d \<Rightarrow> bool) \<times> bool) list \<Rightarrow> fifo_alloc \<times> ('v, 'd) rs_rows \<Rightarrow> (nat \<times> nat) option" where
  "fifo_issue enc grant n units s = issue_select enc grant (fifo_takeable (fst s)) n (fifo_order (fst s)) units (snd s)"

text \<open>A cycle is legal when rows are selected while one is free and inserted under reserved identifiers; the ways announce different registers.\<close>

definition fifo_legal :: "nat \<Rightarrow> bool \<Rightarrow> (nat \<times> ('v, 'd) rs_row) option \<Rightarrow> 'v rs_updates \<Rightarrow> fifo_alloc \<times> ('v, 'd) rs_rows \<Rightarrow> bool" where
  "fifo_legal n sel ins ups s \<longleftrightarrow> (sel \<longrightarrow> fifo_alloc_ready n (fst s)) \<and> distinct (map fst (announced ups)) \<and>
     (case ins of None \<Rightarrow> True | Some (e, row) \<Rightarrow> e \<in> set (fifo_ids n (fst s)) \<and> \<not> rec_full (snd s e))"

definition fifo_inv :: "nat \<Rightarrow> fifo_alloc \<times> ('v, 'd) rs_rows \<Rightarrow> bool" where
  "fifo_inv n s \<longleftrightarrow> fifo_ok n (fst s) \<and> (\<forall>i. rec_full (snd s i) \<longrightarrow> i \<in> set (fifo_ids n (fst s)))"

definition fifo_slots :: "nat \<Rightarrow> fifo_alloc \<times> ('v, 'd) rs_rows \<Rightarrow> ('v, 'd) rs_row option list" where
  "fifo_slots n s = map (slot (snd s)) (fifo_ids n (fst s))"

text \<open>The front instruction of the abstract station, if it has been inserted and waits for no register.\<close>

definition front_ready :: "('v, 'd) rs_row option list \<Rightarrow> ('v, 'd) rs_row option" where
  "front_ready l = (case l of Some row # _ \<Rightarrow> if rp_s1 row = 0 \<and> rp_s2 row = 0 then Some row else None | _ \<Rightarrow> None)"

lemma fifo_ids_front:
  assumes "fifo_ok n q"
  shows "fa_front q < n" "fifo_ids n q \<noteq> [] \<Longrightarrow> hd (fifo_ids n q) = fa_front q" "fa_front q \<in> set (fifo_ids n q) \<longleftrightarrow> fifo_ids n q \<noteq> []"
proof -
  obtain c where c: "fifo_rep n q c" using assms(1) by (auto simp: fifo_ok_def)
  then show n: "fa_front q < n" by (simp add: fifo_rep_def)
  show hd: "fifo_ids n q \<noteq> [] \<Longrightarrow> hd (fifo_ids n q) = fa_front q"
    using n unfolding fifo_ids_rep [OF c] by (simp add: hd_map)
  then show "fa_front q \<in> set (fifo_ids n q) \<longleftrightarrow> fifo_ids n q \<noteq> []" using hd_in_set by force
qed

lemma front_ready_iff:
  assumes "fifo_inv n s"
  shows "front_ready (fifo_slots n s) = (if data_ready (snd s (fa_front (fst s))) then Some (snd s (fa_front (fst s))) else None)"
proof (cases "fifo_ids n (fst s)")
  case Nil
  then show ?thesis using assms fifo_ids_front(3) [of n "fst s"] by (auto simp: fifo_inv_def fifo_slots_def front_ready_def data_ready_def)
next
  case (Cons i js)
  then have "i = fa_front (fst s)" using assms fifo_ids_front(2) [of n "fst s"] by (simp add: fifo_inv_def)
  then show ?thesis using Cons by (simp add: fifo_slots_def front_ready_def slot_def data_ready_def)
qed

lemma fifo_ready:
  assumes "fifo_inv n s"
  shows "get_ready_list ops (fifo_takeable (fst s)) n (fifo_order (fst s)) (snd s) \<noteq> None \<longleftrightarrow>
    (\<exists>row. front_ready (fifo_slots n s) = Some row \<and> ops (row_data row))"
  using fifo_ids_front(1) [of n "fst s"] assms unfolding front_ready_iff [OF assms]
  by (auto simp: get_ready_list_def ready_list_def fifo_takeable_def fifo_inv_def)

text \<open>
  C23. A FIFO station is a queue of instructions whose operands are woken by announcements. In every cycle its slots, from
  the oldest reserved one on, change as in the abstract station, where only the front instruction leaves. It leaves exactly when it
  has been inserted, waits for no register, and some unit of its operations is ready: this is decided by the ready lists, the
  wakeup transactions of the units and the arbiter. It goes to such a unit, and what \<^verbatim>\<open>take\<close> returns are its operands
  and data. The invariant is kept.
\<close>

theorem fifo_station_refines:
  assumes "incr_spec incr" "one_hot_mux_spec mux" "one_hot_mux_spec mux'" "grant_spec grant" "fifo_inv n s" "fifo_legal n sel ins ups s"
  shows "let issued = fifo_issue enc grant n units s;
      s' = fifo_station incr n mux sel \<lparr>rs_insert = ins, rs_update = ups, rs_take = map_option snd issued\<rparr> s
    in fifo_inv n s' \<and>
      (\<exists>p. (\<forall>e row. ins = Some (e, row) \<longrightarrow> p < length (fifo_slots n s) \<and> fifo_slots n s ! p = None) \<and>
         fifo_slots n s' = slots_next (announced ups) (map_option (\<lambda>(e, row). (p, row)) ins) (map_option (\<lambda>_. 0) issued) sel (fifo_slots n s)) \<and>
      (issued \<noteq> None \<longleftrightarrow> (\<exists>row. front_ready (fifo_slots n s) = Some row \<and> (\<exists>(ops, issue_ready) \<in> set units. issue_ready \<and> ops (row_data row)))) \<and>
      (\<forall>u idx. issued = Some (u, idx) \<longrightarrow> u < length units \<and> snd (units ! u) \<and> (\<exists>row. front_ready (fifo_slots n s) = Some row \<and>
         fst (units ! u) (row_data row) \<and> rs_take_out mux' z n (fifo_order (fst s)) idx (snd s) = (s1_val row, s2_val row, row_data row)))"
proof -
  note A = fifo_rs_allocator [OF assms(1), of n]
  let ?q = "fst s" and ?rows = "snd s" and ?issued = "fifo_issue enc grant n units s"
  let ?c = "\<lparr>rs_insert = ins, rs_update = ups, rs_take = map_option snd ?issued\<rparr>"
  note front = front_ready_iff [OF assms(5)] and ready = fifo_ready [OF assms(5)]
  have granted: "u < length units \<and> snd (units ! u) \<and> (\<exists>row. front_ready (fifo_slots n s) = Some row \<and> fst (units ! u) (row_data row))"
    if "?issued = Some (u, idx)" for u idx
    using issue_select_granted(2) [OF assms(4) that [unfolded fifo_issue_def]] ready [of "fst (units ! u)"] by auto
  have taken: "data_ready (?rows (fa_front ?q))" if "?issued \<noteq> None" using that granted front by (auto split: if_splits)
  have iff: "?issued \<noteq> None \<longleftrightarrow>
      (\<exists>row. front_ready (fifo_slots n s) = Some row \<and> (\<exists>(ops, issue_ready) \<in> set units. issue_ready \<and> ops (row_data row)))"
    unfolding fifo_issue_def issue_select_granted(1) [OF assms(4)] ready by auto
  have inv: "rs_allocator.inv (fifo_ok n) (fifo_ids n) s" using assms(5) by (simp add: rs_allocator.inv_def [OF A] fifo_inv_def)
  have legal: "rs_allocator.legal (fifo_ids n) (fifo_alloc_ready n) fifo_order fifo_takeable sel ?c ?q ?rows"
    using assms(6) taken by (auto simp: rs_allocator.legal_def [OF A] fifo_legal_def fifo_order_def fifo_takeable_def)
  have st: "rs_allocator.step (fifo_cycle incr n) fifo_order mux sel ?c s = fifo_station incr n mux sel ?c s"
    by (simp add: rs_allocator.step_def [OF A] fifo_station_def)
  have d: "distinct (map fst (announced (rs_update ?c)))" using assms(6) by (simp add: fifo_legal_def)
  have ok: "fifo_ok n ?q" and n: "fa_front ?q < n" using assms(5) fifo_ids_front(1) by (auto simp: fifo_inv_def)
  have zero: "0 < length (fifo_ids n ?q) \<and> fifo_ids n ?q ! 0 = fa_front ?q" if "?issued \<noteq> None"
  proof -
    have "fa_front ?q \<in> set (fifo_ids n ?q)" using taken [OF that] assms(5) by (simp add: fifo_inv_def data_ready_def)
    then show ?thesis using fifo_ids_front(2,3) [OF ok] by (simp add: hd_conv_nth)
  qed
  obtain p where p: "\<And>e row. rs_insert ?c = Some (e, row) \<Longrightarrow> p < length (fifo_ids n ?q) \<and> fifo_ids n ?q ! p = e"
    using assms(6) by (cases ins) (auto simp: fifo_legal_def in_set_conv_nth)
  have slots: "rs_allocator.slots (fifo_ids n) t = fifo_slots n t" for t :: "fifo_alloc \<times> ('a, 'b) rs_rows"
    by (simp add: rs_allocator.slots_def [OF A] fifo_slots_def)
  have "rs_allocator.slots (fifo_ids n) (fifo_station incr n mux sel ?c s) =
      slots_next (announced (rs_update ?c)) (map_option (\<lambda>(e, row). (p, row)) (rs_insert ?c)) (map_option (\<lambda>_. 0) (rs_take ?c)) sel (rs_allocator.slots (fifo_ids n) s)"
    unfolding st [symmetric]
    by (rule rs_allocator.step_slots [OF A inv legal assms(2) d p]) (use zero in \<open>auto simp: fifo_order_def\<close>)
  then have step: "fifo_slots n (fifo_station incr n mux sel ?c s) =
      slots_next (announced ups) (map_option (\<lambda>(e, row). (p, row)) ins) (map_option (\<lambda>_. 0) ?issued) sel (fifo_slots n s)"
    by (simp add: slots option.map_comp comp_def)
  have inv': "fifo_inv n (fifo_station incr n mux sel ?c s)"
    using rs_allocator.step_inv(1) [OF A inv legal, of mux] by (simp add: st rs_allocator.inv_def [OF A] fifo_inv_def)
  have p': "p < length (fifo_slots n s) \<and> fifo_slots n s ! p = None" if "ins = Some (e, row)" for e row
    using p [of e row] assms(6) that by (auto simp: fifo_slots_def slot_def fifo_legal_def)
  have out: "rs_take_out mux' z n (fifo_order ?q) idx ?rows = (s1_val (?rows (fa_front ?q)), s2_val (?rows (fa_front ?q)), row_data (?rows (fa_front ?q)))" for idx
    unfolding rs_take_out_def
    by (subst one_hot_mux_select [OF assms(3), where i = "fa_front ?q"]) (use n in \<open>auto simp: fifo_order_def\<close>)
  have leave: "u < length units \<and> snd (units ! u) \<and> (\<exists>row. front_ready (fifo_slots n s) = Some row \<and>
      fst (units ! u) (row_data row) \<and> rs_take_out mux' z n (fifo_order ?q) idx ?rows = (s1_val row, s2_val row, row_data row))"
    if "?issued = Some (u, idx)" for u idx
    using granted [OF that] front unfolding out by (auto split: if_splits)
  show ?thesis unfolding Let_def using inv' p' step iff leave by blast
qed

text \<open>A station of three rows. The front instruction waits for register 5, which is announced; the next one is ready, and has to wait.\<close>

definition example_row :: "(nat, unit) rs_row" where
  "example_row = \<lparr>rp_s1 = 5, rp_s2 = 0, s1_val = 0, s2_val = 1, row_data = (), rec_full = True\<rparr>"

definition example_station :: "fifo_alloc \<times> (nat, unit) rs_rows" where
  "example_station = (\<lparr>fa_front = 0, fa_back = 2, fa_reserved = (\<lambda>i. i < 2)\<rparr>,
     \<lambda>i. if i = 0 then example_row else if i = 1 then example_row\<lparr>rp_s1 := 0\<rparr> else example_row\<lparr>rec_full := False\<rparr>)"

definition first_grant :: "bool list \<Rightarrow> nat option" where
  "first_grant bs = find (\<lambda>i. bs ! i) [0..<length bs]"

lemma first_grant_spec: "grant_spec first_grant"
  unfolding grant_spec_def
proof
  fix bs
  show "case first_grant bs of None \<Rightarrow> True \<notin> set bs | Some u \<Rightarrow> u < length bs \<and> bs ! u"
  proof (cases "first_grant bs")
    case None
    then have "\<forall>i < length bs. \<not> bs ! i" by (simp add: first_grant_def find_None_iff)
    then have "True \<notin> set bs" by (auto simp: in_set_conv_nth)
    then show ?thesis unfolding None by simp
  next
    case (Some u)
    then have "u < length bs \<and> bs ! u" unfolding first_grant_def by (auto simp: find_Some_iff)
    then show ?thesis unfolding Some by simp
  qed
qed

theorem fifo_station_refines_witness:
  "fifo_issue (\<lambda>_. 0) first_grant 3 [(\<lambda>_. True, True)] example_station = None \<and>
   fifo_slots 3 (fifo_station (\<lambda>i n. (i + 1) mod n) 3 first_mux False
     \<lparr>rs_insert = None, rs_update = [None, Some (5, 42)], rs_take = None\<rparr> example_station) =
     [Some (example_row\<lparr>rp_s1 := 0, s1_val := 42\<rparr>), Some (example_row\<lparr>rp_s1 := 0\<rparr>)]"
proof -
  have rep: "fifo_rep 3 (fst example_station) 2"
    by (auto simp: fifo_rep_def example_station_def less_2_cases_iff numeral_2_eq_2 less_Suc_eq)
  have slots: "fifo_slots 3 example_station = [Some example_row, Some (example_row\<lparr>rp_s1 := 0\<rparr>)]"
    by (simp add: fifo_slots_def fifo_ids_rep [OF rep] upt_rec) (simp add: example_station_def slot_def example_row_def)
  have "fifo_inv 3 example_station"
    using rep by (auto simp: fifo_inv_def fifo_ok_def fifo_ids_rep [OF rep] upt_rec) (auto simp: example_station_def split: if_splits)
  moreover have "fifo_legal 3 False None [None, Some (5, 42)] example_station" by (simp add: fifo_legal_def announced_def)
  moreover have "incr_spec (\<lambda>i n. (i + 1) mod n)" by (simp add: incr_spec_def)
  moreover have front: "front_ready [Some example_row, Some (example_row\<lparr>rp_s1 := 0\<rparr>)] = None" by (simp add: front_ready_def example_row_def)
  ultimately have "fifo_issue (\<lambda>_. 0) first_grant 3 [(\<lambda>_. True, True)] example_station = None" and
    "fifo_slots 3 (fifo_station (\<lambda>i n. (i + 1) mod n) 3 first_mux False \<lparr>rs_insert = None, rs_update = [None, Some (5, 42)],
       rs_take = map_option snd (fifo_issue (\<lambda>_. 0) first_grant 3 [(\<lambda>_. True, True)] example_station)\<rparr> example_station) =
     slots_next (announced [None, Some (5, 42)]) None (map_option (\<lambda>_. 0) (fifo_issue (\<lambda>_. 0) first_grant 3 [(\<lambda>_. True, True)] example_station))
       False [Some example_row, Some (example_row\<lparr>rp_s1 := 0\<rparr>)]"
    using fifo_station_refines [OF _ first_mux_spec first_mux_spec first_grant_spec, of "\<lambda>i n. (i + 1) mod n" 3 example_station False None
        "[None, Some (5, 42)]" "\<lambda>_. 0" "[(\<lambda>_. True, True)]"]
    unfolding Let_def slots front option.simps by blast+
  then show ?thesis by (simp add: slots_next_def announced_def wake_def example_row_def)
qed

end
