(* ===== verification/Interrupt_Controller.thy ===== *)
theory Interrupt_Controller
  imports Isa_Consts Csr_Register
begin

unbundle bit_operations_syntax

text \<open>
  The interrupt controller of the core (\<^verbatim>\<open>priv/traps/interrupt_controller.py\<close>): the writable bits of the interrupt
  registers, pending and enabled interrupts and their delegation to supervisor mode, the choice of the
  cause, the update of \<^verbatim>\<open>mip\<close> by software, edges and the timer comparison, and the changes of the status
  registers on trap entry and return.
\<close>

section \<open>Masks\<close>

record ic_params =
  ip_xlen :: nat
  ip_custom_count :: nat
  ip_edge_trig_mask :: nat
  ip_all_delegable :: bool
  ip_user_mode :: bool
  ip_supervisor_mode :: bool
  ip_sstc :: bool

definition ISA_RESERVED_INTERRUPTS :: nat where
  "ISA_RESERVED_INTERRUPTS = 16"

datatype ic_error = Too_many_custom_interrupts

definition irq_bit :: "InterruptCauseNumber \<Rightarrow> nat" where
  "irq_bit c = push_bit (interrupt_cause_value c) 1"

definition check_custom_count :: "ic_params \<Rightarrow> ic_error + ic_params" where
  "check_custom_count p =
     (if int (ip_custom_count p) > int (ip_xlen p) - int ISA_RESERVED_INTERRUPTS then Inl Too_many_custom_interrupts else Inr p)"

definition edge_reported_mask :: "ic_params \<Rightarrow> nat" where
  "edge_reported_mask p =
     push_bit ISA_RESERVED_INTERRUPTS (ip_edge_trig_mask p) OR (if ip_supervisor_mode p then irq_bit Interrupt_SSI else 0)"

definition custom_interrupt_mask :: "ic_params \<Rightarrow> nat" where
  "custom_interrupt_mask p = push_bit ISA_RESERVED_INTERRUPTS (2 ^ ip_custom_count p - 1)"

definition mie_writeable_m :: "ic_params \<Rightarrow> nat" where
  "mie_writeable_m p = irq_bit Interrupt_MSI OR irq_bit Interrupt_MTI OR irq_bit Interrupt_MEI OR custom_interrupt_mask p"

definition mip_writeable :: "ic_params \<Rightarrow> nat" where
  "mip_writeable p =
     (mie_writeable_m p AND edge_reported_mask p) OR
     (if ip_supervisor_mode p then irq_bit Interrupt_STI OR irq_bit Interrupt_SSI OR irq_bit Interrupt_SEI else 0)"

definition mideleg_writeable :: "ic_params \<Rightarrow> nat" where
  "mideleg_writeable p =
     irq_bit Interrupt_SSI OR irq_bit Interrupt_STI OR irq_bit Interrupt_SEI OR custom_interrupt_mask p OR
     (if ip_all_delegable p then mie_writeable_m p else 0)"

definition sip_writeable :: "ic_params \<Rightarrow> nat" where
  "sip_writeable p = mideleg_writeable p AND edge_reported_mask p"

definition mie_writeable :: "ic_params \<Rightarrow> nat" where
  "mie_writeable p = mie_writeable_m p OR (if ip_supervisor_mode p then mideleg_writeable p else 0)"

text \<open>The assertions of the constructor.\<close>

definition mask_assertions :: "ic_params \<Rightarrow> bool" where
  "mask_assertions p \<longleftrightarrow>
     (\<forall>i. bit (mip_writeable p) i \<longrightarrow> bit (mie_writeable p) i) \<and> (\<forall>i. bit (sip_writeable p) i \<longrightarrow> bit (mideleg_writeable p) i) \<and>
     (ip_supervisor_mode p \<longrightarrow> (\<forall>i. bit (sip_writeable p) i \<longrightarrow> bit (mip_writeable p) i))"

lemma masks_consistent: "mask_assertions p"
  by (auto simp: mask_assertions_def mip_writeable_def mie_writeable_def sip_writeable_def mideleg_writeable_def mie_writeable_m_def
      edge_reported_mask_def bit_or_iff bit_and_iff)

section \<open>Pending interrupts\<close>

text \<open>Inputs are split by the way they report: levels, and edges that set a bit of \<^verbatim>\<open>mip\<close>.\<close>

definition level_interrupts :: "ic_params \<Rightarrow> nat \<Rightarrow> nat" where
  "level_interrupts p all_interrupts = all_interrupts AND not_at (ISA_RESERVED_INTERRUPTS + ip_custom_count p) (edge_reported_mask p)"

definition new_edge_interrupts :: "ic_params \<Rightarrow> nat \<Rightarrow> nat" where
  "new_edge_interrupts p all_interrupts = take_bit (ISA_RESERVED_INTERRUPTS + ip_custom_count p) all_interrupts AND edge_reported_mask p"

record ic_regs =
  ir_mie :: nat
  ir_mip :: nat
  ir_mideleg :: nat
  ir_medeleg :: nat

record trap_state =
  t_priv :: nat
  t_mie :: bool
  t_mpie :: bool
  t_mpp :: nat
  t_sie :: bool
  t_spie :: bool
  t_spp :: bool
  t_mprv :: bool

definition ic_pending :: "nat \<Rightarrow> ic_regs \<Rightarrow> nat" where
  "ic_pending level r = ir_mie r AND (ir_mip r OR level)"

definition pending_m :: "ic_params \<Rightarrow> nat \<Rightarrow> ic_regs \<Rightarrow> nat" where
  "pending_m p level r = (if ip_supervisor_mode p then ic_pending level r AND not_at (ip_xlen p) (ir_mideleg r) else ic_pending level r)"

definition pending_s :: "ic_params \<Rightarrow> nat \<Rightarrow> ic_regs \<Rightarrow> nat" where
  "pending_s p level r = (if ip_supervisor_mode p then ic_pending level r AND ir_mideleg r else 0)"

definition interrupt_enable_m :: "trap_state \<Rightarrow> bool" where
  "interrupt_enable_m t \<longleftrightarrow> t_mie t \<or> t_priv t < priv_value Priv_MACHINE"

definition interrupt_enable_s :: "ic_params \<Rightarrow> trap_state \<Rightarrow> bool" where
  "interrupt_enable_s p t \<longleftrightarrow> ip_supervisor_mode p \<and> (t_priv t = priv_value Priv_SUPERVISOR \<and> t_sie t \<or> t_priv t < priv_value Priv_SUPERVISOR)"

definition m_interrupt_insert :: "ic_params \<Rightarrow> nat \<Rightarrow> ic_regs \<Rightarrow> trap_state \<Rightarrow> bool" where
  "m_interrupt_insert p level r t \<longleftrightarrow> pending_m p level r \<noteq> 0 \<and> interrupt_enable_m t"

definition s_interrupt_insert :: "ic_params \<Rightarrow> nat \<Rightarrow> ic_regs \<Rightarrow> trap_state \<Rightarrow> bool" where
  "s_interrupt_insert p level r t \<longleftrightarrow> pending_s p level r \<noteq> 0 \<and> interrupt_enable_s p t"

definition interrupt_insert :: "ic_params \<Rightarrow> nat \<Rightarrow> ic_regs \<Rightarrow> trap_state \<Rightarrow> bool" where
  "interrupt_insert p level r t \<longleftrightarrow> m_interrupt_insert p level r t \<or> s_interrupt_insert p level r t"

definition wfi_resume :: "nat \<Rightarrow> ic_regs \<Rightarrow> bool" where
  "wfi_resume level r \<longleftrightarrow> ic_pending level r \<noteq> 0"

definition selected_pending :: "ic_params \<Rightarrow> nat \<Rightarrow> ic_regs \<Rightarrow> trap_state \<Rightarrow> nat" where
  "selected_pending p level r t = (if m_interrupt_insert p level r t then pending_m p level r else pending_s p level r)"

definition interrupt_priority :: "ic_params \<Rightarrow> nat list" where
  "interrupt_priority p =
     map interrupt_cause_value [Interrupt_MEI, Interrupt_MSI, Interrupt_MTI, Interrupt_SEI, Interrupt_SSI, Interrupt_STI] @ [16..<16 + ip_custom_count p]"

text \<open>The loop assigns in reverse order, so that the last assignment, of the highest priority, wins.\<close>

definition top_interrupt :: "ic_params \<Rightarrow> nat \<Rightarrow> nat" where
  "top_interrupt p sel = fold (\<lambda>b top. if bit sel b then b else top) (rev (interrupt_priority p)) 0"

definition interrupt_cause_next :: "ic_params \<Rightarrow> nat \<Rightarrow> ic_regs \<Rightarrow> trap_state \<Rightarrow> nat \<Rightarrow> nat" where
  "interrupt_cause_next p level r t cause =
     (if interrupt_insert p level r t then top_interrupt p (selected_pending p level r t) else cause)"

section \<open>The register mip\<close>

definition mip_write_combine :: "nat \<Rightarrow> nat \<Rightarrow> nat \<Rightarrow> WriteOpType \<Rightarrow> nat \<Rightarrow> nat" where
  "mip_write_combine xl old_data data op read_val =
     (case op of CSR_WRITE \<Rightarrow> data | CSR_SET \<Rightarrow> old_data OR data | CSR_CLEAR \<Rightarrow> old_data AND not_at xl data)"

definition mip_config :: "ic_params \<Rightarrow> nat \<Rightarrow> nat \<Rightarrow> csr_config" where
  "mip_config p level old_data =
     (plain_csr (ip_xlen p) (not_at (ip_xlen p) (mip_writeable p)) 0)
       \<lparr>fu_write_priority := False, fu_read_map := (\<lambda>v. v OR level), fu_write_combine := mip_write_combine (ip_xlen p) old_data\<rparr>"

definition set_bit_to :: "nat \<Rightarrow> bool \<Rightarrow> nat \<Rightarrow> nat" where
  "set_bit_to i b x = (if b then set_bit i x else unset_bit i x)"

text \<open>What the controller writes in each cycle; \<open>stce\<close> is given when the timer comparison exists, with the outcome of the comparison.\<close>

definition mip_new_data :: "ic_params \<Rightarrow> nat \<Rightarrow> nat \<Rightarrow> (bool \<times> bool) option \<Rightarrow> (nat \<times> WriteOpType) option \<Rightarrow> csr \<Rightarrow> nat" where
  "mip_new_data p level edges timer fu s =
     (let cfg = mip_config p level (csr_value s);
          comb = rr_data (csr_read_comb cfg \<lparr>call_write = None, call_fu_write = fu, call_fu_read = False\<rparr> s);
          value = (comb AND not_at (ip_xlen p) (ro_bits cfg)) OR (csr_value s AND ro_bits cfg);
          new_data = value OR edges
      in case timer of Some (stce, reached) \<Rightarrow> if stce then set_bit_to (interrupt_cause_value Interrupt_STI) reached new_data else new_data
         | None \<Rightarrow> new_data)"

definition mip_cycle :: "ic_params \<Rightarrow> nat \<Rightarrow> nat \<Rightarrow> (bool \<times> bool) option \<Rightarrow> (nat \<times> WriteOpType) option \<Rightarrow> csr \<Rightarrow> csr" where
  "mip_cycle p level edges timer fu s =
     csr_cycle (mip_config p level (csr_value s))
       \<lparr>call_write = Some (mip_new_data p level edges timer fu s), call_fu_write = fu, call_fu_read = (fu \<noteq> None)\<rparr> s"

section \<open>Traps\<close>

text \<open>The cause of a trap: the interrupt flag is its top bit.\<close>

definition trap_target :: "ic_params \<Rightarrow> ic_regs \<Rightarrow> nat \<Rightarrow> nat \<Rightarrow> nat" where
  "trap_target p r priv cause =
     (let cause_num = take_bit (ip_xlen p - 1) cause; is_interrupt = bit cause (ip_xlen p - 1) in
      if ip_supervisor_mode p
      then if is_interrupt then if bit (ir_mideleg r) cause_num then priv_value Priv_SUPERVISOR else priv_value Priv_MACHINE
           else if priv < priv_value Priv_MACHINE
                then if bit (ir_medeleg r) cause_num then priv_value Priv_SUPERVISOR else priv_value Priv_MACHINE
                else priv_value Priv_MACHINE
      else priv_value Priv_MACHINE)"

record trap_calls =
  call_entry :: "nat option"
  call_mret :: bool
  call_sret :: bool

definition trap_entry :: "ic_params \<Rightarrow> nat \<Rightarrow> trap_state \<Rightarrow> trap_state" where
  "trap_entry p target t =
     (if ip_supervisor_mode p \<and> target = priv_value Priv_SUPERVISOR
      then t\<lparr>t_sie := False, t_spie := t_sie t, t_spp := (t_priv t \<noteq> priv_value Priv_USER), t_priv := priv_value Priv_SUPERVISOR\<rparr>
      else if target = priv_value Priv_MACHINE
      then t\<lparr>t_mie := False, t_mpie := t_mie t, t_mpp := t_priv t, t_priv := priv_value Priv_MACHINE\<rparr>
      else t)"

definition trap_mret :: "ic_params \<Rightarrow> trap_state \<Rightarrow> trap_state" where
  "trap_mret p t =
     t\<lparr>t_mie := t_mpie t, t_mpie := True, t_mpp := (if ip_user_mode p then priv_value Priv_USER else priv_value Priv_MACHINE),
       t_priv := t_mpp t, t_mprv := (if t_mpp t \<noteq> priv_value Priv_MACHINE then False else t_mprv t)\<rparr>"

definition trap_sret :: "trap_state \<Rightarrow> trap_state" where
  "trap_sret t =
     t\<lparr>t_sie := t_spie t, t_spie := True, t_spp := False, t_priv := (if t_spp t then priv_value Priv_SUPERVISOR else priv_value Priv_USER),
       t_mprv := False\<rparr>"

definition trap_cycle :: "ic_params \<Rightarrow> ic_regs \<Rightarrow> trap_calls \<Rightarrow> trap_state \<Rightarrow> trap_state" where
  "trap_cycle p r c t =
     (case call_entry c of Some cause \<Rightarrow> trap_entry p (trap_target p r (t_priv t) cause) t
      | None \<Rightarrow> if call_mret c then trap_mret p t else if ip_supervisor_mode p \<and> call_sret c then trap_sret t else t)"

section \<open>The choice of the cause\<close>

lemma fold_last_hit: "fold (\<lambda>b top. if P b then b else top) (rev xs) d = (case find P xs of None \<Rightarrow> d | Some b \<Rightarrow> b)"
  by (induction xs) (auto simp: fold_append)

lemma top_interrupt_find: "top_interrupt p sel = (case find (bit sel) (interrupt_priority p) of None \<Rightarrow> 0 | Some b \<Rightarrow> b)"
  unfolding top_interrupt_def by (rule fold_last_hit)

lemma find_first: "find P xs = Some b \<Longrightarrow> P b \<and> b \<in> set xs \<and> (\<forall>c \<in> set (takeWhile (\<lambda>x. x \<noteq> b) xs). \<not> P c)"
proof (induction xs)
  case (Cons x xs)
  then show ?case by (cases "P x") auto
qed simp

lemma bit_irq [simp]: "bit (irq_bit c) i \<longleftrightarrow> i = interrupt_cause_value c"
  unfolding irq_bit_def push_bit_of_1 by (auto simp: bit_exp_iff)

lemma bit_custom: "bit (custom_interrupt_mask p) i \<longleftrightarrow> 16 \<le> i \<and> i < 16 + ip_custom_count p"
  unfolding custom_interrupt_mask_def ISA_RESERVED_INTERRUPTS_def mask_nat_def [symmetric] by (auto simp: bit_push_bit_iff bit_mask_iff)

lemma mie_writeable_priority: "bit (mie_writeable p) i \<Longrightarrow> i \<in> set (interrupt_priority p)"
  by (auto simp: mie_writeable_def mie_writeable_m_def mideleg_writeable_def interrupt_priority_def bit_or_iff bit_custom split: if_splits)

text \<open>Whether an interrupt is delegated to supervisor mode, and whether it is enabled in the current mode.\<close>

definition delegated :: "ic_params \<Rightarrow> ic_regs \<Rightarrow> nat \<Rightarrow> bool" where
  "delegated p r i \<longleftrightarrow> ip_supervisor_mode p \<and> bit (ir_mideleg r) i"

definition irq_taken :: "ic_params \<Rightarrow> nat \<Rightarrow> ic_regs \<Rightarrow> trap_state \<Rightarrow> nat \<Rightarrow> bool" where
  "irq_taken p level r t i \<longleftrightarrow> bit (ir_mie r) i \<and> (bit (ir_mip r) i \<or> bit level i) \<and>
     (if delegated p r i then t_priv t = 1 \<and> t_sie t \<or> t_priv t < 1 else t_mie t \<or> t_priv t < 3)"

definition regs_ok :: "ic_params \<Rightarrow> ic_regs \<Rightarrow> bool" where
  "regs_ok p r \<longleftrightarrow> ir_mie r < 2 ^ ip_xlen p \<and> (\<forall>i. bit (ir_mie r) i \<longrightarrow> bit (mie_writeable p) i)"

lemma bit_nonzero: "x \<noteq> 0 \<longleftrightarrow> (\<exists>i. bit x i)" for x :: nat
  using bit_eq_iff [of x 0] by simp

lemma pending_bits:
  assumes "regs_ok p r"
  shows "bit (pending_m p level r) i \<longleftrightarrow> bit (ir_mie r) i \<and> (bit (ir_mip r) i \<or> bit level i) \<and> \<not> delegated p r i"
    "bit (pending_s p level r) i \<longleftrightarrow> bit (ir_mie r) i \<and> (bit (ir_mip r) i \<or> bit level i) \<and> delegated p r i"
proof -
  have "bit (ir_mie r) i \<Longrightarrow> i < ip_xlen p" using assms bit_bound by (auto simp: regs_ok_def)
  then show "bit (pending_m p level r) i \<longleftrightarrow> bit (ir_mie r) i \<and> (bit (ir_mip r) i \<or> bit level i) \<and> \<not> delegated p r i"
    "bit (pending_s p level r) i \<longleftrightarrow> bit (ir_mie r) i \<and> (bit (ir_mip r) i \<or> bit level i) \<and> delegated p r i"
    by (auto simp: pending_m_def pending_s_def ic_pending_def delegated_def bit_and_iff bit_or_iff bit_not_at)
qed

lemma insert_iff:
  assumes "regs_ok p r"
  shows "m_interrupt_insert p level r t \<longleftrightarrow> (\<exists>i. irq_taken p level r t i \<and> \<not> delegated p r i)"
    "s_interrupt_insert p level r t \<longleftrightarrow> (\<exists>i. irq_taken p level r t i \<and> delegated p r i)"
  unfolding m_interrupt_insert_def s_interrupt_insert_def interrupt_enable_m_def interrupt_enable_s_def bit_nonzero pending_bits [OF assms] irq_taken_def
  by (auto simp: delegated_def)

lemma selected_bits:
  assumes "regs_ok p r" "interrupt_insert p level r t"
  shows "bit (selected_pending p level r t) i \<longleftrightarrow> irq_taken p level r t i \<and> (delegated p r i \<longrightarrow> (\<forall>j. irq_taken p level r t j \<longrightarrow> delegated p r j))"
proof (cases "m_interrupt_insert p level r t")
  case True
  then have "interrupt_enable_m t" by (simp add: m_interrupt_insert_def)
  then show ?thesis using True insert_iff(1) [OF assms(1), of level t]
    by (auto simp: selected_pending_def pending_bits [OF assms(1)] irq_taken_def interrupt_enable_m_def)
next
  case False
  then have s: "s_interrupt_insert p level r t" using assms(2) by (simp add: interrupt_insert_def)
  then have "interrupt_enable_s p t" by (simp add: s_interrupt_insert_def)
  then show ?thesis using False insert_iff(1) [OF assms(1), of level t]
    by (auto simp: selected_pending_def pending_bits [OF assms(1)] irq_taken_def interrupt_enable_s_def)
qed

text \<open>
  The controller signals an interrupt exactly when one is pending, enabled by its bit of \<^verbatim>\<open>mie\<close> and taken in the current
  privilege mode, machine-level ones by MIE or in a lower mode, delegated ones only below machine mode; the latched
  cause is then such an interrupt, a delegated one only when no machine-level one is taken, and none that is
  earlier in the order of priorities.
\<close>

lemma interrupt_choice:
  assumes "regs_ok p r"
  shows "(interrupt_insert p level r t \<longleftrightarrow> (\<exists>i. irq_taken p level r t i)) \<and>
    (\<forall>c. interrupt_insert p level r t \<and> c = interrupt_cause_next p level r t old \<longrightarrow>
       irq_taken p level r t c \<and>
       (\<forall>i. irq_taken p level r t i \<longrightarrow> delegated p r c \<le> delegated p r i) \<and>
       (\<forall>i \<in> set (takeWhile (\<lambda>x. x \<noteq> c) (interrupt_priority p)). irq_taken p level r t i \<longrightarrow> delegated p r c < delegated p r i))"
proof (intro conjI allI impI; (elim conjE)?)
  show "interrupt_insert p level r t \<longleftrightarrow> (\<exists>i. irq_taken p level r t i)"
    unfolding interrupt_insert_def insert_iff [OF assms] by blast
  fix c
  assume ins: "interrupt_insert p level r t" and c: "c = interrupt_cause_next p level r t old"
  note sel = selected_bits [OF assms ins]
  have "\<exists>i. irq_taken p level r t i \<and> (delegated p r i \<longrightarrow> (\<forall>j. irq_taken p level r t j \<longrightarrow> delegated p r j))"
    using ins unfolding interrupt_insert_def insert_iff [OF assms] by blast
  then obtain i where i: "bit (selected_pending p level r t) i" unfolding sel by blast
  then have "i \<in> set (interrupt_priority p)" using sel assms mie_writeable_priority by (auto simp: irq_taken_def regs_ok_def)
  then have "find (bit (selected_pending p level r t)) (interrupt_priority p) \<noteq> None" using i by (auto simp: find_None_iff)
  then have "find (bit (selected_pending p level r t)) (interrupt_priority p) = Some c"
    using c ins by (auto simp: interrupt_cause_next_def top_interrupt_find)
  note f = find_first [OF this, unfolded sel]
  show "irq_taken p level r t c" using f by blast
  show "delegated p r c \<le> delegated p r i" if "irq_taken p level r t i" for i using f that by auto
  show "\<forall>i \<in> set (takeWhile (\<lambda>x. x \<noteq> c) (interrupt_priority p)). irq_taken p level r t i \<longrightarrow> delegated p r c < delegated p r i"
    using f by auto
qed

definition example_ic :: ic_params where
  "example_ic = \<lparr>ip_xlen = 32, ip_custom_count = 2, ip_edge_trig_mask = 1, ip_all_delegable = False, ip_user_mode = True, ip_supervisor_mode = True, ip_sstc = False\<rparr>"

text \<open>The machine timer interrupt and the delegated supervisor software interrupt are pending in user mode.\<close>

definition example_regs :: ic_regs where
  "example_regs = \<lparr>ir_mie = irq_bit Interrupt_MTI OR irq_bit Interrupt_SSI, ir_mip = irq_bit Interrupt_SSI, ir_mideleg = irq_bit Interrupt_SSI, ir_medeleg = 0\<rparr>"

definition example_user :: trap_state where
  "example_user = \<lparr>t_priv = 0, t_mie = False, t_mpie = False, t_mpp = 0, t_sie = True, t_spie = False, t_spp = False, t_mprv = False\<rparr>"

lemma example_taken: "irq_taken example_ic (irq_bit Interrupt_MTI) example_regs example_user i \<longleftrightarrow> i = 7 \<or> i = 1"
  by (auto simp: irq_taken_def example_regs_def example_user_def delegated_def bit_or_iff)

section \<open>Bits of mip\<close>

text \<open>
  No edge is lost: a cycle sets every bit of \<^verbatim>\<open>mip\<close> whose interrupt reports an edge, even when an instruction
  clears the register in the same cycle; otherwise an instruction changes the writable bits by its operation on the
  stored value, not on the level inputs it reads, the timer bit follows the comparison where it is enabled,
  and all other bits are kept.
\<close>

lemma mip_bits:
  assumes "csr_value s < 2 ^ ip_xlen p" "i < ip_xlen p"
  shows "bit (csr_value (mip_cycle p level edges timer fu s)) i \<longleftrightarrow>
    (case timer of Some (True, reached) \<Rightarrow> if i = 5 then reached else bit edges i \<or> (case fu of Some (d, op) \<Rightarrow>
         if bit (mip_writeable p) i then op_bit op (bit (csr_value s) i) (bit d i) else bit (csr_value s) i | None \<Rightarrow> bit (csr_value s) i)
     | _ \<Rightarrow> bit edges i \<or> (case fu of Some (d, op) \<Rightarrow>
         if bit (mip_writeable p) i then op_bit op (bit (csr_value s) i) (bit d i) else bit (csr_value s) i | None \<Rightarrow> bit (csr_value s) i))"
proof -
  let ?cfg = "mip_config p level (csr_value s)"
  have comb: "bit (rr_data (csr_read_comb ?cfg \<lparr>call_write = None, call_fu_write = fu, call_fu_read = False\<rparr> s)) i \<longleftrightarrow>
      (case fu of Some (d, op) \<Rightarrow> op_bit op (bit (csr_value s) i) (bit d i) | None \<Rightarrow> bit (csr_value s) i)"
    using assms(2)
    by (auto simp: csr_read_comb_def fu_write_internal_def mip_config_def plain_csr_def mip_write_combine_def op_bit_def Let_def bit_take_bit_iff
        bit_or_iff bit_and_iff bit_not_at split: option.splits WriteOpType.splits)
  have "bit (csr_value (mip_cycle p level edges timer fu s)) i \<longleftrightarrow> bit (mip_new_data p level edges timer fu s) i"
    using assms(2) by (simp add: mip_cycle_def csr_cycle_def mip_config_def plain_csr_def bit_take_bit_iff Let_def split: option.splits)
  also have "... \<longleftrightarrow> (case timer of Some (True, reached) \<Rightarrow> if i = 5 then reached else bit edges i \<or> (case fu of Some (d, op) \<Rightarrow>
         if bit (mip_writeable p) i then op_bit op (bit (csr_value s) i) (bit d i) else bit (csr_value s) i | None \<Rightarrow> bit (csr_value s) i)
     | _ \<Rightarrow> bit edges i \<or> (case fu of Some (d, op) \<Rightarrow>
         if bit (mip_writeable p) i then op_bit op (bit (csr_value s) i) (bit d i) else bit (csr_value s) i | None \<Rightarrow> bit (csr_value s) i))"
    using assms(2)
    by (auto simp: mip_new_data_def Let_def set_bit_to_def bit_set_bit_iff bit_unset_bit_iff bit_or_iff bit_and_iff bit_not_at comb
        mip_config_def [of p level "csr_value s", THEN arg_cong [where f = ro_bits]] plain_csr_def split: option.splits bool.splits)
  finally show ?thesis .
qed

text \<open>
  C24. The controller signals an interrupt exactly when one is pending, enabled by its bit of \<^verbatim>\<open>mie\<close> and taken in the current
  privilege mode; the latched cause is then such an interrupt, a delegated one only when no machine-level one is taken, and
  none that is earlier in the order of priorities. No edge is lost: a cycle sets every bit of \<^verbatim>\<open>mip\<close> whose interrupt
  reports an edge, even when an instruction clears the register in the same cycle; otherwise an instruction changes the
  writable bits by its operation on the stored value, the timer bit follows the comparison where it is
  enabled, and all other bits are kept.
\<close>

theorem interrupts_reported:
  assumes "regs_ok p r" "csr_value s < 2 ^ ip_xlen p" "i < ip_xlen p"
  shows "(interrupt_insert p level r t \<longleftrightarrow> (\<exists>i. irq_taken p level r t i)) \<and>
    (\<forall>c. interrupt_insert p level r t \<and> c = interrupt_cause_next p level r t old \<longrightarrow>
       irq_taken p level r t c \<and>
       (\<forall>i. irq_taken p level r t i \<longrightarrow> delegated p r c \<le> delegated p r i) \<and>
       (\<forall>i \<in> set (takeWhile (\<lambda>x. x \<noteq> c) (interrupt_priority p)). irq_taken p level r t i \<longrightarrow> delegated p r c < delegated p r i)) \<and>
    (bit (csr_value (mip_cycle p level edges timer fu s)) i \<longleftrightarrow>
      (case timer of Some (True, reached) \<Rightarrow> if i = 5 then reached else bit edges i \<or> (case fu of Some (d, op) \<Rightarrow>
           if bit (mip_writeable p) i then op_bit op (bit (csr_value s) i) (bit d i) else bit (csr_value s) i | None \<Rightarrow> bit (csr_value s) i)
       | _ \<Rightarrow> bit edges i \<or> (case fu of Some (d, op) \<Rightarrow>
           if bit (mip_writeable p) i then op_bit op (bit (csr_value s) i) (bit d i) else bit (csr_value s) i | None \<Rightarrow> bit (csr_value s) i)))"
proof -
  note choice = interrupt_choice [OF assms(1), of level t old] and bits = mip_bits [OF assms(2,3), of level edges timer fu]
  show ?thesis by (intro conjI conjunct1 [OF choice] conjunct2 [OF choice] bits)
qed

lemma example_regs_ok: "regs_ok example_ic example_regs"
proof -
  have "ir_mie example_regs < 2 ^ 8" by (rule bounded_bits) (auto simp: example_regs_def bit_or_iff)
  then show ?thesis
    by (auto simp: regs_ok_def example_ic_def)
      (auto simp: example_regs_def bit_or_iff mie_writeable_def mie_writeable_m_def mideleg_writeable_def)
qed

theorem interrupts_reported_witness:
  "interrupt_cause_next example_ic (irq_bit Interrupt_MTI) example_regs example_user 0 = 7 \<and>
   bit (csr_value (mip_cycle example_ic 0 (2 ^ 16) None (Some (2 ^ 16, CSR_CLEAR)) (csr_reset (plain_csr 32 0 0)))) 16"
proof
  let ?c = "interrupt_cause_next example_ic (irq_bit Interrupt_MTI) example_regs example_user 0"
  let ?s = "csr_reset (plain_csr 32 0 0)"
  have s: "csr_value ?s < 2 ^ ip_xlen example_ic" "16 < ip_xlen example_ic"
    by (simp_all add: example_ic_def csr_reset_def plain_csr_def)
  note c = interrupts_reported [OF example_regs_ok s]
  have "interrupt_insert example_ic (irq_bit Interrupt_MTI) example_regs example_user"
    using conjunct1 [OF c, of "irq_bit Interrupt_MTI" example_user] unfolding example_taken by blast
  then have "irq_taken example_ic (irq_bit Interrupt_MTI) example_regs example_user ?c" "delegated example_ic example_regs ?c \<le> delegated example_ic example_regs 7"
    using conjunct1 [OF conjunct2 [OF c], of "irq_bit Interrupt_MTI" example_user 0] by (simp_all add: example_taken)
  moreover have "delegated example_ic example_regs 1" "\<not> delegated example_ic example_regs 7"
    by (simp_all add: delegated_def example_regs_def example_ic_def)
  ultimately show "?c = 7" unfolding example_taken by auto
  show "bit (csr_value (mip_cycle example_ic 0 (2 ^ 16) None (Some (2 ^ 16, CSR_CLEAR)) ?s)) 16"
    using conjunct2 [OF conjunct2 [OF c]] by (simp add: bit_exp_iff del: power_numeral numeral_power_eq_of_nat_cancel_iff)
qed

section \<open>Trap entry and return\<close>

text \<open>
  C25. Entering a trap and returning from it restores the state: the entry goes to the privilege that the delegation
  registers give, with the interrupts of that level disabled, and the return instruction of that level brings back the privilege mode and the
  interrupt enables; MPRV is cleared unless machine mode returns to machine mode.
\<close>

theorem trap_entry_return:
  assumes "t_priv t = 0 \<or> t_priv t = 1 \<or> t_priv t = 3" "target = trap_target p r (t_priv t) cause" "t_priv t \<le> target"
    "t1 = trap_cycle p r \<lparr>call_entry = Some cause, call_mret = m, call_sret = v\<rparr> t"
    "t2 = trap_cycle p r \<lparr>call_entry = None, call_mret = (target = 3), call_sret = (target = 1)\<rparr> t1"
  shows "(target = 1 \<or> target = 3) \<and> (target = 1 \<longrightarrow> ip_supervisor_mode p) \<and> t_priv t1 = target \<and> (if target = 3 then \<not> t_mie t1 else \<not> t_sie t1) \<and>
    t_priv t2 = t_priv t \<and> t_mie t2 = t_mie t \<and> t_sie t2 = t_sie t \<and> t_mprv t2 = (t_mprv t \<and> t_priv t = 3)"
  using assms by (auto simp: trap_cycle_def trap_target_def trap_entry_def trap_mret_def trap_sret_def Let_def split: if_splits)

theorem trap_entry_return_witness:
  "t_priv (trap_cycle example_ic example_regs \<lparr>call_entry = None, call_mret = False, call_sret = True\<rparr>
     (trap_cycle example_ic example_regs \<lparr>call_entry = Some (2 ^ 31 + 1), call_mret = False, call_sret = False\<rparr> example_user)) = 0"
proof -
  have "trap_target example_ic example_regs (t_priv example_user) (2 ^ 31 + 1) = 1"
    by (simp add: trap_target_def example_ic_def example_regs_def take_bit_eq_mod Let_def) (simp add: bit_iff_odd)
  then show ?thesis
    using trap_entry_return [of example_user _ example_ic example_regs "2 ^ 31 + 1" _ False False, OF _ refl _ refl refl]
    by (simp add: example_user_def)
qed

end
