(* ===== verification/Jump_Branch.thy ===== *)
theory Jump_Branch
  imports Fu_Common Exception_Register
begin

text \<open>
  The jump and branch unit (\<^verbatim>\<open>func_blocks/fu/jumpbranch.py\<close>) and the addressing of fetch blocks it shares
  with the frontend (\<^verbatim>\<open>frontend/frontend_params.py\<close>). An issued instruction is evaluated at once and waits in
  a FIFO of two entries for the prediction of its fetch block; then the unit reports an exception, resumes the
  frontend, rolls it back, or lets it continue.
\<close>

section \<open>Fetch blocks\<close>

text \<open>The parameters \<^verbatim>\<open>min_instr_width_bytes_log\<close> and \<^verbatim>\<open>fetch_block_bytes_log\<close> of \<^verbatim>\<open>genparams.py\<close>.\<close>

record fetch_params =
  min_instr_width_bytes_log :: nat
  fetch_block_bytes_log :: nat

definition fetch_width :: "fetch_params \<Rightarrow> nat" where
  "fetch_width p = 2 ^ fetch_block_bytes_log p div 2 ^ min_instr_width_bytes_log p"

definition fb_addr :: "fetch_params \<Rightarrow> 'a::len word \<Rightarrow> nat" where
  "fb_addr p pc = drop_bit (fetch_block_bytes_log p) (unat pc)"

definition fb_instr_idx :: "fetch_params \<Rightarrow> 'a::len word \<Rightarrow> nat" where
  "fb_instr_idx p pc =
     take_bit (fetch_block_bytes_log p - min_instr_width_bytes_log p) (drop_bit (min_instr_width_bytes_log p) (unat pc))"

definition pc_from_fb :: "fetch_params \<Rightarrow> nat \<Rightarrow> nat \<Rightarrow> 'a::len word" where
  "pc_from_fb p addr idx =
     of_nat (push_bit (min_instr_width_bytes_log p) idx + push_bit (fetch_block_bytes_log p) addr)"

lemma pc_from_fb_parts:
  assumes "min_instr_width_bytes_log p \<le> fetch_block_bytes_log p"
  shows "pc_from_fb p (fb_addr p pc) (fb_instr_idx p pc) = pc AND NOT (mask (min_instr_width_bytes_log p))"
    (is "?l = ?r")
proof -
  let ?m = "min_instr_width_bytes_log p" and ?k = "fetch_block_bytes_log p - min_instr_width_bytes_log p"
  have k: "fetch_block_bytes_log p = ?m + ?k" using assms by simp
  let ?q = "drop_bit ?m (unat pc)"
  have "push_bit ?m (take_bit ?k ?q) + push_bit (?m + ?k) (drop_bit (?m + ?k) (unat pc))
      = push_bit ?m (take_bit ?k ?q + push_bit ?k (drop_bit ?k ?q))"
    by (simp add: push_bit_eq_mult drop_bit_drop_bit power_add algebra_simps)
  also have "take_bit ?k ?q + push_bit ?k (drop_bit ?k ?q) = ?q"
    unfolding take_bit_eq_mod push_bit_eq_mult drop_bit_eq_div by (rule mod_div_mult_eq)
  finally have e: "push_bit ?m (take_bit ?k ?q) + push_bit (?m + ?k) (drop_bit (?m + ?k) (unat pc)) = push_bit ?m ?q" .
  have "?l = of_nat (push_bit ?m ?q)"
    unfolding pc_from_fb_def fb_addr_def fb_instr_idx_def using e k by metis
  also have "\<dots> = push_bit ?m (drop_bit ?m pc)"
    by (simp add: push_bit_of_nat [symmetric] flip: unat_drop_bit_eq)
  also have "\<dots> = ?r" by (rule bit_eqI) (auto simp: bit_simps)
  finally show ?thesis .
qed

section \<open>JumpBranchFn\<close>

datatype jump_fn = Jump_JAL | Jump_JALR | Jump_AUIPC | Jump_BEQ | Jump_BNE | Jump_BLT | Jump_BLTU | Jump_BGE | Jump_BGEU

definition jump_instructions :: "jump_fn fu_op list" where
  "jump_instructions =
    [(Jump_BEQ, OpType_BRANCH, Some F3_BEQ, None),
     (Jump_BNE, OpType_BRANCH, Some F3_BNE, None),
     (Jump_BLT, OpType_BRANCH, Some F3_BLT, None),
     (Jump_BLTU, OpType_BRANCH, Some F3_BLTU, None),
     (Jump_BGE, OpType_BRANCH, Some F3_BGE, None),
     (Jump_BGEU, OpType_BRANCH, Some F3_BGEU, None),
     (Jump_JAL, OpType_JAL, None, None),
     (Jump_JALR, OpType_JALR, Some F3_JALR, None),
     (Jump_AUIPC, OpType_AUIPC, None, None)]"

section \<open>JumpBranch\<close>

record (overloaded) 'a jb_out =
  jb_jmp_addr :: "'a::len word"
  jb_reg_res :: "'a word"
  jb_taken :: bool

definition jump_case ::
  "bool \<Rightarrow> bool \<Rightarrow> 'a::len word \<Rightarrow> 'a word \<Rightarrow> 'a word \<Rightarrow> 'a word \<Rightarrow> jump_fn \<Rightarrow> 'a jb_out" where
  "jump_case zca in_rvc in1 in2 in_pc in_imm f =
     (let out = \<lparr>jb_jmp_addr = in_pc + in_imm, jb_reg_res = (if zca \<and> in_rvc then in_pc + 2 else in_pc + 4),
                 jb_taken = False\<rparr>
      in case f of
        Jump_JAL \<Rightarrow> out\<lparr>jb_taken := True\<rparr>
      | Jump_JALR \<Rightarrow> out\<lparr>jb_jmp_addr := unset_bit 0 (in1 + in_imm), jb_taken := True\<rparr>
      | Jump_AUIPC \<Rightarrow> out\<lparr>jb_reg_res := in_pc + in_imm\<rparr>
      | Jump_BEQ \<Rightarrow> out\<lparr>jb_taken := in1 = in2\<rparr>
      | Jump_BNE \<Rightarrow> out\<lparr>jb_taken := in1 \<noteq> in2\<rparr>
      | Jump_BLT \<Rightarrow> out\<lparr>jb_taken := sint in1 < sint in2\<rparr>
      | Jump_BLTU \<Rightarrow> out\<lparr>jb_taken := in1 < in2\<rparr>
      | Jump_BGE \<Rightarrow> out\<lparr>jb_taken := sint in1 \<ge> sint in2\<rparr>
      | Jump_BGEU \<Rightarrow> out\<lparr>jb_taken := in1 \<ge> in2\<rparr>)"

section \<open>JumpBranchFuncUnit\<close>

text \<open>An entry of \<^verbatim>\<open>instr_fifo\<close>, the prediction of \<^verbatim>\<open>jump_target_resp\<close>, and the effects of a resolution.\<close>

record (overloaded) 'a jb_entry =
  jbe_rob_id :: nat
  jbe_pc :: "'a::len word"
  jbe_rp_dst :: nat
  jbe_type :: jump_fn
  jbe_jmp_addr :: "'a word"
  jbe_reg_res :: "'a word"
  jbe_taken :: bool
  jbe_cfi_idx :: nat
  jbe_tag :: nat
  jbe_ftq_ptr :: nat

record (overloaded) 'a jump_prediction =
  jp_valid :: bool
  jp_cfi_idx :: nat
  jp_cfi_target :: "'a::len word"

record (overloaded) 'a branch_resolution =
  br_ftq_ptr :: nat
  br_misprediction :: bool
  br_taken :: bool
  br_cfi_idx :: nat
  br_cfi_type :: CfiType
  br_cfi_target :: "'a::len word"

record (overloaded) 'a jb_effects =
  jf_exception :: "'a::len exc_report option"
  jf_unsafe_resolved :: "('a word \<times> nat) option"
  jf_rollback :: "(nat \<times> 'a word \<times> nat) option"
  jf_resolve :: "'a branch_resolution option"
  jf_result :: "'a result_arg"

text \<open>
  The function field of the instruction carries \<^verbatim>\<open>funct7_info\<close> in \<^verbatim>\<open>funct7\<close>; its single bit tells a
  compressed instruction.
\<close>

definition funct7_rvc :: "exec_fn \<Rightarrow> bool" where
  "funct7_rvc ef = bitn (fn_funct7 ef) 0"

definition jump_cfi_idx :: "fetch_params \<Rightarrow> bool \<Rightarrow> bool \<Rightarrow> 'a::len word \<Rightarrow> nat" where
  "jump_cfi_idx p zca rvc pc =
     (if zca \<and> \<not> rvc \<and> fb_instr_idx p pc = fetch_width p - 1 then 0 else fb_instr_idx p pc)"

definition jump_issue_decoded :: "fetch_params \<Rightarrow> bool \<Rightarrow> 'a::len issue_arg \<Rightarrow> jump_fn list \<Rightarrow> 'a jb_entry option" where
  "jump_issue_decoded p zca arg fn =
     one_hot_switch fn (\<lambda>f.
       let rvc = funct7_rvc (ia_exec_fn arg);
           jb = jump_case zca rvc (s1_val arg) (s2_val arg) (ia_pc arg) (ia_imm arg) f
       in \<lparr>jbe_rob_id = rob_id arg, jbe_pc = ia_pc arg, jbe_rp_dst = rp_dst arg, jbe_type = f,
           jbe_jmp_addr = jb_jmp_addr jb, jbe_reg_res = jb_reg_res jb, jbe_taken = jb_taken jb,
           jbe_cfi_idx = jump_cfi_idx p zca rvc (ia_pc arg), jbe_tag = ia_tag arg, jbe_ftq_ptr = ia_ftq_ptr arg\<rparr>)"

definition jump_issue :: "fetch_params \<Rightarrow> bool \<Rightarrow> 'a::len issue_arg \<Rightarrow> 'a jb_entry option" where
  "jump_issue p zca = fu_issue jump_instructions (jump_issue_decoded p zca)"

definition jump_result :: "'a::len jb_entry \<Rightarrow> 'a word" where
  "jump_result i = (if jbe_taken i then jbe_jmp_addr i else jbe_reg_res i)"

definition predicted_taken :: "'a::len jb_entry \<Rightarrow> 'a jump_prediction \<Rightarrow> bool" where
  "predicted_taken i pr = (jp_valid pr \<and> jbe_cfi_idx i = jp_cfi_idx pr)"

definition misprediction :: "'a::len jb_entry \<Rightarrow> 'a jump_prediction \<Rightarrow> bool" where
  "misprediction i pr =
     (jbe_type i \<noteq> Jump_AUIPC \<and>
      (jbe_taken i \<noteq> predicted_taken i pr \<or> (jbe_taken i \<and> jp_cfi_target pr \<noteq> jbe_jmp_addr i)))"

definition jmp_addr_misaligned :: "bool \<Rightarrow> 'a::len word \<Rightarrow> bool" where
  "jmp_addr_misaligned zca a = (a AND (if zca then 1 else 3) \<noteq> 0)"

definition jump_cfi_type :: "jump_fn \<Rightarrow> CfiType" where
  "jump_cfi_type f = (if f = Jump_JAL then Cfi_JAL else if f = Jump_JALR then Cfi_JALR else Cfi_BRANCH)"

definition jump_resolve ::
  "bool \<Rightarrow> (nat \<Rightarrow> bool) \<Rightarrow> bool \<Rightarrow> 'a::len jump_prediction \<Rightarrow> 'a jb_entry \<Rightarrow> 'a jb_effects" where
  "jump_resolve zca active async_interrupt pr i =
     (let is_auipc = jbe_type i = Jump_AUIPC;
          is_jalr = jbe_type i = Jump_JALR;
          misaligned = (\<not> is_auipc \<and> jbe_taken i \<and> jmp_addr_misaligned zca (jbe_jmp_addr i));
          interrupted = (async_interrupt \<and> \<not> is_auipc);
          unpredicted_jalr = (is_jalr \<and> \<not> predicted_taken i pr)
      in \<lparr>jf_exception =
            (if misaligned then
               Some \<lparr>er_cause = Cause_INSTRUCTION_ADDRESS_MISALIGNED, er_rob_id = jbe_rob_id i, er_tag = jbe_tag i,
                     er_pc = jbe_pc i, er_mtval = jbe_jmp_addr i\<rparr>
             else if interrupted then
               Some \<lparr>er_cause = Cause_COREBLOCKS_ASYNC_INTERRUPT, er_rob_id = jbe_rob_id i, er_tag = jbe_tag i,
                     er_pc = jump_result i, er_mtval = 0\<rparr>
             else None),
          jf_unsafe_resolved =
            (if \<not> misaligned \<and> \<not> interrupted \<and> unpredicted_jalr \<and> active (jbe_tag i)
             then Some (jump_result i, jbe_ftq_ptr i) else None),
          jf_rollback =
            (if \<not> misaligned \<and> \<not> interrupted \<and> \<not> unpredicted_jalr \<and> misprediction i pr \<and> active (jbe_tag i)
             then Some (jbe_tag i, jump_result i, jbe_ftq_ptr i) else None),
          jf_resolve =
            (if \<not> is_auipc \<and> active (jbe_tag i) then
               Some \<lparr>br_ftq_ptr = jbe_ftq_ptr i, br_misprediction = misprediction i pr, br_taken = jbe_taken i,
                     br_cfi_idx = jbe_cfi_idx i, br_cfi_type = jump_cfi_type (jbe_type i),
                     br_cfi_target = jbe_jmp_addr i\<rparr>
             else None),
          jf_result =
            \<lparr>r_rob_id = jbe_rob_id i, r_result = jbe_reg_res i, r_rp_dst = jbe_rp_dst i,
             r_exception = misaligned \<or> interrupted\<rparr>\<rparr>)"

text \<open>
  A cycle of the unit: the FIFO holds at most two entries, an instruction is issued when it is not full, and
  the resolving transaction runs when it is not empty and a prediction is there.
\<close>

record (overloaded) 'a jb_calls =
  jc_issue :: "'a::len issue_arg option"
  jc_prediction :: "'a jump_prediction option"
  jc_active :: "nat \<Rightarrow> bool"
  jc_interrupt :: bool

definition jump_issues :: "fetch_params \<Rightarrow> bool \<Rightarrow> 'a::len jb_calls \<Rightarrow> 'a jb_entry list \<Rightarrow> 'a jb_entry option" where
  "jump_issues p zca c q =
     (case jc_issue c of Some arg \<Rightarrow> if length q < 2 then jump_issue p zca arg else None | None \<Rightarrow> None)"

definition jump_unit_cycle ::
  "fetch_params \<Rightarrow> bool \<Rightarrow> 'a::len jb_calls \<Rightarrow> 'a jb_entry list \<Rightarrow> 'a jb_entry list \<times> 'a jb_effects option" where
  "jump_unit_cycle p zca c q =
     (let new = (case jump_issues p zca c q of Some e \<Rightarrow> [e] | None \<Rightarrow> [])
      in case (q, jc_prediction c) of
           (e # rest, Some pr) \<Rightarrow> (rest @ new, Some (jump_resolve zca (jc_active c) (jc_interrupt c) pr e))
         | _ \<Rightarrow> (q @ new, None))"

section \<open>What the instructions do\<close>

definition jump_takes :: "jump_fn \<Rightarrow> 'a::len word \<Rightarrow> 'a word \<Rightarrow> bool" where
  "jump_takes f a b =
     (case f of Jump_JAL \<Rightarrow> True | Jump_JALR \<Rightarrow> True | Jump_AUIPC \<Rightarrow> False
      | Jump_BEQ \<Rightarrow> uint a = uint b | Jump_BNE \<Rightarrow> uint a \<noteq> uint b
      | Jump_BLT \<Rightarrow> sint a < sint b | Jump_BGE \<Rightarrow> \<not> sint a < sint b
      | Jump_BLTU \<Rightarrow> uint a < uint b | Jump_BGEU \<Rightarrow> \<not> uint a < uint b)"

definition jump_target :: "jump_fn \<Rightarrow> 'a::len word \<Rightarrow> 'a word \<Rightarrow> 'a word \<Rightarrow> 'a word" where
  "jump_target f pc imm a = (if f = Jump_JALR then (a + imm) AND NOT 1 else pc + imm)"

definition link_address :: "bool \<Rightarrow> 'a::len issue_arg \<Rightarrow> 'a word" where
  "link_address zca arg = ia_pc arg + (if zca \<and> funct7_rvc (ia_exec_fn arg) then 2 else 4)"

definition next_pc :: "bool \<Rightarrow> jump_fn \<Rightarrow> 'a::len issue_arg \<Rightarrow> 'a word" where
  "next_pc zca f arg =
     (if jump_takes f (s1_val arg) (s2_val arg) then jump_target f (ia_pc arg) (ia_imm arg) (s1_val arg)
      else link_address zca arg)"

text \<open>Where the frontend goes on: at the address the unit gives it, or else as it predicted.\<close>

definition predicted_pc :: "bool \<Rightarrow> 'a::len issue_arg \<Rightarrow> 'a jb_entry \<Rightarrow> 'a jump_prediction \<Rightarrow> 'a word" where
  "predicted_pc zca arg e pr = (if predicted_taken e pr then jp_cfi_target pr else link_address zca arg)"

definition continues_at :: "'a::len jb_effects \<Rightarrow> 'a word \<Rightarrow> 'a word" where
  "continues_at eff predicted =
     (case jf_rollback eff of Some (_, pc, _) \<Rightarrow> pc
      | None \<Rightarrow> (case jf_unsafe_resolved eff of Some (pc, _) \<Rightarrow> pc | None \<Rightarrow> predicted))"

definition target_misaligned :: "bool \<Rightarrow> jump_fn \<Rightarrow> 'a::len issue_arg \<Rightarrow> bool" where
  "target_misaligned zca f arg =
     (jump_takes f (s1_val arg) (s2_val arg) \<and>
      unat (jump_target f (ia_pc arg) (ia_imm arg) (s1_val arg)) mod (if zca then 2 else 4) \<noteq> 0)"

text \<open>
  The architecture's account of an instruction that is not AUIPC: the link is written unless the target is
  misaligned, which is reported with the target as value; an interrupt is taken at the next instruction;
  otherwise the frontend goes on at the next instruction, with a single redirection at most.
\<close>

definition jump_behaves ::
  "bool \<Rightarrow> (nat \<Rightarrow> bool) \<Rightarrow> bool \<Rightarrow> 'a::len jump_prediction \<Rightarrow> jump_fn \<Rightarrow> 'a issue_arg \<Rightarrow> 'a word \<Rightarrow> 'a jb_effects \<Rightarrow> bool" where
  "jump_behaves zca active async_interrupt pr f arg predicted eff \<longleftrightarrow>
     jf_result eff = \<lparr>r_rob_id = rob_id arg, r_result = link_address zca arg, r_rp_dst = rp_dst arg,
                      r_exception = target_misaligned zca f arg \<or> async_interrupt\<rparr> \<and>
     (target_misaligned zca f arg \<longrightarrow>
        jf_exception eff = Some \<lparr>er_cause = Cause_INSTRUCTION_ADDRESS_MISALIGNED, er_rob_id = rob_id arg, er_tag = ia_tag arg,
          er_pc = ia_pc arg, er_mtval = next_pc zca f arg\<rparr>) \<and>
     (\<not> target_misaligned zca f arg \<and> async_interrupt \<longrightarrow>
        jf_exception eff = Some \<lparr>er_cause = Cause_COREBLOCKS_ASYNC_INTERRUPT, er_rob_id = rob_id arg, er_tag = ia_tag arg,
          er_pc = next_pc zca f arg, er_mtval = 0\<rparr>) \<and>
     (\<not> target_misaligned zca f arg \<and> \<not> async_interrupt \<longrightarrow>
        jf_exception eff = None \<and> (active (ia_tag arg) \<longrightarrow> continues_at eff predicted = next_pc zca f arg)) \<and>
     (target_misaligned zca f arg \<or> async_interrupt \<or> \<not> active (ia_tag arg) \<longrightarrow>
        jf_rollback eff = None \<and> jf_unsafe_resolved eff = None) \<and>
     (jf_rollback eff = None \<or> jf_unsafe_resolved eff = None) \<and>
     (jf_resolve eff \<noteq> None \<longleftrightarrow> active (ia_tag arg))"

lemma and_mask_misaligned: "jmp_addr_misaligned zca (a :: 'a::len word) \<longleftrightarrow> unat a mod (if zca then 2 else 4) \<noteq> 0"
proof -
  have "a AND 1 = take_bit 1 a" "a AND 3 = take_bit 2 a" by (simp_all add: take_bit_eq_mask mask_eq_exp_minus_1)
  moreover have "take_bit k a = 0 \<longleftrightarrow> unat a mod 2 ^ k = 0" for k
    by (metis unat_eq_0 unsigned_take_bit_eq take_bit_eq_mod)
  ultimately have "a AND 1 = 0 \<longleftrightarrow> unat a mod 2 ^ 1 = 0" "a AND 3 = 0 \<longleftrightarrow> unat a mod 2 ^ 2 = 0" by metis+
  then have "a AND 1 = 0 \<longleftrightarrow> unat a mod 2 = 0" "a AND 3 = 0 \<longleftrightarrow> unat a mod 4 = 0"
    unfolding power_one_right by (simp_all del: unsigned_and_eq)
  then show ?thesis unfolding jmp_addr_misaligned_def by (cases zca) (simp_all only: if_True if_False)
qed

lemma unset_bit_0_and: "unset_bit 0 a = a AND NOT (1 :: 'a::len word)"
  by (simp add: unset_bit_eq_and_not)

lemma jump_case_meaning:
  "jb_taken (jump_case zca rvc a b pc imm f) = jump_takes f a b"
  "f \<noteq> Jump_AUIPC \<Longrightarrow> jb_jmp_addr (jump_case zca rvc a b pc imm f) = jump_target f pc imm a"
  "f \<noteq> Jump_AUIPC \<Longrightarrow> jb_reg_res (jump_case zca rvc a b pc imm f) = pc + (if zca \<and> rvc then 2 else 4)"
  "jb_reg_res (jump_case zca rvc a b pc imm Jump_AUIPC) = pc + imm"
  by (cases f; auto simp: jump_case_def Let_def jump_takes_def jump_target_def unset_bit_0_and word_less_def
      word_le_def word_uint_eq_iff)+

interpretation jump_tab: fu_table jump_instructions True
  by unfold_locales (simp_all add: jump_instructions_def get_op_types_def)

definition jump_entry :: "fetch_params \<Rightarrow> bool \<Rightarrow> jump_fn \<Rightarrow> 'a::len issue_arg \<Rightarrow> 'a jb_entry" where
  "jump_entry p zca f arg = the (jump_issue_decoded p zca arg [f])"

lemma jump_issue_entry:
  assumes "op \<in> set jump_instructions" "op_match True (ia_exec_fn arg) op"
  shows "jump_issue p zca arg = Some (jump_entry p zca (fst op) arg)"
  using jump_tab.one_hot [OF assms]
  by (simp add: jump_issue_def fu_issue_def jump_entry_def jump_issue_decoded_def)

lemma jump_entry_fields:
  "jbe_rob_id (jump_entry p zca f arg) = rob_id arg" "jbe_pc (jump_entry p zca f arg) = ia_pc arg"
  "jbe_rp_dst (jump_entry p zca f arg) = rp_dst arg" "jbe_type (jump_entry p zca f arg) = f"
  "jbe_tag (jump_entry p zca f arg) = ia_tag arg"
  "jbe_taken (jump_entry p zca f arg) = jump_takes f (s1_val arg) (s2_val arg)"
  "f \<noteq> Jump_AUIPC \<Longrightarrow> jbe_jmp_addr (jump_entry p zca f arg) = jump_target f (ia_pc arg) (ia_imm arg) (s1_val arg)"
  "f \<noteq> Jump_AUIPC \<Longrightarrow> jbe_reg_res (jump_entry p zca f arg) = link_address zca arg"
  "jbe_reg_res (jump_entry p zca Jump_AUIPC arg) = ia_pc arg + ia_imm arg"
  by (simp_all add: jump_entry_def jump_issue_decoded_def Let_def jump_case_meaning link_address_def)

lemma jump_resolve_behaves:
  assumes "f \<noteq> Jump_AUIPC"
  shows "jump_behaves zca active async_interrupt pr f arg (predicted_pc zca arg (jump_entry p zca f arg) pr)
    (jump_resolve zca active async_interrupt pr (jump_entry p zca f arg))"
proof -
  note f = jump_entry_fields(1-6) jump_entry_fields(7,8) [OF assms]
  have mis: "jbe_taken (jump_entry p zca f arg) \<and> jmp_addr_misaligned zca (jbe_jmp_addr (jump_entry p zca f arg))
      \<longleftrightarrow> target_misaligned zca f arg"
    by (simp add: f and_mask_misaligned target_misaligned_def)
  have res: "jump_result (jump_entry p zca f arg) = next_pc zca f arg"
    by (simp add: jump_result_def next_pc_def f)
  have tgt: "target_misaligned zca f arg \<Longrightarrow> jbe_jmp_addr (jump_entry p zca f arg) = next_pc zca f arg"
    by (simp add: target_misaligned_def next_pc_def f)
  have jalr: "f = Jump_JALR \<Longrightarrow> jump_takes f (s1_val arg) (s2_val arg)" by (simp add: jump_takes_def)
  have pred: "predicted_pc zca arg (jump_entry p zca f arg) pr = next_pc zca f arg"
    if "\<not> misprediction (jump_entry p zca f arg) pr"
    using that assms by (auto simp: misprediction_def predicted_pc_def next_pc_def f)
  show ?thesis
    unfolding jump_behaves_def jump_resolve_def Let_def continues_at_def mis res
    using assms tgt pred by (auto simp: f mis)
qed

lemma jump_resolve_auipc:
  fixes arg :: "'a::len issue_arg"
  assumes e_def: "e = jump_entry p zca Jump_AUIPC arg"
  shows "jf_exception (jump_resolve zca active async_interrupt pr e) = None"
    "jf_rollback (jump_resolve zca active async_interrupt pr e) = None"
    "jf_unsafe_resolved (jump_resolve zca active async_interrupt pr e) = None"
    "jf_resolve (jump_resolve zca active async_interrupt pr e) = None"
    "jf_result (jump_resolve zca active async_interrupt pr e) = fu_result arg (ia_pc arg + ia_imm arg)"
  by (simp_all add: e_def jump_resolve_def Let_def jump_entry_fields fu_result_def misprediction_def)

section \<open>Runs of the unit\<close>

fun jump_run ::
  "fetch_params \<Rightarrow> bool \<Rightarrow> 'a::len jb_calls list \<Rightarrow> 'a jb_entry list \<Rightarrow> ('a jb_calls \<times> 'a jb_effects) list \<times> 'a jb_entry list" where
  "jump_run p zca [] q = ([], q)"
| "jump_run p zca (c # cs) q =
     (let (q', out) = jump_unit_cycle p zca c q; (outs, end_q) = jump_run p zca cs q'
      in ((case out of None \<Rightarrow> [] | Some eff \<Rightarrow> [(c, eff)]) @ outs, end_q))"

text \<open>The entries of the instructions the unit accepts in a run.\<close>

fun jump_accepted :: "fetch_params \<Rightarrow> bool \<Rightarrow> 'a::len jb_calls list \<Rightarrow> 'a jb_entry list \<Rightarrow> 'a jb_entry list" where
  "jump_accepted p zca [] q = []"
| "jump_accepted p zca (c # cs) q =
     (case jump_issues p zca c q of None \<Rightarrow> [] | Some e \<Rightarrow> [e]) @
     jump_accepted p zca cs (fst (jump_unit_cycle p zca c q))"

definition resolves :: "bool \<Rightarrow> 'a::len jb_entry \<Rightarrow> 'a jb_calls \<times> 'a jb_effects \<Rightarrow> bool" where
  "resolves zca e ce \<longleftrightarrow> (case ce of (c, eff) \<Rightarrow>
     (case jc_prediction c of None \<Rightarrow> False
      | Some pr \<Rightarrow> eff = jump_resolve zca (jc_active c) (jc_interrupt c) pr e))"

lemma jump_run_order:
  assumes "jump_run p zca cs q = (outs, end_q)"
  shows "\<exists>done. q @ jump_accepted p zca cs q = done @ end_q \<and> list_all2 (resolves zca) done outs"
  using assms
proof (induction cs arbitrary: q outs)
  case (Cons c cs)
  obtain q' out where cyc: "jump_unit_cycle p zca c q = (q', out)" by fastforce
  obtain outs' where run: "jump_run p zca cs q' = (outs', end_q)"
    and outs: "outs = (case out of None \<Rightarrow> [] | Some eff \<Rightarrow> [(c, eff)]) @ outs'"
    using Cons.prems cyc by (auto simp: Let_def split: prod.splits)
  let ?new = "case jump_issues p zca c q of None \<Rightarrow> [] | Some e \<Rightarrow> [e]"
  obtain finished where IH: "q' @ jump_accepted p zca cs q' = finished @ end_q" "list_all2 (resolves zca) finished outs'"
    using Cons.IH [OF run] by blast
  show ?case
  proof (cases out)
    case None
    then have "q' = q @ ?new"
      using cyc by (auto simp: jump_unit_cycle_def Let_def split: list.splits option.splits)
    then show ?thesis using IH outs None cyc by (intro exI [of _ finished]) simp
  next
    case (Some eff)
    then obtain e pr where q: "q = e # (tl q)" "jc_prediction c = Some pr" "q' = tl q @ ?new"
      "eff = jump_resolve zca (jc_active c) (jc_interrupt c) pr e"
      using cyc by (auto simp: jump_unit_cycle_def Let_def split: list.splits option.splits)
    have "q @ jump_accepted p zca (c # cs) q = e # (q' @ jump_accepted p zca cs q')"
      using q(1,3) cyc by (metis append.assoc append_Cons fst_conv jump_accepted.simps(2))
    then have "q @ jump_accepted p zca (c # cs) q = (e # finished) @ end_q" using IH(1) by simp
    moreover have "list_all2 (resolves zca) (e # finished) outs"
      using IH(2) outs Some q(2,4) by (simp add: resolves_def)
    ultimately show ?thesis by blast
  qed
qed simp

text \<open>
  C26. Jumps and branches. Every instruction of the unit's table is accepted by \<^verbatim>\<open>issue\<close> as one FIFO entry.
  AUIPC writes pc + imm and causes no redirection. For any other instruction and any prediction: the link address
  (two or four bytes on) is written; a taken jump to a misaligned target is reported as exception with the target
  as value; otherwise an asynchronous interrupt is reported at the next instruction; otherwise, when the
  instruction's tag is active, the frontend goes on at the architecture's next pc, either as predicted or by
  exactly one of a rollback and a resumption; a wrong-path instruction redirects nothing and is not resolved.
  In every run of the unit, the accepted instructions are resolved in the order in which they were accepted.
\<close>

theorem jump_unit_correct:
  fixes arg :: "'a::len issue_arg" and cs :: "'a jb_calls list"
  assumes "op \<in> set jump_instructions" "op_match True (ia_exec_fn arg) op" and "jump_run p zca cs [] = (outs, waiting)"
  shows "(\<exists>e. jump_issue p zca arg = Some e \<and>
      (\<forall>active async_interrupt pr. let eff = jump_resolve zca active async_interrupt pr e in
         if fst op = Jump_AUIPC then
           jf_exception eff = None \<and> jf_rollback eff = None \<and> jf_unsafe_resolved eff = None \<and> jf_resolve eff = None \<and>
           jf_result eff = fu_result arg (ia_pc arg + ia_imm arg)
         else jump_behaves zca active async_interrupt pr (fst op) arg (predicted_pc zca arg e pr) eff)) \<and>
    (\<exists>resolved. jump_accepted p zca cs [] = resolved @ waiting \<and> list_all2 (resolves zca) resolved outs)"
proof (intro conjI exI [of _ "jump_entry p zca (fst op) arg"])
  show "jump_issue p zca arg = Some (jump_entry p zca (fst op) arg)" using assms(1,2) by (rule jump_issue_entry)
  show "\<exists>resolved. jump_accepted p zca cs [] = resolved @ waiting \<and> list_all2 (resolves zca) resolved outs"
    using jump_run_order [OF assms(3)] by simp
  show "\<forall>active async_interrupt pr. let eff = jump_resolve zca active async_interrupt pr (jump_entry p zca (fst op) arg) in
         if fst op = Jump_AUIPC then
           jf_exception eff = None \<and> jf_rollback eff = None \<and> jf_unsafe_resolved eff = None \<and> jf_resolve eff = None \<and>
           jf_result eff = fu_result arg (ia_pc arg + ia_imm arg)
         else jump_behaves zca active async_interrupt pr (fst op) arg
           (predicted_pc zca arg (jump_entry p zca (fst op) arg) pr) eff"
    unfolding Let_def using jump_resolve_auipc jump_resolve_behaves by metis
qed

definition bne_example :: "32 issue_arg" where
  "bne_example = \<lparr>s1_val = 1, s2_val = 2, rp_dst = 0, rob_id = 3,
     ia_exec_fn = \<lparr>op_type = OpType_BRANCH, fn_funct3 = to_bits 3 1, fn_funct7 = to_bits 7 1\<rparr>,
     ia_imm = 0x20, ia_pc = 0x1002, ia_tag = 4, ia_ftq_ptr = 5\<rparr>"

definition bne_example_run :: "32 jb_calls list" where
  "bne_example_run =
    [\<lparr>jc_issue = Some bne_example, jc_prediction = None, jc_active = (\<lambda>t. t = 4), jc_interrupt = False\<rparr>,
     \<lparr>jc_issue = None, jc_prediction = Some \<lparr>jp_valid = False, jp_cfi_idx = 0, jp_cfi_target = 0\<rparr>,
      jc_active = (\<lambda>t. t = 4), jc_interrupt = False\<rparr>]"

theorem jump_unit_correct_witness:
  "(\<exists>e. jump_issue \<lparr>min_instr_width_bytes_log = 1, fetch_block_bytes_log = 2\<rparr> True bne_example = Some e \<and>
     (\<forall>pr. jump_behaves True (\<lambda>t. t = 4) False pr Jump_BNE bne_example (predicted_pc True bne_example e pr)
       (jump_resolve True (\<lambda>t. t = 4) False pr e))) \<and>
   (\<exists>resolved waiting outs. jump_accepted \<lparr>min_instr_width_bytes_log = 1, fetch_block_bytes_log = 2\<rparr> True bne_example_run [] =
     resolved @ waiting \<and> list_all2 (resolves True) resolved outs) \<and>
   next_pc True Jump_BNE bne_example = 0x1022"
proof -
  let ?p = "\<lparr>min_instr_width_bytes_log = 1, fetch_block_bytes_log = 2\<rparr>"
  obtain outs q where run: "jump_run ?p True bne_example_run [] = (outs, q)" by fastforce
  have row: "(Jump_BNE, OpType_BRANCH, Some F3_BNE, None) \<in> set jump_instructions"
    "op_match True (ia_exec_fn bne_example) (Jump_BNE, OpType_BRANCH, Some F3_BNE, None)"
    by (simp_all add: jump_instructions_def op_match_def bne_example_def)
  show ?thesis
    using jump_unit_correct [OF row run]
    by (auto simp: Let_def next_pc_def jump_takes_def jump_target_def bne_example_def)
qed

end
