(* ===== verification/Lsu.thy ===== *)
theory Lsu
  imports Fu_Common Exception_Register "HOL-Library.Multiset"
begin

text \<open>
  The load/store unit: the physical memory attribute checker (\<^verbatim>\<open>lsu/pma.py\<close>), the bus requester
  (\<^verbatim>\<open>lsu/lsu_requester.py\<close>) and the unit itself (\<^verbatim>\<open>lsu/dummyLsu.py\<close>). The unit is a set of transactions
  that move instructions between FIFOs; a run is a list of the transactions that took place, in an order in which
  they can be applied one after another. Physical addresses are natural numbers, virtual addresses and data words.
\<close>

section \<open>PMAChecker\<close>

record pma_region =
  region_start :: nat
  region_end :: nat
  region_mmio :: bool

definition pma_mmio :: "pma_region list \<Rightarrow> nat \<Rightarrow> bool" where
  "pma_mmio segments paddr =
     foldl (\<or>) False (map (\<lambda>s. region_start s \<le> paddr \<and> paddr \<le> region_end s \<and> region_mmio s) segments)"

lemma foldl_or: "foldl (\<or>) b bs \<longleftrightarrow> b \<or> (\<exists>x \<in> set bs. x)"
  by (induction bs arbitrary: b) auto

section \<open>LSURequester\<close>

text \<open>The enumeration the three function bits are viewed as.\<close>

definition funct3_view :: "bits \<Rightarrow> Funct3" where
  "funct3_view f = [F3_JALR, F3_BNE, F3_W, F3_D, F3_BLT, F3_BGE, F3_BLTU, F3_BGEU] ! of_bits f"

definition prepare_bytes_mask :: "nat \<Rightarrow> Funct3 \<Rightarrow> nat \<Rightarrow> nat" where
  "prepare_bytes_mask mask_len f addr = take_bit mask_len
     (if f = F3_B \<or> f = F3_BU then push_bit (addr mod 4) 1
      else if f = F3_H \<or> f = F3_HU then push_bit (2 * (addr div 2 mod 2)) 3
      else if f = F3_W then 15 else 0)"

definition postprocess_load_data :: "Funct3 \<Rightarrow> 'a::len word \<Rightarrow> nat \<Rightarrow> 'a word" where
  "postprocess_load_data f raw addr =
     (if f = F3_B then signed_take_bit 7 (drop_bit (8 * (addr mod 4)) raw)
      else if f = F3_BU then take_bit 8 (drop_bit (8 * (addr mod 4)) raw)
      else if f = F3_H then signed_take_bit 15 (drop_bit (16 * (addr div 2 mod 2)) raw)
      else if f = F3_HU then take_bit 16 (drop_bit (16 * (addr div 2 mod 2)) raw)
      else raw)"

definition prepare_data_to_save :: "Funct3 \<Rightarrow> 'a::len word \<Rightarrow> nat \<Rightarrow> 'a word" where
  "prepare_data_to_save f raw addr =
     (if f = F3_B then push_bit (8 * (addr mod 4)) (take_bit 8 raw)
      else if f = F3_H then push_bit (16 * (addr div 2 mod 2)) (take_bit 16 raw)
      else raw)"

definition check_align :: "Funct3 \<Rightarrow> nat \<Rightarrow> bool" where
  "check_align f addr =
     (if f = F3_W then addr mod 4 = 0 else if f = F3_H \<or> f = F3_HU then addr mod 2 = 0 else True)"

record (overloaded) 'a lsu_args =
  la_vaddr :: "'a::len word"
  la_paddr :: nat
  la_funct3 :: Funct3
  la_store :: bool

datatype 'w bus_request = Bus_read nat nat | Bus_write nat 'w nat

text \<open>
  \<^verbatim>\<open>issue\<close>: ready when the FIFO of \<open>depth\<close> entries is not full; it makes a bus request and keeps the arguments, or
  answers with the cause of an exception. The bus addresses words of four bytes.
\<close>

definition requester_issue ::
  "nat \<Rightarrow> 'a::len lsu_args list \<Rightarrow> nat \<Rightarrow> 'a word \<Rightarrow> 'a word \<Rightarrow> Funct3 \<Rightarrow> bool
    \<Rightarrow> ('a word bus_request option \<times> ExceptionCause option \<times> 'a lsu_args list) option" where
  "requester_issue depth q paddr vaddr dat f store =
     (if length q < depth then
        (if check_align f paddr then
           let sel = prepare_bytes_mask (LENGTH('a) div 8) f paddr;
               request = (if store then Bus_write (paddr div 4) (prepare_data_to_save f dat paddr) sel
                          else Bus_read (paddr div 4) sel)
           in Some (Some request, None,
                q @ [\<lparr>la_vaddr = vaddr, la_paddr = paddr, la_funct3 = f, la_store = store\<rparr>])
         else Some (None, Some (if store then Cause_STORE_ADDRESS_MISALIGNED else Cause_LOAD_ADDRESS_MISALIGNED), q))
      else None)"

record (overloaded) 'a lsu_accept =
  lo_data :: "'a::len word"
  lo_exception :: "ExceptionCause option"
  lo_addr :: "'a word"

text \<open>
  \<^verbatim>\<open>accept\<close> takes the response of the bus to the oldest request: its error flag, and what is on the read port of the bus. The data are
  taken from there for a store as well, where nothing uses them.
\<close>

fun requester_accept :: "'a::len lsu_args list \<Rightarrow> bool \<Rightarrow> 'a word \<Rightarrow> ('a lsu_accept \<times> 'a lsu_args list) option" where
  "requester_accept [] err dat = None"
| "requester_accept (a # q) err dat =
     Some (\<lparr>lo_data = postprocess_load_data (la_funct3 a) dat (la_paddr a),
            lo_exception = (if err then Some (if la_store a then Cause_STORE_ACCESS_FAULT else Cause_LOAD_ACCESS_FAULT)
                            else None),
            lo_addr = la_vaddr a\<rparr>, q)"

section \<open>Memory behind the bus\<close>

text \<open>
  The memory is outside the core. It is a parameter, of which the requester relies on this: a write changes the
  selected byte lanes of the addressed word, and nothing else.
\<close>

definition byte_lane :: "nat \<Rightarrow> 'a::len word \<Rightarrow> 'a word" where
  "byte_lane i w = take_bit 8 (drop_bit (8 * i) w)"

record (overloaded) ('m, 'a) bus_memory =
  bm_read :: "'m \<Rightarrow> nat \<Rightarrow> 'a::len word"
  bm_write :: "nat \<Rightarrow> 'a word \<Rightarrow> nat \<Rightarrow> 'm \<Rightarrow> 'm"

definition bus_memory_spec :: "('m, 'a::len) bus_memory \<Rightarrow> bool" where
  "bus_memory_spec B \<longleftrightarrow>
     (\<forall>a d sel mem b. \<forall>i<4. byte_lane i (bm_read B (bm_write B a d sel mem) b) =
        (if a = b \<and> bit sel i then byte_lane i d else byte_lane i (bm_read B mem b)))"

definition mem_byte :: "('m, 'a::len) bus_memory \<Rightarrow> 'm \<Rightarrow> nat \<Rightarrow> 'a word" where
  "mem_byte B mem addr = byte_lane (addr mod 4) (bm_read B mem (addr div 4))"

definition access_bytes :: "Funct3 \<Rightarrow> nat" where
  "access_bytes f = (if f = F3_W then 4 else if f = F3_H \<or> f = F3_HU then 2 else 1)"

definition access_signed :: "Funct3 \<Rightarrow> bool" where
  "access_signed f \<longleftrightarrow> f = F3_B \<or> f = F3_H \<or> f = F3_W"

text \<open>The value of a load, little endian: bit \<open>j\<close> is bit \<open>j mod 8\<close> of byte \<open>j div 8\<close>, extended above.\<close>

definition load_bit :: "('m, 'a::len) bus_memory \<Rightarrow> 'm \<Rightarrow> nat \<Rightarrow> nat \<Rightarrow> bool" where
  "load_bit B mem addr j = bit (mem_byte B mem (addr + j div 8)) (j mod 8)"

definition load_value_is :: "('m, 'a::len) bus_memory \<Rightarrow> 'm \<Rightarrow> Funct3 \<Rightarrow> nat \<Rightarrow> 'a word \<Rightarrow> bool" where
  "load_value_is B mem f addr v \<longleftrightarrow>
     (\<forall>j < LENGTH('a). bit v j \<longleftrightarrow>
        (if j < 8 * access_bytes f then load_bit B mem addr j
         else access_signed f \<and> load_bit B mem addr (8 * access_bytes f - 1)))"

lemma bit_byte_lane: "bit (byte_lane i w) k \<longleftrightarrow> k < 8 \<and> bit w (8 * i + k)"
  by (auto simp: byte_lane_def bit_simps)

lemma lane_in_word:
  assumes "check_align f addr" "f = F3_W \<or> f = F3_H \<or> f = F3_HU \<or> f = F3_B \<or> f = F3_BU" "i < access_bytes f"
  shows "(addr + i) div 4 = addr div 4" "(addr + i) mod 4 = addr mod 4 + i" "addr mod 4 + access_bytes f \<le> 4"
proof -
  have "addr mod 4 + access_bytes f \<le> 4"
    using assms(1,2) unfolding check_align_def access_bytes_def by (auto split: if_splits) presburger+
  then show "addr mod 4 + access_bytes f \<le> 4" .
  with assms(3) have "addr mod 4 + i < 4" by simp
  moreover have "addr + i = 4 * (addr div 4) + (addr mod 4 + i)" by simp
  ultimately show "(addr + i) div 4 = addr div 4" "(addr + i) mod 4 = addr mod 4 + i"
    by (metis add.commute div_mult_self4 div_less add_cancel_right_right zero_neq_numeral,
        metis mod_mult_self4 mod_less)
qed

lemma load_bit_word:
  assumes "check_align f addr" "f = F3_W \<or> f = F3_H \<or> f = F3_HU \<or> f = F3_B \<or> f = F3_BU" "j < 8 * access_bytes f"
  shows "load_bit B mem addr j \<longleftrightarrow> bit (bm_read B mem (addr div 4)) (8 * (addr mod 4) + j)"
proof -
  have i: "j div 8 < access_bytes f" using assms(3) by (simp add: less_mult_imp_div_less mult.commute)
  have "8 * (addr mod 4 + j div 8) + j mod 8 = 8 * (addr mod 4) + j"
    by (simp add: distrib_left)
  then show ?thesis
    unfolding load_bit_def mem_byte_def lane_in_word(1,2) [OF assms(1,2) i] bit_byte_lane by (simp add: add.commute)
qed

lemma half_shift: "addr mod 2 = 0 \<Longrightarrow> 16 * (addr div 2 mod 2) = 8 * (addr mod 4)" for addr :: nat
  using mod_mult2_eq [of addr 2 2] by simp

lemma postprocess_aligned:
  assumes "check_align f addr" "f = F3_W \<or> f = F3_H \<or> f = F3_HU \<or> f = F3_B \<or> f = F3_BU"
  shows "postprocess_load_data f raw addr =
    (let v = drop_bit (8 * (addr mod 4)) raw; n = access_bytes f
     in if n = 4 then v else if access_signed f then signed_take_bit (8 * n - 1) v else take_bit (8 * n) v)"
proof -
  define h where "h = 16 * (addr div 2 mod 2)"
  have "f = F3_H \<or> f = F3_HU \<Longrightarrow> h = 8 * (addr mod 4)" "f = F3_W \<Longrightarrow> addr mod 4 = 0"
    unfolding h_def using assms(1) half_shift by (auto simp: check_align_def)
  then show ?thesis
    unfolding h_def [symmetric] postprocess_load_data_def access_bytes_def access_signed_def Let_def using assms(2) by auto
qed

lemma postprocess_load:
  fixes raw :: "32 word"
  assumes "check_align f addr" "f = F3_W \<or> f = F3_H \<or> f = F3_HU \<or> f = F3_B \<or> f = F3_BU" "j < 32"
  shows "bit (postprocess_load_data f raw addr) j \<longleftrightarrow>
    (if j < 8 * access_bytes f then bit raw (8 * (addr mod 4) + j)
     else access_signed f \<and> bit raw (8 * (addr mod 4) + (8 * access_bytes f - 1)))"
proof -
  define t where "t = 8 * (addr mod 4)"
  have n: "access_bytes f \<in> {1, 2, 4}" by (simp add: access_bytes_def)
  have top: "7 \<le> j \<Longrightarrow> j < 8 \<Longrightarrow> j = 7" "15 \<le> j \<Longrightarrow> j < 16 \<Longrightarrow> j = 15" by simp_all
  show ?thesis
    unfolding postprocess_aligned [OF assms(1,2)] Let_def t_def [symmetric]
    using assms(3) n by (auto simp: bit_simps min_def add.commute dest!: top)
qed

lemma bytes_mask_lanes:
  assumes "check_align f addr" "f = F3_W \<or> f = F3_H \<or> f = F3_HU \<or> f = F3_B \<or> f = F3_BU" "i < 4"
  shows "bit (prepare_bytes_mask 4 f addr) i \<longleftrightarrow> addr mod 4 \<le> i \<and> i < addr mod 4 + access_bytes f"
proof -
  define h t where "h = 2 * (addr div 2 mod 2)" and "t = addr mod 4"
  have "f = F3_H \<or> f = F3_HU \<Longrightarrow> h = t" "f = F3_W \<Longrightarrow> t = 0"
    unfolding h_def t_def using assms(1) half_shift [of addr] by (auto simp: check_align_def)
  moreover have "bit (3 :: nat) k \<longleftrightarrow> k < 2" "bit (15 :: nat) k \<longleftrightarrow> k < 4" "bit (2 ^ t :: nat) k \<longleftrightarrow> k = t" for k
    using bit_mask_iff [of 2 k, where 'a = nat] bit_mask_iff [of 4 k, where 'a = nat]
    by (auto simp: mask_eq_exp_minus_1 bit_exp_iff)
  ultimately show ?thesis
    unfolding prepare_bytes_mask_def access_bytes_def h_def [symmetric] t_def [symmetric]
    using assms(2,3) by (auto simp: bit_take_bit_iff bit_push_bit_iff)
qed

lemma saved_lane:
  fixes raw :: "32 word"
  assumes "check_align f addr" "f = F3_W \<or> f = F3_H \<or> f = F3_B"
    "addr mod 4 \<le> i" "i < addr mod 4 + access_bytes f" "i < 4"
  shows "byte_lane i (prepare_data_to_save f raw addr) = byte_lane (i - addr mod 4) raw"
proof (rule bit_eqI)
  fix k
  define h t where "h = 16 * (addr div 2 mod 2)" and "t = addr mod 4"
  have "f = F3_H \<Longrightarrow> h = 8 * t" "f = F3_W \<Longrightarrow> t = 0"
    unfolding h_def t_def using assms(1) half_shift [of addr] by (auto simp: check_align_def)
  moreover have "8 * (i - t) + k = 8 * i + k - 8 * t" using assms(3) by (simp add: t_def)
  moreover have "k < 8 \<Longrightarrow> 8 * i + k < 32" using assms(5) by simp
  moreover have "k < 8 \<Longrightarrow> 8 * t \<le> 8 * i + k" "k < 8 \<Longrightarrow> i < t + n \<Longrightarrow> 8 * i + k - 8 * t < 8 * n" for n
    using assms(3) by (simp_all add: t_def)
  ultimately show "bit (byte_lane i (prepare_data_to_save f raw addr)) k = bit (byte_lane (i - addr mod 4) raw) k"
    unfolding bit_byte_lane prepare_data_to_save_def h_def [symmetric] t_def [symmetric]
    using assms(2,4) [folded t_def]
    by (auto simp: bit_simps access_bytes_def)
qed

lemma stored_bytes:
  fixes B :: "('m, 32) bus_memory"
  assumes "bus_memory_spec B" "check_align f addr" "f = F3_W \<or> f = F3_H \<or> f = F3_B"
  shows "mem_byte B (bm_write B (addr div 4) (prepare_data_to_save f dat addr) (prepare_bytes_mask 4 f addr) mem) b =
    (if addr \<le> b \<and> b < addr + access_bytes f then byte_lane (b - addr) dat else mem_byte B mem b)"
proof -
  note f = assms(3) and f' = disjI1 [OF assms(3)]
  have f5: "f = F3_W \<or> f = F3_H \<or> f = F3_HU \<or> f = F3_B \<or> f = F3_BU" using assms(3) by blast
  have room: "addr mod 4 + access_bytes f \<le> 4"
    using lane_in_word(3) [OF assms(2) f5, of 0] by (simp add: access_bytes_def)
  have eq: "mem_byte B (bm_write B (addr div 4) (prepare_data_to_save f dat addr) (prepare_bytes_mask 4 f addr) mem) b =
    (if addr div 4 = b div 4 \<and> addr mod 4 \<le> b mod 4 \<and> b mod 4 < addr mod 4 + access_bytes f
     then byte_lane (b mod 4) (prepare_data_to_save f dat addr) else mem_byte B mem b)"
    using assms(1) bytes_mask_lanes [OF assms(2) f5, of "b mod 4"]
    by (simp add: mem_byte_def bus_memory_spec_def)
  have pos: "addr div 4 = b div 4 \<and> addr mod 4 \<le> b mod 4 \<and> b mod 4 < addr mod 4 + access_bytes f
      \<longleftrightarrow> addr \<le> b \<and> b < addr + access_bytes f" (is "?l = ?r")
  proof
    assume ?l
    moreover have "addr = 4 * (addr div 4) + addr mod 4" "b = 4 * (b div 4) + b mod 4" by simp_all
    ultimately show ?r by linarith
  next
    assume r: ?r
    then obtain i where i: "b = addr + i" "i < access_bytes f" by (metis le_add_diff_inverse nat_add_left_cancel_less)
    show ?l using lane_in_word(1,2) [OF assms(2) f5 i(2)] i by simp
  qed
  have "addr \<le> b \<and> b < addr + access_bytes f \<Longrightarrow> b mod 4 - addr mod 4 = b - addr"
    using lane_in_word(2) [OF assms(2) f5, of "b - addr"] by auto
  then show ?thesis
    unfolding eq pos using saved_lane [OF assms(2) f, of "b mod 4" dat] pos by auto
qed

lemma loaded_value:
  fixes B :: "('m, 32) bus_memory"
  assumes "check_align f addr" "f = F3_W \<or> f = F3_H \<or> f = F3_HU \<or> f = F3_B \<or> f = F3_BU"
  shows "load_value_is B mem f addr (postprocess_load_data f (bm_read B mem (addr div 4)) addr)"
  unfolding load_value_is_def
proof (intro allI impI)
  fix j
  assume "j < LENGTH(32)"
  then have j: "j < 32" by simp
  define m where "m = 8 * access_bytes f - 1"
  have m: "m < 8 * access_bytes f" by (simp add: access_bytes_def m_def)
  show "bit (postprocess_load_data f (bm_read B mem (addr div 4)) addr) j =
      (if j < 8 * access_bytes f then load_bit B mem addr j
       else access_signed f \<and> load_bit B mem addr (8 * access_bytes f - 1))"
    unfolding postprocess_load [OF assms j] m_def [symmetric]
    using load_bit_word [OF assms, of j B mem] load_bit_word [OF assms m, of B mem] by simp
qed

section \<open>LSUDummy\<close>

record (overloaded) 'a translated =
  tr_paddr :: nat
  tr_vaddr :: "'a::len word"
  tr_page_fault :: bool
  tr_access_fault :: bool

record (overloaded) 'a lsu_state =
  ls_requests :: "'a::len issue_arg list"
  ls_translator_in :: "('a word \<times> bool) option"
  ls_translating :: "('a word \<times> bool) list"
  ls_translated :: "'a translated list"
  ls_requester :: "'a lsu_args list"
  ls_results_noop :: "'a lsu_accept list"
  ls_issued :: "'a issue_arg list"
  ls_issued_noop :: "'a issue_arg list"

definition lsu_init :: "'a::len lsu_state" where
  "lsu_init = \<lparr>ls_requests = [], ls_translator_in = None, ls_translating = [], ls_translated = [],
     ls_requester = [], ls_results_noop = [], ls_issued = [], ls_issued_noop = []\<rparr>"

text \<open>
  What the transaction that accesses memory sees of the rest of the core: the active tags, the instructions for
  which the side effect guard runs, and the read and write results of the memory protection checker.
\<close>

record lsu_env =
  le_active :: "nat \<Rightarrow> bool"
  le_side_fx :: "nat \<Rightarrow> nat \<Rightarrow> bool"
  le_pmp_r :: "nat \<Rightarrow> bool"
  le_pmp_w :: "nat \<Rightarrow> bool"

text \<open>
  The transactions: \<^verbatim>\<open>issue\<close>, the hand-over to the address translator, its answer (physical address and faults),
  the access, its replacement for flushed instructions, and the two ways a result leaves.
\<close>

datatype ('g, 'w) lsu_event =
  Lsu_issue 'g | Lsu_translate | Lsu_translated nat bool bool | Lsu_access lsu_env | Lsu_flushed lsu_env
| Lsu_respond bool 'w | Lsu_respond_noop

datatype ('g, 't, 'w, 'x, 'r) lsu_output = Out_bus 'g 't "'w bus_request" | Out_report 'g 'x | Out_result 'g 'r

definition lsu_address :: "'a::len issue_arg \<Rightarrow> 'a word" where
  "lsu_address arg = s1_val arg + ia_imm arg"

definition is_load :: "'a::len issue_arg \<Rightarrow> bool" where
  "is_load arg \<longleftrightarrow> op_type (ia_exec_fn arg) = OpType_LOAD"

definition access_cause :: "lsu_env \<Rightarrow> 'a::len translated \<Rightarrow> bool \<Rightarrow> ExceptionCause option" where
  "access_cause env t load =
     (if tr_page_fault t then Some (if load then Cause_LOAD_PAGE_FAULT else Cause_STORE_PAGE_FAULT)
      else if tr_access_fault t then Some (if load then Cause_LOAD_ACCESS_FAULT else Cause_STORE_ACCESS_FAULT)
      else if load \<and> \<not> le_pmp_r env (tr_paddr t) then Some Cause_LOAD_ACCESS_FAULT
      else if \<not> load \<and> \<not> le_pmp_w env (tr_paddr t) then Some Cause_STORE_ACCESS_FAULT
      else None)"

definition do_issue :: "pma_region list \<Rightarrow> lsu_env \<Rightarrow> 'a::len issue_arg \<Rightarrow> 'a translated \<Rightarrow> bool" where
  "do_issue segments env arg t \<longleftrightarrow>
     le_active env (ia_tag arg) \<and>
     (le_side_fx env (rob_id arg) (ia_tag arg) \<or> (is_load arg \<and> \<not> pma_mmio segments (tr_paddr t)))"

definition noop_result :: "ExceptionCause option \<Rightarrow> 'a::len word \<Rightarrow> 'a lsu_accept" where
  "noop_result cause addr = \<lparr>lo_data = 0, lo_exception = cause, lo_addr = addr\<rparr>"

definition noop_ready :: "'a::len lsu_state \<Rightarrow> bool" where
  "noop_ready s \<longleftrightarrow> length (ls_results_noop s) < 2 \<and> length (ls_issued_noop s) < 2"

definition put_noop :: "'a::len issue_arg \<Rightarrow> 'a lsu_accept \<Rightarrow> 'a lsu_state \<Rightarrow> 'a lsu_state" where
  "put_noop arg res s =
     s\<lparr>ls_results_noop := ls_results_noop s @ [res], ls_issued_noop := ls_issued_noop s @ [arg]\<rparr>"

definition push_lsu_result ::
  "'a::len issue_arg \<Rightarrow> 'a lsu_accept \<Rightarrow> ('a issue_arg, 'a translated, 'a word, 'a exc_report, 'a result_arg) lsu_output list" where
  "push_lsu_result arg res =
     (case lo_exception res of None \<Rightarrow> []
      | Some cause \<Rightarrow> [Out_report arg \<lparr>er_cause = cause, er_rob_id = rob_id arg, er_tag = ia_tag arg, er_pc = ia_pc arg,
                                er_mtval = lo_addr res\<rparr>]) @
     [Out_result arg \<lparr>r_rob_id = rob_id arg, r_result = lo_data res, r_rp_dst = rp_dst arg,
                      r_exception = lo_exception res \<noteq> None\<rparr>]"

definition lsu_issue :: "'a::len issue_arg \<Rightarrow> 'a lsu_state \<Rightarrow> 'a lsu_state option" where
  "lsu_issue arg s =
     (if length (ls_requests s) < 2 \<and> ls_translator_in s = None \<and> noop_ready s then
        Some (if op_type (ia_exec_fn arg) \<noteq> OpType_FENCE then
                s\<lparr>ls_translator_in := Some (lsu_address arg, op_type (ia_exec_fn arg) = OpType_STORE),
                  ls_requests := ls_requests s @ [arg]\<rparr>
              else put_noop arg (noop_result None 0) s)
      else None)"

text \<open>The access and its replacement read the oldest request and its translation.\<close>

definition lsu_access ::
  "pma_region list \<Rightarrow> lsu_env \<Rightarrow> 'a::len lsu_state
    \<Rightarrow> ('a lsu_state \<times> ('a issue_arg, 'a translated, 'a word, 'a exc_report, 'a result_arg) lsu_output list) option" where
  "lsu_access segments env s =
     (case (ls_requests s, ls_translated s) of
        (arg # reqs, t # ts) \<Rightarrow>
          if do_issue segments env arg t \<and> noop_ready s \<and> length (ls_issued s) < 2 \<and> length (ls_requester s) < 4 then
            let s = s\<lparr>ls_requests := reqs, ls_translated := ts\<rparr>
            in case access_cause env t (is_load arg) of
                 Some cause \<Rightarrow> Some (put_noop arg (noop_result (Some cause) (tr_vaddr t)) s, [])
               | None \<Rightarrow>
                   (case requester_issue 4 (ls_requester s) (tr_paddr t) (tr_vaddr t) (s2_val arg)
                       (funct3_view (fn_funct3 (ia_exec_fn arg))) (\<not> is_load arg) of
                      Some (Some req, cause, q) \<Rightarrow>
                        Some (s\<lparr>ls_requester := q, ls_issued := ls_issued s @ [arg]\<rparr>, [Out_bus arg t req])
                    | Some (None, cause, q) \<Rightarrow> Some (put_noop arg (noop_result cause (tr_vaddr t)) s, [])
                    | None \<Rightarrow> None)
          else None
      | _ \<Rightarrow> None)"

definition lsu_flushed :: "lsu_env \<Rightarrow> 'a::len lsu_state \<Rightarrow> 'a lsu_state option" where
  "lsu_flushed env s =
     (case (ls_requests s, ls_translated s) of
        (arg # reqs, t # ts) \<Rightarrow>
          if \<not> le_active env (ia_tag arg) \<and> noop_ready s then
            Some (put_noop arg (noop_result None 0) (s\<lparr>ls_requests := reqs, ls_translated := ts\<rparr>))
          else None
      | _ \<Rightarrow> None)"

fun lsu_step ::
  "pma_region list \<Rightarrow> ('a::len issue_arg, 'a word) lsu_event \<Rightarrow> 'a lsu_state
    \<Rightarrow> ('a lsu_state \<times> ('a issue_arg, 'a translated, 'a word, 'a exc_report, 'a result_arg) lsu_output list) option" where
  "lsu_step segments (Lsu_issue arg) s = map_option (\<lambda>s. (s, [])) (lsu_issue arg s)"
| "lsu_step segments Lsu_translate s =
     (case ls_translator_in s of None \<Rightarrow> None
      | Some r \<Rightarrow> Some (s\<lparr>ls_translator_in := None, ls_translating := ls_translating s @ [r]\<rparr>, []))"
| "lsu_step segments (Lsu_translated paddr page_fault access_fault) s =
     (case ls_translating s of [] \<Rightarrow> None
      | r # rs \<Rightarrow>
          if length (ls_translated s) < 2 then
            Some (s\<lparr>ls_translating := rs, ls_translated := ls_translated s @
                   [\<lparr>tr_paddr = paddr, tr_vaddr = fst r, tr_page_fault = page_fault, tr_access_fault = access_fault\<rparr>]\<rparr>, [])
          else None)"
| "lsu_step segments (Lsu_access env) s = lsu_access segments env s"
| "lsu_step segments (Lsu_flushed env) s = map_option (\<lambda>s. (s, [])) (lsu_flushed env s)"
| "lsu_step segments (Lsu_respond err dat) s =
     (case (requester_accept (ls_requester s) err dat, ls_issued s) of
        (Some (res, q), arg # args) \<Rightarrow> Some (s\<lparr>ls_requester := q, ls_issued := args\<rparr>, push_lsu_result arg res)
      | _ \<Rightarrow> None)"
| "lsu_step segments Lsu_respond_noop s =
     (case (ls_results_noop s, ls_issued_noop s) of
        (res # ress, arg # args) \<Rightarrow> Some (s\<lparr>ls_results_noop := ress, ls_issued_noop := args\<rparr>, push_lsu_result arg res)
      | _ \<Rightarrow> None)"

fun lsu_run where
  "lsu_run segments [] s = Some (s, [])"
| "lsu_run segments (e # es) s =
     (case lsu_step segments e s of None \<Rightarrow> None
      | Some (s', out) \<Rightarrow> map_option (\<lambda>(s'', outs). (s'', out @ outs)) (lsu_run segments es s'))"

section \<open>Access safety\<close>

definition lsu_optypes :: "OpType list" where
  "lsu_optypes = [OpType_LOAD, OpType_STORE, OpType_FENCE]"

definition args_match :: "'a::len issue_arg \<Rightarrow> 'a lsu_args \<Rightarrow> bool" where
  "args_match arg a \<longleftrightarrow> la_vaddr a = lsu_address arg \<and> la_store a = (\<not> is_load arg) \<and>
     la_funct3 a = funct3_view (fn_funct3 (ia_exec_fn arg))"

definition noop_match :: "'a::len issue_arg \<Rightarrow> 'a lsu_accept \<Rightarrow> bool" where
  "noop_match arg r \<longleftrightarrow> lo_exception r \<noteq> None \<longrightarrow> lo_addr r = lsu_address arg"

definition lsu_inv :: "'a::len lsu_state \<Rightarrow> bool" where
  "lsu_inv s \<longleftrightarrow>
     map lsu_address (ls_requests s) = map tr_vaddr (ls_translated s) @ map fst (ls_translating s) @
       (case ls_translator_in s of None \<Rightarrow> [] | Some r \<Rightarrow> [fst r]) \<and>
     list_all (\<lambda>arg. op_type (ia_exec_fn arg) \<in> {OpType_LOAD, OpType_STORE}) (ls_requests s) \<and>
     list_all2 args_match (ls_issued s) (ls_requester s) \<and>
     list_all2 noop_match (ls_issued_noop s) (ls_results_noop s)"

definition lsu_waiting :: "'a::len lsu_state \<Rightarrow> 'a issue_arg multiset" where
  "lsu_waiting s = mset (ls_requests s) + mset (ls_issued s) + mset (ls_issued_noop s)"

fun event_args :: "('g, 'w) lsu_event \<Rightarrow> 'g list" where
  "event_args (Lsu_issue arg) = [arg]"
| "event_args _ = []"

fun output_args :: "('g, 't, 'w, 'x, 'r) lsu_output \<Rightarrow> 'g list" where
  "output_args (Out_result arg r) = [arg]"
| "output_args _ = []"

text \<open>
  A bus request is made by the access transaction for an instruction on the current path, which the guard lets
  cause side effects unless it is a load of ordinary memory, at the translation of its own address, without
  translation fault, with the permission of the protection checker, and aligned.
\<close>

definition bus_request_safe ::
  "pma_region list \<Rightarrow> lsu_env \<Rightarrow> 'a::len issue_arg \<Rightarrow> 'a translated \<Rightarrow> 'a word bus_request \<Rightarrow> bool" where
  "bus_request_safe segments env arg t req \<longleftrightarrow>
     le_active env (ia_tag arg) \<and>
     (le_side_fx env (rob_id arg) (ia_tag arg) \<or> (is_load arg \<and> \<not> pma_mmio segments (tr_paddr t))) \<and>
     tr_vaddr t = lsu_address arg \<and> \<not> tr_page_fault t \<and> \<not> tr_access_fault t \<and>
     check_align (funct3_view (fn_funct3 (ia_exec_fn arg))) (tr_paddr t) \<and>
     (case req of
        Bus_read a sel \<Rightarrow> op_type (ia_exec_fn arg) = OpType_LOAD \<and> le_pmp_r env (tr_paddr t) \<and> a = tr_paddr t div 4
      | Bus_write a d sel \<Rightarrow> op_type (ia_exec_fn arg) = OpType_STORE \<and> le_pmp_w env (tr_paddr t) \<and> a = tr_paddr t div 4)"

definition output_safe ::
  "pma_region list \<Rightarrow> ('a::len issue_arg, 'a word) lsu_event
    \<Rightarrow> ('a issue_arg, 'a translated, 'a word, 'a exc_report, 'a result_arg) lsu_output \<Rightarrow> bool" where
  "output_safe segments e out \<longleftrightarrow>
     (case out of
        Out_bus arg t req \<Rightarrow> (case e of Lsu_access env \<Rightarrow> bus_request_safe segments env arg t req | _ \<Rightarrow> False)
      | Out_report arg x \<Rightarrow> er_rob_id x = rob_id arg \<and> er_tag x = ia_tag arg \<and> er_pc x = ia_pc arg \<and> er_mtval x = lsu_address arg
      | Out_result arg r \<Rightarrow> r_rob_id r = rob_id arg \<and> r_rp_dst r = rp_dst arg)"

definition event_legal :: "('a::len issue_arg, 'a word) lsu_event \<Rightarrow> bool" where
  "event_legal e \<longleftrightarrow> list_all (\<lambda>arg. op_type (ia_exec_fn arg) \<in> set lsu_optypes) (event_args e)"

definition step_ok where
  "step_ok segments e s s' out \<longleftrightarrow> lsu_inv s' \<and> list_all (output_safe segments e) out \<and>
     lsu_waiting s + mset (event_args e) = lsu_waiting s' + mset (concat (map output_args out))"

lemma put_noop_ok:
  assumes "lsu_inv s" "noop_match arg r"
  shows "lsu_inv (put_noop arg r s)" "lsu_waiting (put_noop arg r s) = lsu_waiting s + {#arg#}"
  using assms by (simp_all add: put_noop_def lsu_inv_def lsu_waiting_def list_all2_appendI)

lemma push_result_ok:
  assumes "lo_exception r \<noteq> None \<longrightarrow> lo_addr r = lsu_address arg"
  shows "list_all (output_safe segments e) (push_lsu_result arg r)" "concat (map output_args (push_lsu_result arg r)) = [arg]"
  using assms by (auto simp: push_lsu_result_def output_safe_def split: option.splits)

lemma issue_ok:
  assumes "lsu_inv s" "lsu_issue arg s = Some s'" "op_type (ia_exec_fn arg) \<in> set lsu_optypes"
  shows "lsu_inv s'" "lsu_waiting s' = lsu_waiting s + {#arg#}"
proof -
  have "lsu_inv s' \<and> lsu_waiting s' = lsu_waiting s + {#arg#}"
  proof (cases "op_type (ia_exec_fn arg) = OpType_FENCE")
    case True
    then have "s' = put_noop arg (noop_result None 0) s"
      using assms(2) by (auto simp: lsu_issue_def split: if_splits)
    then show ?thesis using put_noop_ok [OF assms(1), of arg "noop_result None 0"] by (simp add: noop_match_def noop_result_def)
  next
    case False
    then show ?thesis using assms
      by (auto simp: lsu_issue_def lsu_inv_def lsu_waiting_def lsu_optypes_def split: if_splits)
  qed
  then show "lsu_inv s'" "lsu_waiting s' = lsu_waiting s + {#arg#}" by blast+
qed

lemma head_ok:
  assumes "lsu_inv s" "ls_requests s = arg # reqs" "ls_translated s = t # ts"
  shows "tr_vaddr t = lsu_address arg" "op_type (ia_exec_fn arg) \<in> {OpType_LOAD, OpType_STORE}"
    "lsu_inv (s\<lparr>ls_requests := reqs, ls_translated := ts\<rparr>)"
    "lsu_waiting s = lsu_waiting (s\<lparr>ls_requests := reqs, ls_translated := ts\<rparr>) + {#arg#}"
  using assms by (auto simp: lsu_inv_def lsu_waiting_def)

lemma flushed_ok:
  assumes "lsu_inv s" "lsu_flushed env s = Some s'"
  shows "lsu_inv s'" "lsu_waiting s' = lsu_waiting s"
proof -
  obtain arg reqs t ts where q: "ls_requests s = arg # reqs" "ls_translated s = t # ts"
    and s': "s' = put_noop arg (noop_result None 0) (s\<lparr>ls_requests := reqs, ls_translated := ts\<rparr>)"
    using assms(2) by (auto simp: lsu_flushed_def split: list.splits if_splits)
  have m: "noop_match arg (noop_result None 0)" by (simp add: noop_match_def noop_result_def)
  show "lsu_inv s'" "lsu_waiting s' = lsu_waiting s"
    unfolding s' using put_noop_ok [OF head_ok(3) [OF assms(1) q] m] head_ok(4) [OF assms(1) q] by simp_all
qed

lemma requester_issue_cases:
  assumes "requester_issue depth q paddr vaddr dat f store = Some (req, cause, q')"
  shows "(check_align f paddr \<and> cause = None \<and>
      req = Some (if store then Bus_write (paddr div 4) (prepare_data_to_save f dat paddr) (prepare_bytes_mask (LENGTH('a) div 8) f paddr)
                  else Bus_read (paddr div 4) (prepare_bytes_mask (LENGTH('a) div 8) f paddr)) \<and>
      q' = q @ [\<lparr>la_vaddr = vaddr :: 'a::len word, la_paddr = paddr, la_funct3 = f, la_store = store\<rparr>]) \<or>
    (\<not> check_align f paddr \<and> req = None \<and> q' = q \<and>
      cause = Some (if store then Cause_STORE_ADDRESS_MISALIGNED else Cause_LOAD_ADDRESS_MISALIGNED))"
  using assms by (auto simp: requester_issue_def Let_def split: if_splits)

lemma access_ok:
  fixes s :: "'a::len lsu_state"
  assumes "lsu_inv s" "lsu_access segments env s = Some (s', out)"
  shows "lsu_inv s'" "list_all (output_safe segments (Lsu_access env)) out" "lsu_waiting s' = lsu_waiting s"
    "concat (map output_args out) = []"
proof -
  obtain arg reqs t ts where q: "ls_requests s = arg # reqs" "ls_translated s = t # ts"
    and ready: "do_issue segments env arg t"
    using assms(2) by (auto simp: lsu_access_def split: list.splits if_splits)
  define u where "u = s\<lparr>ls_requests := reqs, ls_translated := ts\<rparr>"
  note h = head_ok [OF assms(1) q, folded u_def]
  have noop: "lsu_inv (put_noop arg (noop_result c (tr_vaddr t)) u)"
    "lsu_waiting (put_noop arg (noop_result c (tr_vaddr t)) u) = lsu_waiting s" for c
    using put_noop_ok [OF h(3), of arg "noop_result c (tr_vaddr t)"] h(1,4) by (simp_all add: noop_match_def noop_result_def)
  let ?f = "funct3_view (fn_funct3 (ia_exec_fn arg))"
  have "lsu_inv s' \<and> list_all (output_safe segments (Lsu_access env)) out \<and> lsu_waiting s' = lsu_waiting s \<and>
    concat (map output_args out) = []"
  proof (cases "access_cause env t (is_load arg)")
    case (Some c)
    then have "s' = put_noop arg (noop_result (Some c) (tr_vaddr t)) u" "out = []"
      using assms(2) q by (auto simp: lsu_access_def u_def split: if_splits)
    then show ?thesis using noop by simp
  next
    case None
    obtain req cause qs where iss: "requester_issue 4 (ls_requester u) (tr_paddr t) (tr_vaddr t) (s2_val arg) ?f (\<not> is_load arg)
        = Some (req, cause, qs)"
      and s': "(s', out) = (case req of Some r \<Rightarrow> (u\<lparr>ls_requester := qs, ls_issued := ls_issued u @ [arg]\<rparr>, [Out_bus arg t r])
                 | None \<Rightarrow> (put_noop arg (noop_result cause (tr_vaddr t)) u, []))"
      using assms(2) q None
      by (auto simp: lsu_access_def Let_def u_def split: if_splits option.splits prod.splits)
    have faults: "\<not> tr_page_fault t" "\<not> tr_access_fault t" "is_load arg \<Longrightarrow> le_pmp_r env (tr_paddr t)"
      "\<not> is_load arg \<Longrightarrow> le_pmp_w env (tr_paddr t)"
      using None by (auto simp: access_cause_def split: if_splits)
    show ?thesis
    proof (cases "check_align ?f (tr_paddr t)")
      case True
      then have req: "req = Some (if \<not> is_load arg then Bus_write (tr_paddr t div 4) (prepare_data_to_save ?f (s2_val arg) (tr_paddr t))
            (prepare_bytes_mask (LENGTH('a) div 8) ?f (tr_paddr t))
          else Bus_read (tr_paddr t div 4) (prepare_bytes_mask (LENGTH('a) div 8) ?f (tr_paddr t)))"
        and qs: "qs = ls_requester u @ [\<lparr>la_vaddr = tr_vaddr t, la_paddr = tr_paddr t, la_funct3 = ?f, la_store = (\<not> is_load arg)\<rparr>]"
        using requester_issue_cases [OF iss] by auto
      have s2: "s' = u\<lparr>ls_requester := qs, ls_issued := ls_issued u @ [arg]\<rparr>" "out = [Out_bus arg t (the req)]"
        using s' req by simp_all
      have "lsu_inv s'" using h(1,3) by (simp add: s2 qs lsu_inv_def args_match_def list_all2_appendI)
      moreover have "lsu_waiting s' = lsu_waiting s" using h(4) by (simp add: s2 lsu_waiting_def)
      moreover have "output_safe segments (Lsu_access env) (Out_bus arg t (the req))"
        using ready h(1,2) faults True req
        by (auto simp: output_safe_def bus_request_safe_def do_issue_def is_load_def)
      ultimately show ?thesis by (simp add: s2)
    next
      case False
      then have "req = None" using requester_issue_cases [OF iss] by auto
      then show ?thesis using s' noop by simp
    qed
  qed
  then show "lsu_inv s'" "list_all (output_safe segments (Lsu_access env)) out" "lsu_waiting s' = lsu_waiting s"
    "concat (map output_args out) = []" by blast+
qed

lemma respond_ok:
  assumes "lsu_inv s" "lsu_step segments (Lsu_respond err dat) s = Some (s', out)"
  shows "step_ok segments (Lsu_respond err dat) s s' out"
proof -
  obtain a q arg args where q: "ls_requester s = a # q" "ls_issued s = arg # args"
    using assms(2) by (auto split: option.splits list.splits elim!: requester_accept.elims)
  then obtain res where r: "requester_accept (a # q) err dat = Some (res, q)" "lo_addr res = la_vaddr a" by simp
  have s': "s' = s\<lparr>ls_requester := q, ls_issued := args\<rparr>" "out = push_lsu_result arg res"
    using assms(2) q r by (simp_all del: requester_accept.simps)
  have "lo_addr res = lsu_address arg" using assms(1) q r(2) by (simp add: lsu_inv_def args_match_def)
  then show ?thesis
    unfolding step_ok_def s'(2) using assms(1) q push_result_ok [of res arg]
    by (simp add: s'(1) lsu_inv_def lsu_waiting_def)
qed

lemma respond_noop_ok:
  assumes "lsu_inv s" "lsu_step segments Lsu_respond_noop s = Some (s', out)"
  shows "step_ok segments Lsu_respond_noop s s' out"
proof -
  obtain res ress arg args where q: "ls_results_noop s = res # ress" "ls_issued_noop s = arg # args"
    "s' = s\<lparr>ls_results_noop := ress, ls_issued_noop := args\<rparr>" "out = push_lsu_result arg res"
    using assms(2) by (auto split: list.splits)
  then have "lo_exception res \<noteq> None \<longrightarrow> lo_addr res = lsu_address arg"
    using assms(1) by (simp add: lsu_inv_def noop_match_def)
  then show ?thesis
    unfolding step_ok_def q(4) using assms(1) q(1,2) push_result_ok [of res arg]
    by (simp add: q(3) lsu_inv_def lsu_waiting_def)
qed

lemma lsu_step_ok:
  assumes "lsu_inv s" "event_legal e" "lsu_step segments e s = Some (s', out)"
  shows "step_ok segments e s s' out"
proof (cases e)
  case (Lsu_issue arg)
  then show ?thesis using assms issue_ok [OF assms(1), of arg s']
    by (auto simp: step_ok_def event_legal_def)
next
  case Lsu_translate
  then show ?thesis using assms(1,3)
    by (auto simp: step_ok_def lsu_inv_def lsu_waiting_def split: option.splits)
next
  case (Lsu_translated p pf af)
  then show ?thesis using assms(1,3)
    by (auto simp: step_ok_def lsu_inv_def lsu_waiting_def split: list.splits if_splits)
next
  case (Lsu_access env)
  then show ?thesis using assms(3) access_ok [OF assms(1), of segments env s' out] by (simp add: step_ok_def)
next
  case (Lsu_flushed env)
  then show ?thesis using assms(3) flushed_ok [OF assms(1), of env s'] by (auto simp: step_ok_def)
qed (use assms respond_ok respond_noop_ok in auto)

lemma transit:
  fixes w :: "'b multiset"
  assumes "w + e = w1 + p" "w1 + f = w' + q"
  shows "w + (e + f) = w' + (p + q)"
proof -
  have "w + (e + f) = (w1 + p) + f" unfolding assms(1) [symmetric] by (rule add.assoc [symmetric])
  also have "\<dots> = p + (w1 + f)" by (simp only: ac_simps)
  also have "\<dots> = w' + (p + q)" unfolding assms(2) by (simp only: ac_simps)
  finally show ?thesis .
qed

lemma lsu_run_ok:
  assumes "lsu_inv s" "\<forall>e \<in> set es. event_legal e" "lsu_run segments es s = Some (s', outs)"
  shows "lsu_inv s' \<and> lsu_waiting s + mset (concat (map event_args es)) = lsu_waiting s' + mset (concat (map output_args outs))"
  using assms
proof (induction es arbitrary: s outs)
  case (Cons e es)
  obtain s1 out outs' where 1: "lsu_step segments e s = Some (s1, out)" "lsu_run segments es s1 = Some (s', outs')"
    "outs = out @ outs'"
    using Cons.prems(3) by (auto split: option.splits)
  have "step_ok segments e s s1 out" using lsu_step_ok [OF Cons.prems(1) _ 1(1)] Cons.prems(2) by simp
  then have "lsu_inv s1" "lsu_waiting s + mset (event_args e) = lsu_waiting s1 + mset (concat (map output_args out))"
    by (simp_all add: step_ok_def)
  moreover from this(1) have "lsu_inv s' \<and> lsu_waiting s1 + mset (concat (map event_args es)) =
      lsu_waiting s' + mset (concat (map output_args outs'))"
    using Cons.IH 1(2) Cons.prems(2) by simp
  ultimately show ?case using transit [of "lsu_waiting s"] by (simp add: 1(3))
qed simp

text \<open>
  C27. No memory access out of turn. Whatever transactions have taken place since reset, every instruction issued
  to the unit has either given exactly one result or still waits in it; and whatever transaction comes next, it
  makes a bus request only for an instruction on the current path that the side effect guard admits, unless it is
  a load of ordinary memory, at an aligned physical address that the translator gave for the instruction's own
  virtual address, without a fault, and that memory protection permits; a load reads and a store writes.
  Every exception report names its instruction and the faulting virtual address.
\<close>

theorem lsu_accesses_safe:
  fixes s :: "'a::len lsu_state"
  assumes "lsu_run segments es lsu_init = Some (s, outs)" "\<forall>e \<in> set es. event_legal e"
  shows "mset (concat (map event_args es)) = lsu_waiting s + mset (concat (map output_args outs)) \<and>
    (\<forall>e s' out. event_legal e \<and> lsu_step segments e s = Some (s', out) \<longrightarrow> list_all (output_safe segments e) out)"
proof -
  have "lsu_inv (lsu_init :: 'a lsu_state)" by (simp add: lsu_inv_def lsu_init_def)
  note run = lsu_run_ok [OF this assms(2,1)]
  have "lsu_waiting (lsu_init :: 'a lsu_state) = {#}" by (simp add: lsu_waiting_def lsu_init_def)
  then show ?thesis using run lsu_step_ok step_ok_def by fastforce
qed

definition store_example :: "32 issue_arg" where
  "store_example = \<lparr>s1_val = 0x1000, s2_val = 0xABCD, rp_dst = 0, rob_id = 2,
     ia_exec_fn = \<lparr>op_type = OpType_STORE, fn_funct3 = to_bits 3 1, fn_funct7 = to_bits 7 0\<rparr>,
     ia_imm = 2, ia_pc = 0, ia_tag = 1, ia_ftq_ptr = 0\<rparr>"

definition store_example_env :: lsu_env where
  "store_example_env = \<lparr>le_active = (\<lambda>t. t = 1), le_side_fx = (\<lambda>r t. r = 2), le_pmp_r = (\<lambda>_. True), le_pmp_w = (\<lambda>_. True)\<rparr>"

theorem lsu_accesses_safe_witness:
  "\<exists>s. lsu_run [] [Lsu_issue store_example, Lsu_translate, Lsu_translated 0x2002 False False] lsu_init = Some (s, []) \<and>
     {#store_example#} = lsu_waiting s \<and>
     (\<exists>t req s'. lsu_step [] (Lsu_access store_example_env) s = Some (s', [Out_bus store_example t req]) \<and>
        bus_request_safe [] store_example_env store_example t req)"
proof -
  let ?es = "[Lsu_issue store_example, Lsu_translate, Lsu_translated 0x2002 False False]"
  obtain s where run: "lsu_run [] ?es lsu_init = Some (s, [])"
    and s: "ls_requests s = [store_example]" "ls_requester s = []" "ls_issued s = []" "ls_results_noop s = []"
      "ls_issued_noop s = []"
      "ls_translated s = [\<lparr>tr_paddr = 0x2002, tr_vaddr = 0x1002, tr_page_fault = False, tr_access_fault = False\<rparr>]"
    by (simp add: lsu_init_def lsu_issue_def noop_ready_def lsu_address_def store_example_def)
  obtain s' t req where step: "lsu_step [] (Lsu_access store_example_env) s = Some (s', [Out_bus store_example t req])"
    using s by (simp add: lsu_access_def do_issue_def noop_ready_def store_example_env_def store_example_def is_load_def
        access_cause_def requester_issue_def check_align_def funct3_view_def)
  have legal: "\<forall>e \<in> set ?es. event_legal e"
    by (simp add: event_legal_def lsu_optypes_def store_example_def)
  note c = lsu_accesses_safe [OF run legal]
  have "event_legal (Lsu_access store_example_env :: (32 issue_arg, 32 word) lsu_event)" by (simp add: event_legal_def)
  then have "list_all (output_safe [] (Lsu_access store_example_env)) [Out_bus store_example t req]"
    using c step by blast
  then have "bus_request_safe [] store_example_env store_example t req" by (simp add: output_safe_def)
  then show ?thesis using run step c by auto
qed

section \<open>Accesses and memory\<close>

definition bus_answer :: "('m, 'a::len) bus_memory \<Rightarrow> 'a word bus_request \<Rightarrow> 'm \<Rightarrow> 'a word \<times> 'm" where
  "bus_answer B req mem =
     (case req of Bus_read a sel \<Rightarrow> (bm_read B mem a, mem) | Bus_write a d sel \<Rightarrow> (0, bm_write B a d sel mem))"

definition legal_access :: "bool \<Rightarrow> Funct3 \<Rightarrow> bool" where
  "legal_access store f \<longleftrightarrow> f \<in> (if store then {F3_B, F3_H, F3_W} else {F3_B, F3_BU, F3_H, F3_HU, F3_W})"

lemma check_align_mod: "legal_access store f \<Longrightarrow> check_align f addr \<longleftrightarrow> addr mod access_bytes f = 0"
  by (auto simp: legal_access_def check_align_def access_bytes_def split: if_splits)

lemma aligned_access:
  fixes B :: "('m, 32) bus_memory"
  assumes "bus_memory_spec B" "length q < depth" "legal_access store f" "check_align f paddr"
  shows "\<exists>req arg. requester_issue depth q paddr vaddr dat f store = Some (Some req, None, q @ [arg]) \<and>
    (\<forall>mem raw mem'. bus_answer B req mem = (raw, mem') \<longrightarrow>
       (\<forall>b. mem_byte B mem' b = (if store \<and> paddr \<le> b \<and> b < paddr + access_bytes f then byte_lane (b - paddr) dat
                                else mem_byte B mem b)) \<and>
       (\<forall>rest. \<exists>r. requester_accept (arg # rest) False raw = Some (r, rest) \<and> lo_exception r = None \<and>
          (\<not> store \<longrightarrow> load_value_is B mem f paddr (lo_data r))) \<and>
       (\<forall>rest. \<exists>r. requester_accept (arg # rest) True raw = Some (r, rest) \<and> lo_addr r = vaddr \<and>
          lo_exception r = Some (if store then Cause_STORE_ACCESS_FAULT else Cause_LOAD_ACCESS_FAULT)))"
proof (cases store)
  case True
  then have f: "f = F3_W \<or> f = F3_H \<or> f = F3_B" using assms(3) by (auto simp: legal_access_def)
  show ?thesis
    using True assms(2,4) stored_bytes [OF assms(1,4) f]
    by (auto simp: requester_issue_def Let_def bus_answer_def)
next
  case False
  then have f: "f = F3_W \<or> f = F3_H \<or> f = F3_HU \<or> f = F3_B \<or> f = F3_BU" using assms(3) by (auto simp: legal_access_def)
  show ?thesis
    using False assms(2,4) loaded_value [OF assms(4) f]
    by (auto simp: requester_issue_def Let_def bus_answer_def)
qed

text \<open>
  C28. Loads and stores (32-bit bus). A misaligned access makes no bus request and answers with the misaligned
  cause of its kind. An aligned store changes exactly the bytes it addresses, to the low bytes of its operand; an
  aligned load changes nothing and returns the addressed bytes, little endian, extended by the sign or by zeros
  as its type says; a bus error gives the access fault of its kind with the virtual address.
\<close>

theorem lsu_memory_accesses:
  fixes B :: "('m, 32) bus_memory"
  assumes "bus_memory_spec B" "length q < depth" "legal_access store f"
  shows "if paddr mod access_bytes f \<noteq> 0 then
      requester_issue depth q paddr vaddr dat f store =
        Some (None, Some (if store then Cause_STORE_ADDRESS_MISALIGNED else Cause_LOAD_ADDRESS_MISALIGNED), q)
    else \<exists>req arg. requester_issue depth q paddr vaddr dat f store = Some (Some req, None, q @ [arg]) \<and>
      (\<forall>mem raw mem'. bus_answer B req mem = (raw, mem') \<longrightarrow>
         (\<forall>b. mem_byte B mem' b = (if store \<and> paddr \<le> b \<and> b < paddr + access_bytes f then byte_lane (b - paddr) dat
                                  else mem_byte B mem b)) \<and>
         (\<forall>rest. \<exists>r. requester_accept (arg # rest) False raw = Some (r, rest) \<and> lo_exception r = None \<and>
            (\<not> store \<longrightarrow> load_value_is B mem f paddr (lo_data r))) \<and>
         (\<forall>rest. \<exists>r. requester_accept (arg # rest) True raw = Some (r, rest) \<and> lo_addr r = vaddr \<and>
            lo_exception r = Some (if store then Cause_STORE_ACCESS_FAULT else Cause_LOAD_ACCESS_FAULT)))"
  using aligned_access [OF assms] check_align_mod [OF assms(3), of paddr] assms(2)
  by (simp add: requester_issue_def)

text \<open>A memory of words that writes the selected lanes.\<close>

definition lane_write :: "32 word \<Rightarrow> nat \<Rightarrow> 32 word \<Rightarrow> 32 word" where
  "lane_write d sel old = foldr (\<lambda>i w. w OR push_bit (8 * i) (byte_lane i (if bit sel i then d else old))) [0, 1, 2, 3] 0"

definition word_memory :: "(nat \<Rightarrow> 32 word, 32) bus_memory" where
  "word_memory = \<lparr>bm_read = (\<lambda>mem a. mem a), bm_write = (\<lambda>a d sel mem. mem(a := lane_write d sel (mem a)))\<rparr>"

lemma bit_lane_write: "bit (lane_write d sel old) n \<longleftrightarrow> n < 32 \<and> (if bit sel (n div 8) then bit d n else bit old n)"
proof (cases "n < 32")
  case True
  define i k where "i = n div 8" and "k = n mod 8"
  have n: "n = 8 * i + k" "k < 8" "i < 4" using True by (auto simp: i_def k_def)
  then have "i = 0 \<or> i = 1 \<or> i = 2 \<or> i = 3" by auto
  moreover have "(8 * i + k) div 8 = i" using n(2) by simp
  ultimately show ?thesis
    unfolding n(1) using n(2) by (elim disjE) (simp_all add: lane_write_def bit_or_iff bit_push_bit_iff bit_byte_lane)
next
  case False
  then show ?thesis using bit_imp_le_length [of "lane_write d sel old" n] by auto
qed

lemma word_memory_spec: "bus_memory_spec word_memory"
proof -
  have "byte_lane i (lane_write d sel old) = byte_lane i (if bit sel i then d else old)" if "i < 4" for i d sel old
    by (rule bit_eqI) (use that in \<open>auto simp: bit_byte_lane bit_lane_write\<close>)
  then show ?thesis by (simp add: bus_memory_spec_def word_memory_def)
qed

theorem lsu_memory_accesses_witness:
  "bus_memory_spec word_memory \<and> legal_access True F3_H \<and>
   (\<exists>req arg. requester_issue 4 [] 0x1002 0x1002 0xABCD F3_H True = Some (Some req, None, [arg]) \<and>
     (\<forall>mem raw mem'. bus_answer word_memory req mem = (raw, mem') \<longrightarrow>
        mem_byte word_memory mem' 0x1003 = 0xAB \<and> mem_byte word_memory mem' 0x1001 = mem_byte word_memory mem 0x1001))"
proof -
  have l: "legal_access True F3_H" by (simp add: legal_access_def)
  have b: "byte_lane 1 (0xABCD :: 32 word) = 0xAB" by (simp add: byte_lane_def)
  show ?thesis
    using lsu_memory_accesses [where q = "[]" and depth = "4" and paddr = "0x1002" and vaddr = "0x1002" and dat = "0xABCD",
        OF word_memory_spec _ l] l b word_memory_spec
    by (force simp: access_bytes_def)
qed

end
