(* ===== verification/Vmem.thy ===== *)
theory Vmem
  imports Isa_Consts "HOL-Library.Word"
begin

text \<open>
  Virtual memory: its parameters (\<^verbatim>\<open>params/vmem_params.py\<close>), the page table walker (\<^verbatim>\<open>priv/vmem/walker.py\<close>), a
  state machine that reads page table entries over the bus, and the address translator
  (\<^verbatim>\<open>priv/vmem/translation.py\<close>). Page numbers, addresses and entries are natural numbers, cut to their widths where
  the code assigns them.
\<close>

section \<open>VirtualMemoryParameters\<close>

record vmem_params =
  vp_xlen :: nat
  vp_schemes :: "SatpMode list"
  vp_asidlen :: nat
  vp_max_tlb_vpn_bits :: nat
  vp_max_tlb_size_class :: nat

definition non_bare :: "SatpMode list \<Rightarrow> SatpMode list" where
  "non_bare schemes = filter (\<lambda>m. m \<noteq> Satp_BARE) schemes"

abbreviation "supported_non_bare_schemes p \<equiv> non_bare (vp_schemes p)"

definition levels :: "SatpMode \<Rightarrow> nat" where
  "levels m = (case level_count m of Inr n \<Rightarrow> n | Inl _ \<Rightarrow> 0)"

definition scheme_vpn_bits :: "SatpMode \<Rightarrow> nat" where
  "scheme_vpn_bits m = (case vpn_bits m of Inr n \<Rightarrow> n | Inl _ \<Rightarrow> 0)"

definition max_list :: "nat list \<Rightarrow> nat" where
  "max_list ns = foldr max ns 0"

text \<open>
  The constructor. A set of schemes is the list of its members; every error is a \<^verbatim>\<open>ValueError\<close>, as are those the
  functions of \<^verbatim>\<open>SatpMode\<close> raise.
\<close>

definition mk_VirtualMemoryParameters ::
  "nat \<Rightarrow> bool \<Rightarrow> int option \<Rightarrow> SatpMode list \<Rightarrow> py_error + vmem_params" where
  "mk_VirtualMemoryParameters xlen supervisor_mode asidlen schemes =
     (if Satp_BARE \<notin> set schemes then Inl ValueError
      else if \<not> supervisor_mode \<and> set schemes \<noteq> {Satp_BARE} then Inl ValueError
      else if (case asidlen of None \<Rightarrow> False | Some n \<Rightarrow> n < 0) then Inl ValueError
      else case SatpLayout xlen of Inl e \<Rightarrow> Inl e
      | Inr layout \<Rightarrow>
          let max_asidlen = the (map_of layout ''asid'');
              asid = (case asidlen of None \<Rightarrow> max_asidlen | Some n \<Rightarrow> nat n)
          in if max_asidlen < asid then Inl ValueError
             else case valid_modes xlen of Inl e \<Rightarrow> Inl e
             | Inr valid \<Rightarrow>
                 if \<not> set schemes \<subseteq> set valid then Inl ValueError
                 else if (\<exists>m \<in> set schemes. case mode_dependencies m of Inl _ \<Rightarrow> True | Inr deps \<Rightarrow> \<not> set deps \<subseteq> set schemes)
                 then Inl ValueError
                 else Inr \<lparr>vp_xlen = xlen, vp_schemes = schemes, vp_asidlen = asid,
                           vp_max_tlb_vpn_bits = max_list (map scheme_vpn_bits (non_bare schemes)),
                           vp_max_tlb_size_class = max_list (map (\<lambda>m. levels m - 1) (non_bare schemes))\<rparr>)"

definition size_class_shift :: "nat \<Rightarrow> nat \<Rightarrow> nat" where
  "size_class_shift xlen sc = bits_per_page_table_level xlen * sc"

definition max_physical_address_bits :: "nat \<Rightarrow> SatpMode list \<Rightarrow> py_error + nat" where
  "max_physical_address_bits xlen schemes =
     (if xlen = 32 \<and> set schemes = {Satp_BARE} then Inr 32
      else case SatpLayout xlen of Inl e \<Rightarrow> Inl e | Inr layout \<Rightarrow> Inr (the (map_of layout ''ppn'') + PAGE_SIZE_LOG))"

section \<open>Page table entries\<close>

record pte =
  pte_V :: bool
  pte_R :: bool
  pte_W :: bool
  pte_X :: bool
  pte_U :: bool
  pte_G :: bool
  pte_A :: bool
  pte_D :: bool
  pte_ppn :: nat
  pte_reserved :: bool

text \<open>
  \<^verbatim>\<open>PTELayout\<close>: the flags, two bits for software, the page number, and for 64-bit entries the reserved bits,
  \<^verbatim>\<open>PBMT\<close> and \<^verbatim>\<open>N\<close>, of which it matters only whether one is set.
\<close>

definition pte_view :: "nat \<Rightarrow> nat \<Rightarrow> pte" where
  "pte_view xlen v =
     \<lparr>pte_V = bit v 0, pte_R = bit v 1, pte_W = bit v 2, pte_X = bit v 3, pte_U = bit v 4, pte_G = bit v 5,
      pte_A = bit v 6, pte_D = bit v 7, pte_ppn = take_bit (if xlen = 32 then 22 else 44) (drop_bit 10 v),
      pte_reserved = (xlen \<noteq> 32 \<and> take_bit 10 (drop_bit 54 v) \<noteq> 0)\<rparr>"

definition is_leaf :: "pte \<Rightarrow> bool" where
  "is_leaf e = (pte_R e \<or> pte_X e)"

definition pte_invalid :: "nat \<Rightarrow> pte \<Rightarrow> bool" where
  "pte_invalid xlen e =
     (\<not> pte_V e \<or> (pte_W e \<and> \<not> pte_R e) \<or> (xlen = 64 \<and> pte_reserved e) \<or>
      (\<not> is_leaf e \<and> (pte_A e \<or> pte_D e \<or> pte_U e)))"

section \<open>PageTableWalker\<close>

record permissions =
  perm_r :: bool
  perm_w :: bool
  perm_x :: bool
  perm_u :: bool
  perm_d :: bool
  perm_g :: bool

datatype tlb_result = TLB_HIT | TLB_PAGE_FAULT | TLB_ACCESS_FAULT

record tlb_accept =
  ta_result :: tlb_result
  ta_ppn :: nat
  ta_asid :: nat
  ta_permissions :: permissions
  ta_size_class :: nat

datatype ptw_fsm = Ptw_IDLE | Ptw_DONE | Ptw_ISSUE | Ptw_EVAL

record walker =
  pw_fsm :: ptw_fsm
  pw_level :: nat
  pw_vpn :: nat
  pw_is_store :: bool
  pw_ppn :: nat
  pw_access_fault :: bool
  pw_page_fault :: bool
  pw_asid :: nat
  pw_accessed :: bool
  pw_permissions :: permissions

text \<open>The register \<^verbatim>\<open>satp\<close> as the walker samples it.\<close>

record satp_csr =
  satp_mode :: SatpMode
  satp_ppn :: nat
  satp_asid :: nat

definition pte_bytes_log :: "nat \<Rightarrow> nat" where
  "pte_bytes_log xlen = (if xlen = 32 then 2 else 3)"

definition ppn_width :: "nat \<Rightarrow> nat" where
  "ppn_width phys_addr_bits = phys_addr_bits - PAGE_SIZE_LOG"

definition vpn_index :: "vmem_params \<Rightarrow> nat \<Rightarrow> nat \<Rightarrow> nat" where
  "vpn_index p vpn level =
     take_bit (bits_per_page_table_level (vp_xlen p)) (drop_bit (level * bits_per_page_table_level (vp_xlen p)) vpn)"

definition pte_addr :: "vmem_params \<Rightarrow> nat \<Rightarrow> nat \<Rightarrow> nat \<Rightarrow> nat" where
  "pte_addr p vpn level ppn = push_bit (pte_bytes_log (vp_xlen p)) (vpn_index p vpn level) + push_bit PAGE_SIZE_LOG ppn"

definition walk_request :: "vmem_params \<Rightarrow> nat \<Rightarrow> satp_csr \<Rightarrow> nat \<Rightarrow> bool \<Rightarrow> walker \<Rightarrow> walker" where
  "walk_request p phys_addr_bits satp vpn is_store w =
     (let supported = satp_mode satp \<in> set (supported_non_bare_schemes p)
      in w\<lparr>pw_fsm := (if supported then Ptw_ISSUE else Ptw_DONE),
           pw_level := (if supported then levels (satp_mode satp) - 1 else 0),
           pw_vpn := take_bit (vp_max_tlb_vpn_bits p) vpn,
           pw_is_store := is_store,
           pw_access_fault := False,
           pw_page_fault := \<not> supported,
           pw_ppn := take_bit (ppn_width phys_addr_bits) (satp_ppn satp),
           pw_asid := satp_asid satp\<rparr>)"

definition max_ppn :: "nat \<Rightarrow> nat" where
  "max_ppn phys_addr_bits = 2 ^ ppn_width phys_addr_bits - 1"

definition walk_eval :: "vmem_params \<Rightarrow> nat \<Rightarrow> bool \<times> nat \<Rightarrow> walker \<Rightarrow> walker" where
  "walk_eval p phys_addr_bits fetched w =
     (let e = pte_view (vp_xlen p) (snd fetched);
          w = w\<lparr>pw_permissions := \<lparr>perm_r = pte_R e, perm_w = pte_W e, perm_x = pte_X e, perm_u = pte_U e,
                                  perm_d = pte_D e, perm_g = pte_G e\<rparr>,
                pw_accessed := pte_A e,
                pw_ppn := take_bit (ppn_width phys_addr_bits) (pte_ppn e)\<rparr>
      in if fst fetched then w\<lparr>pw_access_fault := True, pw_fsm := Ptw_DONE\<rparr>
         else if pte_invalid (vp_xlen p) e then w\<lparr>pw_page_fault := True, pw_fsm := Ptw_DONE\<rparr>
         else if max_ppn phys_addr_bits < pte_ppn e then w\<lparr>pw_access_fault := True, pw_fsm := Ptw_DONE\<rparr>
         else if is_leaf e then w\<lparr>pw_fsm := Ptw_DONE\<rparr>
         else if pw_level w = 0 then w\<lparr>pw_page_fault := True, pw_fsm := Ptw_DONE\<rparr>
         else w\<lparr>pw_level := pw_level w - 1, pw_fsm := Ptw_ISSUE\<rparr>)"

definition ppn_misaligned :: "vmem_params \<Rightarrow> walker \<Rightarrow> bool" where
  "ppn_misaligned p w = (take_bit (bits_per_page_table_level (vp_xlen p) * pw_level w) (pw_ppn w) \<noteq> 0)"

definition walk_accept :: "vmem_params \<Rightarrow> walker \<Rightarrow> tlb_accept" where
  "walk_accept p w =
     \<lparr>ta_result =
        (if pw_access_fault w then TLB_ACCESS_FAULT
         else if pw_page_fault w \<or> ppn_misaligned p w then TLB_PAGE_FAULT
         else if \<not> pw_accessed w \<or> (pw_is_store w \<and> \<not> perm_d (pw_permissions w)) then TLB_PAGE_FAULT
         else TLB_HIT),
      ta_ppn = pw_ppn w, ta_asid = pw_asid w, ta_permissions = pw_permissions w, ta_size_class = pw_level w\<rparr>"

text \<open>
  The inputs of a cycle: a call of \<^verbatim>\<open>request\<close> with the value of \<^verbatim>\<open>satp\<close>, whether the bus takes a read request,
  its response if there is one (error flag and data), and a call of \<^verbatim>\<open>accept\<close>. The read permission of the
  protection checker is a function of the address.
\<close>

record ptw_in =
  pi_request :: "(satp_csr \<times> nat \<times> bool) option"
  pi_bus_ready :: bool
  pi_response :: "(bool \<times> nat) option"
  pi_accept :: bool

definition walker_cycle :: "vmem_params \<Rightarrow> nat \<Rightarrow> (nat \<Rightarrow> bool) \<Rightarrow> ptw_in \<Rightarrow> walker \<Rightarrow> walker" where
  "walker_cycle p phys_addr_bits pmp_r inp w =
     (case pw_fsm w of
        Ptw_IDLE \<Rightarrow>
          (case pi_request inp of None \<Rightarrow> w | Some (satp, vpn, is_store) \<Rightarrow> walk_request p phys_addr_bits satp vpn is_store w)
      | Ptw_DONE \<Rightarrow> if pi_accept inp then w\<lparr>pw_fsm := Ptw_IDLE\<rparr> else w
      | Ptw_ISSUE \<Rightarrow>
          if pi_bus_ready inp then
            if \<not> pmp_r (pte_addr p (pw_vpn w) (pw_level w) (pw_ppn w))
            then w\<lparr>pw_access_fault := True, pw_fsm := Ptw_DONE\<rparr> else w\<lparr>pw_fsm := Ptw_EVAL\<rparr>
          else w
      | Ptw_EVAL \<Rightarrow> (case pi_response inp of None \<Rightarrow> w | Some fetched \<Rightarrow> walk_eval p phys_addr_bits fetched w))"

text \<open>The address of the read request the walker makes in a cycle, counted in entries.\<close>

definition walker_bus_request :: "vmem_params \<Rightarrow> (nat \<Rightarrow> bool) \<Rightarrow> ptw_in \<Rightarrow> walker \<Rightarrow> nat option" where
  "walker_bus_request p pmp_r inp w =
     (let a = pte_addr p (pw_vpn w) (pw_level w) (pw_ppn w)
      in if pw_fsm w = Ptw_ISSUE \<and> pi_bus_ready inp \<and> pmp_r a then Some (drop_bit (pte_bytes_log (vp_xlen p)) a) else None)"

section \<open>AddressTranslator\<close>

datatype translator_mode = Translate_INSTRUCTION | Translate_LSU

text \<open>The control and status registers the translator reads.\<close>

record vmem_csrs =
  vc_priv_mode :: PrivilegeLevel
  vc_mprv :: bool
  vc_mpp :: PrivilegeLevel
  vc_mxr :: bool
  vc_sum :: bool
  vc_satp :: satp_csr

definition effective_mode :: "translator_mode \<Rightarrow> vmem_csrs \<Rightarrow> PrivilegeLevel" where
  "effective_mode tm c =
     (case tm of Translate_LSU \<Rightarrow> if vc_mprv c then vc_mpp c else vc_priv_mode c | Translate_INSTRUCTION \<Rightarrow> vc_priv_mode c)"

definition effective_satp_mode :: "translator_mode \<Rightarrow> bool \<Rightarrow> vmem_csrs \<Rightarrow> SatpMode" where
  "effective_satp_mode tm supervisor_mode c =
     (if supervisor_mode \<and> priv_value (effective_mode tm c) < priv_value Priv_MACHINE then satp_mode (vc_satp c)
      else Satp_BARE)"

record fwd_request =
  fw_is_bare :: bool
  fw_vaddr :: nat
  fw_access_fault :: bool
  fw_vpn_invalid :: bool
  fw_is_store :: bool

text \<open>\<^verbatim>\<open>vpn[n - 1:].any() & ~vpn[n - 1:].all()\<close> for a page number of \<open>w\<close> bits.\<close>

definition not_sign_extended :: "nat \<Rightarrow> nat \<Rightarrow> nat \<Rightarrow> bool" where
  "not_sign_extended w n vpn = (drop_bit (n - 1) vpn \<noteq> 0 \<and> drop_bit (n - 1) vpn \<noteq> mask (w - (n - 1)))"

definition translate_request ::
  "vmem_params \<Rightarrow> nat \<Rightarrow> translator_mode \<Rightarrow> bool \<Rightarrow> vmem_csrs \<Rightarrow> nat \<Rightarrow> bool \<Rightarrow> fwd_request \<times> (nat \<times> bool) option" where
  "translate_request p phys_addr_bits tm supervisor_mode c addr is_store =
     (let mode = effective_satp_mode tm supervisor_mode c;
          vpn = drop_bit PAGE_SIZE_LOG addr;
          access_fault = (mode = Satp_BARE \<and> max_ppn phys_addr_bits < vpn);
          vpn_invalid = (mode \<in> set (supported_non_bare_schemes p) \<and>
            not_sign_extended (vp_xlen p - PAGE_SIZE_LOG) (bits_per_page_table_level (vp_xlen p) * levels mode) vpn)
      in (\<lparr>fw_is_bare = (mode = Satp_BARE), fw_vaddr = addr, fw_access_fault = access_fault,
           fw_vpn_invalid = vpn_invalid, fw_is_store = is_store\<rparr>,
          if supported_non_bare_schemes p \<noteq> [] \<and> mode \<noteq> Satp_BARE \<and> \<not> vpn_invalid then Some (vpn, is_store) else None))"

record translate_accept =
  tx_vaddr :: nat
  tx_paddr :: nat
  tx_page_fault :: bool
  tx_access_fault :: bool

definition no_tlb_data :: tlb_accept where
  "no_tlb_data = \<lparr>ta_result = TLB_HIT, ta_ppn = 0, ta_asid = 0,
     ta_permissions = \<lparr>perm_r = False, perm_w = False, perm_x = False, perm_u = False, perm_d = False, perm_g = False\<rparr>,
     ta_size_class = 0\<rparr>"

definition rwx_fault :: "translator_mode \<Rightarrow> vmem_csrs \<Rightarrow> bool \<Rightarrow> permissions \<Rightarrow> bool" where
  "rwx_fault tm c is_store perms =
     (case tm of
        Translate_INSTRUCTION \<Rightarrow> \<not> perm_x perms
      | Translate_LSU \<Rightarrow>
          if is_store then \<not> perm_w perms \<or> \<not> perm_d perms
          else \<not> perm_r perms \<and> \<not> (vc_mxr c \<and> perm_x perms))"

definition user_fault :: "translator_mode \<Rightarrow> vmem_csrs \<Rightarrow> permissions \<Rightarrow> bool" where
  "user_fault tm c perms =
     (let is_user = effective_mode tm c = Priv_USER
      in case tm of
           Translate_INSTRUCTION \<Rightarrow> is_user \<noteq> perm_u perms
         | Translate_LSU \<Rightarrow> if is_user then \<not> perm_u perms else perm_u perms \<and> \<not> vc_sum c)"

text \<open>
  \<^verbatim>\<open>accept\<close> for the forwarded request and the outputs of the backing device. The device is only asked for its answer when the request
  went to it, but its outputs are read in any case: for other requests they are whatever they were left at. Without a device they are zero.
\<close>

definition superpage_ppn :: "vmem_params \<Rightarrow> nat \<Rightarrow> nat \<Rightarrow> tlb_accept \<Rightarrow> nat" where
  "superpage_ppn p phys_addr_bits vpn d =
     (let n = bits_per_page_table_level (vp_xlen p) * ta_size_class d
      in take_bit (ppn_width phys_addr_bits)
           (if ta_size_class d \<le> vp_max_tlb_size_class p then take_bit n vpn + push_bit n (drop_bit n (ta_ppn d)) else 0))"

definition translate_respond ::
  "vmem_params \<Rightarrow> nat \<Rightarrow> translator_mode \<Rightarrow> vmem_csrs \<Rightarrow> fwd_request \<Rightarrow> tlb_accept \<Rightarrow> translate_accept" where
  "translate_respond p phys_addr_bits tm c r answer =
     (let tlb = (supported_non_bare_schemes p \<noteq> []);
          d = (if tlb then answer else no_tlb_data);
          vpn = drop_bit PAGE_SIZE_LOG (fw_vaddr r);
          tlb_ppn = (if tlb then superpage_ppn p phys_addr_bits vpn d else 0);
          tlb_page_fault = (tlb \<and> (fw_vpn_invalid r \<or> ta_result d = TLB_PAGE_FAULT \<or>
              rwx_fault tm c (fw_is_store r) (ta_permissions d) \<or> user_fault tm c (ta_permissions d)));
          tlb_access_fault = (tlb \<and> ta_result d = TLB_ACCESS_FAULT);
          ppn = (if fw_is_bare r then take_bit (ppn_width phys_addr_bits) vpn else tlb_ppn)
      in \<lparr>tx_vaddr = fw_vaddr r,
          tx_paddr = take_bit PAGE_SIZE_LOG (fw_vaddr r) + push_bit PAGE_SIZE_LOG ppn,
          tx_page_fault = (if fw_is_bare r then False else tlb_page_fault \<and> \<not> tlb_access_fault),
          tx_access_fault = (if fw_is_bare r then fw_access_fault r else tlb_access_fault)\<rparr>)"

section \<open>The architecture's page walk\<close>

datatype walk_end = Walk_access_fault | Walk_page_fault | Walk_leaf nat pte

text \<open>
  The table of a level starts at a page; the entry for a page number is at its index. A walk ends at a leaf, or
  with a fault; an entry of a lower table must be valid, and memory protection applies to the walk.
\<close>

fun page_walk :: "vmem_params \<Rightarrow> nat \<Rightarrow> (nat \<Rightarrow> bool) \<Rightarrow> (nat \<Rightarrow> bool \<times> nat) \<Rightarrow> nat \<Rightarrow> nat \<Rightarrow> nat \<Rightarrow> walk_end" where
  "page_walk p phys_addr_bits pmp_r mem vpn level table =
     (let a = table * PAGE_SIZE + vpn_index p vpn level * 2 ^ pte_bytes_log (vp_xlen p);
          (err, v) = mem (a div 2 ^ pte_bytes_log (vp_xlen p));
          e = pte_view (vp_xlen p) v
      in if \<not> pmp_r a \<or> err then Walk_access_fault
         else if pte_invalid (vp_xlen p) e then Walk_page_fault
         else if 2 ^ ppn_width phys_addr_bits \<le> pte_ppn e then Walk_access_fault
         else if is_leaf e then Walk_leaf level e
         else case level of 0 \<Rightarrow> Walk_page_fault
              | Suc l \<Rightarrow> page_walk p phys_addr_bits pmp_r mem vpn l (pte_ppn e))"

declare page_walk.simps [simp del]

text \<open>A leaf is usable when it is aligned to its size, has been accessed, and for a store is dirty.\<close>

definition leaf_usable :: "vmem_params \<Rightarrow> bool \<Rightarrow> nat \<Rightarrow> pte \<Rightarrow> bool" where
  "leaf_usable p is_store level e \<longleftrightarrow>
     pte_ppn e mod 2 ^ (bits_per_page_table_level (vp_xlen p) * level) = 0 \<and> pte_A e \<and> (is_store \<longrightarrow> pte_D e)"

definition pte_permissions :: "pte \<Rightarrow> permissions" where
  "pte_permissions e = \<lparr>perm_r = pte_R e, perm_w = pte_W e, perm_x = pte_X e, perm_u = pte_U e, perm_d = pte_D e, perm_g = pte_G e\<rparr>"

definition walk_answers :: "vmem_params \<Rightarrow> bool \<Rightarrow> nat \<Rightarrow> walk_end \<Rightarrow> tlb_accept \<Rightarrow> bool" where
  "walk_answers p is_store asid we d \<longleftrightarrow> ta_asid d = asid \<and>
     (case we of
        Walk_access_fault \<Rightarrow> ta_result d = TLB_ACCESS_FAULT
      | Walk_page_fault \<Rightarrow> ta_result d = TLB_PAGE_FAULT
      | Walk_leaf level e \<Rightarrow>
          if leaf_usable p is_store level e then
            ta_result d = TLB_HIT \<and> ta_ppn d = pte_ppn e \<and> ta_permissions d = pte_permissions e \<and> ta_size_class d = level
          else ta_result d = TLB_PAGE_FAULT)"

section \<open>The walker follows the architecture\<close>

lemma pte_addr_eq: "pte_addr p vpn level ppn = ppn * PAGE_SIZE + vpn_index p vpn level * 2 ^ pte_bytes_log (vp_xlen p)"
  by (simp add: pte_addr_def push_bit_eq_mult PAGE_SIZE_def)

definition walker_walks ::
  "vmem_params \<Rightarrow> nat \<Rightarrow> (nat \<Rightarrow> bool) \<Rightarrow> (nat \<Rightarrow> bool \<times> nat) \<Rightarrow> walker \<Rightarrow> walk_end" where
  "walker_walks p pb pmp_r mem w = page_walk p pb pmp_r mem (pw_vpn w) (pw_level w) (pw_ppn w)"

text \<open>The walk \<open>we\<close> is what remains to be done, or what the walker is ready to answer.\<close>

definition walker_rep ::
  "vmem_params \<Rightarrow> nat \<Rightarrow> (nat \<Rightarrow> bool) \<Rightarrow> (nat \<Rightarrow> bool \<times> nat) \<Rightarrow> bool \<Rightarrow> nat \<Rightarrow> walk_end \<Rightarrow> walker \<Rightarrow> bool" where
  "walker_rep p pb pmp_r mem st asid we w \<longleftrightarrow> pw_is_store w = st \<and> pw_asid w = asid \<and>
     (case pw_fsm w of
        Ptw_IDLE \<Rightarrow> False
      | Ptw_DONE \<Rightarrow> walk_answers p st asid we (walk_accept p w)
      | Ptw_ISSUE \<Rightarrow> \<not> pw_access_fault w \<and> \<not> pw_page_fault w \<and> walker_walks p pb pmp_r mem w = we
      | Ptw_EVAL \<Rightarrow> \<not> pw_access_fault w \<and> \<not> pw_page_fault w \<and> walker_walks p pb pmp_r mem w = we \<and>
          pmp_r (pte_addr p (pw_vpn w) (pw_level w) (pw_ppn w)))"

fun walker_measure :: "walker \<Rightarrow> nat" where
  "walker_measure w = (case pw_fsm w of Ptw_ISSUE \<Rightarrow> 2 * pw_level w + 2 | Ptw_EVAL \<Rightarrow> 2 * pw_level w + 1 | _ \<Rightarrow> 0)"

text \<open>The bus answers the outstanding request with the memory's content, and the answer is not taken yet.\<close>

definition bus_faithful :: "vmem_params \<Rightarrow> (nat \<Rightarrow> bool \<times> nat) \<Rightarrow> ptw_in \<Rightarrow> walker \<Rightarrow> bool" where
  "bus_faithful p mem inp w \<longleftrightarrow> \<not> pi_accept inp \<and>
     (case pi_response inp of None \<Rightarrow> True
      | Some r \<Rightarrow> r = mem (drop_bit (pte_bytes_log (vp_xlen p)) (pte_addr p (pw_vpn w) (pw_level w) (pw_ppn w))))"

definition bus_grants :: "ptw_in \<Rightarrow> bool" where
  "bus_grants inp \<longleftrightarrow> pi_bus_ready inp \<and> pi_response inp \<noteq> None"

lemma leaf_answer:
  assumes "pw_fsm w = Ptw_DONE" "pw_is_store w = st" "pw_asid w = asid" "\<not> pw_access_fault w" "\<not> pw_page_fault w"
    "pw_ppn w = pte_ppn e" "pw_permissions w = pte_permissions e" "pw_accessed w = pte_A e" "pw_level w = level"
  shows "walk_answers p st asid (Walk_leaf level e) (walk_accept p w)"
  using assms
  by (auto simp: walk_answers_def walk_accept_def leaf_usable_def ppn_misaligned_def take_bit_eq_mod pte_permissions_def)

lemma eval_rep:
  assumes rep: "walker_rep p pb pmp_r mem st asid we w" and fsm: "pw_fsm w = Ptw_EVAL"
    and r: "r = mem (drop_bit (pte_bytes_log (vp_xlen p)) (pte_addr p (pw_vpn w) (pw_level w) (pw_ppn w)))"
  shows "walker_rep p pb pmp_r mem st asid we (walk_eval p pb r w) \<and>
    walker_measure (walk_eval p pb r w) < walker_measure w"
proof -
  define a where "a = pte_addr p (pw_vpn w) (pw_level w) (pw_ppn w)"
  define e where "e = pte_view (vp_xlen p) (snd r)"
  have w: "pw_is_store w = st" "pw_asid w = asid" "\<not> pw_access_fault w" "\<not> pw_page_fault w" "pmp_r a"
    and we: "walker_walks p pb pmp_r mem w = we"
    using rep fsm by (simp_all add: walker_rep_def a_def)
  have A: "pw_ppn w * PAGE_SIZE + vpn_index p (pw_vpn w) (pw_level w) * 2 ^ pte_bytes_log (vp_xlen p) = a"
    and R: "mem (a div 2 ^ pte_bytes_log (vp_xlen p)) = r"
    using r by (simp_all only: a_def pte_addr_eq drop_bit_eq_div)
  have we': "we = (if fst r then Walk_access_fault else if pte_invalid (vp_xlen p) e then Walk_page_fault
      else if 2 ^ ppn_width pb \<le> pte_ppn e then Walk_access_fault else if is_leaf e then Walk_leaf (pw_level w) e
      else case pw_level w of 0 \<Rightarrow> Walk_page_fault | Suc l \<Rightarrow> page_walk p pb pmp_r mem (pw_vpn w) l (pte_ppn e))"
    unfolding we [symmetric] walker_walks_def page_walk.simps [of p pb pmp_r mem "pw_vpn w" "pw_level w" "pw_ppn w"]
      Let_def A R e_def by (simp add: w(5) split_beta)
  have big: "max_ppn pb < pte_ppn e \<longleftrightarrow> 2 ^ ppn_width pb \<le> pte_ppn e"
    by (simp add: max_ppn_def Suc_le_eq [symmetric])
  define w1 where "w1 = w\<lparr>pw_permissions := pte_permissions e, pw_accessed := pte_A e,
    pw_ppn := take_bit (ppn_width pb) (pte_ppn e)\<rparr>"
  have ev: "walk_eval p pb r w = (if fst r then w1\<lparr>pw_access_fault := True, pw_fsm := Ptw_DONE\<rparr>
         else if pte_invalid (vp_xlen p) e then w1\<lparr>pw_page_fault := True, pw_fsm := Ptw_DONE\<rparr>
         else if 2 ^ ppn_width pb \<le> pte_ppn e then w1\<lparr>pw_access_fault := True, pw_fsm := Ptw_DONE\<rparr>
         else if is_leaf e then w1\<lparr>pw_fsm := Ptw_DONE\<rparr>
         else if pw_level w = 0 then w1\<lparr>pw_page_fault := True, pw_fsm := Ptw_DONE\<rparr>
         else w1\<lparr>pw_level := pw_level w - 1, pw_fsm := Ptw_ISSUE\<rparr>)"
    by (simp add: walk_eval_def Let_def e_def [symmetric] w1_def pte_permissions_def big)
  have small: "\<not> 2 ^ ppn_width pb \<le> pte_ppn e \<Longrightarrow> take_bit (ppn_width pb) (pte_ppn e) = pte_ppn e"
    by (simp add: take_bit_nat_eq_self_iff)
  consider "fst r" | "\<not> fst r" "pte_invalid (vp_xlen p) e"
    | "\<not> fst r" "\<not> pte_invalid (vp_xlen p) e" "2 ^ ppn_width pb \<le> pte_ppn e"
    | "\<not> fst r" "\<not> pte_invalid (vp_xlen p) e" "\<not> 2 ^ ppn_width pb \<le> pte_ppn e" "is_leaf e"
    | "\<not> fst r" "\<not> pte_invalid (vp_xlen p) e" "\<not> 2 ^ ppn_width pb \<le> pte_ppn e" "\<not> is_leaf e" "pw_level w = 0"
    | l where "\<not> fst r" "\<not> pte_invalid (vp_xlen p) e" "\<not> 2 ^ ppn_width pb \<le> pte_ppn e" "\<not> is_leaf e" "pw_level w = Suc l"
    by (cases "pw_level w") auto
  then show ?thesis
  proof cases
    case 4
    then have we: "we = Walk_leaf (pw_level w) e" using we' by simp
    show ?thesis
      unfolding walker_rep_def we using 4 w fsm leaf_answer [of "w1\<lparr>pw_fsm := Ptw_DONE\<rparr>" st asid e "pw_level w" p]
      by (simp add: ev w1_def small)
  next
    case (6 l)
    then show ?thesis using we' w fsm by (simp add: walker_rep_def walker_walks_def ev w1_def small)
  qed (use we' w fsm in \<open>simp_all add: walker_rep_def ev w1_def walk_answers_def walk_accept_def\<close>)
qed

lemma issue_rep:
  assumes "walker_rep p pb pmp_r mem st asid we w" "pw_fsm w = Ptw_ISSUE" "pi_bus_ready inp"
  shows "walker_rep p pb pmp_r mem st asid we (walker_cycle p pb pmp_r inp w) \<and>
    walker_measure (walker_cycle p pb pmp_r inp w) < walker_measure w"
proof (cases "pmp_r (pte_addr p (pw_vpn w) (pw_level w) (pw_ppn w))")
  case True
  then show ?thesis using assms by (simp add: walker_rep_def walker_cycle_def walker_walks_def)
next
  case False
  then have "walker_walks p pb pmp_r mem w = Walk_access_fault"
    unfolding walker_walks_def by (subst page_walk.simps) (simp add: Let_def pte_addr_eq split_beta)
  then show ?thesis using assms False by (simp add: walker_rep_def walker_cycle_def walk_answers_def walk_accept_def)
qed

lemma cycle_rep:
  assumes "walker_rep p pb pmp_r mem st asid we w" "bus_faithful p mem inp w"
  shows "walker_rep p pb pmp_r mem st asid we (walker_cycle p pb pmp_r inp w)"
    "walker_measure (walker_cycle p pb pmp_r inp w) \<le> walker_measure w"
    "bus_grants inp \<Longrightarrow> walker_measure w \<noteq> 0 \<Longrightarrow> walker_measure (walker_cycle p pb pmp_r inp w) < walker_measure w"
proof -
  have "walker_rep p pb pmp_r mem st asid we (walker_cycle p pb pmp_r inp w) \<and>
    (walker_measure (walker_cycle p pb pmp_r inp w) < walker_measure w \<or>
     walker_cycle p pb pmp_r inp w = w \<and> (bus_grants inp \<longrightarrow> walker_measure w = 0))"
  proof (cases "pw_fsm w")
    case Ptw_ISSUE
    then show ?thesis
      using issue_rep [OF assms(1) Ptw_ISSUE, of inp] assms(1)
      by (cases "pi_bus_ready inp") (auto simp: walker_cycle_def bus_grants_def)
  next
    case Ptw_EVAL
    then show ?thesis
      using eval_rep [OF assms(1) Ptw_EVAL] assms
      by (cases "pi_response inp") (auto simp: walker_cycle_def bus_faithful_def bus_grants_def)
  qed (use assms in \<open>auto simp: walker_rep_def walker_cycle_def bus_faithful_def\<close>)
  then show "walker_rep p pb pmp_r mem st asid we (walker_cycle p pb pmp_r inp w)"
    "walker_measure (walker_cycle p pb pmp_r inp w) \<le> walker_measure w"
    "bus_grants inp \<Longrightarrow> walker_measure w \<noteq> 0 \<Longrightarrow> walker_measure (walker_cycle p pb pmp_r inp w) < walker_measure w"
    by (auto simp del: walker_measure.simps)
qed

fun walker_run :: "vmem_params \<Rightarrow> nat \<Rightarrow> (nat \<Rightarrow> bool) \<Rightarrow> ptw_in list \<Rightarrow> walker \<Rightarrow> walker" where
  "walker_run p pb pmp_r [] w = w"
| "walker_run p pb pmp_r (i # is) w = walker_run p pb pmp_r is (walker_cycle p pb pmp_r i w)"

fun bus_run_faithful :: "vmem_params \<Rightarrow> nat \<Rightarrow> (nat \<Rightarrow> bool) \<Rightarrow> (nat \<Rightarrow> bool \<times> nat) \<Rightarrow> ptw_in list \<Rightarrow> walker \<Rightarrow> bool" where
  "bus_run_faithful p pb pmp_r mem [] w = True"
| "bus_run_faithful p pb pmp_r mem (i # is) w =
     (bus_faithful p mem i w \<and> bus_run_faithful p pb pmp_r mem is (walker_cycle p pb pmp_r i w))"

lemma walker_run_rep:
  assumes "walker_rep p pb pmp_r mem st asid we w" "bus_run_faithful p pb pmp_r mem ins w"
  shows "walker_rep p pb pmp_r mem st asid we (walker_run p pb pmp_r ins w) \<and>
    walker_measure (walker_run p pb pmp_r ins w) \<le> walker_measure w - length (filter bus_grants ins)"
  using assms
proof (induction ins arbitrary: w)
  case (Cons i ins)
  let ?w = "walker_cycle p pb pmp_r i w"
  have c: "walker_rep p pb pmp_r mem st asid we ?w"
    "walker_measure ?w \<le> walker_measure w" "bus_grants i \<Longrightarrow> walker_measure w \<noteq> 0 \<Longrightarrow> walker_measure ?w < walker_measure w"
    using cycle_rep [OF Cons.prems(1)] Cons.prems(2) by simp_all
  have "bus_run_faithful p pb pmp_r mem ins ?w" using Cons.prems(2) by simp
  from Cons.IH [OF c(1) this] c(2,3) show ?case
    by (cases "bus_grants i"; cases "walker_measure w = 0") (auto simp del: walker_measure.simps)
qed simp

lemma measure_done: "walker_rep p pb pmp_r mem st asid we w \<Longrightarrow> walker_measure w = 0 \<Longrightarrow> pw_fsm w = Ptw_DONE"
  by (auto simp: walker_rep_def split: ptw_fsm.splits)

section \<open>Configurations\<close>

lemma max_list_ge: "n \<in> set ns \<Longrightarrow> n \<le> max_list ns"
  by (induction ns) (auto simp: max_list_def)

lemma mk_params_fields:
  assumes "mk_VirtualMemoryParameters xlen super asidlen schemes = Inr p"
  shows "vp_xlen p = xlen" "xlen = 32 \<or> xlen = 64" "Satp_SV64 \<notin> set (vp_schemes p)"
    "set (vp_schemes p) \<subseteq> (if xlen = 32 then {Satp_BARE, Satp_SV32} else {Satp_BARE, Satp_SV39, Satp_SV48, Satp_SV57, Satp_SV64})"
    "vp_max_tlb_vpn_bits p = max_list (map scheme_vpn_bits (supported_non_bare_schemes p))"
    "vp_max_tlb_size_class p = max_list (map (\<lambda>m. levels m - 1) (supported_non_bare_schemes p))"
  using assms unfolding mk_VirtualMemoryParameters_def
  by (auto simp: Let_def valid_modes_def SatpLayout_def split: if_splits sum.splits option.splits dest: bspec [of _ _ Satp_SV64])

lemma mk_params_scheme:
  assumes mk: "mk_VirtualMemoryParameters xlen super asidlen schemes = Inr p" and m: "m \<in> set (supported_non_bare_schemes p)"
  shows "0 < levels m" "bits_per_page_table_level xlen * levels m \<le> vp_max_tlb_vpn_bits p"
    "levels m - 1 \<le> vp_max_tlb_size_class p"
    "bits_per_page_table_level xlen * levels m \<le> xlen - PAGE_SIZE_LOG"
proof -
  note f = mk_params_fields [OF mk]
  have "m \<in> set (vp_schemes p)" "m \<noteq> Satp_BARE" using m by (auto simp: non_bare_def)
  then have ms: "xlen = 32 \<and> m = Satp_SV32 \<or> xlen = 64 \<and> m \<in> {Satp_SV39, Satp_SV48, Satp_SV57}"
    using f(2,3,4) by (auto split: if_splits)
  then have "scheme_vpn_bits m = bits_per_page_table_level xlen * levels m"
    by (auto simp: scheme_vpn_bits_def vpn_bits_def levels_def bits_per_page_table_level_def)
  moreover have "scheme_vpn_bits m \<le> vp_max_tlb_vpn_bits p" "levels m - 1 \<le> vp_max_tlb_size_class p"
    unfolding f(5,6) using m by (auto intro!: max_list_ge)
  ultimately show "bits_per_page_table_level xlen * levels m \<le> vp_max_tlb_vpn_bits p"
    "levels m - 1 \<le> vp_max_tlb_size_class p" by simp_all
  show "0 < levels m" "bits_per_page_table_level xlen * levels m \<le> xlen - PAGE_SIZE_LOG"
    using ms by (auto simp: levels_def bits_per_page_table_level_def PAGE_SIZE_LOG_def)
qed

lemma vpn_index_take:
  assumes "bits_per_page_table_level (vp_xlen p) * Suc level \<le> n"
  shows "vpn_index p (take_bit n vpn) level = vpn_index p vpn level"
  unfolding vpn_index_def
  by (rule bit_eqI) (use assms in \<open>auto simp: bit_take_bit_iff bit_drop_bit_eq algebra_simps\<close>)

lemma page_walk_vpn:
  assumes "bits_per_page_table_level (vp_xlen p) * Suc level \<le> n"
  shows "page_walk p pb pmp_r mem (take_bit n vpn) level table = page_walk p pb pmp_r mem vpn level table"
  using assms
proof (induction level arbitrary: table)
  case 0
  then show ?case by (subst (1 2) page_walk.simps) (simp add: vpn_index_take [OF 0] Let_def split_beta cong: if_cong)
next
  case (Suc l)
  have "bits_per_page_table_level (vp_xlen p) * Suc l \<le> n" using Suc.prems by simp
  note IH = Suc.IH [OF this]
  show ?case by (subst (1 2) page_walk.simps) (simp add: vpn_index_take [OF Suc.prems] IH Let_def split_beta cong: if_cong)
qed

lemma page_walk_leaf:
  assumes "page_walk p pb pmp_r mem vpn level table = Walk_leaf l e"
  shows "pte_ppn e < 2 ^ ppn_width pb" "l \<le> level" "is_leaf e" "\<not> pte_invalid (vp_xlen p) e"
proof -
  have "pte_ppn e < 2 ^ ppn_width pb \<and> l \<le> level \<and> is_leaf e \<and> \<not> pte_invalid (vp_xlen p) e"
    using assms
  proof (induction level arbitrary: table)
    case 0
    then show ?case by (subst (asm) page_walk.simps) (auto simp: Let_def split: if_splits prod.splits)
  next
    case (Suc k)
    then show ?case by (subst (asm) (2) page_walk.simps) (auto simp: Let_def le_SucI split: if_splits prod.splits)
  qed
  then show "pte_ppn e < 2 ^ ppn_width pb" "l \<le> level" "is_leaf e" "\<not> pte_invalid (vp_xlen p) e" by blast+
qed

lemma request_rep:
  assumes mk: "mk_VirtualMemoryParameters xlen super asidlen schemes = Inr p"
    and m: "satp_mode satp \<in> set (supported_non_bare_schemes p)"
    and table_def: "table = satp_ppn satp mod 2 ^ ppn_width pb"
  shows "walker_rep p pb pmp_r mem st (satp_asid satp) (page_walk p pb pmp_r mem vpn (levels (satp_mode satp) - 1) table)
      (walk_request p pb satp vpn st w) \<and>
    walker_measure (walk_request p pb satp vpn st w) = 2 * levels (satp_mode satp)"
proof -
  note k = mk_params_scheme [OF mk m, folded mk_params_fields(1) [OF mk]]
  have "bits_per_page_table_level (vp_xlen p) * Suc (levels (satp_mode satp) - 1) \<le> vp_max_tlb_vpn_bits p"
    using k(1,2) by simp
  note v = page_walk_vpn [OF this, unfolded take_bit_eq_mod [of "vp_max_tlb_vpn_bits p"]]
  have "levels (satp_mode satp) - 1 + 1 = levels (satp_mode satp)" using k(1) by simp
  then show ?thesis
    using m v by (simp add: walk_request_def Let_def walker_rep_def walker_walks_def table_def take_bit_eq_mod)
qed

text \<open>
  C29. The page table walker implements the walk of the privileged architecture. A request in the idle state is
  answered, once the walker is done, by the result of the recursive walk over memory from the root table in satp:
  access faults of the bus, of memory protection and of too large page numbers, page faults for invalid entries
  and for non-leaf entries of the last level, and otherwise the leaf with its level, unless it is misaligned, not
  accessed, or not dirty for a store. The walker is done after at most two cycles per level in which the bus
  takes a request or answers one. In an unsupported mode the answer is a page fault.
\<close>

theorem walker_refines:
  assumes "mk_VirtualMemoryParameters xlen super asidlen schemes = Inr p"
    and "pw_fsm w = Ptw_IDLE" and "pi_request i = Some (satp, vpn, st)"
    and "bus_run_faithful p pb pmp_r mem ins (walker_cycle p pb pmp_r i w)"
    and "w' = walker_run p pb pmp_r ins (walker_cycle p pb pmp_r i w)"
  shows "if satp_mode satp \<in> set (supported_non_bare_schemes p) then
      (pw_fsm w' = Ptw_DONE \<longrightarrow> walk_answers p st (satp_asid satp)
         (page_walk p pb pmp_r mem vpn (levels (satp_mode satp) - 1) (satp_ppn satp mod 2 ^ ppn_width pb)) (walk_accept p w')) \<and>
      (2 * levels (satp_mode satp) \<le> length (filter bus_grants ins) \<longrightarrow> pw_fsm w' = Ptw_DONE)
    else pw_fsm w' = Ptw_DONE \<and> ta_result (walk_accept p w') = TLB_PAGE_FAULT"
proof -
  have c: "walker_cycle p pb pmp_r i w = walk_request p pb satp vpn st w"
    using assms(2,3) by (simp add: walker_cycle_def)
  note run = walker_run_rep [OF _ assms(4) [unfolded c], folded assms(5) [unfolded c]]
  show ?thesis
  proof (cases "satp_mode satp \<in> set (supported_non_bare_schemes p)")
    case True
    note req = request_rep [OF assms(1) True refl, of pb pmp_r mem st vpn w]
    note rep = run [OF conjunct1 [OF req]]
    have "2 * levels (satp_mode satp) \<le> length (filter bus_grants ins) \<Longrightarrow> walker_measure w' = 0"
      using rep req by (simp del: walker_measure.simps)
    then show ?thesis
      using True rep measure_done [OF conjunct1 [OF rep]] by (auto simp: walker_rep_def simp del: walker_measure.simps)
  next
    case False
    then have "walker_rep p pb pmp_r mem st (satp_asid satp) Walk_page_fault (walk_request p pb satp vpn st w)"
      "walker_measure (walk_request p pb satp vpn st w) = 0"
      by (simp_all add: walk_request_def Let_def walker_rep_def walk_answers_def walk_accept_def)
    with run have "walker_rep p pb pmp_r mem st (satp_asid satp) Walk_page_fault w'" "walker_measure w' = 0"
      by (fastforce simp del: walker_measure.simps)+
    note fin = measure_done [OF this]
    then have "walk_answers p st (satp_asid satp) Walk_page_fault (walk_accept p w')"
      using \<open>walker_rep p pb pmp_r mem st (satp_asid satp) Walk_page_fault w'\<close> by (simp add: walker_rep_def)
    then show ?thesis using False fin by (simp add: walk_answers_def)
  qed
qed

section \<open>Address translation\<close>

definition canonical :: "nat \<Rightarrow> nat \<Rightarrow> nat \<Rightarrow> bool" where
  "canonical xlen va_bits addr \<longleftrightarrow> (\<forall>i \<in> {va_bits - 1..<xlen}. bit addr i \<longleftrightarrow> bit addr (va_bits - 1))"

definition access_permitted :: "translator_mode \<Rightarrow> vmem_csrs \<Rightarrow> bool \<Rightarrow> pte \<Rightarrow> bool" where
  "access_permitted tm c is_store e \<longleftrightarrow>
     (case tm of
        Translate_INSTRUCTION \<Rightarrow> pte_X e \<and> (pte_U e \<longleftrightarrow> effective_mode tm c = Priv_USER)
      | Translate_LSU \<Rightarrow>
          (if is_store then pte_W e else pte_R e \<or> (vc_mxr c \<and> pte_X e)) \<and>
          (pte_U e \<longrightarrow> effective_mode tm c = Priv_USER \<or> vc_sum c) \<and>
          (effective_mode tm c = Priv_USER \<longrightarrow> pte_U e))"

lemma sign_extension_check:
  assumes "addr < 2 ^ xlen" "0 < n" "12 + n \<le> xlen"
  shows "not_sign_extended (xlen - PAGE_SIZE_LOG) n (drop_bit PAGE_SIZE_LOG addr) \<longleftrightarrow> \<not> canonical xlen (PAGE_SIZE_LOG + n) addr"
proof -
  define k where "k = 11 + n"
  have k: "k < xlen" using assms(3) by (simp add: k_def)
  have high: "bit addr i \<Longrightarrow> i < xlen" for i
    using assms(1) by (metis bit_take_bit_iff take_bit_nat_eq_self_iff)
  have d: "drop_bit (n - 1) (drop_bit PAGE_SIZE_LOG addr) = drop_bit k addr"
    using assms(2) by (simp add: drop_bit_drop_bit PAGE_SIZE_LOG_def k_def)
  have m: "xlen - PAGE_SIZE_LOG - (n - 1) = xlen - k" using assms(2,3) by (simp add: PAGE_SIZE_LOG_def k_def)
  have none: "drop_bit k addr = 0 \<longleftrightarrow> (\<forall>i \<in> {k..<xlen}. \<not> bit addr i)"
    unfolding bit_eq_iff bit_drop_bit_eq using high by (auto simp: le_iff_add)
  have all: "drop_bit k addr = mask (xlen - k) \<longleftrightarrow> (\<forall>i \<in> {k..<xlen}. bit addr i)" (is "?l \<longleftrightarrow> ?r")
  proof -
    have "?l \<longleftrightarrow> (\<forall>j. bit addr (k + j) \<longleftrightarrow> k + j < xlen)"
      unfolding bit_eq_iff bit_drop_bit_eq bit_mask_iff using k by (auto simp: less_diff_conv add.commute)
    also have "\<dots> \<longleftrightarrow> ?r"
    proof
      assume *: "\<forall>j. bit addr (k + j) \<longleftrightarrow> k + j < xlen"
      show ?r using spec [OF *, of "i - k" for i] by (metis atLeastLessThan_iff le_add_diff_inverse)
    qed (use high in auto)
    finally show ?thesis .
  qed
  have can: "canonical xlen (PAGE_SIZE_LOG + n) addr \<longleftrightarrow> (\<forall>i \<in> {k..<xlen}. bit addr i \<longleftrightarrow> bit addr k)"
    by (simp add: canonical_def PAGE_SIZE_LOG_def k_def)
  have "k \<in> {k..<xlen}" using k by simp
  then show ?thesis
    unfolding not_sign_extended_def d m none all can by (cases "bit addr k") blast+
qed

lemma superpage_address:
  assumes "ppn mod 2 ^ n = 0" "addr = vpn * PAGE_SIZE + off" "off < PAGE_SIZE"
  shows "off + PAGE_SIZE * ((vpn mod 2 ^ n + 2 ^ n * (ppn div 2 ^ n)) mod 2 ^ w) =
    (ppn * PAGE_SIZE + addr mod (PAGE_SIZE * 2 ^ n)) mod (PAGE_SIZE * 2 ^ w)"
proof -
  have cut: "(x * PAGE_SIZE + off) mod (PAGE_SIZE * m) = PAGE_SIZE * (x mod m) + off" for x m
    using assms(3) by (simp add: mod_mult2_eq)
  have "ppn = 2 ^ n * (ppn div 2 ^ n)" using assms(1) mult_div_mod_eq [of "2 ^ n" ppn] by simp
  then have "ppn * PAGE_SIZE + (PAGE_SIZE * (vpn mod 2 ^ n) + off) = (vpn mod 2 ^ n + 2 ^ n * (ppn div 2 ^ n)) * PAGE_SIZE + off"
    by (simp add: algebra_simps)
  then have "(ppn * PAGE_SIZE + addr mod (PAGE_SIZE * 2 ^ n)) mod (PAGE_SIZE * 2 ^ w)
      = ((vpn mod 2 ^ n + 2 ^ n * (ppn div 2 ^ n)) * PAGE_SIZE + off) mod (PAGE_SIZE * 2 ^ w)"
    unfolding assms(2) cut [of vpn "2 ^ n"] by (rule arg_cong)
  also have "\<dots> = PAGE_SIZE * ((vpn mod 2 ^ n + 2 ^ n * (ppn div 2 ^ n)) mod 2 ^ w) + off" by (rule cut)
  finally show ?thesis by simp
qed

text \<open>The address of a page that is no larger than the physical address space is in it.\<close>

lemma page_in_space:
  fixes ppn :: nat
  assumes "ppn mod 2 ^ n = 0" "ppn < 2 ^ w" "n \<le> w"
  shows "ppn * PAGE_SIZE + addr mod (PAGE_SIZE * 2 ^ n) < PAGE_SIZE * 2 ^ w"
proof -
  have w: "(2 :: nat) ^ w = 2 ^ n * 2 ^ (w - n)" using assms(3) by (simp flip: power_add)
  define q where "q = ppn div 2 ^ n"
  have ppn: "ppn = 2 ^ n * q" using assms(1) mult_div_mod_eq [of "2 ^ n" ppn] by (simp add: q_def)
  then have "q < 2 ^ (w - n)" using assms(2) unfolding w by simp
  then have "PAGE_SIZE * 2 ^ n * Suc q \<le> PAGE_SIZE * 2 ^ n * 2 ^ (w - n)" by (intro mult_le_mono2) simp
  moreover have "0 < PAGE_SIZE * (2 :: nat) ^ n" by (simp add: PAGE_SIZE_def PAGE_SIZE_LOG_def)
  then have "addr mod (PAGE_SIZE * 2 ^ n) < PAGE_SIZE * 2 ^ n" by (rule mod_less_divisor)
  ultimately show ?thesis unfolding w ppn by (simp add: algebra_simps)
qed

text \<open>
  What the translation of an address in a paged mode must be, given the walk for it. A page that is larger than the physical address
  space, which it must then start, is cut to the width of physical addresses.
\<close>

definition translation_is ::
  "vmem_params \<Rightarrow> nat \<Rightarrow> translator_mode \<Rightarrow> vmem_csrs \<Rightarrow> nat \<Rightarrow> bool \<Rightarrow> walk_end \<Rightarrow> translate_accept \<Rightarrow> bool" where
  "translation_is p pb tm c addr st we t \<longleftrightarrow>
     (let n = bits_per_page_table_level (vp_xlen p) in
      case we of
        Walk_access_fault \<Rightarrow> tx_access_fault t \<and> \<not> tx_page_fault t
      | Walk_page_fault \<Rightarrow> tx_page_fault t \<and> \<not> tx_access_fault t
      | Walk_leaf level e \<Rightarrow>
          if leaf_usable p st level e \<and> access_permitted tm c st e then
            \<not> tx_page_fault t \<and> \<not> tx_access_fault t \<and>
            (let paddr = pte_ppn e * PAGE_SIZE + addr mod (PAGE_SIZE * 2 ^ (n * level))
             in tx_paddr t = (if n * level \<le> ppn_width pb then paddr else paddr mod (PAGE_SIZE * 2 ^ ppn_width pb)))
          else tx_page_fault t \<and> \<not> tx_access_fault t)"

lemma permission_checks:
  assumes "st \<longrightarrow> pte_D e"
  shows "\<not> rwx_fault tm c st (pte_permissions e) \<and> \<not> user_fault tm c (pte_permissions e) \<longleftrightarrow> access_permitted tm c st e"
  using assms
  by (cases tm) (auto simp: rwx_fault_def user_fault_def access_permitted_def pte_permissions_def Let_def)

lemma paged_translation:
  assumes tlb: "supported_non_bare_schemes p \<noteq> []" and r: "\<not> fw_is_bare r" "\<not> fw_vpn_invalid r"
    and d: "walk_answers p (fw_is_store r) asid we d"
    and level: "\<And>level e. we = Walk_leaf level e \<Longrightarrow> level \<le> vp_max_tlb_size_class p \<and> pte_ppn e < 2 ^ ppn_width pb"
  shows "translation_is p pb tm c (fw_vaddr r) (fw_is_store r) we (translate_respond p pb tm c r d)"
proof (cases we)
  case (Walk_leaf level e)
  show ?thesis
  proof (cases "leaf_usable p (fw_is_store r) level e")
    case True
    define n where "n = bits_per_page_table_level (vp_xlen p) * level"
    define vpn off where "vpn = fw_vaddr r div PAGE_SIZE" and "off = fw_vaddr r mod PAGE_SIZE"
    have hit: "ta_result d = TLB_HIT" "ta_ppn d = pte_ppn e" "ta_permissions d = pte_permissions e" "ta_size_class d = level"
      using d True Walk_leaf by (simp_all add: walk_answers_def)
    have size: "drop_bit PAGE_SIZE_LOG x = x div PAGE_SIZE" "take_bit PAGE_SIZE_LOG x = x mod PAGE_SIZE"
      "push_bit PAGE_SIZE_LOG x = PAGE_SIZE * x" for x :: nat
      by (simp_all add: drop_bit_eq_div take_bit_eq_mod push_bit_eq_mult PAGE_SIZE_def)
    have lvl: "level \<le> vp_max_tlb_size_class p" "pte_ppn e < 2 ^ ppn_width pb" using level [OF Walk_leaf] by blast+
    have "tx_paddr (translate_respond p pb tm c r d) =
        off + PAGE_SIZE * ((vpn mod 2 ^ n + 2 ^ n * (pte_ppn e div 2 ^ n)) mod 2 ^ ppn_width pb)"
      using tlb r lvl(1) hit
      by (simp add: translate_respond_def Let_def superpage_ppn_def size vpn_def off_def n_def take_bit_eq_mod
          push_bit_eq_mult drop_bit_eq_div mult.commute PAGE_SIZE_def)
    also have "\<dots> = (pte_ppn e * PAGE_SIZE + fw_vaddr r mod (PAGE_SIZE * 2 ^ n)) mod (PAGE_SIZE * 2 ^ ppn_width pb)"
      by (rule superpage_address)
        (use True in \<open>simp_all add: leaf_usable_def n_def vpn_def off_def PAGE_SIZE_def PAGE_SIZE_LOG_def\<close>)
    finally have paddr: "tx_paddr (translate_respond p pb tm c r d) =
        (pte_ppn e * PAGE_SIZE + fw_vaddr r mod (PAGE_SIZE * 2 ^ n)) mod (PAGE_SIZE * 2 ^ ppn_width pb)" .
    have faults: "\<not> tx_access_fault (translate_respond p pb tm c r d)"
      "tx_page_fault (translate_respond p pb tm c r d) \<longleftrightarrow> \<not> access_permitted tm c (fw_is_store r) e"
      using tlb r hit permission_checks [of "fw_is_store r" e tm c] True
      by (auto simp: translate_respond_def Let_def leaf_usable_def)
    have "n \<le> ppn_width pb \<Longrightarrow> tx_paddr (translate_respond p pb tm c r d) = pte_ppn e * PAGE_SIZE + fw_vaddr r mod (PAGE_SIZE * 2 ^ n)"
      using page_in_space [OF _ lvl(2), of n "fw_vaddr r"] True unfolding paddr by (simp add: leaf_usable_def n_def)
    then show ?thesis
      unfolding translation_is_def Walk_leaf Let_def using True paddr faults by (simp add: n_def)
  next
    case False
    then show ?thesis
      unfolding translation_is_def Walk_leaf using d tlb r
      by (simp add: walk_answers_def Walk_leaf translate_respond_def Let_def)
  qed
qed (use d tlb r in \<open>simp_all add: translation_is_def walk_answers_def translate_respond_def Let_def\<close>)

section \<open>Translation over a backing device\<close>

text \<open>
  The translator asks a backing device (\<^verbatim>\<open>priv/vmem/iface.py\<close>): whatever stands behind the interface answers as the
  architecture's walk does.
\<close>

locale backing_device =
  fixes p :: vmem_params and pb :: nat and pmp_r :: "nat \<Rightarrow> bool" and mem :: "nat \<Rightarrow> bool \<times> nat"
    and answer :: "satp_csr \<Rightarrow> nat \<Rightarrow> bool \<Rightarrow> tlb_accept"
  assumes answer_walk: "mk_VirtualMemoryParameters xlen super asidlen schemes = Inr p \<Longrightarrow>
      satp_mode satp \<in> set (supported_non_bare_schemes p) \<Longrightarrow>
      walk_answers p st (satp_asid satp)
        (page_walk p pb pmp_r mem vpn (levels (satp_mode satp) - 1) (satp_ppn satp mod 2 ^ ppn_width pb)) (answer satp vpn st)"
begin

lemma translates:
  assumes mk: "mk_VirtualMemoryParameters xlen super asidlen schemes = Inr p"
    and addr: "addr < 2 ^ xlen"
    and req: "translate_request p pb tm sm c addr st = (r, req)"
    and d: "\<And>vpn st. req = Some (vpn, st) \<Longrightarrow> d = answer (vc_satp c) vpn st"
    and mode: "effective_satp_mode tm sm c \<in> set (supported_non_bare_schemes p)"
  shows "if canonical xlen (PAGE_SIZE_LOG + bits_per_page_table_level xlen * levels (satp_mode (vc_satp c))) addr then
      translation_is p pb tm c addr st (page_walk p pb pmp_r mem (addr div PAGE_SIZE) (levels (satp_mode (vc_satp c)) - 1)
        (satp_ppn (vc_satp c) mod 2 ^ ppn_width pb)) (translate_respond p pb tm c r d)
    else (tx_page_fault (translate_respond p pb tm c r d) \<longleftrightarrow> ta_result d \<noteq> TLB_ACCESS_FAULT) \<and>
      (tx_access_fault (translate_respond p pb tm c r d) \<longleftrightarrow> ta_result d = TLB_ACCESS_FAULT)"
proof -
  let ?m = "effective_satp_mode tm sm c" and ?n = "bits_per_page_table_level xlen * levels (satp_mode (vc_satp c))"
  have bare: "?m \<noteq> Satp_BARE" using mode by (auto simp: non_bare_def)
  then have m: "?m = satp_mode (vc_satp c)" by (auto simp: effective_satp_mode_def split: if_splits)
  note k = mk_params_scheme [OF mk mode [unfolded m]] and x = mk_params_fields(1,2) [OF mk]
  have "0 < ?n" "12 + ?n \<le> xlen"
    using k(1,4) x(2) by (auto simp: bits_per_page_table_level_def PAGE_SIZE_LOG_def)
  note sign = sign_extension_check [OF addr this]
  have tlb: "supported_non_bare_schemes p \<noteq> []" using mode by auto
  have r: "\<not> fw_is_bare r" "fw_vaddr r = addr" "fw_is_store r = st"
    "fw_vpn_invalid r \<longleftrightarrow> \<not> canonical xlen (PAGE_SIZE_LOG + ?n) addr"
    "\<not> fw_vpn_invalid r \<longrightarrow> req = Some (addr div PAGE_SIZE, st)"
    using req mode bare tlb sign
    by (auto simp: translate_request_def Let_def x(1) m drop_bit_eq_div PAGE_SIZE_def)
  show ?thesis
  proof (cases "fw_vpn_invalid r")
    case True
    then show ?thesis using r tlb by (simp add: translate_respond_def Let_def)
  next
    case False
    let ?we = "page_walk p pb pmp_r mem (addr div PAGE_SIZE) (levels (satp_mode (vc_satp c)) - 1)
        (satp_ppn (vc_satp c) mod 2 ^ ppn_width pb)"
    have "walk_answers p (fw_is_store r) (satp_asid (vc_satp c)) ?we d"
      using answer_walk [OF mk mode [unfolded m]] d r(3,5) False by simp
    moreover have "level \<le> vp_max_tlb_size_class p \<and> pte_ppn e < 2 ^ ppn_width pb" if "?we = Walk_leaf level e" for level e
      using page_walk_leaf(1,2) [OF that] k(3) by simp
    ultimately show ?thesis using paged_translation [OF tlb r(1) False, of _ ?we d pb tm c] False r(2-4) by auto
  qed
qed

lemma translates_bare:
  assumes addr: "translate_request p pb tm sm c addr st = (r, req)" and mode: "effective_satp_mode tm sm c = Satp_BARE"
  shows "\<not> tx_page_fault (translate_respond p pb tm c r d) \<and>
    (tx_access_fault (translate_respond p pb tm c r d) \<longleftrightarrow> PAGE_SIZE * 2 ^ ppn_width pb \<le> addr) \<and>
    (addr < PAGE_SIZE * 2 ^ ppn_width pb \<longrightarrow> tx_paddr (translate_respond p pb tm c r d) = addr)"
proof -
  have r: "fw_is_bare r" "fw_vaddr r = addr" "fw_access_fault r \<longleftrightarrow> 2 ^ ppn_width pb \<le> addr div PAGE_SIZE"
    using assms by (auto simp: translate_request_def Let_def max_ppn_def drop_bit_eq_div PAGE_SIZE_def Suc_le_eq [symmetric])
  have pos: "0 < PAGE_SIZE" by (simp add: PAGE_SIZE_def PAGE_SIZE_LOG_def)
  have big: "2 ^ ppn_width pb \<le> addr div PAGE_SIZE \<longleftrightarrow> PAGE_SIZE * 2 ^ ppn_width pb \<le> addr"
    using pos by (simp add: less_eq_div_iff_mult_less_eq mult.commute)
  have "tx_paddr (translate_respond p pb tm c r d) = addr mod PAGE_SIZE + PAGE_SIZE * (addr div PAGE_SIZE mod 2 ^ ppn_width pb)"
    using r(1,2) by (simp add: translate_respond_def Let_def take_bit_eq_mod drop_bit_eq_div push_bit_eq_mult PAGE_SIZE_def mult.commute)
  then have "addr < PAGE_SIZE * 2 ^ ppn_width pb \<Longrightarrow> tx_paddr (translate_respond p pb tm c r d) = addr"
    using big by (simp add: not_le [symmetric])
  then show ?thesis using r big by (simp add: translate_respond_def Let_def)
qed

end

text \<open>The walker behind a bus that takes every request and answers it in the next cycle is such a device.\<close>

definition ready_input :: "vmem_params \<Rightarrow> (nat \<Rightarrow> bool \<times> nat) \<Rightarrow> walker \<Rightarrow> ptw_in" where
  "ready_input p mem w = \<lparr>pi_request = None, pi_bus_ready = True,
     pi_response = Some (mem (drop_bit (pte_bytes_log (vp_xlen p)) (pte_addr p (pw_vpn w) (pw_level w) (pw_ppn w)))),
     pi_accept = False\<rparr>"

fun walker_serve :: "vmem_params \<Rightarrow> nat \<Rightarrow> (nat \<Rightarrow> bool) \<Rightarrow> (nat \<Rightarrow> bool \<times> nat) \<Rightarrow> nat \<Rightarrow> walker \<Rightarrow> walker" where
  "walker_serve p pb pmp_r mem 0 w = w"
| "walker_serve p pb pmp_r mem (Suc k) w = walker_serve p pb pmp_r mem k (walker_cycle p pb pmp_r (ready_input p mem w) w)"

definition walker_reset :: walker where
  "walker_reset = \<lparr>pw_fsm = Ptw_IDLE, pw_level = 0, pw_vpn = 0, pw_is_store = False, pw_ppn = 0, pw_access_fault = False,
     pw_page_fault = False, pw_asid = 0, pw_accessed = False, pw_permissions = ta_permissions no_tlb_data\<rparr>"

definition walker_answer :: "vmem_params \<Rightarrow> nat \<Rightarrow> (nat \<Rightarrow> bool) \<Rightarrow> (nat \<Rightarrow> bool \<times> nat) \<Rightarrow> satp_csr \<Rightarrow> nat \<Rightarrow> bool \<Rightarrow> tlb_accept" where
  "walker_answer p pb pmp_r mem satp vpn st =
     walk_accept p (walker_serve p pb pmp_r mem (2 * levels (satp_mode satp)) (walk_request p pb satp vpn st walker_reset))"

lemma serve_rep:
  assumes "walker_rep p pb pmp_r mem st asid we w"
  shows "walker_rep p pb pmp_r mem st asid we (walker_serve p pb pmp_r mem k w) \<and>
    walker_measure (walker_serve p pb pmp_r mem k w) \<le> walker_measure w - k"
  using assms
proof (induction k arbitrary: w)
  case (Suc k)
  have "bus_faithful p mem (ready_input p mem w) w" "bus_grants (ready_input p mem w)"
    by (simp_all add: bus_faithful_def bus_grants_def ready_input_def)
  note c = cycle_rep [OF Suc.prems this(1)] this(2)
  from Suc.IH [OF c(1)] c(2-4) show ?case
    by (cases "walker_measure w = 0") (auto simp del: walker_measure.simps)
qed simp

interpretation walker_device: backing_device p pb pmp_r mem "walker_answer p pb pmp_r mem" for p pb pmp_r mem
proof
  fix xlen super asidlen schemes st vpn and satp :: satp_csr
  assume "mk_VirtualMemoryParameters xlen super asidlen schemes = Inr p" "satp_mode satp \<in> set (supported_non_bare_schemes p)"
  note req = request_rep [OF this refl, of pb pmp_r mem st vpn walker_reset]
  note rep = serve_rep [OF conjunct1 [OF req], of "2 * levels (satp_mode satp)"]
  have "walker_measure (walker_serve p pb pmp_r mem (2 * levels (satp_mode satp)) (walk_request p pb satp vpn st walker_reset)) = 0"
    using rep req by (simp del: walker_measure.simps)
  note fin = measure_done [OF conjunct1 [OF rep] this]
  show "walk_answers p st (satp_asid satp) (page_walk p pb pmp_r mem vpn (levels (satp_mode satp) - 1)
      (satp_ppn satp mod 2 ^ ppn_width pb)) (walker_answer p pb pmp_r mem satp vpn st)"
    unfolding walker_answer_def using conjunct1 [OF rep] fin by (simp add: walker_rep_def)
qed

text \<open>
  C30. Address translation. Without paging (bare mode, or machine mode) an address is its own physical address, with
  an access fault when it exceeds the physical address space. In a paged mode an address that is the sign
  extension of a virtual address has the outcome of the architecture's page walk:
  its faults, a page fault when the leaf is unusable or the access is not permitted by its R, W, X and U bits, MXR
  and SUM, and else the physical page with the offset within a page of the leaf's size. There is one exception: in a page larger than the
  physical address space the address is cut to the width of physical addresses, where the architecture has an access fault for what exceeds them. Any
  other address has a fault, which is a page fault unless the idle backing device still shows an access fault of an earlier
  answer; then this is reported.
\<close>

theorem translation_correct:
  assumes "mk_VirtualMemoryParameters xlen super asidlen schemes = Inr p" "addr < 2 ^ xlen"
    and "translate_request p pb tm sm c addr st = (r, req)"
    and "\<And>vpn st. req = Some (vpn, st) \<Longrightarrow> d = walker_answer p pb pmp_r mem (vc_satp c) vpn st"
    and "t = translate_respond p pb tm c r d" "satp = vc_satp c"
  shows "(effective_satp_mode tm sm c = Satp_BARE \<longrightarrow>
      \<not> tx_page_fault t \<and> (tx_access_fault t \<longleftrightarrow> PAGE_SIZE * 2 ^ ppn_width pb \<le> addr) \<and>
      (addr < PAGE_SIZE * 2 ^ ppn_width pb \<longrightarrow> tx_paddr t = addr)) \<and>
    (effective_satp_mode tm sm c \<in> set (supported_non_bare_schemes p) \<longrightarrow>
      (if canonical xlen (PAGE_SIZE_LOG + bits_per_page_table_level xlen * levels (satp_mode satp)) addr then
         translation_is p pb tm c addr st (page_walk p pb pmp_r mem (addr div PAGE_SIZE) (levels (satp_mode satp) - 1)
           (satp_ppn satp mod 2 ^ ppn_width pb)) t
       else (tx_page_fault t \<longleftrightarrow> ta_result d \<noteq> TLB_ACCESS_FAULT) \<and> (tx_access_fault t \<longleftrightarrow> ta_result d = TLB_ACCESS_FAULT)))"
  unfolding assms(5,6)
  using walker_device.translates [OF assms(1-4)] walker_device.translates_bare [OF assms(3)] by blast

definition sv32_example :: vmem_params where
  "sv32_example = \<lparr>vp_xlen = 32, vp_schemes = [Satp_BARE, Satp_SV32], vp_asidlen = 9, vp_max_tlb_vpn_bits = 20,
     vp_max_tlb_size_class = 1\<rparr>"

lemma sv32_example_params: "mk_VirtualMemoryParameters 32 True None [Satp_BARE, Satp_SV32] = Inr sv32_example"
  by (simp add: mk_VirtualMemoryParameters_def SatpLayout_def valid_modes_def sv32_example_def non_bare_def max_list_def
      scheme_vpn_bits_def vpn_bits_def levels_def bits_per_page_table_level_def)

text \<open>A table whose entries are all a readable superpage at page 3072, accessed, and not writable.\<close>

definition example_memory :: "nat \<Rightarrow> bool \<times> nat" where
  "example_memory a = (False, 3072 * 1024 + 67)"

lemma example_pte: "pte_view 32 (3072 * 1024 + 67) = \<lparr>pte_V = True, pte_R = True, pte_W = False, pte_X = False, pte_U = False,
  pte_G = False, pte_A = True, pte_D = False, pte_ppn = 3072, pte_reserved = False\<rparr>"
  by (simp add: pte_view_def)

lemma example_walk: "page_walk sv32_example 34 (\<lambda>_. True) example_memory vpn 1 1 =
  Walk_leaf 1 (pte_view 32 (3072 * 1024 + 67))"
  by (subst page_walk.simps)
    (simp add: Let_def example_memory_def sv32_example_def example_pte [simplified] pte_invalid_def is_leaf_def ppn_width_def
      PAGE_SIZE_LOG_def)

definition example_satp :: satp_csr where
  "example_satp = \<lparr>satp_mode = Satp_SV32, satp_ppn = 1, satp_asid = 5\<rparr>"

definition example_response :: ptw_in where
  "example_response = \<lparr>pi_request = None, pi_bus_ready = True, pi_response = Some (example_memory 0), pi_accept = False\<rparr>"

lemma example_faithful:
  "bus_run_faithful p pb pmp_r example_memory (replicate k example_response) w"
  by (induction k arbitrary: w) (simp_all add: bus_faithful_def example_response_def example_memory_def)

lemma example_supported: "Satp_SV32 \<in> set (supported_non_bare_schemes sv32_example)" "levels Satp_SV32 = 2"
  by (simp_all add: sv32_example_def non_bare_def levels_def)

lemma example_usable: "leaf_usable sv32_example False 1 (pte_view 32 (3072 * 1024 + 67))"
  by (simp add: leaf_usable_def sv32_example_def bits_per_page_table_level_def example_pte [simplified])

theorem walker_refines_witness:
  "\<exists>w'. pw_fsm w' = Ptw_DONE \<and> ta_result (walk_accept sv32_example w') = TLB_HIT \<and>
     ta_ppn (walk_accept sv32_example w') = 3072 \<and> ta_size_class (walk_accept sv32_example w') = 1"
proof -
  let ?i = "example_response\<lparr>pi_request := Some (example_satp, 5, False)\<rparr>"
  let ?w = "walker_cycle sv32_example 34 (\<lambda>_. True) ?i walker_reset"
  let ?w' = "walker_run sv32_example 34 (\<lambda>_. True) (replicate 4 example_response) ?w"
  have pre: "pw_fsm walker_reset = Ptw_IDLE" "pi_request ?i = Some (example_satp, 5, False)"
    by (simp_all add: walker_reset_def)
  have grants: "length (filter bus_grants (replicate 4 example_response)) = 4"
    by (simp add: bus_grants_def example_response_def)
  have satp: "satp_mode example_satp = Satp_SV32" "satp_ppn example_satp mod 2 ^ ppn_width 34 = 1"
    by (simp_all add: example_satp_def ppn_width_def PAGE_SIZE_LOG_def)
  note c = walker_refines [where pb = 34 and pmp_r = "\<lambda>_. True", OF sv32_example_params pre example_faithful [of _ _ _ 4] refl,
      unfolded satp example_supported(2) grants if_P [OF example_supported(1)]]
  then have "pw_fsm ?w' = Ptw_DONE" by simp
  moreover from c this have "walk_answers sv32_example False (satp_asid example_satp)
      (Walk_leaf 1 (pte_view 32 (3072 * 1024 + 67))) (walk_accept sv32_example ?w')"
    using example_walk [of 5] by simp
  then have "ta_result (walk_accept sv32_example ?w') = TLB_HIT" "ta_ppn (walk_accept sv32_example ?w') = 3072"
    "ta_size_class (walk_accept sv32_example ?w') = 1"
    using example_usable example_pte by (simp_all add: walk_answers_def)
  ultimately show ?thesis by blast
qed

definition example_csrs :: vmem_csrs where
  "example_csrs = \<lparr>vc_priv_mode = Priv_SUPERVISOR, vc_mprv = False, vc_mpp = Priv_USER, vc_mxr = False, vc_sum = False,
     vc_satp = example_satp\<rparr>"

theorem translation_correct_witness:
  "\<exists>t. \<not> tx_page_fault t \<and> \<not> tx_access_fault t \<and> tx_paddr t = 0xF45678 \<and>
     (\<exists>r d. t = translate_respond sv32_example 34 Translate_LSU example_csrs r d \<and>
        fst (translate_request sv32_example 34 Translate_LSU True example_csrs 0x12345678 False) = r)"
proof -
  obtain r req where req: "translate_request sv32_example 34 Translate_LSU True example_csrs 0x12345678 False = (r, req)"
    by fastforce
  define d where "d = (case req of Some (vpn, st) \<Rightarrow> walker_answer sv32_example 34 (\<lambda>_. True) example_memory (vc_satp example_csrs) vpn st
    | None \<Rightarrow> no_tlb_data)"
  define t where "t = translate_respond sv32_example 34 Translate_LSU example_csrs r d"
  have d: "\<And>vpn st. req = Some (vpn, st) \<Longrightarrow> d = walker_answer sv32_example 34 (\<lambda>_. True) example_memory (vc_satp example_csrs) vpn st"
    by (simp add: d_def)
  have addr: "(0x12345678 :: nat) < 2 ^ 32" by simp
  have satp: "vc_satp example_csrs = example_satp" "satp_mode example_satp = Satp_SV32" "satp_ppn example_satp mod 2 ^ ppn_width 34 = 1"
    by (simp_all add: example_csrs_def example_satp_def ppn_width_def PAGE_SIZE_LOG_def)
  have mode: "effective_satp_mode Translate_LSU True example_csrs = Satp_SV32"
    by (simp add: effective_satp_mode_def effective_mode_def example_csrs_def example_satp_def)
  have "{31..<32} = {31 :: nat}" by auto
  then have can: "canonical 32 (PAGE_SIZE_LOG + bits_per_page_table_level 32 * 2) 0x12345678"
    by (simp add: canonical_def PAGE_SIZE_LOG_def bits_per_page_table_level_def)
  note c = translation_correct [OF sv32_example_params addr req d t_def refl, simplified, unfolded mode satp example_supported(2),
      THEN conjunct2]
  have "translation_is sv32_example 34 Translate_LSU example_csrs 0x12345678 False
      (Walk_leaf 1 (pte_view 32 (3072 * 1024 + 67))) t"
    using c example_supported(1) can example_walk [of "0x12345678 div PAGE_SIZE"] by simp
  moreover have "access_permitted Translate_LSU example_csrs False (pte_view 32 (3072 * 1024 + 67))"
    unfolding example_pte by (simp add: access_permitted_def example_csrs_def effective_mode_def)
  moreover have "3072 * PAGE_SIZE + 0x12345678 mod (PAGE_SIZE * 2 ^ (bits_per_page_table_level 32 * 1)) = 0xF45678"
    "bits_per_page_table_level 32 * 1 \<le> ppn_width 34"
    by (simp_all add: PAGE_SIZE_def PAGE_SIZE_LOG_def bits_per_page_table_level_def ppn_width_def)
  moreover have "vp_xlen sv32_example = 32" by (simp add: sv32_example_def)
  ultimately have "\<not> tx_page_fault t \<and> \<not> tx_access_fault t \<and> tx_paddr t = 0xF45678"
    using example_usable example_pte by (simp add: translation_is_def Let_def)
  then show ?thesis using req t_def by auto
qed

end
