(* ===== verification/Retirement.thy ===== *)
theory Retirement
  imports Exception_Register Rob Rrat "HOL-Library.Word"
begin

text \<open>
  Retirement (\<^verbatim>\<open>backend/retirement.py\<close>): in every cycle the oldest entries of the reorder buffer are committed or
  flushed, in program order, as far as they are done and belong to at most two tags; an exception of an
  instruction on the current path starts a trap, after which the core is flushed and resumed at the handler.
  Bit masks are lists of booleans, one for each peeked entry. The functions on masks come from the Transactron
  library: they are parameters, and \<open>mask_utils_spec\<close> states what is relied on.
\<close>

section \<open>Functions on masks\<close>

record mask_utils =
  count_trailing_zeros :: "bool list \<Rightarrow> nat"
  mask_before_first_set_bit :: "bool list \<Rightarrow> bool list"
  mask_from_first_set_bit :: "bool list \<Rightarrow> bool list"
  clear_lowest_set_bit :: "bool list \<Rightarrow> bool list"
  mask_popcount :: "bool list \<Rightarrow> nat"

fun first_set :: "bool list \<Rightarrow> nat" where
  "first_set [] = 0"
| "first_set (b # bs) = (if b then 0 else Suc (first_set bs))"

fun clear_lowest :: "bool list \<Rightarrow> bool list" where
  "clear_lowest [] = []"
| "clear_lowest (b # bs) = (if b then False # bs else False # clear_lowest bs)"

text \<open>Without a set bit the number of trailing zeros is the width, and every bit is before the first set bit.\<close>

definition mask_utils_spec :: "mask_utils \<Rightarrow> bool" where
  "mask_utils_spec U \<longleftrightarrow>
     (\<forall>v. count_trailing_zeros U v = first_set v \<and>
          mask_before_first_set_bit U v = map (\<lambda>i. i < first_set v) [0..<length v] \<and>
          mask_from_first_set_bit U v = map (\<lambda>i. first_set v \<le> i) [0..<length v] \<and>
          clear_lowest_set_bit U v = clear_lowest v \<and>
          mask_popcount U v = length (filter (\<lambda>b. b) v))"

definition mask_or :: "bool list \<Rightarrow> bool list \<Rightarrow> bool list" where
  "mask_or a b = map2 (\<or>) a b"

definition mask_and :: "bool list \<Rightarrow> bool list \<Rightarrow> bool list" where
  "mask_and a b = map2 (\<and>) a b"

definition mask_not :: "bool list \<Rightarrow> bool list" where
  "mask_not a = map Not a"

definition mask_any :: "bool list \<Rightarrow> bool" where
  "mask_any a = (\<exists>b \<in> set a. b)"

section \<open>State and inputs\<close>

record rob_entry =
  re_rob_id :: nat
  re_rl_dst :: nat
  re_rp_dst :: nat
  re_tag_increment :: bool
  re_ftq_ptr :: nat
  re_done :: bool
  re_exception :: bool
  re_pure :: bool

datatype ret_fsm = Ret_NORMAL | Ret_TRAP_FLUSH | Ret_TRAP_RESUME

record retirement =
  rt_fsm :: ret_fsm
  rt_trap_target_priv :: PrivilegeLevel
  rt_ftq_commit_ptr :: nat
  rt_last_retired_tag :: nat
  rt_instret :: nat

text \<open>
  What a cycle sees: the peeked entries, the active tags, the exception information register, whether the core
  is empty after removing the retired instructions, the privilege the interrupt controller gives a trap, the cause
  of a pending interrupt, the trap vectors, and whether the transaction of the state is granted.
\<close>

record (overloaded) 'a ret_in =
  ri_entries :: "rob_entry list"
  ri_active :: "nat \<Rightarrow> bool"
  ri_ecr :: "'a::len exc_report"
  ri_ecr_valid :: bool
  ri_core_empty :: bool
  ri_target_priv :: "'a word \<Rightarrow> PrivilegeLevel"
  ri_async_cause :: "'a word"
  ri_tvec_base :: "PrivilegeLevel \<Rightarrow> 'a word"
  ri_tvec_vectored :: "PrivilegeLevel \<Rightarrow> bool"
  ri_tcause :: "PrivilegeLevel \<Rightarrow> 'a word"
  ri_granted :: bool

section \<open>Masks of a cycle\<close>

definition tag_incr_mask :: "rob_entry list \<Rightarrow> bool list" where
  "tag_incr_mask es = map re_tag_increment es"

definition done_ignore_mask :: "mask_utils \<Rightarrow> rob_entry list \<Rightarrow> bool list" where
  "done_ignore_mask U es = mask_from_first_set_bit U (mask_not (map re_done es))"

definition done_count :: "mask_utils \<Rightarrow> rob_entry list \<Rightarrow> nat" where
  "done_count U es = count_trailing_zeros U (mask_not (map re_done es))"

definition limiting_instruction_mask :: "mask_utils \<Rightarrow> rob_entry list \<Rightarrow> bool list" where
  "limiting_instruction_mask U es = mask_or (clear_lowest_set_bit U (tag_incr_mask es)) (done_ignore_mask U es)"

definition retire_count :: "mask_utils \<Rightarrow> rob_entry list \<Rightarrow> nat" where
  "retire_count U es = count_trailing_zeros U (limiting_instruction_mask U es)"

definition retiring_mask :: "mask_utils \<Rightarrow> rob_entry list \<Rightarrow> bool list" where
  "retiring_mask U es = mask_before_first_set_bit U (limiting_instruction_mask U es)"

definition free_tag :: "mask_utils \<Rightarrow> rob_entry list \<Rightarrow> bool" where
  "free_tag U es = mask_any (mask_and (tag_incr_mask es) (retiring_mask U es))"

definition next_last_retired_tag :: "mask_utils \<Rightarrow> nat \<Rightarrow> rob_entry list \<Rightarrow> nat \<Rightarrow> nat" where
  "next_last_retired_tag U tag_bits es tag = (if free_tag U es then (tag + 1) mod 2 ^ tag_bits else tag)"

definition first_tag_incr_mask :: "mask_utils \<Rightarrow> rob_entry list \<Rightarrow> bool list" where
  "first_tag_incr_mask U es = mask_or (tag_incr_mask es) (done_ignore_mask U es)"

text \<open>
  \<^verbatim>\<open>-active << pos\<close> is a value whose bits from \<^verbatim>\<open>pos\<close> on are all set, if the tag is active, and zero otherwise.
\<close>

definition tag_active_mask :: "mask_utils \<Rightarrow> nat \<Rightarrow> (nat \<Rightarrow> bool) \<Rightarrow> nat \<Rightarrow> rob_entry list \<Rightarrow> bool list" where
  "tag_active_mask U tag_bits active tag es =
     (let n = length es;
          suffix = (if active tag then mask_before_first_set_bit U (first_tag_incr_mask U es) else replicate n False);
          pos = count_trailing_zeros U (first_tag_incr_mask U es);
          prefix = map (\<lambda>i. active (next_last_retired_tag U tag_bits es tag) \<and> pos \<le> i) [0..<n]
      in mask_and (mask_or suffix prefix) (retiring_mask U es))"

definition exception_bits :: "mask_utils \<Rightarrow> nat \<Rightarrow> (nat \<Rightarrow> bool) \<Rightarrow> nat \<Rightarrow> rob_entry list \<Rightarrow> bool list" where
  "exception_bits U tag_bits active tag es = mask_and (map re_exception es) (tag_active_mask U tag_bits active tag es)"

definition no_trap_count :: "mask_utils \<Rightarrow> nat \<Rightarrow> (nat \<Rightarrow> bool) \<Rightarrow> nat \<Rightarrow> rob_entry list \<Rightarrow> nat" where
  "no_trap_count U tag_bits active tag es =
     count_trailing_zeros U (mask_or (exception_bits U tag_bits active tag es) (mask_not (retiring_mask U es)))"

definition active_no_trap_count :: "mask_utils \<Rightarrow> nat \<Rightarrow> (nat \<Rightarrow> bool) \<Rightarrow> nat \<Rightarrow> rob_entry list \<Rightarrow> nat" where
  "active_no_trap_count U tag_bits active tag es =
     mask_popcount U (mask_and (mask_before_first_set_bit U (exception_bits U tag_bits active tag es))
       (tag_active_mask U tag_bits active tag es))"

definition trap_taken :: "mask_utils \<Rightarrow> nat \<Rightarrow> (nat \<Rightarrow> bool) \<Rightarrow> nat \<Rightarrow> rob_entry list \<Rightarrow> bool" where
  "trap_taken U tag_bits active tag es =
     mask_any (mask_and (exception_bits U tag_bits active tag es) (retiring_mask U es))"

text \<open>The reorder buffer index of the first trapping entry, selected by a priority multiplexer.\<close>

fun first_selected :: "(bool \<times> 'v) list \<Rightarrow> 'v \<Rightarrow> 'v" where
  "first_selected [] d = d"
| "first_selected ((c, v) # cs) d = (if c then v else first_selected cs d)"

definition exception_rob_id :: "mask_utils \<Rightarrow> nat \<Rightarrow> (nat \<Rightarrow> bool) \<Rightarrow> nat \<Rightarrow> rob_entry list \<Rightarrow> nat" where
  "exception_rob_id U tag_bits active tag es =
     first_selected (zip (exception_bits U tag_bits active tag es) (map re_rob_id es)) 0"

definition retire_valid :: "mask_utils \<Rightarrow> nat \<Rightarrow> 'a::len ret_in \<Rightarrow> nat \<Rightarrow> bool" where
  "retire_valid U tag_bits inp tag =
     (if trap_taken U tag_bits (ri_active inp) tag (ri_entries inp) then
        ri_ecr_valid inp \<and> er_rob_id (ri_ecr inp) = exception_rob_id U tag_bits (ri_active inp) tag (ri_entries inp)
      else True)"

section \<open>The state machine\<close>

datatype ret_action = Retire_commit | Retire_flush | Retire_keep

record (overloaded) 'a ret_out =
  ro_actions :: "ret_action list"
  ro_retired :: nat
  ro_free_tag :: bool
  ro_trap :: "(PrivilegeLevel \<times> 'a::len word \<times> 'a word \<times> 'a word) option"
  ro_restore :: bool
  ro_redirect :: "(nat \<times> 'a word) option"
  ro_clear :: bool

definition no_effect :: "rob_entry list \<Rightarrow> 'a::len ret_out" where
  "no_effect es = \<lparr>ro_actions = map (\<lambda>_. Retire_keep) es, ro_retired = 0, ro_free_tag = False, ro_trap = None, ro_restore = False,
     ro_redirect = None, ro_clear = False\<rparr>"

definition commit_trapping :: "'a::len ret_in \<Rightarrow> bool \<Rightarrow> bool" where
  "commit_trapping inp trap = (trap \<and> er_cause (ri_ecr inp) = Cause_COREBLOCKS_ASYNC_INTERRUPT)"

definition cause_entry :: "'a::len ret_in \<Rightarrow> 'a word" where
  "cause_entry inp =
     (if er_cause (ri_ecr inp) = Cause_COREBLOCKS_ASYNC_INTERRUPT then set_bit (LENGTH('a) - 1) (ri_async_cause inp)
      else of_nat (cause_value (er_cause (ri_ecr inp))))"

definition normal_action :: "bool \<Rightarrow> nat \<Rightarrow> nat \<Rightarrow> bool list \<Rightarrow> nat \<Rightarrow> ret_action" where
  "normal_action commit no_trap retired active_mask i =
     (if int i - of_bool commit < int no_trap then (if active_mask ! i then Retire_commit else Retire_flush)
      else if i < retired then Retire_flush else Retire_keep)"

definition instret_increment :: "mask_utils \<Rightarrow> nat \<Rightarrow> 'a::len ret_in \<Rightarrow> nat \<Rightarrow> nat" where
  "instret_increment U tag_bits inp tag =
     (let es = ri_entries inp; active = ri_active inp; trap = trap_taken U tag_bits active tag es
      in if trap then active_no_trap_count U tag_bits active tag es + of_bool (commit_trapping inp trap)
         else mask_popcount U (tag_active_mask U tag_bits active tag es))"

definition last_commit_ftq_ptr :: "ret_action list \<Rightarrow> rob_entry list \<Rightarrow> nat option" where
  "last_commit_ftq_ptr acts es =
     fold (\<lambda>(a, e) acc. if a = Retire_commit then Some (re_ftq_ptr e) else acc) (zip acts es) None"

definition retire_normal :: "mask_utils \<Rightarrow> nat \<Rightarrow> 'a::len ret_in \<Rightarrow> retirement \<Rightarrow> retirement \<times> 'a ret_out" where
  "retire_normal U tag_bits inp s =
     (let es = ri_entries inp; active = ri_active inp; tag = rt_last_retired_tag s;
          trap = trap_taken U tag_bits active tag es;
          acts = map (normal_action (commit_trapping inp trap) (no_trap_count U tag_bits active tag es) (retire_count U es)
                   (tag_active_mask U tag_bits active tag es)) [0..<length es];
          target = ri_target_priv inp (cause_entry inp)
      in (s\<lparr>rt_fsm := (if trap then if ri_core_empty inp then Ret_TRAP_RESUME else Ret_TRAP_FLUSH else Ret_NORMAL),
            rt_trap_target_priv := (if trap then target else rt_trap_target_priv s),
            rt_ftq_commit_ptr := (case last_commit_ftq_ptr acts es of None \<Rightarrow> rt_ftq_commit_ptr s | Some p \<Rightarrow> p),
            rt_last_retired_tag := next_last_retired_tag U tag_bits es tag,
            rt_instret := (rt_instret s + instret_increment U tag_bits inp tag) mod 2 ^ 64\<rparr>,
          (no_effect es)\<lparr>ro_actions := acts, ro_retired := retire_count U es, ro_free_tag := free_tag U es,
            ro_trap := (if trap then Some (target, cause_entry inp, er_pc (ri_ecr inp), er_mtval (ri_ecr inp)) else None)\<rparr>))"

definition retire_flush :: "mask_utils \<Rightarrow> nat \<Rightarrow> 'a::len ret_in \<Rightarrow> retirement \<Rightarrow> retirement \<times> 'a ret_out" where
  "retire_flush U tag_bits inp s =
     (let es = ri_entries inp
      in (s\<lparr>rt_fsm := (if ri_core_empty inp then Ret_TRAP_RESUME else Ret_TRAP_FLUSH),
            rt_last_retired_tag := next_last_retired_tag U tag_bits es (rt_last_retired_tag s)\<rparr>,
          (no_effect es)\<lparr>ro_actions := map (\<lambda>i. if i < retire_count U es then Retire_flush else Retire_keep) [0..<length es],
            ro_retired := retire_count U es, ro_free_tag := free_tag U es\<rparr>))"

text \<open>The handler address: the vector base without its two low bits, plus four times the cause of a vectored interrupt.\<close>

definition handler_pc :: "'a::len ret_in \<Rightarrow> PrivilegeLevel \<Rightarrow> 'a word" where
  "handler_pc inp target =
     (let tcause = ri_tcause inp target;
          offset = (if bit tcause (LENGTH('a) - 1) \<and> ri_tvec_vectored inp target then push_bit 2 tcause else 0)
      in push_bit 2 (ri_tvec_base inp target) + offset)"

definition retire_resume :: "'a::len ret_in \<Rightarrow> retirement \<Rightarrow> retirement \<times> 'a ret_out" where
  "retire_resume inp s =
     (s\<lparr>rt_fsm := Ret_NORMAL\<rparr>,
      (no_effect (ri_entries inp))\<lparr>ro_restore := True,
        ro_redirect := Some (rt_ftq_commit_ptr s, handler_pc inp (rt_trap_target_priv s)), ro_clear := True\<rparr>)"

definition retirement_cycle :: "mask_utils \<Rightarrow> nat \<Rightarrow> 'a::len ret_in \<Rightarrow> retirement \<Rightarrow> retirement \<times> 'a ret_out" where
  "retirement_cycle U tag_bits inp s =
     (if \<not> ri_granted inp then (s, no_effect (ri_entries inp))
      else case rt_fsm s of
        Ret_NORMAL \<Rightarrow>
          if retire_valid U tag_bits inp (rt_last_retired_tag s) then retire_normal U tag_bits inp s
          else (s, no_effect (ri_entries inp))
      | Ret_TRAP_FLUSH \<Rightarrow> retire_flush U tag_bits inp s
      | Ret_TRAP_RESUME \<Rightarrow> retire_resume inp s)"

text \<open>
  Registers of a cycle. A committed instruction updates the retirement alias table, and the register that it
  overwrites there is freed; a flushed instruction gives up its own result register. Every freed register is marked
  free in the register file; register 0 stands for no result and is not put back on the free list.
\<close>

definition retire_ports :: "ret_action list \<Rightarrow> rob_entry list \<Rightarrow> rrat_ports" where
  "retire_ports acts es =
     map2 (\<lambda>a e. if a = Retire_commit then Some \<lparr>rc_rl_dst = re_rl_dst e, rc_rp_dst = re_rp_dst e\<rparr> else None) acts es"

definition freed_regs :: "ret_action list \<Rightarrow> rob_entry list \<Rightarrow> nat list \<Rightarrow> nat option list" where
  "freed_regs acts es entries =
     map (\<lambda>i. case acts ! i of
            Retire_commit \<Rightarrow> commit_out entries (retire_ports acts es) i
          | Retire_flush \<Rightarrow> Some (re_rp_dst (es ! i))
          | Retire_keep \<Rightarrow> None) [0..<length es]"

definition free_phys_reg :: "nat option \<Rightarrow> nat option" where
  "free_phys_reg r = (case r of None \<Rightarrow> None | Some p \<Rightarrow> if p \<noteq> 0 then Some p else None)"

definition retirement_registers ::
  "mask_utils \<Rightarrow> nat \<Rightarrow> 'a::len ret_in \<Rightarrow> retirement \<Rightarrow> nat list \<Rightarrow> nat list \<times> nat option list \<times> nat option list" where
  "retirement_registers U tag_bits inp s entries =
     (let acts = ro_actions (snd (retirement_cycle U tag_bits inp s)); freed = freed_regs acts (ri_entries inp) entries
      in (rrat_next (retire_ports acts (ri_entries inp)) entries, freed, map free_phys_reg freed))"

section \<open>Side effects\<close>

text \<open>
  An instruction may cause side effects when it is the oldest impure one. The guard names it by its index in the
  reorder buffer, and is not ready while the core is flushed or an exception is at its head.
\<close>

definition impure_mask :: "rob_entry list \<Rightarrow> bool list" where
  "impure_mask es = map (\<lambda>e. \<not> re_pure e) es"

definition pure_count :: "mask_utils \<Rightarrow> rob_entry list \<Rightarrow> nat" where
  "pure_count U es = count_trailing_zeros U (impure_mask es)"

definition side_fx_rob_id :: "mask_utils \<Rightarrow> nat \<Rightarrow> rob_entry list \<Rightarrow> nat" where
  "side_fx_rob_id U rob_bits es = (re_rob_id (es ! 0) + pure_count U es) mod 2 ^ rob_bits"

definition core_flush_active :: "mask_utils \<Rightarrow> retirement \<Rightarrow> rob_entry list \<Rightarrow> bool" where
  "core_flush_active U s es = (rt_fsm s = Ret_TRAP_FLUSH \<or> mask_any (map re_exception (take (done_count U es) es)))"

definition side_fx_guard ::
  "mask_utils \<Rightarrow> nat \<Rightarrow> (nat \<Rightarrow> bool) \<Rightarrow> retirement \<Rightarrow> rob_entry list \<Rightarrow> nat \<Rightarrow> nat \<Rightarrow> bool \<Rightarrow> bool" where
  "side_fx_guard U rob_bits active s es rob_id tag require_done =
     (\<not> core_flush_active U s es \<and> rob_id = side_fx_rob_id U rob_bits es \<and>
      (\<not> require_done \<or> pure_count U es = done_count U es) \<and> active tag)"

text \<open>The instructions that a read of the instruction counter sees as retired: the active ones of the pure prefix.\<close>

definition pure_inactive_offset :: "mask_utils \<Rightarrow> nat \<Rightarrow> (nat \<Rightarrow> bool) \<Rightarrow> nat \<Rightarrow> rob_entry list \<Rightarrow> bool list" where
  "pure_inactive_offset U tag_bits active tag es =
     map (\<lambda>i. \<not> active ((tag + length (filter re_tag_increment (take (Suc i) es))) mod 2 ^ tag_bits) \<and>
              mask_before_first_set_bit U (impure_mask es) ! i) [0..<length es]"

definition pure_active_count :: "mask_utils \<Rightarrow> nat \<Rightarrow> (nat \<Rightarrow> bool) \<Rightarrow> nat \<Rightarrow> rob_entry list \<Rightarrow> nat" where
  "pure_active_count U tag_bits active tag es =
     pure_count U es - mask_popcount U (pure_inactive_offset U tag_bits active tag es)"

definition instret_read :: "mask_utils \<Rightarrow> nat \<Rightarrow> 'a::len ret_in \<Rightarrow> retirement \<Rightarrow> nat" where
  "instret_read U tag_bits inp s =
     (rt_instret s + pure_active_count U tag_bits (ri_active inp) (rt_last_retired_tag s) (ri_entries inp)) mod 2 ^ 64"

section \<open>What a cycle must do\<close>

text \<open>
  An entry is processed when it and all older ones are done and at most one of them starts a new tag. Its tag
  is the last retired one, advanced by the tag it or an older entry starts.
\<close>

definition tags_upto :: "rob_entry list \<Rightarrow> nat \<Rightarrow> nat" where
  "tags_upto es i = length (filter re_tag_increment (take (Suc i) es))"

definition entry_processed :: "rob_entry list \<Rightarrow> nat \<Rightarrow> bool" where
  "entry_processed es i \<longleftrightarrow> i < length es \<and> (\<forall>j\<le>i. re_done (es ! j)) \<and> tags_upto es i \<le> 1"

definition entry_active :: "nat \<Rightarrow> (nat \<Rightarrow> bool) \<Rightarrow> nat \<Rightarrow> rob_entry list \<Rightarrow> nat \<Rightarrow> bool" where
  "entry_active tag_bits active tag es i = active ((tag + tags_upto es i) mod 2 ^ tag_bits)"

definition entry_traps :: "nat \<Rightarrow> (nat \<Rightarrow> bool) \<Rightarrow> nat \<Rightarrow> rob_entry list \<Rightarrow> nat \<Rightarrow> bool" where
  "entry_traps tag_bits active tag es i \<longleftrightarrow>
     entry_processed es i \<and> entry_active tag_bits active tag es i \<and> re_exception (es ! i)"

text \<open>
  Instructions on the current path are committed up to the first exception; the instruction that reports an
  interrupt is committed too. All other processed instructions are flushed.
\<close>

definition in_order_action :: "nat \<Rightarrow> (nat \<Rightarrow> bool) \<Rightarrow> nat \<Rightarrow> bool \<Rightarrow> rob_entry list \<Rightarrow> nat \<Rightarrow> ret_action" where
  "in_order_action tag_bits active tag interrupt es i =
     (if \<not> entry_processed es i then Retire_keep
      else if \<exists>j<i. entry_traps tag_bits active tag es j then Retire_flush
      else if entry_active tag_bits active tag es i \<and> (re_exception (es ! i) \<longrightarrow> interrupt) then Retire_commit
      else Retire_flush)"

lemma first_set_le: "first_set v \<le> length v"
  by (induction v) auto

lemma less_first_set: "i < length v \<Longrightarrow> i < first_set v \<longleftrightarrow> (\<forall>j\<le>i. \<not> v ! j)"
proof (induction v arbitrary: i)
  case (Cons b v)
  show ?case
  proof (cases i)
    case (Suc k)
    have "(\<forall>j\<le>Suc k. \<not> (b # v) ! j) \<longleftrightarrow> \<not> b \<and> (\<forall>j\<le>k. \<not> v ! j)" 
      unfolding less_Suc_eq_le [symmetric] All_less_Suc2 by simp
    then show ?thesis using Cons Suc by auto
  qed auto
qed simp

lemma length_clear_lowest [simp]: "length (clear_lowest v) = length v"
  by (induction v) auto

lemma nth_clear_lowest: "i < length v \<Longrightarrow> clear_lowest v ! i \<longleftrightarrow> v ! i \<and> (\<exists>j<i. v ! j)"
proof (induction v arbitrary: i)
  case (Cons b v)
  show ?case
  proof (cases i)
    case (Suc k)
    have "(\<exists>j<Suc k. (b # v) ! j) \<longleftrightarrow> b \<or> (\<exists>j<k. v ! j)"
      unfolding Ex_less_Suc2 by simp
    then show ?thesis using Cons Suc by auto
  qed auto
qed simp

lemma filter_take_card:
  assumes "i < length xs"
  shows "length (filter P (take (Suc i) xs)) = card {j. j \<le> i \<and> P (xs ! j)}"
proof -
  have "{j. j < length (take (Suc i) xs) \<and> P (take (Suc i) xs ! j)} = {j. j \<le> i \<and> P (xs ! j)}"
    using assms by (auto simp: less_Suc_eq_le)
  then show ?thesis unfolding length_filter_conv_card by simp
qed

lemma at_most_one:
  assumes "i < length xs"
  shows "length (filter P (take (Suc i) xs)) \<le> 1 \<longleftrightarrow> (\<forall>j\<le>i. \<not> (P (xs ! j) \<and> (\<exists>k<j. P (xs ! k))))"
proof -
  have fin: "finite {j. j \<le> i \<and> P (xs ! j)}" by simp
  have "(\<forall>x \<in> {j. j \<le> i \<and> P (xs ! j)}. \<forall>y \<in> {j. j \<le> i \<and> P (xs ! j)}. x = y) \<longleftrightarrow>
      (\<forall>j\<le>i. \<not> (P (xs ! j) \<and> (\<exists>k<j. P (xs ! k))))" (is "?l \<longleftrightarrow> ?r")
  proof
    assume l: ?l
    have eq: "j = k" if "j \<le> i" "k < j" "P (xs ! j)" "P (xs ! k)" for j k
      using bspec [OF bspec [OF l, of j], of k] that by simp
    show ?r
    proof (intro allI impI notI)
      fix j
      assume "j \<le> i" "P (xs ! j) \<and> (\<exists>k<j. P (xs ! k))"
      then show False using eq less_irrefl by blast
    qed
  next
    assume r: ?r
    show ?l
    proof (intro ballI)
      fix x y
      assume xy: "x \<in> {j. j \<le> i \<and> P (xs ! j)}" "y \<in> {j. j \<le> i \<and> P (xs ! j)}"
      from r have "j \<le> i \<Longrightarrow> k < j \<Longrightarrow> P (xs ! j) \<Longrightarrow> P (xs ! k) \<Longrightarrow> False" for j k by blast
      from this [of x y] this [of y x] xy show "x = y" by (cases x y rule: linorder_cases) simp_all
    qed
  qed
  then show ?thesis
    unfolding filter_take_card [OF assms] One_nat_def card_le_Suc0_iff_eq [OF fin] .
qed

lemma none_upto: "i < length xs \<Longrightarrow> length (filter P (take (Suc i) xs)) = 0 \<longleftrightarrow> (\<forall>j\<le>i. \<not> P (xs ! j))"
  by (simp add: filter_take_card)

section \<open>The masks compute it\<close>

lemma utils:
  assumes "mask_utils_spec U"
  shows "count_trailing_zeros U v = first_set v"
    "mask_before_first_set_bit U v = map (\<lambda>i. i < first_set v) [0..<length v]"
    "mask_from_first_set_bit U v = map (\<lambda>i. first_set v \<le> i) [0..<length v]"
    "clear_lowest_set_bit U v = clear_lowest v"
    "mask_popcount U v = length (filter (\<lambda>b. b) v)"
  using assms by (simp_all add: mask_utils_spec_def)

lemma length_mask [simp]:
  "length (mask_or a b) = min (length a) (length b)" "length (mask_and a b) = min (length a) (length b)"
  "length (mask_not a) = length a"
  by (simp_all add: mask_or_def mask_and_def mask_not_def)

lemma nth_mask [simp]:
  "i < length a \<Longrightarrow> i < length b \<Longrightarrow> mask_or a b ! i = (a ! i \<or> b ! i)"
  "i < length a \<Longrightarrow> i < length b \<Longrightarrow> mask_and a b ! i = (a ! i \<and> b ! i)"
  "i < length a \<Longrightarrow> mask_not a ! i = (\<not> a ! i)"
  by (simp_all add: mask_or_def mask_and_def mask_not_def)

lemma mask_any_iff: "mask_any a \<longleftrightarrow> (\<exists>i<length a. a ! i)"
  unfolding mask_any_def by (metis in_set_conv_nth)

lemma mask_lengths:
  assumes U: "mask_utils_spec U"
  shows "length (done_ignore_mask U es) = length es" "length (limiting_instruction_mask U es) = length es"
    "length (retiring_mask U es) = length es" "length (first_tag_incr_mask U es) = length es"
    "length (tag_active_mask U tag_bits active tag es) = length es"
    "length (exception_bits U tag_bits active tag es) = length es" "length (tag_incr_mask es) = length es"
  by (simp_all add: utils [OF U] done_ignore_mask_def limiting_instruction_mask_def retiring_mask_def first_tag_incr_mask_def
      tag_active_mask_def exception_bits_def tag_incr_mask_def Let_def)

lemma nth_done_ignore:
  assumes U: "mask_utils_spec U" and i: "i < length es"
  shows "\<not> done_ignore_mask U es ! i \<longleftrightarrow> (\<forall>j\<le>i. re_done (es ! j))"
proof -
  have "i < length (mask_not (map re_done es))" using i by simp
  from less_first_set [OF this] i show ?thesis
    by (auto simp: done_ignore_mask_def utils [OF U])
qed

lemma processed_iff:
  assumes "i < length es"
  shows "entry_processed es i \<longleftrightarrow> (\<forall>j\<le>i. re_done (es ! j)) \<and>
    (\<forall>j\<le>i. \<not> (re_tag_increment (es ! j) \<and> (\<exists>k<j. re_tag_increment (es ! k))))"
  unfolding entry_processed_def tags_upto_def at_most_one [OF assms] using assms by simp

lemma processed_mono:
  assumes "entry_processed es i" "j \<le> i"
  shows "entry_processed es j"
proof -
  have len: "i < length es" "j < length es" using assms by (simp_all add: entry_processed_def)
  show ?thesis using assms le_trans [OF _ assms(2)] unfolding processed_iff [OF len(1)] processed_iff [OF len(2)] by blast
qed

lemma nth_retiring:
  assumes U: "mask_utils_spec U" and i: "i < length es"
  shows "retiring_mask U es ! i \<longleftrightarrow> entry_processed es i" "i < retire_count U es \<longleftrightarrow> entry_processed es i"
proof -
  have lim: "limiting_instruction_mask U es ! j \<longleftrightarrow>
      (re_tag_increment (es ! j) \<and> (\<exists>k<j. re_tag_increment (es ! k))) \<or> \<not> (\<forall>k\<le>j. re_done (es ! k))" if "j \<le> i" for j
    using that i nth_done_ignore [OF U, of j es]
    by (auto simp: limiting_instruction_mask_def utils [OF U] mask_lengths [OF U] nth_clear_lowest tag_incr_mask_def)
  have "i < first_set (limiting_instruction_mask U es) \<longleftrightarrow> (\<forall>j\<le>i. \<not> limiting_instruction_mask U es ! j)"
    by (rule less_first_set) (simp add: mask_lengths [OF U] i)
  also have "\<dots> \<longleftrightarrow> entry_processed es i"
  proof -
    have "(\<forall>j\<le>i. \<forall>k\<le>j. re_done (es ! k)) \<longleftrightarrow> (\<forall>j\<le>i. re_done (es ! j))" using le_trans by blast
    moreover have "(\<forall>j\<le>i. \<not> limiting_instruction_mask U es ! j) \<longleftrightarrow>
        (\<forall>j\<le>i. \<forall>k\<le>j. re_done (es ! k)) \<and> (\<forall>j\<le>i. \<not> (re_tag_increment (es ! j) \<and> (\<exists>k<j. re_tag_increment (es ! k))))"
      by (simp add: lim imp_conjR all_conj_distrib conj_commute)
    ultimately show ?thesis unfolding processed_iff [OF i] by (rule trans [rotated, OF arg_cong2 [where f = "(\<and>)", OF _ refl]])
  qed
  finally show "i < retire_count U es \<longleftrightarrow> entry_processed es i" "retiring_mask U es ! i \<longleftrightarrow> entry_processed es i"
    using i by (simp_all add: retire_count_def retiring_mask_def utils [OF U] mask_lengths [OF U])
qed

lemma nth_tag_active:
  assumes U: "mask_utils_spec U" and i: "i < length es" and tag: "tag < 2 ^ tag_bits"
  shows "tag_active_mask U tag_bits active tag es ! i \<longleftrightarrow> entry_processed es i \<and> entry_active tag_bits active tag es i"
proof (cases "entry_processed es i")
  case False
  then show ?thesis using i by (simp add: tag_active_mask_def Let_def mask_lengths [OF U] utils [OF U] nth_retiring(1) [OF U i])
next
  case True
  have first: "first_tag_incr_mask U es ! j \<longleftrightarrow> re_tag_increment (es ! j)" if "j \<le> i" for j
    using that i nth_done_ignore [OF U, of j es] True
    by (auto simp: first_tag_incr_mask_def mask_lengths [OF U] tag_incr_mask_def entry_processed_def)
  have "i < first_set (first_tag_incr_mask U es) \<longleftrightarrow> (\<forall>j\<le>i. \<not> first_tag_incr_mask U es ! j)"
    by (rule less_first_set) (simp add: mask_lengths [OF U] i)
  also have "\<dots> \<longleftrightarrow> tags_upto es i = 0"
    using first none_upto [OF i, of re_tag_increment] by (simp add: tags_upto_def)
  finally have pos: "i < first_set (first_tag_incr_mask U es) \<longleftrightarrow> tags_upto es i = 0" .
  have free: "free_tag U es" if "tags_upto es i \<noteq> 0"
  proof -
    have "\<not> (\<forall>j\<le>i. \<not> re_tag_increment (es ! j))"
      using that unfolding tags_upto_def none_upto [OF i] .
    then obtain j where j: "j \<le> i" "re_tag_increment (es ! j)" by blast
    have "retiring_mask U es ! j" using nth_retiring(1) [OF U, of j es] processed_mono [OF True j(1)] j(1) i by simp
    then show ?thesis
      using j i by (auto simp: free_tag_def mask_any_iff mask_lengths [OF U] tag_incr_mask_def intro!: exI [of _ j])
  qed
  have "tags_upto es i = 0 \<or> tags_upto es i = 1" using True by (auto simp: entry_processed_def)
  moreover have "tag_active_mask U tag_bits active tag es ! i \<longleftrightarrow>
      (if i < first_set (first_tag_incr_mask U es) then active tag else active (next_last_retired_tag U tag_bits es tag))"
    using i True by (auto simp: tag_active_mask_def Let_def mask_lengths [OF U] utils [OF U] nth_retiring(1) [OF U i])
  ultimately show ?thesis
    using True pos free tag by (auto simp: entry_active_def next_last_retired_tag_def)
qed

lemma nth_exception_bits:
  assumes U: "mask_utils_spec U" and i: "i < length es" and tag: "tag < 2 ^ tag_bits"
  shows "exception_bits U tag_bits active tag es ! i \<longleftrightarrow> entry_traps tag_bits active tag es i"
  using nth_tag_active [OF assms] i by (auto simp: exception_bits_def mask_lengths [OF U] entry_traps_def)

lemma traps_processed: "entry_traps tag_bits active tag es i \<Longrightarrow> i < length es \<and> entry_processed es i"
  by (simp add: entry_traps_def entry_processed_def)

lemma trap_taken_iff:
  assumes U: "mask_utils_spec U" and tag: "tag < 2 ^ tag_bits"
  shows "trap_taken U tag_bits active tag es \<longleftrightarrow> (\<exists>i. entry_traps tag_bits active tag es i)"
proof -
  have "trap_taken U tag_bits active tag es \<longleftrightarrow>
      (\<exists>i<length es. exception_bits U tag_bits active tag es ! i \<and> retiring_mask U es ! i)"
    by (auto simp: trap_taken_def mask_any_iff mask_lengths [OF U])
  also have "\<dots> \<longleftrightarrow> (\<exists>i<length es. entry_traps tag_bits active tag es i)"
    using nth_exception_bits [OF U _ tag] nth_retiring(1) [OF U] traps_processed by blast
  finally show ?thesis using traps_processed by blast
qed

lemma less_no_trap_count:
  assumes U: "mask_utils_spec U" and i: "i < length es" and tag: "tag < 2 ^ tag_bits"
  shows "i < no_trap_count U tag_bits active tag es \<longleftrightarrow>
    entry_processed es i \<and> (\<forall>j\<le>i. \<not> entry_traps tag_bits active tag es j)"
proof -
  let ?m = "mask_or (exception_bits U tag_bits active tag es) (mask_not (retiring_mask U es))"
  have "i < first_set ?m \<longleftrightarrow> (\<forall>j\<le>i. \<not> ?m ! j)" by (rule less_first_set) (simp add: mask_lengths [OF U] i)
  also have "\<dots> \<longleftrightarrow> (\<forall>j\<le>i. \<not> entry_traps tag_bits active tag es j \<and> entry_processed es j)"
    using i nth_exception_bits [OF U _ tag] nth_retiring(1) [OF U] by (simp add: mask_lengths [OF U])
  finally show ?thesis using processed_mono by (auto simp: no_trap_count_def utils [OF U])
qed

lemma first_trap:
  assumes "entry_traps tag_bits active tag es i"
  obtains k where "entry_traps tag_bits active tag es k" "\<And>j. j < k \<Longrightarrow> \<not> entry_traps tag_bits active tag es j"
  using assms LeastI [of "entry_traps tag_bits active tag es"] not_less_Least by metis

lemma normal_action_eq:
  assumes U: "mask_utils_spec U" and i: "i < length es" and tag: "tag < 2 ^ tag_bits"
    and commit: "commit \<longleftrightarrow> interrupt \<and> trap_taken U tag_bits active tag es"
  shows "normal_action commit (no_trap_count U tag_bits active tag es) (retire_count U es)
      (tag_active_mask U tag_bits active tag es) i = in_order_action tag_bits active tag interrupt es i"
proof -
  let ?trap = "entry_traps tag_bits active tag es" and ?n = "no_trap_count U tag_bits active tag es"
  have tac: "tag_active_mask U tag_bits active tag es ! i \<longleftrightarrow> entry_processed es i \<and> entry_active tag_bits active tag es i"
    by (rule nth_tag_active [OF U i tag])
  have rc: "i < retire_count U es \<longleftrightarrow> entry_processed es i" by (rule nth_retiring(2) [OF U i])
  have go: "(if commit then i \<le> ?n else i < ?n) \<longleftrightarrow>
      entry_processed es i \<and> (\<forall>j<i. \<not> ?trap j) \<and> (commit \<or> \<not> ?trap i)"
  proof (cases commit)
    case True
    then obtain k where k: "?trap k" "\<And>j. j < k \<Longrightarrow> \<not> ?trap j"
      using commit trap_taken_iff [OF U tag] first_trap by metis
    have "i \<le> ?n \<longleftrightarrow> (\<forall>j<i. \<not> ?trap j) \<and> entry_processed es i"
    proof (cases i)
      case 0
      then show ?thesis using processed_mono [of es k 0] traps_processed k(1) by auto
    next
      case (Suc h)
      have "i \<le> ?n \<longleftrightarrow> entry_processed es h \<and> (\<forall>j\<le>h. \<not> ?trap j)"
        unfolding Suc Suc_le_eq using less_no_trap_count [OF U _ tag, of h es active] i Suc by simp
      moreover have "entry_processed es i" if "\<forall>j\<le>h. \<not> ?trap j"
      proof -
        have "i \<le> k" using that k(1) Suc by (metis not_less_eq_eq)
        then show ?thesis using processed_mono traps_processed k(1) by blast
      qed
      moreover have "(\<forall>j<i. \<not> ?trap j) \<longleftrightarrow> (\<forall>j\<le>h. \<not> ?trap j)" by (simp add: Suc less_Suc_eq_le)
      moreover have "entry_processed es i \<Longrightarrow> entry_processed es h" using processed_mono Suc by simp
      ultimately show ?thesis by blast
    qed
    then show ?thesis using True by auto
  next
    case False
    have "(\<forall>j\<le>i. \<not> ?trap j) \<longleftrightarrow> (\<forall>j<i. \<not> ?trap j) \<and> \<not> ?trap i" by (metis le_less)
    then show ?thesis using False less_no_trap_count [OF U i tag, of active] by auto
  qed
  have cond: "int i - of_bool commit < int ?n \<longleftrightarrow> (if commit then i \<le> ?n else i < ?n)" by auto
  have traps: "?trap i \<longleftrightarrow> entry_processed es i \<and> entry_active tag_bits active tag es i \<and> re_exception (es ! i)"
    by (simp add: entry_traps_def)
  have "?trap i \<Longrightarrow> commit \<longleftrightarrow> interrupt" using commit trap_taken_iff [OF U tag] by blast
  then show ?thesis
    unfolding normal_action_def in_order_action_def cond go rc tac using traps by auto
qed

lemma committed_count:
  assumes U: "mask_utils_spec U" and tag: "tag < 2 ^ tag_bits" and tagdef: "tag = rt_last_retired_tag s"
    and es: "es = ri_entries inp" and act: "active = ri_active inp"
    and interrupt: "interrupt \<longleftrightarrow> er_cause (ri_ecr inp) = Cause_COREBLOCKS_ASYNC_INTERRUPT"
  shows "instret_increment U tag_bits inp tag =
    card {i. i < length es \<and> in_order_action tag_bits active tag interrupt es i = Retire_commit}"
proof -
  let ?trap = "entry_traps tag_bits active tag es"
  define C where "C = {i. i < length es \<and> entry_processed es i \<and> entry_active tag_bits active tag es i \<and> (\<forall>j\<le>i. \<not> ?trap j)}"
  define A where "A = {i. i < length es \<and> in_order_action tag_bits active tag interrupt es i = Retire_commit}"
  have pc: "mask_popcount U v = card {i. i < length v \<and> v ! i}" for v
    by (simp add: utils [OF U] length_filter_conv_card)
  have commits: "in_order_action tag_bits active tag interrupt es i = Retire_commit \<longleftrightarrow>
      entry_processed es i \<and> entry_active tag_bits active tag es i \<and> (\<forall>j<i. \<not> ?trap j) \<and> (?trap i \<longrightarrow> interrupt)" for i
    by (auto simp: in_order_action_def entry_traps_def)
  show ?thesis
  proof (cases "trap_taken U tag_bits active tag es")
    case False
    then have none: "\<not> ?trap i" for i using trap_taken_iff [OF U tag] by blast
    have "instret_increment U tag_bits inp tag = card {i. i < length es \<and> tag_active_mask U tag_bits active tag es ! i}"
      using False by (simp add: instret_increment_def Let_def pc mask_lengths [OF U] es act)
    also have "{i. i < length es \<and> tag_active_mask U tag_bits active tag es ! i} = A"
      unfolding A_def commits using none nth_tag_active [OF U _ tag] by blast
    finally show ?thesis by (simp add: A_def)
  next
    case True
    then obtain k where k: "?trap k" "\<And>j. j < k \<Longrightarrow> \<not> ?trap j" using trap_taken_iff [OF U tag] first_trap by metis
    have kl: "k < length es" using traps_processed [OF k(1)] by simp
    let ?b = "mask_before_first_set_bit U (exception_bits U tag_bits active tag es)"
    have before: "?b ! i \<longleftrightarrow> (\<forall>j\<le>i. \<not> ?trap j)" if "i < length es" for i
    proof -
      have "i < length (exception_bits U tag_bits active tag es)" using that by (simp add: mask_lengths [OF U])
      from less_first_set [OF this] show ?thesis
        using that nth_exception_bits [OF U _ tag] by (simp add: utils [OF U] mask_lengths [OF U])
    qed
    have "length ?b = length es" by (simp add: utils [OF U] mask_lengths [OF U])
    then have "{i. i < length (mask_and ?b (tag_active_mask U tag_bits active tag es)) \<and>
        mask_and ?b (tag_active_mask U tag_bits active tag es) ! i} = C"
      unfolding C_def using before nth_tag_active [OF U _ tag] by (auto simp: mask_lengths [OF U])
    then have inc: "instret_increment U tag_bits inp tag = card C + of_bool interrupt"
      using True interrupt
      by (simp add: instret_increment_def Let_def active_no_trap_count_def pc commit_trapping_def es [symmetric] act [symmetric])
    have "A = C \<union> (if interrupt then {k} else {})"
    proof (rule set_eqI)
      fix i
      have only: "(\<forall>j<i. \<not> ?trap j) \<and> ?trap i \<longleftrightarrow> i = k" using k by (metis linorder_neqE_nat)
      have "(\<forall>j\<le>i. \<not> ?trap j) \<longleftrightarrow> (\<forall>j<i. \<not> ?trap j) \<and> \<not> ?trap i" by (metis le_less)
      then show "i \<in> A \<longleftrightarrow> i \<in> C \<union> (if interrupt then {k} else {})"
        unfolding A_def C_def mem_Collect_eq commits using only kl k(1) by (auto simp: entry_traps_def)
    qed
    moreover have "k \<notin> C" using k(1) by (auto simp: C_def)
    moreover have "finite C" by (simp add: C_def)
    ultimately show ?thesis unfolding inc A_def [symmetric] by simp
  qed
qed

lemma trap_rob_id:
  assumes U: "mask_utils_spec U" and tag: "tag < 2 ^ tag_bits"
    and k: "entry_traps tag_bits active tag es k" "\<And>j. j < k \<Longrightarrow> \<not> entry_traps tag_bits active tag es j"
  shows "exception_rob_id U tag_bits active tag es = re_rob_id (es ! k)"
proof -
  have sel: "first_selected cs d = snd (cs ! n)" if "n < length cs" "fst (cs ! n)" "\<forall>j<n. \<not> fst (cs ! j)" for cs :: "(bool \<times> nat) list" and d n
    using that
  proof (induction cs arbitrary: n)
    case (Cons c cs)
    then show ?case by (cases c; cases n) (auto simp: All_less_Suc2)
  qed simp
  have "k < length es" using traps_processed [OF k(1)] by simp
  then show ?thesis
    unfolding exception_rob_id_def using nth_exception_bits [OF U _ tag] k mask_lengths(6) [OF U]
    by (subst sel [where n = k]) auto
qed

section \<open>Retirement in program order\<close>

lemma trap_resume_handler:
  "handler_pc inp target =
    (let base = ri_tvec_base inp target * 4; cause = ri_tcause inp target
     in if bit cause (LENGTH('a) - 1) \<and> ri_tvec_vectored inp target then base + 4 * cause else base)"
  for inp :: "'a::len ret_in"
  by (simp add: handler_pc_def Let_def push_bit_eq_mult mult.commute)

lemma retire_normal_in_order:
  fixes inp :: "'a::len ret_in"
  assumes U: "mask_utils_spec U" and tag: "tag < 2 ^ tag_bits" and "ri_granted inp"
    and "retirement_cycle U tag_bits inp s = (s', out)"
    and "es = ri_entries inp" "active = ri_active inp" "tag = rt_last_retired_tag s"
    and "interrupt \<longleftrightarrow> er_cause (ri_ecr inp) = Cause_COREBLOCKS_ASYNC_INTERRUPT"
    and st: "rt_fsm s = Ret_NORMAL" "retire_valid U tag_bits inp tag"
  shows "ro_actions out = map (in_order_action tag_bits active tag interrupt es) [0..<length es] \<and>
      rt_instret s' = (rt_instret s + card {i. i < length es \<and> ro_actions out ! i = Retire_commit}) mod 2 ^ 64 \<and>
      (case ro_trap out of
         None \<Rightarrow> rt_fsm s' = Ret_NORMAL \<and> (\<forall>i. \<not> entry_traps tag_bits active tag es i)
       | Some (target, cause, pc, mtval) \<Rightarrow>
           rt_fsm s' \<noteq> Ret_NORMAL \<and> rt_trap_target_priv s' = target \<and> target = ri_target_priv inp cause \<and>
           cause = cause_entry inp \<and> pc = er_pc (ri_ecr inp) \<and> mtval = er_mtval (ri_ecr inp) \<and>
           (\<exists>k. entry_traps tag_bits active tag es k \<and> (\<forall>j<k. \<not> entry_traps tag_bits active tag es j) \<and>
              er_rob_id (ri_ecr inp) = re_rob_id (es ! k)))"
proof -
  note defs = assms(5-7)
  let ?trap = "trap_taken U tag_bits active tag es"
  have c: "(s', out) = retire_normal U tag_bits inp s" using assms(3,4) st defs by (simp add: retirement_cycle_def)
  have commit: "commit_trapping inp ?trap \<longleftrightarrow> interrupt \<and> ?trap" using assms(8) by (auto simp: commit_trapping_def)
  have "ro_actions out = map (normal_action (commit_trapping inp ?trap) (no_trap_count U tag_bits active tag es) (retire_count U es)
      (tag_active_mask U tag_bits active tag es)) [0..<length es]"
    using c defs by (simp add: retire_normal_def Let_def)
  then have acts: "ro_actions out = map (in_order_action tag_bits active tag interrupt es) [0..<length es]"
    using normal_action_eq [OF U _ tag commit] by simp
  have "rt_instret s' = (rt_instret s + instret_increment U tag_bits inp tag) mod 2 ^ 64"
    using c defs by (simp add: retire_normal_def Let_def)
  moreover have "{i. i < length es \<and> ro_actions out ! i = Retire_commit} =
      {i. i < length es \<and> in_order_action tag_bits active tag interrupt es i = Retire_commit}" by (auto simp: acts)
  ultimately have instret: "rt_instret s' = (rt_instret s + card {i. i < length es \<and> ro_actions out ! i = Retire_commit}) mod 2 ^ 64"
    using committed_count [OF U tag defs(3,1,2) assms(8)] by simp
  have valid: "?trap \<Longrightarrow> \<exists>k. entry_traps tag_bits active tag es k \<and> (\<forall>j<k. \<not> entry_traps tag_bits active tag es j) \<and>
      er_rob_id (ri_ecr inp) = re_rob_id (es ! k)"
    using trap_taken_iff [OF U tag, of active es] first_trap trap_rob_id [OF U tag] st(2) defs
    unfolding retire_valid_def by metis
  have fields: "ro_trap out = (if ?trap then Some (ri_target_priv inp (cause_entry inp), cause_entry inp, er_pc (ri_ecr inp),
        er_mtval (ri_ecr inp)) else None)"
    "rt_fsm s' = (if ?trap then if ri_core_empty inp then Ret_TRAP_RESUME else Ret_TRAP_FLUSH else Ret_NORMAL)"
    "?trap \<Longrightarrow> rt_trap_target_priv s' = ri_target_priv inp (cause_entry inp)"
    using c defs by (simp_all add: retire_normal_def Let_def)
  show ?thesis
    using valid trap_taken_iff [OF U tag, of active es] fields
    by (intro conjI acts instret; cases ?trap) simp_all
qed

text \<open>
  C31. Retirement in order. In the normal state, when the exception register holds the exception of the oldest
  trapping instruction, or there is none, a cycle does to the peeked entries what in-order execution prescribes:
  entries are processed while they are done and belong to at most two tags; those on the current path are
  committed up to the first exception, the reporter of an interrupt included, and all others are flushed; the
  instruction counter advances by the number of committed instructions, modulo 2^64. The trap written to the
  control registers is that of the first trapping entry, and a trap leaves the normal state. While the core is
  flushed nothing is committed, and resumption restores the alias table, clears the exception register and sends
  the frontend to the trap vector of the target privilege.
\<close>

theorem retirement_in_order:
  fixes inp :: "'a::len ret_in"
  assumes "mask_utils_spec U" "rt_last_retired_tag s < 2 ^ tag_bits" "ri_granted inp"
    and "retirement_cycle U tag_bits inp s = (s', out)"
    and "es = ri_entries inp" "active = ri_active inp" "tag = rt_last_retired_tag s"
    and "interrupt \<longleftrightarrow> er_cause (ri_ecr inp) = Cause_COREBLOCKS_ASYNC_INTERRUPT"
  shows "(rt_fsm s = Ret_NORMAL \<and> retire_valid U tag_bits inp tag \<longrightarrow>
      ro_actions out = map (in_order_action tag_bits active tag interrupt es) [0..<length es] \<and>
      rt_instret s' = (rt_instret s + card {i. i < length es \<and> ro_actions out ! i = Retire_commit}) mod 2 ^ 64 \<and>
      (case ro_trap out of
         None \<Rightarrow> rt_fsm s' = Ret_NORMAL \<and> (\<forall>i. \<not> entry_traps tag_bits active tag es i)
       | Some (target, cause, pc, mtval) \<Rightarrow>
           rt_fsm s' \<noteq> Ret_NORMAL \<and> rt_trap_target_priv s' = target \<and> target = ri_target_priv inp cause \<and>
           cause = cause_entry inp \<and> pc = er_pc (ri_ecr inp) \<and> mtval = er_mtval (ri_ecr inp) \<and>
           (\<exists>k. entry_traps tag_bits active tag es k \<and> (\<forall>j<k. \<not> entry_traps tag_bits active tag es j) \<and>
              er_rob_id (ri_ecr inp) = re_rob_id (es ! k)))) \<and>
    (rt_fsm s = Ret_TRAP_FLUSH \<longrightarrow>
      ro_actions out = map (\<lambda>i. if entry_processed es i then Retire_flush else Retire_keep) [0..<length es] \<and>
      rt_instret s' = rt_instret s \<and> rt_fsm s' = (if ri_core_empty inp then Ret_TRAP_RESUME else Ret_TRAP_FLUSH)) \<and>
    (rt_fsm s = Ret_TRAP_RESUME \<longrightarrow>
      ro_restore out \<and> ro_clear out \<and> rt_fsm s' = Ret_NORMAL \<and> rt_instret s' = rt_instret s \<and>
      ro_redirect out = Some (rt_ftq_commit_ptr s,
        let base = ri_tvec_base inp (rt_trap_target_priv s) * 4; cause = ri_tcause inp (rt_trap_target_priv s)
        in if bit cause (LENGTH('a) - 1) \<and> ri_tvec_vectored inp (rt_trap_target_priv s) then base + 4 * cause else base))"
proof -
  note U = assms(1) and defs = assms(5-7)
  have tag: "tag < 2 ^ tag_bits" using assms(2) defs by simp
  note normal = retire_normal_in_order [OF U tag assms(3-8)]
  have flush: "ro_actions out = map (\<lambda>i. if entry_processed es i then Retire_flush else Retire_keep) [0..<length es] \<and>
      rt_instret s' = rt_instret s \<and> rt_fsm s' = (if ri_core_empty inp then Ret_TRAP_RESUME else Ret_TRAP_FLUSH)"
    if "rt_fsm s = Ret_TRAP_FLUSH"
    using assms(3,4) that nth_retiring(2) [OF U] defs
    by (auto simp: retirement_cycle_def retire_flush_def Let_def)
  show ?thesis
    using normal flush assms(3,4) trap_resume_handler [of inp "rt_trap_target_priv s"]
    by (auto simp: retirement_cycle_def retire_resume_def no_effect_def)
qed

section \<open>No register is lost\<close>

definition opt_mset :: "'v option \<Rightarrow> 'v multiset" where
  "opt_mset x = (case x of None \<Rightarrow> {#} | Some y \<Rightarrow> {#y#})"

lemma opt_mset_simps [simp]: "opt_mset None = {#}" "opt_mset (Some y) = {#y#}"
  by (simp_all add: opt_mset_def)

lemma mset_map_filter: "mset (List.map_filter g xs) = (\<Sum>i<length xs. opt_mset (g (xs ! i)))"
  by (induction xs rule: rev_induct) (simp_all add: map_filter_def nth_append opt_mset_def split: option.splits)

lemma mset_kept_filter:
  "mset (map re_rp_dst (map snd (filter (\<lambda>(a, e). a \<noteq> Retire_keep) zs))) =
   mset (List.map_filter (\<lambda>(a, e). if a \<noteq> Retire_keep then Some (re_rp_dst e) else None) zs)"
  by (induction zs) (auto simp: map_filter_simps)

lemma freed_registers:
  assumes len: "length acts = length es" and rl: "\<forall>e \<in> set es. re_rl_dst e < length entries"
  shows "mset (rrat_next (retire_ports acts es) entries) + mset (List.map_filter (\<lambda>x. x) (freed_regs acts es entries)) =
    mset entries + mset (map re_rp_dst (map snd (filter (\<lambda>(a, e). a \<noteq> Retire_keep) (zip acts es))))"
proof -
  let ?p = "retire_ports acts es" and ?n = "length es"
  have lp: "length ?p = ?n" using len by (simp add: retire_ports_def)
  have nth: "?p ! i = (if acts ! i = Retire_commit then Some \<lparr>rc_rl_dst = re_rl_dst (es ! i), rc_rp_dst = re_rp_dst (es ! i)\<rparr> else None)"
    if "i < ?n" for i using that len by (simp add: retire_ports_def)
  have ok: "ports_ok (length entries) ?p"
    using rl len by (auto simp: ports_ok_def retire_ports_def dest!: set_zip_rightD split: if_splits)
  let ?fl = "\<lambda>i. if acts ! i = Retire_flush then {#re_rp_dst (es ! i)#} else {#}"
  have freed: "mset (List.map_filter (\<lambda>x. x) (freed_regs acts es entries)) =
      mset (List.map_filter (\<lambda>x. x) (map (commit_out entries ?p) [0..<length ?p])) + (\<Sum>i<?n. ?fl i)"
    unfolding mset_map_filter lp
    by (simp add: sum.distrib [symmetric] freed_regs_def, rule sum.cong)
      (auto simp: commit_out_def nth split: ret_action.splits)
  have "mset (map re_rp_dst (map snd (filter (\<lambda>(a, e). a \<noteq> Retire_keep) (zip acts es)))) =
      mset (List.map_filter (\<lambda>(a, e). if a \<noteq> Retire_keep then Some (re_rp_dst e) else None) (zip acts es))"
    by (rule mset_kept_filter)
  also have "\<dots> = mset (List.map_filter (map_option rc_rp_dst) ?p) + (\<Sum>i<?n. ?fl i)"
    unfolding mset_map_filter lp using len
    by (simp add: sum.distrib [symmetric], intro sum.cong) (auto simp: nth, metis ret_action.exhaust)
  finally show ?thesis using rrat_conserves_registers [OF ok] freed by (simp add: ac_simps)
qed

lemma retirement_cases:
  fixes inp :: "'a::len ret_in"
  assumes "out = snd (retirement_cycle U tag_bits inp s)"
  shows "out = no_effect (ri_entries inp) \<or> out = snd (retire_normal U tag_bits inp s) \<or>
    out = snd (retire_flush U tag_bits inp s) \<or> out = snd (retire_resume inp s)"
  unfolding assms retirement_cycle_def by (simp split: ret_fsm.split)

lemma retire_normal_actions:
  fixes inp :: "'a::len ret_in"
  assumes U: "mask_utils_spec U" and tag: "rt_last_retired_tag s < 2 ^ tag_bits"
  shows "ro_actions (snd (retire_normal U tag_bits inp s)) =
      map (in_order_action tag_bits (ri_active inp) (rt_last_retired_tag s)
            (er_cause (ri_ecr inp) = Cause_COREBLOCKS_ASYNC_INTERRUPT) (ri_entries inp)) [0..<length (ri_entries inp)]"
    and "ro_retired (snd (retire_normal U tag_bits inp s)) = retire_count U (ri_entries inp)"
proof -
  let ?trap = "trap_taken U tag_bits (ri_active inp) (rt_last_retired_tag s) (ri_entries inp)"
  have "commit_trapping inp ?trap \<longleftrightarrow> er_cause (ri_ecr inp) = Cause_COREBLOCKS_ASYNC_INTERRUPT \<and> ?trap"
    by (auto simp: commit_trapping_def)
  from normal_action_eq [OF U _ tag this]
  show "ro_actions (snd (retire_normal U tag_bits inp s)) =
      map (in_order_action tag_bits (ri_active inp) (rt_last_retired_tag s)
            (er_cause (ri_ecr inp) = Cause_COREBLOCKS_ASYNC_INTERRUPT) (ri_entries inp)) [0..<length (ri_entries inp)]"
    by (simp add: retire_normal_def Let_def)
  show "ro_retired (snd (retire_normal U tag_bits inp s)) = retire_count U (ri_entries inp)"
    by (simp add: retire_normal_def Let_def)
qed

lemma retired_prefix:
  fixes inp :: "'a::len ret_in"
  assumes U: "mask_utils_spec U" and tag: "rt_last_retired_tag s < 2 ^ tag_bits"
    and c: "out = snd (retirement_cycle U tag_bits inp s)"
  shows "length (ro_actions out) = length (ri_entries inp)"
    and "i < length (ri_entries inp) \<Longrightarrow> ro_actions out ! i \<noteq> Retire_keep \<longleftrightarrow> i < ro_retired out"
proof -
  let ?es = "ri_entries inp" and ?tag = "rt_last_retired_tag s"
  let ?interrupt = "er_cause (ri_ecr inp) = Cause_COREBLOCKS_ASYNC_INTERRUPT"
  have keep: "in_order_action tag_bits (ri_active inp) ?tag ?interrupt ?es i \<noteq> Retire_keep \<longleftrightarrow> entry_processed ?es i"
    by (simp add: in_order_action_def)
  consider "out = no_effect ?es" | "out = snd (retire_normal U tag_bits inp s)" | "out = snd (retire_flush U tag_bits inp s)"
    | "out = snd (retire_resume inp s)"
    using retirement_cases [OF c] by blast
  then have "length (ro_actions out) = length ?es \<and>
      (i < length ?es \<longrightarrow> (ro_actions out ! i \<noteq> Retire_keep \<longleftrightarrow> i < ro_retired out))"
    by cases (simp_all add: retire_normal_actions [OF U tag] keep nth_retiring(2) [OF U] no_effect_def retire_flush_def retire_resume_def Let_def)
  then show "length (ro_actions out) = length ?es"
    and "i < length ?es \<Longrightarrow> ro_actions out ! i \<noteq> Retire_keep \<longleftrightarrow> i < ro_retired out" by simp_all
qed

lemma kept_prefix:
  "length acts = length es \<Longrightarrow> \<forall>i<length es. acts ! i \<noteq> Retire_keep \<longleftrightarrow> i < n \<Longrightarrow>
   map snd (filter (\<lambda>(a, e). a \<noteq> Retire_keep) (zip acts es)) = take n es"
proof (induction acts arbitrary: es n)
  case (Cons a acts)
  then obtain e es' where es: "es = e # es'" by (cases es) auto
  have rest: "\<forall>i<length es'. acts ! i \<noteq> Retire_keep \<longleftrightarrow> Suc i < n" and a: "a \<noteq> Retire_keep \<longleftrightarrow> 0 < n"
    using Cons.prems(2) by (auto simp: es All_less_Suc2)
  show ?case
  proof (cases n)
    case 0
    then show ?thesis using rest a Cons.IH [of es' 0] Cons.prems(1) by (simp add: es)
  next
    case (Suc m)
    then show ?thesis using rest a Cons.IH [of es' m] Cons.prems(1) by (simp add: es)
  qed
qed simp

text \<open>
  C32. No register is lost in retirement. In every state and cycle, the entries that are committed or flushed are
  exactly the oldest ones that the cycle removes from the reorder buffer, and the registers in the retirement
  alias table afterwards together with the freed ones are those of the table before together with the result
  registers of the removed instructions. Every freed register but register 0 goes back to the free list.
\<close>

theorem retirement_conserves_registers:
  assumes "mask_utils_spec U" "rt_last_retired_tag s < 2 ^ tag_bits"
    and "\<forall>e \<in> set (ri_entries inp). re_rl_dst e < length entries"
    and "out = snd (retirement_cycle U tag_bits inp s)"
    and "retirement_registers U tag_bits inp s entries = (entries', freed, puts)"
  shows "(\<forall>i<length (ri_entries inp). ro_actions out ! i \<noteq> Retire_keep \<longleftrightarrow> i < ro_retired out) \<and>
    mset entries' + mset (List.map_filter (\<lambda>x. x) freed) = mset entries + mset (map re_rp_dst (take (ro_retired out) (ri_entries inp))) \<and>
    mset (List.map_filter (\<lambda>x. x) puts) = filter_mset (\<lambda>r. r \<noteq> 0) (mset (List.map_filter (\<lambda>x. x) freed))"
proof -
  note prefix = retired_prefix [OF assms(1,2,4)]
  have f: "freed = freed_regs (ro_actions out) (ri_entries inp) entries" and p: "puts = map free_phys_reg freed"
    and e: "entries' = rrat_next (retire_ports (ro_actions out) (ri_entries inp)) entries"
    using assms(4,5) by (auto simp: retirement_registers_def Let_def)
  have "mset (List.map_filter (\<lambda>x. x) (map free_phys_reg fs)) = filter_mset (\<lambda>r. r \<noteq> 0) (mset (List.map_filter (\<lambda>x. x) fs))" for fs
    by (induction fs) (auto simp: map_filter_simps free_phys_reg_def split: option.splits)
  moreover have "map snd (filter (\<lambda>(a, e). a \<noteq> Retire_keep) (zip (ro_actions out) (ri_entries inp))) =
      take (ro_retired out) (ri_entries inp)"
    using prefix by (intro kept_prefix) simp_all
  ultimately show ?thesis
    using prefix(2) freed_registers [OF prefix(1) assms(3)] by (simp add: e f p)
qed

section \<open>Side effects in program order\<close>

lemma card_split: "card {j. j < k \<and> P j} + card {j. j < k \<and> \<not> P j} = (k :: nat)"
proof -
  have "card ({j. j < k \<and> P j} \<union> {j. j < k \<and> \<not> P j}) = card {j. j < k \<and> P j} + card {j. j < k \<and> \<not> P j}"
    by (rule card_Un_disjoint) auto
  moreover have "{j. j < k \<and> P j} \<union> {j. j < k \<and> \<not> P j} = {..<k}" by auto
  ultimately show ?thesis by simp
qed

lemma guard_position:
  assumes U: "mask_utils_spec U" and ids: "\<forall>i<length es. re_rob_id (es ! i) = (re_rob_id (es ! 0) + i) mod 2 ^ rob_bits"
    and size: "length es < 2 ^ rob_bits" and k: "k < length es"
    and guard: "side_fx_guard U rob_bits active s es (re_rob_id (es ! k)) t require_done"
  shows "k = pure_count U es"
proof -
  have pc: "pure_count U es \<le> length es"
    using first_set_le [of "impure_mask es"] by (simp add: pure_count_def utils [OF U] impure_mask_def)
  have "(re_rob_id (es ! 0) + k) mod 2 ^ rob_bits = (re_rob_id (es ! 0) + pure_count U es) mod 2 ^ rob_bits"
    using guard ids k by (simp add: side_fx_guard_def side_fx_rob_id_def)
  moreover have "k < 2 ^ rob_bits" "pure_count U es < 2 ^ rob_bits" using k pc size by simp_all
  ultimately show ?thesis using add_mod_inject by blast
qed

lemma instret_in_order:
  fixes inp :: "'a::len ret_in"
  assumes U: "mask_utils_spec U" and k: "k = pure_count U es" "k < length es"
    and defs: "es = ri_entries inp" "active = ri_active inp" "tag = rt_last_retired_tag s"
  shows "instret_read U tag_bits inp s = (rt_instret s + card {j. j < k \<and> entry_active tag_bits active tag es j}) mod 2 ^ 64"
proof -
  have fi: "first_set (impure_mask es) = k" using k by (simp only: pure_count_def utils [OF U])
  have len_imp: "length (impure_mask es) = length es" by (simp add: impure_mask_def)
  let ?off = "pure_inactive_offset U tag_bits active tag es"
  have off: "?off ! j \<longleftrightarrow> \<not> entry_active tag_bits active tag es j \<and> j < k" if "j < length es" for j
    using that by (simp add: pure_inactive_offset_def utils [OF U] entry_active_def tags_upto_def fi len_imp)
  have "mask_popcount U ?off = card {j. j < length es \<and> ?off ! j}"
    by (simp add: utils [OF U] length_filter_conv_card pure_inactive_offset_def)
  also have "{j. j < length es \<and> ?off ! j} = {j. j < k \<and> \<not> entry_active tag_bits active tag es j}"
    using off k(2) by auto
  finally have "pure_active_count U tag_bits active tag es = k - card {j. j < k \<and> \<not> entry_active tag_bits active tag es j}"
    by (simp add: pure_active_count_def k(1) [symmetric])
  also have "\<dots> = card {j. j < k \<and> entry_active tag_bits active tag es j}"
    using card_split [of k "entry_active tag_bits active tag es"] by simp
  finally show ?thesis by (simp add: instret_read_def defs)
qed

text \<open>
  C33. Side effects in order. When the guard admits an instruction of the peeked entries, it is on an active tag, it is
  the oldest instruction that is not pure, the core is not being flushed, and no finished entry at the head of the
  buffer carries an exception; if the caller requires it, all older instructions are done and it is itself not. A
  read of the instruction counter counts, on top of the retired instructions, exactly the older ones on the
  current path.
\<close>

theorem side_effects_in_order:
  fixes inp :: "'a::len ret_in"
  assumes "mask_utils_spec U" "\<forall>i<length es. re_rob_id (es ! i) = (re_rob_id (es ! 0) + i) mod 2 ^ rob_bits"
    and "length es < 2 ^ rob_bits" "k < length es" "es = ri_entries inp" "active = ri_active inp" "tag = rt_last_retired_tag s"
    and "side_fx_guard U rob_bits active s es (re_rob_id (es ! k)) t require_done"
  shows "active t \<and> \<not> re_pure (es ! k) \<and> (\<forall>j<k. re_pure (es ! j)) \<and> rt_fsm s \<noteq> Ret_TRAP_FLUSH \<and>
    (\<forall>j<length es. (\<forall>i\<le>j. re_done (es ! i)) \<longrightarrow> \<not> re_exception (es ! j)) \<and>
    (require_done \<longrightarrow> (\<forall>j<k. re_done (es ! j)) \<and> \<not> re_done (es ! k)) \<and>
    instret_read U tag_bits inp s = (rt_instret s + card {j. j < k \<and> entry_active tag_bits active tag es j}) mod 2 ^ 64"
proof -
  note U = assms(1) and g = assms(8)
  have k: "k = pure_count U es" by (rule guard_position [OF U assms(2-4) g])
  have fi: "first_set (impure_mask es) = k" using k by (simp only: pure_count_def utils [OF U])
  have nth_imp: "i < length es \<Longrightarrow> impure_mask es ! i = (\<not> re_pure (es ! i))" and len_imp: "length (impure_mask es) = length es" for i
    by (simp_all add: impure_mask_def)
  have pure: "\<forall>j<k. re_pure (es ! j)"
  proof (intro allI impI)
    fix j
    assume j: "j < k"
    have "j < length (impure_mask es)" using j assms(4) by (simp add: len_imp)
    from less_first_set [OF this] j assms(4) show "re_pure (es ! j)" by (simp add: fi nth_imp)
  qed
  have "\<not> re_pure (es ! k)"
  proof
    assume p: "re_pure (es ! k)"
    have "k < length (impure_mask es)" using assms(4) by (simp add: len_imp)
    from less_first_set [OF this] have "\<exists>j\<le>k. impure_mask es ! j" by (simp add: fi)
    then obtain j where "j \<le> k" "impure_mask es ! j" by blast
    then show False using pure p assms(4) by (cases "j = k") (simp_all add: nth_imp)
  qed
  moreover have done_first: "j < done_count U es \<longleftrightarrow> (\<forall>i\<le>j. re_done (es ! i))" if "j < length es" for j
  proof -
    have "j < length (mask_not (map re_done es))" using that by simp
    from less_first_set [OF this] that show ?thesis by (simp add: done_count_def utils [OF U])
  qed
  moreover have "\<not> re_exception (es ! j)" if "j < length es" "\<forall>i\<le>j. re_done (es ! i)" for j
    using g that done_first [of j] by (auto simp: side_fx_guard_def core_flush_active_def mask_any_iff)
  moreover have "(\<forall>j<k. re_done (es ! j)) \<and> \<not> re_done (es ! k)" if require_done
  proof -
    have dc: "done_count U es = k" using g that k by (simp add: side_fx_guard_def)
    have "\<forall>j<k. re_done (es ! j)" using done_first assms(4) dc by (meson le_refl less_trans)
    moreover from this have "\<not> re_done (es ! k)" using done_first [of k] assms(4) dc by (auto simp: le_less)
    ultimately show ?thesis by blast
  qed
  moreover note instret_in_order [OF U k assms(4-7), of tag_bits]
  ultimately show ?thesis using g pure by (auto simp: side_fx_guard_def core_flush_active_def)
qed

section \<open>A concrete cycle\<close>

definition reference_masks :: mask_utils where
  "reference_masks =
     \<lparr>count_trailing_zeros = first_set,
      mask_before_first_set_bit = (\<lambda>v. map (\<lambda>i. i < first_set v) [0..<length v]),
      mask_from_first_set_bit = (\<lambda>v. map (\<lambda>i. first_set v \<le> i) [0..<length v]),
      clear_lowest_set_bit = clear_lowest,
      mask_popcount = (\<lambda>v. length (filter (\<lambda>b. b) v))\<rparr>"

lemma reference_masks_spec: "mask_utils_spec reference_masks"
  by (simp add: reference_masks_def mask_utils_spec_def)

text \<open>Two pure instructions, the second of which starts tag 1, then one that reports an exception, then one more.\<close>

definition sample_entry :: "nat \<Rightarrow> bool \<Rightarrow> bool \<Rightarrow> bool \<Rightarrow> rob_entry" where
  "sample_entry i incr exc pure =
     \<lparr>re_rob_id = i, re_rl_dst = i, re_rp_dst = 10 + i, re_tag_increment = incr, re_ftq_ptr = 3, re_done = True,
      re_exception = exc, re_pure = pure\<rparr>"

definition sample_entries :: "rob_entry list" where
  "sample_entries = [sample_entry 0 False False True, sample_entry 1 True False True, sample_entry 2 False True False,
     sample_entry 3 False False True]"

definition sample_in :: "bool \<Rightarrow> 32 ret_in" where
  "sample_in exc =
     \<lparr>ri_entries = (if exc then sample_entries else map (\<lambda>e. e\<lparr>re_exception := False\<rparr>) sample_entries),
      ri_active = (\<lambda>t. t < 2),
      ri_ecr = \<lparr>er_cause = Cause_ILLEGAL_INSTRUCTION, er_rob_id = 2, er_tag = 1, er_pc = 0x1008, er_mtval = 0\<rparr>, ri_ecr_valid = True,
      ri_core_empty = False, ri_target_priv = (\<lambda>_. Priv_MACHINE), ri_async_cause = 11, ri_tvec_base = (\<lambda>_. 0x80),
      ri_tvec_vectored = (\<lambda>_. True), ri_tcause = (\<lambda>_. 2), ri_granted = True\<rparr>"

definition sample_state :: retirement where
  "sample_state = \<lparr>rt_fsm = Ret_NORMAL, rt_trap_target_priv = Priv_MACHINE, rt_ftq_commit_ptr = 0, rt_last_retired_tag = 0,
     rt_instret = 5\<rparr>"

lemma sample_valid: "retire_valid reference_masks 2 (sample_in True) (rt_last_retired_tag sample_state)"
  by code_simp

lemma sample_cycle:
  "retirement_cycle reference_masks 2 (sample_in True) sample_state = retire_normal reference_masks 2 (sample_in True) sample_state"
  using sample_valid by (simp add: retirement_cycle_def sample_state_def) (simp add: sample_in_def)

lemma sample_actions:
  "ro_actions (snd (retirement_cycle reference_masks 2 (sample_in True) sample_state)) =
     [Retire_commit, Retire_commit, Retire_flush, Retire_flush]"
  "ro_retired (snd (retirement_cycle reference_masks 2 (sample_in True) sample_state)) = 4"
proof -
  have tag: "rt_last_retired_tag sample_state < 2 ^ 2" by (simp add: sample_state_def)
  show "ro_actions (snd (retirement_cycle reference_masks 2 (sample_in True) sample_state)) =
     [Retire_commit, Retire_commit, Retire_flush, Retire_flush]"
    unfolding sample_cycle retire_normal_actions [OF reference_masks_spec tag] by code_simp
  show "ro_retired (snd (retirement_cycle reference_masks 2 (sample_in True) sample_state)) = 4"
    unfolding sample_cycle retire_normal_actions [OF reference_masks_spec tag] by code_simp
qed

theorem retirement_in_order_witness:
  "ro_actions (snd (retirement_cycle reference_masks 2 (sample_in True) sample_state)) =
     [Retire_commit, Retire_commit, Retire_flush, Retire_flush]"
proof -
  have tag: "rt_last_retired_tag sample_state < 2 ^ 2" and normal: "rt_fsm sample_state = Ret_NORMAL" by (simp_all add: sample_state_def)
  have granted: "ri_granted (sample_in True)"
    and sync: "False \<longleftrightarrow> er_cause (ri_ecr (sample_in True)) = Cause_COREBLOCKS_ASYNC_INTERRUPT" by (simp_all add: sample_in_def)
  have "ro_actions (snd (retirement_cycle reference_masks 2 (sample_in True) sample_state)) =
      map (in_order_action 2 (ri_active (sample_in True)) (rt_last_retired_tag sample_state) False (ri_entries (sample_in True)))
        [0..<length (ri_entries (sample_in True))]"
    by (rule conjunct1 [OF mp [OF conjunct1 [OF retirement_in_order [OF reference_masks_spec tag granted
        prod.collapse [symmetric] refl refl refl sync]] conjI [OF normal sample_valid]]])
  also have "\<dots> = [Retire_commit, Retire_commit, Retire_flush, Retire_flush]" by code_simp
  finally show ?thesis .
qed

theorem retirement_conserves_registers_witness:
  "mset (fst (retirement_registers reference_masks 2 (sample_in True) sample_state [0, 5, 6, 7])) + {#0, 5, 12, 13#} =
     {#0, 5, 6, 7#} + {#10, 11, 12, 13#}"
proof -
  obtain entries' freed puts where r: "retirement_registers reference_masks 2 (sample_in True) sample_state [0, 5, 6, 7] = (entries', freed, puts)"
    by (cases "retirement_registers reference_masks 2 (sample_in True) sample_state [0, 5, 6, 7]")
  have "freed_regs [Retire_commit, Retire_commit, Retire_flush, Retire_flush] (ri_entries (sample_in True)) [0, 5, 6, 7] =
      map Some [0, 5, 12, 13]" by code_simp
  then have freed: "freed = map Some [0, 5, 12, 13]" using r by (simp add: retirement_registers_def sample_actions Let_def)
  have taken: "map re_rp_dst (take (ro_retired (snd (retirement_cycle reference_masks 2 (sample_in True) sample_state)))
      (ri_entries (sample_in True))) = [10, 11, 12, 13]" unfolding sample_actions by code_simp
  have rl: "\<forall>e \<in> set (ri_entries (sample_in True)). re_rl_dst e < length [0::nat, 5, 6, 7]" by code_simp
  have tag: "rt_last_retired_tag sample_state < 2 ^ 2" by (simp add: sample_state_def)
  show ?thesis
    using conjunct1 [OF conjunct2 [OF retirement_conserves_registers [OF reference_masks_spec tag rl refl r]]]
    unfolding taken r freed by (simp add: map_filter_simps)
qed

theorem side_effects_in_order_witness:
  "instret_read reference_masks 2 (sample_in False) sample_state = 7"
proof -
  have "side_fx_guard reference_masks 4 (ri_active (sample_in False)) sample_state (ri_entries (sample_in False))
      (re_rob_id (ri_entries (sample_in False) ! 2)) 1 False" by code_simp
  moreover have "\<forall>i<length (ri_entries (sample_in False)). re_rob_id (ri_entries (sample_in False) ! i) =
      (re_rob_id (ri_entries (sample_in False) ! 0) + i) mod 2 ^ 4" by code_simp
  moreover have "length (ri_entries (sample_in False)) < 2 ^ 4" "2 < length (ri_entries (sample_in False))" by code_simp+
  ultimately have "instret_read reference_masks 2 (sample_in False) sample_state = (rt_instret sample_state +
      card {j. j < 2 \<and> entry_active 2 (ri_active (sample_in False)) (rt_last_retired_tag sample_state) (ri_entries (sample_in False)) j}) mod 2 ^ 64"
    using side_effects_in_order [OF reference_masks_spec _ _ _ refl refl refl] by blast
  moreover have "entry_active 2 (ri_active (sample_in False)) (rt_last_retired_tag sample_state) (ri_entries (sample_in False)) 0"
    "entry_active 2 (ri_active (sample_in False)) (rt_last_retired_tag sample_state) (ri_entries (sample_in False)) 1" by code_simp+
  then have "{j. j < 2 \<and> entry_active 2 (ri_active (sample_in False)) (rt_last_retired_tag sample_state) (ri_entries (sample_in False)) j} = {0, 1}"
    by (auto simp: less_2_cases_iff)
  ultimately show ?thesis by (simp add: sample_state_def)
qed

end
