(* ===== verification/Scheduler.thy ===== *)
theory Scheduler
  imports Crat Rob Rs Optypes
begin

text \<open>
  The scheduler (\<^verbatim>\<open>scheduler/scheduler.py\<close>): groups of decoded instructions get their physical registers, their tag and
  their place in the reorder buffer, and each is then sent to a reservation station of its operation. A group is the
  list of its valid instructions. The stages run as transactions of their own and are connected by
  one-element buffers and a wide queue; the checkpoint table, the reorder buffer, the register file and the
  stations answer the methods that the stages call.
\<close>

section \<open>Instructions\<close>

text \<open>
  The layouts of the stages share their fields; one that a stage does not have yet is zero and one that it no longer has
  is not used any more. The fields that are only passed on (function codes, immediate, CSR, program counter,
  offset in the fetch block) are one value.
\<close>

record 'p sched_instr =
  si_op :: OpType
  si_rl_s1 :: nat
  si_rl_s2 :: nat
  si_rl_dst :: nat
  si_rp_s1 :: nat
  si_rp_s2 :: nat
  si_rp_dst :: nat
  si_rollback_tag :: nat
  si_rollback_tag_v :: bool
  si_commit_checkpoint :: bool
  si_tag :: nat
  si_tag_increment :: bool
  si_rob_id :: nat
  si_rs_selected :: nat
  si_rs_entry_id :: nat
  si_ftq_ptr :: nat
  si_payload :: 'p

type_synonym 'p sched_group = "'p sched_instr list"

section \<open>Register allocation\<close>

text \<open>Port \<open>i\<close> of \<^verbatim>\<open>get_free_reg\<close> is called for an instruction with a destination; the others get register 0.\<close>

definition free_reg_calls :: "'p sched_group \<Rightarrow> bool list" where
  "free_reg_calls is = map (\<lambda>x. si_rl_dst x \<noteq> 0) is"

definition reg_allocate :: "nat list \<Rightarrow> 'p sched_group \<Rightarrow> 'p sched_group" where
  "reg_allocate idents is = map2 (\<lambda>p x. x\<lparr>si_rp_dst := (if si_rl_dst x \<noteq> 0 then p else 0)\<rparr>) idents is"

section \<open>Tagging\<close>

text \<open>The checkpoint table is asked for the last instruction of the group, at index \<^verbatim>\<open>count - 1\<close>.\<close>

definition tagger_call :: "'p sched_group \<Rightarrow> tag_in" where
  "tagger_call is =
     \<lparr>ti_rollback_tag = si_rollback_tag (last is), ti_rollback_tag_v = si_rollback_tag_v (last is),
      ti_commit_checkpoint = si_commit_checkpoint (last is)\<rparr>"

definition tag_instrs :: "tag_out \<Rightarrow> 'p sched_group \<Rightarrow> 'p sched_group" where
  "tag_instrs out is =
     map (\<lambda>i. (is ! i)\<lparr>si_tag := to_tag out, si_tag_increment := (i = 0 \<and> to_tag_increment out),
                si_commit_checkpoint := (if i = length is - 1 then to_commit_checkpoint out else si_commit_checkpoint (is ! i))\<rparr>)
       [0..<length is]"

section \<open>Renaming\<close>

definition renaming_commit :: "'p sched_group \<Rightarrow> nat \<times> bool" where
  "renaming_commit is = (si_tag (is ! 0), si_commit_checkpoint (last is))"

definition rename_ports :: "nat \<Rightarrow> 'p sched_group \<Rightarrow> rename_in option list" where
  "rename_ports n is =
     map (\<lambda>i. if i < length is
              then Some \<lparr>rl_dst = si_rl_dst (is ! i), rp_dst = si_rp_dst (is ! i), rl_s1 = si_rl_s1 (is ! i), rl_s2 = si_rl_s2 (is ! i)\<rparr>
              else None) [0..<n]"

definition rename_instrs :: "(nat \<Rightarrow> (nat \<times> nat) option) \<Rightarrow> 'p sched_group \<Rightarrow> 'p sched_group" where
  "rename_instrs outs is =
     map (\<lambda>i. case outs i of None \<Rightarrow> is ! i | Some (s1, s2) \<Rightarrow> (is ! i)\<lparr>si_rp_s1 := s1, si_rp_s2 := s2\<rparr>) [0..<length is]"

section \<open>Reorder buffer allocation\<close>

record rob_alloc_data =
  ra_rl_dst :: nat
  ra_rp_dst :: nat
  ra_tag_increment :: bool
  ra_ftq_ptr :: nat

definition rob_put_entries :: "'p sched_group \<Rightarrow> (rob_alloc_data \<times> bool) list" where
  "rob_put_entries is =
     map (\<lambda>x. (\<lparr>ra_rl_dst = si_rl_dst x, ra_rp_dst = si_rp_dst x, ra_tag_increment = si_tag_increment x, ra_ftq_ptr = si_ftq_ptr x\<rparr>,
               \<not> impure_optype (si_op x))) is"

definition rob_allocate :: "nat list \<Rightarrow> 'p sched_group \<Rightarrow> 'p sched_group" where
  "rob_allocate ids is = map (\<lambda>i. (is ! i)\<lparr>si_rob_id := ids ! i\<rparr>) [0..<length is]"

section \<open>Selection of a reservation station\<close>

text \<open>
  For every position of the group and every station there is a transaction, which runs when the operation matches
  and an instruction was selected at the previous position. The stations and the ports of the register file are
  called by at most one transaction in a cycle: a choice for position \<open>i\<close> is the number of the station and the entry
  that it allocates.
\<close>

type_synonym rs_choice = "(nat \<times> nat) option"

definition choice_legal :: "OpType set list \<Rightarrow> 'p sched_group \<Rightarrow> rs_choice list \<Rightarrow> bool" where
  "choice_legal stations is choices \<longleftrightarrow>
     (\<forall>i < length choices. \<forall>j e. choices ! i = Some (j, e) \<longrightarrow>
        i < length is \<and> (0 < i \<longrightarrow> choices ! (i - 1) \<noteq> None) \<and> j < length stations \<and> si_op (is ! i) \<in> stations ! j) \<and>
     (\<forall>i < length choices. \<forall>i' < length choices. \<forall>j e e'.
        choices ! i = Some (j, e) \<and> choices ! i' = Some (j, e') \<longrightarrow> i = i')"

fun select_upto :: "rs_choice list \<Rightarrow> nat \<Rightarrow> nat" where
  "select_upto choices 0 = 0"
| "select_upto choices (Suc i) = (if choices ! i \<noteq> None then i + 1 else select_upto choices i)"

definition select_count :: "rs_choice list \<Rightarrow> nat" where
  "select_count choices = select_upto choices (length choices)"

definition select_instrs :: "rs_choice list \<Rightarrow> 'p sched_group \<Rightarrow> 'p sched_group" where
  "select_instrs choices is =
     map (\<lambda>i. case choices ! i of None \<Rightarrow> is ! i | Some (j, e) \<Rightarrow> (is ! i)\<lparr>si_rs_entry_id := e, si_rs_selected := j\<rparr>)
       [0..<select_count choices]"

text \<open>The requests to the read ports \<open>2 i\<close> and \<open>2 i + 1\<close> of the register file.\<close>

definition rf_read_requests :: "rs_choice list \<Rightarrow> 'p sched_group \<Rightarrow> (nat \<times> nat) option list" where
  "rf_read_requests choices is =
     map (\<lambda>i. if choices ! i = None then None else Some (si_rp_s1 (is ! i), si_rp_s2 (is ! i))) [0..<length choices]"

section \<open>Insertion into the stations\<close>

text \<open>
  A source whose value is there, or that is not waited for because the core is flushed or the instruction is not on the current
  path, is register 0. \<open>resp\<close> is the answer of the register file for a register.
\<close>

definition rs_data_of ::
  "bool \<Rightarrow> (nat \<Rightarrow> bool) \<Rightarrow> (nat \<Rightarrow> ('v :: zero) \<times> bool) \<Rightarrow> 'p sched_instr \<Rightarrow> ('v, 'p sched_instr) rs_row" where
  "rs_data_of flushing active resp x =
     (let skip = flushing \<or> \<not> active (si_tag x); (val1, valid1) = resp (si_rp_s1 x); (val2, valid2) = resp (si_rp_s2 x)
      in \<lparr>rp_s1 = (if valid1 \<or> skip then 0 else si_rp_s1 x), rp_s2 = (if valid2 \<or> skip then 0 else si_rp_s2 x),
          s1_val = (if valid1 then val1 else 0), s2_val = (if valid2 then val2 else 0), row_data = x, rec_full = False\<rparr>)"

definition insertion_matches :: "nat \<Rightarrow> 'p sched_group \<Rightarrow> bool list" where
  "insertion_matches j is = map (\<lambda>x. si_rs_selected x = j) is"

text \<open>The call of station \<open>j\<close>, whose entries have numbers of \<open>entry_bits ! j\<close> bits.\<close>

definition rs_insert_call ::
  "('v, 'p sched_instr) rs_row one_hot_mux \<Rightarrow> nat one_hot_mux \<Rightarrow> nat list \<Rightarrow> ('v, 'p sched_instr) rs_row \<Rightarrow>
   bool \<Rightarrow> (nat \<Rightarrow> bool) \<Rightarrow> (nat \<Rightarrow> ('v :: zero) \<times> bool) \<Rightarrow> 'p sched_group \<Rightarrow> nat \<Rightarrow> (nat \<times> ('v, 'p sched_instr) rs_row) option" where
  "rs_insert_call data_mux id_mux entry_bits zero_row flushing active resp is j =
     (if list_ex id (insertion_matches j is)
      then Some (id_mux (zip (insertion_matches j is) (map si_rs_entry_id is)) 0 mod 2 ^ (entry_bits ! j),
                 data_mux (zip (insertion_matches j is) (map (rs_data_of flushing active resp) is)) zero_row)
      else None)"

section \<open>The pipeline\<close>

text \<open>
  The buffers between the stages: \<^verbatim>\<open>alloc_rename_buf\<close>, \<^verbatim>\<open>instr_tag_buf\<close>, the queue \<^verbatim>\<open>rob_alloc_out_buf\<close> and
  \<^verbatim>\<open>rs_select_out_buf\<close>. \<^verbatim>\<open>rename_out_buf\<close> connects renaming and reorder buffer allocation within a cycle.
\<close>

record ('q, 'p) sched =
  sc_alloc_buf :: "'p sched_group option"
  sc_tag_buf :: "'p sched_group option"
  sc_rob_buf :: 'q
  sc_select_buf :: "'p sched_group option"

text \<open>The transactions that run in a cycle, with what the methods they call return.\<close>

record 'p sched_in =
  sn_alloc :: "('p sched_group \<times> nat list) option"
  sn_tag :: "tag_out option"
  sn_rename :: "((nat \<Rightarrow> (nat \<times> nat) option) \<times> nat list) option"
  sn_select :: "rs_choice list option"
  sn_insert :: bool

definition pipe_cycle :: "'b option \<Rightarrow> bool \<Rightarrow> 'b option \<Rightarrow> 'b option" where
  "pipe_cycle write read buf = (case write of Some x \<Rightarrow> Some x | None \<Rightarrow> if read then None else buf)"

text \<open>A buffer is read when it is full, and written when it is empty or read in the same cycle.\<close>

definition pipe_legal :: "bool \<Rightarrow> bool \<Rightarrow> 'b option \<Rightarrow> bool" where
  "pipe_legal write read buf \<longleftrightarrow> (read \<longrightarrow> buf \<noteq> None) \<and> (write \<and> buf \<noteq> None \<longrightarrow> read)"

definition renamed_group :: "'p sched_in \<Rightarrow> ('q, 'p) sched \<Rightarrow> 'p sched_group" where
  "renamed_group inp s =
     (case (sn_rename inp, sc_tag_buf s) of
        (Some (outs, ids), Some is) \<Rightarrow> rob_allocate ids (rename_instrs outs is)
      | _ \<Rightarrow> [])"

definition select_peek :: "nat \<Rightarrow> ('q, 'p sched_instr) wide_fifo \<Rightarrow> ('q, 'p) sched \<Rightarrow> 'p sched_group" where
  "select_peek n F s = take n (wf_items F (sc_rob_buf s))"

definition sched_cycle :: "nat \<Rightarrow> ('q, 'p sched_instr) wide_fifo \<Rightarrow> 'p sched_in \<Rightarrow> ('q, 'p) sched \<Rightarrow> ('q, 'p) sched" where
  "sched_cycle n F inp s =
     \<lparr>sc_alloc_buf = pipe_cycle (map_option (\<lambda>(is, idents). reg_allocate idents is) (sn_alloc inp)) (sn_tag inp \<noteq> None) (sc_alloc_buf s),
      sc_tag_buf = pipe_cycle (case sn_tag inp of None \<Rightarrow> None | Some out \<Rightarrow> map_option (tag_instrs out) (sc_alloc_buf s))
        (sn_rename inp \<noteq> None) (sc_tag_buf s),
      sc_rob_buf = wf_cycle F (case sn_select inp of None \<Rightarrow> 0 | Some choices \<Rightarrow> select_count choices) (renamed_group inp s) (sc_rob_buf s),
      sc_select_buf = pipe_cycle (map_option (\<lambda>choices. select_instrs choices (select_peek n F s)) (sn_select inp)) (sn_insert inp)
        (sc_select_buf s)\<rparr>"

definition sched_legal :: "nat \<Rightarrow> OpType set list \<Rightarrow> ('q, 'p sched_instr) wide_fifo \<Rightarrow> 'p sched_in \<Rightarrow> ('q, 'p) sched \<Rightarrow> bool" where
  "sched_legal n stations F inp s \<longleftrightarrow>
     (case sn_alloc inp of None \<Rightarrow> True | Some (is, idents) \<Rightarrow> is \<noteq> [] \<and> length is \<le> n \<and> length idents = length is) \<and>
     pipe_legal (sn_alloc inp \<noteq> None) (sn_tag inp \<noteq> None) (sc_alloc_buf s) \<and>
     pipe_legal (sn_tag inp \<noteq> None) (sn_rename inp \<noteq> None) (sc_tag_buf s) \<and>
     pipe_legal (sn_select inp \<noteq> None) (sn_insert inp) (sc_select_buf s) \<and>
     length (wf_items F (sc_rob_buf s)) + length (renamed_group inp s) \<le> 2 * n \<and>
     (case sn_select inp of None \<Rightarrow> True
      | Some choices \<Rightarrow> length choices = n \<and> choice_legal stations (select_peek n F s) choices)"

section \<open>Program order\<close>

text \<open>What an instruction is, whatever the stages add to it.\<close>

definition sched_static :: "'p sched_instr \<Rightarrow> OpType \<times> nat \<times> nat \<times> nat \<times> nat \<times> 'p" where
  "sched_static x = (si_op x, si_rl_s1 x, si_rl_s2 x, si_rl_dst x, si_ftq_ptr x, si_payload x)"

definition opt_group :: "'b list option \<Rightarrow> 'b list" where
  "opt_group x = (case x of None \<Rightarrow> [] | Some l \<Rightarrow> l)"

text \<open>The instructions in the scheduler, oldest first; those accepted and those sent to the stations in a cycle.\<close>

definition sched_pending :: "('q, 'p sched_instr) wide_fifo \<Rightarrow> ('q, 'p) sched \<Rightarrow> 'p sched_group" where
  "sched_pending F s =
     opt_group (sc_select_buf s) @ wf_items F (sc_rob_buf s) @ opt_group (sc_tag_buf s) @ opt_group (sc_alloc_buf s)"

definition sched_accepted :: "'p sched_in \<Rightarrow> 'p sched_group" where
  "sched_accepted inp = opt_group (map_option fst (sn_alloc inp))"

definition sched_dispatched :: "'p sched_in \<Rightarrow> ('q, 'p) sched \<Rightarrow> 'p sched_group" where
  "sched_dispatched inp s = (if sn_insert inp then opt_group (sc_select_buf s) else [])"

fun sched_run ::
  "nat \<Rightarrow> OpType set list \<Rightarrow> ('q, 'p sched_instr) wide_fifo \<Rightarrow> 'p sched_in list \<Rightarrow> ('q, 'p) sched \<Rightarrow>
   ('p sched_group \<times> 'p sched_group \<times> ('q, 'p) sched) option" where
  "sched_run n stations F [] s = Some ([], [], s)"
| "sched_run n stations F (inp # inps) s =
     (if sched_legal n stations F inp s
      then map_option (\<lambda>(acc, disp, s'). (sched_accepted inp @ acc, sched_dispatched inp s @ disp, s'))
             (sched_run n stations F inps (sched_cycle n F inp s))
      else None)"

lemma opt_group_simps [simp]: "opt_group None = []" "opt_group (Some l) = l"
  by (simp_all add: opt_group_def)

lemma select_count_upto:
  assumes prev: "\<And>i. i < n \<Longrightarrow> choices ! i \<noteq> None \<Longrightarrow> 0 < i \<Longrightarrow> choices ! (i - 1) \<noteq> None" and "m \<le> n"
  shows "(\<forall>i<m. choices ! i \<noteq> None \<longleftrightarrow> i < select_upto choices m) \<and> select_upto choices m \<le> m"
  using \<open>m \<le> n\<close>
proof (induction m)
  case (Suc m)
  then have IH: "\<forall>i<m. choices ! i \<noteq> None \<longleftrightarrow> i < select_upto choices m" "select_upto choices m \<le> m" by simp_all
  show ?case
  proof (cases "choices ! m")
    case None
    then show ?thesis using IH by (auto simp: less_Suc_eq)
  next
    case (Some c)
    have "choices ! i \<noteq> None" if "i \<le> m" for i
      using that
    proof (induction rule: inc_induct)
      case base
      show ?case by (simp add: Some)
    next
      case (step k)
      then show ?case using prev [of "Suc k"] \<open>Suc m \<le> n\<close> by simp
    qed
    then show ?thesis using Some by (simp add: less_Suc_eq_le)
  qed
qed simp

lemma choice_legalD:
  assumes "choice_legal stations is choices" "i < length choices" "choices ! i = Some (j, e)"
  shows "i < length is \<and> (0 < i \<longrightarrow> choices ! (i - 1) \<noteq> None) \<and> j < length stations \<and> si_op (is ! i) \<in> stations ! j"
  using assms unfolding choice_legal_def by simp

lemma choice_unique:
  assumes "choice_legal stations is choices" "i < length choices" "i' < length choices" "choices ! i = Some (j, e)" "choices ! i' = Some (j, e')"
  shows "i = i'"
  using conjunct2 [OF assms(1) [unfolded choice_legal_def]] assms(2-) by blast

lemma legal_count:
  assumes "choice_legal stations is choices"
  shows "i < length choices \<Longrightarrow> choices ! i \<noteq> None \<longleftrightarrow> i < select_count choices"
    and "select_count choices \<le> length choices" "select_count choices \<le> length is"
proof -
  have prev: "choices ! (i - 1) \<noteq> None" if "i < length choices" "choices ! i \<noteq> None" "0 < i" for i
  proof -
    obtain j e where "choices ! i = Some (j, e)" using \<open>choices ! i \<noteq> None\<close> by auto
    from choice_legalD [OF assms that(1) this] that(3) show ?thesis by simp
  qed
  have c: "(\<forall>i<length choices. choices ! i \<noteq> None \<longleftrightarrow> i < select_count choices) \<and> select_count choices \<le> length choices"
    unfolding select_count_def by (rule select_count_upto [OF prev order_refl])
  show set: "choices ! i \<noteq> None \<longleftrightarrow> i < select_count choices" if "i < length choices" for i using conjunct1 [OF c] that by simp
  show le: "select_count choices \<le> length choices" by (rule conjunct2 [OF c])
  show "select_count choices \<le> length is"
  proof (cases "select_count choices")
    case (Suc k)
    then have k: "k < length choices" using le by simp
    with set [of k] Suc obtain j e where "choices ! k = Some (j, e)" by auto
    from choice_legalD [OF assms k this] Suc show ?thesis by simp
  qed simp
qed

lemma length_stages [simp]:
  "length (reg_allocate idents is) = min (length idents) (length is)" "length (tag_instrs out is) = length is"
  "length (rename_instrs outs is) = length is" "length (rob_allocate ids is) = length is"
  "length (select_instrs choices is) = select_count choices"
  by (simp_all add: reg_allocate_def tag_instrs_def rename_instrs_def rob_allocate_def select_instrs_def)

lemma nth_stages:
  "i < length is \<Longrightarrow> length idents = length is \<Longrightarrow>
     reg_allocate idents is ! i = (is ! i)\<lparr>si_rp_dst := (if si_rl_dst (is ! i) \<noteq> 0 then idents ! i else 0)\<rparr>"
  "i < length is \<Longrightarrow>
     tag_instrs out is ! i = (is ! i)\<lparr>si_tag := to_tag out, si_tag_increment := (i = 0 \<and> to_tag_increment out),
       si_commit_checkpoint := (if i = length is - 1 then to_commit_checkpoint out else si_commit_checkpoint (is ! i))\<rparr>"
  "i < length is \<Longrightarrow>
     rename_instrs outs is ! i = (case outs i of None \<Rightarrow> is ! i | Some (s1, s2) \<Rightarrow> (is ! i)\<lparr>si_rp_s1 := s1, si_rp_s2 := s2\<rparr>)"
  "i < length is \<Longrightarrow> rob_allocate ids is ! i = (is ! i)\<lparr>si_rob_id := ids ! i\<rparr>"
  "i < select_count choices \<Longrightarrow> select_instrs choices is ! i =
     (case choices ! i of None \<Rightarrow> is ! i | Some (j, e) \<Rightarrow> (is ! i)\<lparr>si_rs_entry_id := e, si_rs_selected := j\<rparr>)"
  by (simp_all add: reg_allocate_def tag_instrs_def rename_instrs_def rob_allocate_def select_instrs_def split: option.split)

lemma static_stages:
  "length idents = length is \<Longrightarrow> map sched_static (reg_allocate idents is) = map sched_static is"
  "map sched_static (tag_instrs out is) = map sched_static is"
  "map sched_static (rename_instrs outs is) = map sched_static is"
  "map sched_static (rob_allocate ids is) = map sched_static is"
  "select_count choices \<le> length is \<Longrightarrow> map sched_static (select_instrs choices is) = take (select_count choices) (map sched_static is)"
proof -
  show "length idents = length is \<Longrightarrow> map sched_static (reg_allocate idents is) = map sched_static is"
    by (rule nth_equalityI) (simp_all add: nth_stages sched_static_def)
  show "map sched_static (tag_instrs out is) = map sched_static is"
    by (rule nth_equalityI) (simp_all add: nth_stages sched_static_def)
  show "map sched_static (rename_instrs outs is) = map sched_static is"
    by (rule nth_equalityI) (simp_all add: nth_stages sched_static_def split: option.split prod.split)
  show "map sched_static (rob_allocate ids is) = map sched_static is"
    by (rule nth_equalityI) (simp_all add: nth_stages sched_static_def)
  show "select_count choices \<le> length is \<Longrightarrow> map sched_static (select_instrs choices is) = take (select_count choices) (map sched_static is)"
    by (rule nth_equalityI) (simp_all add: nth_stages sched_static_def split: option.split prod.split)
qed

lemma pipe_moves:
  "pipe_legal (w \<noteq> None) r buf \<Longrightarrow>
   opt_group buf @ opt_group w = (if r then opt_group buf else []) @ opt_group (pipe_cycle w r buf)"
  by (cases w; cases buf) (auto simp: pipe_legal_def pipe_cycle_def)

lemma sched_step_order:
  assumes F: "wide_fifo_spec (2 * n) F" and valid: "wf_valid F (sc_rob_buf s)" and legal: "sched_legal n stations F inp s"
  shows "wf_valid F (sc_rob_buf (sched_cycle n F inp s)) \<and>
    map sched_static (sched_pending F s @ sched_accepted inp) =
    map sched_static (sched_dispatched inp s @ sched_pending F (sched_cycle n F inp s))"
proof -
  let ?s = "sched_cycle n F inp s" and ?st = "map sched_static"
  define c where "c = (case sn_select inp of None \<Rightarrow> 0 | Some choices \<Rightarrow> select_count choices)"
  define items where "items = wf_items F (sc_rob_buf s)"
  define sel where "sel = map_option (\<lambda>choices. select_instrs choices (select_peek n F s)) (sn_select inp)"
  define tagged where "tagged = (case sn_tag inp of None \<Rightarrow> None | Some out \<Rightarrow> map_option (tag_instrs out) (sc_alloc_buf s))"
  define alloc where "alloc = map_option (\<lambda>(is, idents). reg_allocate idents is) (sn_alloc inp)"
  have c: "c \<le> length items" "?st (opt_group sel) = take c (?st items)"
  proof -
    have "c \<le> length items \<and> ?st (opt_group sel) = take c (?st items)"
    proof (cases "sn_select inp")
      case (Some choices)
      then have "choice_legal stations (select_peek n F s) choices" using legal by (simp add: sched_legal_def)
      from legal_count(3) [OF this] show ?thesis
        using static_stages(5) [of choices "select_peek n F s"] Some
        by (simp add: c_def sel_def items_def select_peek_def take_map min_absorb2)
    qed (simp add: c_def sel_def)
    then show "c \<le> length items" "?st (opt_group sel) = take c (?st items)" by simp_all
  qed
  have room: "length items + length (renamed_group inp s) \<le> 2 * n" using legal by (simp add: sched_legal_def items_def)
  from F valid c(1) room have fifo: "wf_valid F (sc_rob_buf ?s)" "wf_items F (sc_rob_buf ?s) = drop c items @ renamed_group inp s"
    by (auto simp: sched_cycle_def c_def items_def wide_fifo_spec_def)
  have pipes: "pipe_legal (alloc \<noteq> None) (sn_tag inp \<noteq> None) (sc_alloc_buf s)" "pipe_legal (tagged \<noteq> None) (sn_rename inp \<noteq> None) (sc_tag_buf s)"
    "pipe_legal (sel \<noteq> None) (sn_insert inp) (sc_select_buf s)"
    using legal by (auto simp: sched_legal_def alloc_def tagged_def sel_def pipe_legal_def split: option.splits)
  have bufs: "sc_alloc_buf ?s = pipe_cycle alloc (sn_tag inp \<noteq> None) (sc_alloc_buf s)"
    "sc_tag_buf ?s = pipe_cycle tagged (sn_rename inp \<noteq> None) (sc_tag_buf s)"
    "sc_select_buf ?s = pipe_cycle sel (sn_insert inp) (sc_select_buf s)"
    by (simp_all add: sched_cycle_def alloc_def tagged_def sel_def)
  have acc: "?st (opt_group alloc) = ?st (sched_accepted inp)"
    using legal by (auto simp: alloc_def sched_accepted_def sched_legal_def static_stages(1) split: option.splits)
  have tag: "?st (opt_group tagged) = ?st (if sn_tag inp \<noteq> None then opt_group (sc_alloc_buf s) else [])"
    by (cases "sn_tag inp"; cases "sc_alloc_buf s") (simp_all add: tagged_def static_stages(2))
  have ren: "?st (renamed_group inp s) = ?st (if sn_rename inp \<noteq> None then opt_group (sc_tag_buf s) else [])"
    by (cases "sn_rename inp"; cases "sc_tag_buf s") (auto simp: renamed_group_def static_stages(3,4))
  note moves = pipe_moves [OF pipes(1)] pipe_moves [OF pipes(2)] pipe_moves [OF pipes(3)]
  note moved = moves [THEN arg_cong [where f = ?st], unfolded map_append bufs [symmetric]]
  have sel: "?st (opt_group (sc_select_buf s)) @ take c (?st items) = ?st (sched_dispatched inp s) @ ?st (opt_group (sc_select_buf ?s))"
    using moved(3) unfolding c(2) by (simp add: sched_dispatched_def)
  have "?st (sched_pending F s @ sched_accepted inp) =
      ?st (opt_group (sc_select_buf s)) @ ?st items @ ?st (opt_group (sc_tag_buf s)) @ ?st (opt_group (sc_alloc_buf s)) @ ?st (opt_group alloc)"
    by (simp add: sched_pending_def acc items_def)
  also have "\<dots> = ?st (opt_group (sc_select_buf s)) @ ?st items @ ?st (opt_group (sc_tag_buf s)) @ ?st (opt_group tagged) @ ?st (opt_group (sc_alloc_buf ?s))"
    unfolding moved(1) tag by simp
  also have "\<dots> = ?st (opt_group (sc_select_buf s)) @ take c (?st items) @ drop c (?st items) @ ?st (renamed_group inp s) @
      ?st (opt_group (sc_tag_buf ?s)) @ ?st (opt_group (sc_alloc_buf ?s))"
    using moved(2) unfolding ren by simp
  also have "\<dots> = ?st (sched_dispatched inp s) @ ?st (opt_group (sc_select_buf ?s)) @ drop c (?st items) @ ?st (renamed_group inp s) @
      ?st (opt_group (sc_tag_buf ?s)) @ ?st (opt_group (sc_alloc_buf ?s))"
    by (simp only: append_assoc [symmetric] sel)
  finally show ?thesis using fifo by (simp add: sched_pending_def drop_map)
qed

lemma sched_run_order:
  assumes "wide_fifo_spec (2 * n) F" "wf_valid F (sc_rob_buf s)" "sched_run n stations F inps s = Some (acc, disp, s')"
  shows "map sched_static (sched_pending F s @ acc) = map sched_static (disp @ sched_pending F s')"
  using assms(2,3)
proof (induction inps arbitrary: s acc disp)
  case (Cons inp inps)
  then obtain acc' disp' where legal: "sched_legal n stations F inp s"
    and rest: "sched_run n stations F inps (sched_cycle n F inp s) = Some (acc', disp', s')"
    and eq: "acc = sched_accepted inp @ acc'" "disp = sched_dispatched inp s @ disp'"
    by (auto split: if_splits)
  note step = sched_step_order [OF assms(1) Cons.prems(1) legal]
  from Cons.IH [OF conjunct1 [OF step] rest] conjunct2 [OF step] show ?case
    by (simp only: eq map_append append_assoc [symmetric]) (simp only: append_assoc)
qed simp

text \<open>
  C34. The scheduler keeps program order: whatever stages run in which cycles, as long as the buffers allow it, the
  instructions sent to the reservation stations so far are, in order, the oldest of those accepted, and the others are
  in the scheduler; none is lost, duplicated or overtaken.
\<close>

theorem scheduler_in_order:
  assumes "wide_fifo_spec (2 * n) F" "wf_valid F (sc_rob_buf s)" "sched_pending F s = []"
    and "sched_run n stations F inps s = Some (acc, disp, s')"
  shows "map sched_static acc = map sched_static disp @ map sched_static (sched_pending F s')"
  using sched_run_order [OF assms(1,2,4)] assms(3) by simp

section \<open>Renaming in program order\<close>

text \<open>The register that holds the value of logical register \<open>r\<close> for instruction \<open>i\<close> of a group: that of the youngest older producer.\<close>

definition producer :: "'p sched_group \<Rightarrow> nat list \<Rightarrow> nat list \<Rightarrow> nat \<Rightarrow> nat \<Rightarrow> nat" where
  "producer is idents table i r =
     (case find (\<lambda>j. si_rl_dst (is ! j) = r \<and> r \<noteq> 0) (rev [0..<i]) of None \<Rightarrow> table ! r | Some j \<Rightarrow> idents ! j)"

lemma forward_snoc:
  "forward_renames rl (ars @ [x]) p = (case x of None \<Rightarrow> forward_renames rl ars p | Some (l, q) \<Rightarrow> if l = rl then q else forward_renames rl ars p)"
  by (induction rl ars p rule: forward_renames.induct) (auto split: option.splits)

lemma forward_producer:
  assumes "length idents = length is" "k \<le> length is" "\<And>i. i < length is \<Longrightarrow> ports ! i = Some \<lparr>rl_dst = si_rl_dst (is ! i),
      rp_dst = (if si_rl_dst (is ! i) \<noteq> 0 then idents ! i else 0), rl_s1 = a i, rl_s2 = b i\<rparr>" "length is \<le> length ports"
  shows "forward_renames r (take k (map (valid_rename True) ports)) (table ! r) = producer is idents table k r"
  using assms(2)
proof (induction k)
  case (Suc k)
  then have k: "k < length is" by simp
  have "take (Suc k) (map (valid_rename True) ports) = take k (map (valid_rename True) ports) @ [valid_rename True (ports ! k)]"
    using k assms(4) by (simp add: take_Suc_conv_app_nth)
  then show ?case using Suc assms(3) [OF k] by (auto simp: forward_snoc producer_def)
qed (simp add: producer_def)

lemma forward_invalid: "forward_renames r (take k (map (valid_rename False) ports)) p = p"
proof -
  have "map (valid_rename False) ports = replicate (length ports) None"
    by (rule nth_equalityI) (simp_all add: valid_rename_def split: option.split)
  moreover have "forward_renames r (replicate m None) p = p" for m by (induction m) simp_all
  ultimately show ?thesis by simp
qed

definition alloc_group ::
  "rob_config \<Rightarrow> ('q, 'd) wide_fifo \<Rightarrow> crat_calls \<Rightarrow> ('s, 't) crat \<Rightarrow> 'q rob \<Rightarrow> 'p sched_group \<Rightarrow> 'p sched_group" where
  "alloc_group cfg F c s rob is = rob_allocate (put_out cfg F rob) (rename_instrs (rename_out c s) is)"

lemma tagged_nth:
  assumes "i < length is" "length idents = length is"
  shows "tag_instrs out (reg_allocate idents is) ! i =
    (is ! i)\<lparr>si_rp_dst := (if si_rl_dst (is ! i) \<noteq> 0 then idents ! i else 0), si_tag := to_tag out,
      si_tag_increment := (i = 0 \<and> to_tag_increment out),
      si_commit_checkpoint := (if i = length is - 1 then to_commit_checkpoint out else si_commit_checkpoint (is ! i))\<rparr>"
  using assms by (simp add: nth_stages)

lemma tagged_commit:
  assumes "is \<noteq> []" "length idents = length is"
  shows "renaming_commit (tag_instrs out (reg_allocate idents is)) = (to_tag out, to_commit_checkpoint out)"
proof -
  let ?t = "tag_instrs out (reg_allocate idents is)"
  have pos: "0 < length is" and len: "length ?t = length is" using assms by simp_all
  then have "?t \<noteq> []" by (metis length_greater_0_conv)
  then have "last ?t = ?t ! (length is - 1)" using len by (simp add: last_conv_nth)
  then show ?thesis using pos assms(2) by (simp add: renaming_commit_def tagged_nth)
qed

lemma rename_port_nth:
  assumes "i < length is" "length is \<le> n" "length idents = length is"
  shows "rename_ports n (tag_instrs out (reg_allocate idents is)) ! i =
    Some \<lparr>rl_dst = si_rl_dst (is ! i), rp_dst = (if si_rl_dst (is ! i) \<noteq> 0 then idents ! i else 0), rl_s1 = si_rl_s1 (is ! i), rl_s2 = si_rl_s2 (is ! i)\<rparr>"
  using assms by (simp add: rename_ports_def tagged_nth)

lemma renamed_sources:
  assumes len: "length is \<le> n" "length idents = length is" and ports: "c_rename c = rename_ports n (tag_instrs out (reg_allocate idents is))"
    and v: "v \<longleftrightarrow> tag_valid c s"
  shows "k \<le> length is \<Longrightarrow> frat_get c s k r = (if v then producer is idents (frat s) k r else frat s ! r)"
    and "i < length is \<Longrightarrow> rename_out c s i = Some (frat_get c s i (si_rl_s1 (is ! i)), frat_get c s i (si_rl_s2 (is ! i)))"
proof -
  have "length is \<le> length (c_rename c)" using len by (simp add: ports rename_ports_def)
  from forward_producer [OF len(2) _ _ this, of k "\<lambda>i. si_rl_s1 (is ! i)" "\<lambda>i. si_rl_s2 (is ! i)" r "frat s"]
  show "k \<le> length is \<Longrightarrow> frat_get c s k r = (if v then producer is idents (frat s) k r else frat s ! r)"
    unfolding frat_get_def active_renames_def v using rename_port_nth [OF _ len] forward_invalid by (simp add: ports)
  show "i < length is \<Longrightarrow> rename_out c s i = Some (frat_get c s i (si_rl_s1 (is ! i)), frat_get c s i (si_rl_s2 (is ! i)))"
    using rename_port_nth [OF _ len] by (simp add: rename_out_def ports)
qed

lemma renamed_table:
  assumes len: "length is \<le> n" "length idents = length is" and ports: "c_rename c = rename_ports n (tag_instrs out (reg_allocate idents is))"
    and v: "v \<longleftrightarrow> tag_valid c s" and regs: "\<forall>x \<in> set is. si_rl_dst x < length (frat s) \<and> si_rl_s1 x < length (frat s) \<and> si_rl_s2 x < length (frat s)"
    and "storage_resp s = None" "c_flush_restore c = None" "r < length (frat s)"
  shows "frat (crat_cycle E c s) ! r = (if v then producer is idents (frat s) (length is) r else frat s ! r)"
proof -
  have "rename_ports n t = map Some (map (\<lambda>x. \<lparr>rl_dst = si_rl_dst x, rp_dst = si_rp_dst x, rl_s1 = si_rl_s1 x, rl_s2 = si_rl_s2 x\<rparr>) t) @
      replicate (n - length t) None" if "length t \<le> n" for t :: "'a sched_group"
    using that by (intro nth_equalityI) (auto simp: rename_ports_def nth_append)
  note padded = this
  define rs where "rs = map (\<lambda>x. \<lparr>rl_dst = si_rl_dst x, rp_dst = si_rp_dst x, rl_s1 = si_rl_s1 x, rl_s2 = si_rl_s2 x\<rparr>)
    (tag_instrs out (reg_allocate idents is))"
  have rs: "c_rename c = map Some rs @ replicate (n - length is) None" "length rs = length is"
    unfolding ports rs_def using padded [of "tag_instrs out (reg_allocate idents is)"] len by simp_all
  have nth: "rs ! i = \<lparr>rl_dst = si_rl_dst (is ! i), rp_dst = (if si_rl_dst (is ! i) \<noteq> 0 then idents ! i else 0), rl_s1 = si_rl_s1 (is ! i), rl_s2 = si_rl_s2 (is ! i)\<rparr>"
    if "i < length is" for i
    using rename_port_nth [OF that len, of out] rs that by (simp add: ports nth_append)
  have regs_nth: "si_rl_dst (is ! i) < length (frat s) \<and> si_rl_s1 (is ! i) < length (frat s) \<and> si_rl_s2 (is ! i) < length (frat s)"
    if "i < length is" for i using regs nth_mem [OF that] by blast
  have ok: "renames_ok (length (frat s)) (c_rename c)"
    using regs_nth nth rs by (auto simp: renames_ok_def in_set_conv_nth)
  have pad: "forward_renames r (ars @ replicate m None) p = forward_renames r ars p" for ars m p
    by (induction r ars p rule: forward_renames.induct) (induction m, simp_all)
  have "frat (crat_cycle E c s) ! r = forward_renames r (map (valid_rename (tag_valid c s)) (c_rename c)) (frat s ! r)"
    using assms(6-8) forward_apply [OF ok] by (simp add: crat_cycle_frat active_renames_def)
  also have "\<dots> = forward_renames r (take (length is) (map (valid_rename (tag_valid c s)) (c_rename c))) (frat s ! r)"
    using rs(2) by (simp add: rs(1) pad map_replicate_const)
  also have "\<dots> = frat_get c s (length is) r" by (simp add: frat_get_def active_renames_def)
  finally show ?thesis using renamed_sources(1) [OF len ports v] by simp
qed

text \<open>
  C35. Renaming follows program order. A group of instructions passes register allocation, tagging, renaming and reorder
  buffer allocation: when its tag is on the path that the alias table belongs to, every source register is replaced by
  the register allocated for the youngest older instruction that writes it, in the group or through the table, and
  the table afterwards gives every register its youngest producer; otherwise the table keeps its contents. All
  instructions of a group carry the same tag, only the first one starts it, only the last one commits a checkpoint, and
  they take consecutive places in the reorder buffer.
\<close>

theorem instructions_renamed:
  assumes "is \<noteq> []" "length is \<le> frontend_superscalarity cfg" "length idents = length is"
    and "out = tag_method_out (tagger_call (reg_allocate idents is)) s0"
    and "t = tag_instrs out (reg_allocate idents is)"
    and "c_rename c = rename_ports (frontend_superscalarity cfg) t" "c_commit_checkpoint c = Some (renaming_commit t)"
    and "v \<longleftrightarrow> commit_tag_valid (to_tag out) s" "i < length is"
    and "\<forall>x \<in> set is. si_rl_dst x < length (frat s) \<and> si_rl_s1 x < length (frat s) \<and> si_rl_s2 x < length (frat s)"
  shows "alloc_group cfg F c s rob t ! i = (is ! i)\<lparr>
      si_rp_s1 := (if v then producer is idents (frat s) i (si_rl_s1 (is ! i)) else frat s ! si_rl_s1 (is ! i)),
      si_rp_s2 := (if v then producer is idents (frat s) i (si_rl_s2 (is ! i)) else frat s ! si_rl_s2 (is ! i)),
      si_rp_dst := (if si_rl_dst (is ! i) \<noteq> 0 then idents ! i else 0), si_tag := to_tag out,
      si_tag_increment := (i = 0 \<and> to_tag_increment out),
      si_commit_checkpoint := (if i = length is - 1 then to_commit_checkpoint out else si_commit_checkpoint (is ! i)),
      si_rob_id := (snd (get_indices F rob) + i) mod rob_depth cfg\<rparr> \<and>
    rob_put_entries (alloc_group cfg F c s rob t) ! i =
      (\<lparr>ra_rl_dst = si_rl_dst (is ! i), ra_rp_dst = (if si_rl_dst (is ! i) \<noteq> 0 then idents ! i else 0),
        ra_tag_increment = (i = 0 \<and> to_tag_increment out), ra_ftq_ptr = si_ftq_ptr (is ! i)\<rparr>, \<not> impure_optype (si_op (is ! i))) \<and>
    c_commit_checkpoint c = Some (to_tag out, to_commit_checkpoint out) \<and>
    (storage_resp s = None \<and> c_flush_restore c = None \<longrightarrow>
      (\<forall>r < length (frat s). frat (crat_cycle E c s) ! r = (if v then producer is idents (frat s) (length is) r else frat s ! r)))"
proof -
  have commit: "c_commit_checkpoint c = Some (to_tag out, to_commit_checkpoint out)"
    using assms(7) tagged_commit [OF assms(1,3)] by (simp add: assms(5))
  then have v: "v \<longleftrightarrow> tag_valid c s" using assms(8) by (simp add: tag_valid_def)
  note ports = assms(6) [unfolded assms(5)]
  note src = renamed_sources [OF assms(2,3) ports v]
  have len: "length t = length is" using assms(3) by (simp add: assms(5))
  have ids: "put_out cfg F rob ! i = (snd (get_indices F rob) + i) mod rob_depth cfg"
    using assms(2,9) by (simp add: put_out_def end_idx_plus_def get_indices_def)
  have group: "alloc_group cfg F c s rob t ! i = (t ! i)\<lparr>si_rp_s1 := frat_get c s i (si_rl_s1 (is ! i)),
      si_rp_s2 := frat_get c s i (si_rl_s2 (is ! i)), si_rob_id := put_out cfg F rob ! i\<rparr>"
    using assms(9) len src(2) [OF assms(9)] by (simp add: alloc_group_def nth_stages)
  have "length (alloc_group cfg F c s rob t) = length is" using len by (simp add: alloc_group_def)
  then have entry: "rob_put_entries (alloc_group cfg F c s rob t) ! i =
      (\<lambda>x. (\<lparr>ra_rl_dst = si_rl_dst x, ra_rp_dst = si_rp_dst x, ra_tag_increment = si_tag_increment x, ra_ftq_ptr = si_ftq_ptr x\<rparr>,
        \<not> impure_optype (si_op x))) (alloc_group cfg F c s rob t ! i)"
    using assms(9) by (simp add: rob_put_entries_def)
  have ti: "t ! i = (is ! i)\<lparr>si_rp_dst := (if si_rl_dst (is ! i) \<noteq> 0 then idents ! i else 0), si_tag := to_tag out,
      si_tag_increment := (i = 0 \<and> to_tag_increment out),
      si_commit_checkpoint := (if i = length is - 1 then to_commit_checkpoint out else si_commit_checkpoint (is ! i))\<rparr>"
    unfolding assms(5) by (rule tagged_nth [OF assms(9,3)])
  have table: "storage_resp s = None \<and> c_flush_restore c = None \<longrightarrow>
      (\<forall>r < length (frat s). frat (crat_cycle E c s) ! r = (if v then producer is idents (frat s) (length is) r else frat s ! r))"
    using renamed_table [OF assms(2,3) ports v assms(10)] by blast
  show ?thesis
    using commit table src(1) [of i] assms(9) unfolding entry unfolding group ids ti by simp
qed

section \<open>Dispatch\<close>

definition selected_instr :: "nat \<times> nat \<Rightarrow> 'p sched_instr \<Rightarrow> 'p sched_instr" where
  "selected_instr choice x = x\<lparr>si_rs_entry_id := snd choice, si_rs_selected := fst choice\<rparr>"

lemma selected_nth:
  assumes "choice_legal stations is choices" "i < select_count choices"
  obtains j e where "choices ! i = Some (j, e)" "select_instrs choices is ! i = selected_instr (j, e) (is ! i)"
    "j < length stations" "si_op (is ! i) \<in> stations ! j" "i < length choices"
proof -
  have i: "i < length choices" using legal_count(2) [OF assms(1)] assms(2) by simp
  then obtain j e where c: "choices ! i = Some (j, e)" using legal_count(1) [OF assms(1) i] assms(2) by auto
  then show ?thesis
    using that [OF c] choice_legalD [OF assms(1) i c] assms(2) i by (simp add: nth_stages selected_instr_def)
qed

lemma insert_selected:
  assumes "choice_legal stations is choices" "one_hot_mux_spec data_mux" "one_hot_mux_spec id_mux"
    and "i < select_count choices" "choices ! i = Some (j, e)"
  shows "rs_insert_call data_mux id_mux entry_bits z flushing active resp (select_instrs choices is) j =
    Some (e mod 2 ^ (entry_bits ! j), rs_data_of flushing active resp (selected_instr (j, e) (is ! i)))"
proof -
  let ?sel = "select_instrs choices is" and ?m = "insertion_matches j (select_instrs choices is)"
  have len: "length ?sel = select_count choices" by (simp add: select_instrs_def)
  have at: "?sel ! i = selected_instr (j, e) (is ! i)" using assms(4,5) by (simp add: nth_stages selected_instr_def)
  have m: "?m ! k \<longleftrightarrow> k = i" if sel: "k < select_count choices" for k
  proof -
    obtain j' e' where k: "choices ! k = Some (j', e')" "?sel ! k = selected_instr (j', e') (is ! k)" "k < length choices"
      using selected_nth [OF assms(1) sel] by metis
    have "?m ! k \<longleftrightarrow> j' = j" using sel k(2) len by (simp add: insertion_matches_def selected_instr_def)
    moreover have i: "i < length choices" using legal_count(2) [OF assms(1)] assms(4) by simp
    have "j' = j \<Longrightarrow> k = i" using choice_unique [OF assms(1) k(3) i _ assms(5)] k(1) by simp
    moreover have "k = i \<Longrightarrow> j' = j" using k(1) assms(5) by simp
    ultimately show ?thesis by blast
  qed
  have lm: "length ?m = select_count choices" using len by (simp add: insertion_matches_def)
  have "list_ex id ?m" using m [OF assms(4)] assms(4) lm by (auto simp: list_ex_length)
  moreover have "id_mux (zip ?m (map si_rs_entry_id ?sel)) 0 = e"
    by (subst one_hot_mux_select [OF assms(3), of i]) (use m assms(4) lm len at in \<open>simp_all add: selected_instr_def\<close>)
  moreover have "data_mux (zip ?m (map (rs_data_of flushing active resp) ?sel)) z = rs_data_of flushing active resp (selected_instr (j, e) (is ! i))"
    by (subst one_hot_mux_select [OF assms(2), of i]) (use m assms(4) lm len at in simp_all)
  ultimately show ?thesis by (simp add: rs_insert_call_def)
qed

lemma insert_only_selected:
  assumes "choice_legal stations is choices" "rs_insert_call data_mux id_mux entry_bits z flushing active resp (select_instrs choices is) j \<noteq> None"
  shows "\<exists>i < select_count choices. \<exists>e. choices ! i = Some (j, e)"
proof -
  have "list_ex id (insertion_matches j (select_instrs choices is))" using assms(2) by (simp add: rs_insert_call_def split: if_splits)
  then obtain i where i: "i < select_count choices" "si_rs_selected (select_instrs choices is ! i) = j"
    by (auto simp: list_ex_length insertion_matches_def)
  from selected_nth [OF assms(1) i(1)] i show ?thesis by (metis selected_instr_def sched_instr.select_convs(14) sched_instr.surjective sched_instr.update_convs(14) fst_conv)
qed

lemma operand_ready:
  "data_ready ((rs_data_of flushing active resp x)\<lparr>rec_full := True\<rparr>) \<longleftrightarrow>
    flushing \<or> \<not> active (si_tag x) \<or> (snd (resp (si_rp_s1 x)) \<or> si_rp_s1 x = 0) \<and> (snd (resp (si_rp_s2 x)) \<or> si_rp_s2 x = 0)"
  by (auto simp: rs_data_of_def data_ready_def Let_def split: prod.splits)

text \<open>
  C36. Dispatch. Of the waiting instructions the oldest ones are sent, as many as are selected without a gap: every one is
  inserted in exactly one station, one that executes its operation, in the entry that this station allocated for it, and a station
  receives nothing else. In the station an instruction waits exactly for the source registers that have no value, with
  the values of the others, unless the core is flushed or the instruction is not on the current path.
\<close>

theorem instructions_dispatched:
  assumes "choice_legal stations is choices" "one_hot_mux_spec data_mux" "one_hot_mux_spec id_mux"
    and "\<forall>i < length choices. \<forall>j e. choices ! i = Some (j, e) \<longrightarrow> e < 2 ^ (entry_bits ! j)"
  shows "select_count choices \<le> length is \<and>
    (\<forall>i < select_count choices. \<exists>j e. choices ! i = Some (j, e) \<and> j < length stations \<and> si_op (is ! i) \<in> stations ! j \<and>
       rs_insert_call data_mux id_mux entry_bits z flushing active resp (select_instrs choices is) j =
         Some (e, rs_data_of flushing active resp (selected_instr (j, e) (is ! i))) \<and>
       rf_read_requests choices is ! i = Some (si_rp_s1 (is ! i), si_rp_s2 (is ! i))) \<and>
    (\<forall>j. rs_insert_call data_mux id_mux entry_bits z flushing active resp (select_instrs choices is) j \<noteq> None \<longrightarrow>
       (\<exists>!i. i < select_count choices \<and> (\<exists>e. choices ! i = Some (j, e)))) \<and>
    (\<forall>x. (data_ready ((rs_data_of flushing active resp x)\<lparr>rec_full := True\<rparr>) \<longleftrightarrow>
       flushing \<or> \<not> active (si_tag x) \<or> (snd (resp (si_rp_s1 x)) \<or> si_rp_s1 x = 0) \<and> (snd (resp (si_rp_s2 x)) \<or> si_rp_s2 x = 0)))"
proof (intro conjI allI impI)
  show "select_count choices \<le> length is" by (rule legal_count(3) [OF assms(1)])
  fix i
  assume i: "i < select_count choices"
  from selected_nth [OF assms(1) i] obtain j e where c: "choices ! i = Some (j, e)" "j < length stations" "si_op (is ! i) \<in> stations ! j"
      "i < length choices" by metis
  show "\<exists>j e. choices ! i = Some (j, e) \<and> j < length stations \<and> si_op (is ! i) \<in> stations ! j \<and>
       rs_insert_call data_mux id_mux entry_bits z flushing active resp (select_instrs choices is) j =
         Some (e, rs_data_of flushing active resp (selected_instr (j, e) (is ! i))) \<and>
       rf_read_requests choices is ! i = Some (si_rp_s1 (is ! i), si_rp_s2 (is ! i))"
    using c assms(4) insert_selected [OF assms(1-3) i c(1)] by (simp add: rf_read_requests_def)
next
  fix j
  assume "rs_insert_call data_mux id_mux entry_bits z flushing active resp (select_instrs choices is) j \<noteq> None"
  from insert_only_selected [OF assms(1) this] obtain i e where i: "i < select_count choices" "choices ! i = Some (j, e)" by blast
  then show "\<exists>!i. i < select_count choices \<and> (\<exists>e. choices ! i = Some (j, e))"
    using choice_unique [OF assms(1)] legal_count(2) [OF assms(1)] by (intro ex1I [of _ i]) (auto intro: less_le_trans)
next
  fix x
  show "data_ready ((rs_data_of flushing active resp x)\<lparr>rec_full := True\<rparr>) \<longleftrightarrow>
       flushing \<or> \<not> active (si_tag x) \<or> (snd (resp (si_rp_s1 x)) \<or> si_rp_s1 x = 0) \<and> (snd (resp (si_rp_s2 x)) \<or> si_rp_s2 x = 0)"
    by (rule operand_ready)
qed

section \<open>A concrete group\<close>

definition sched_example :: "OpType \<Rightarrow> nat \<Rightarrow> nat \<Rightarrow> nat \<Rightarrow> unit sched_instr" where
  "sched_example op s1 s2 dst =
     \<lparr>si_op = op, si_rl_s1 = s1, si_rl_s2 = s2, si_rl_dst = dst, si_rp_s1 = 0, si_rp_s2 = 0, si_rp_dst = 0, si_rollback_tag = 0,
      si_rollback_tag_v = False, si_commit_checkpoint = False, si_tag = 0, si_tag_increment = False, si_rob_id = 0,
      si_rs_selected = 0, si_rs_entry_id = 0, si_ftq_ptr = 0, si_payload = ()\<rparr>"

text \<open>The second instruction reads register 1, which the first one writes.\<close>

definition example_group :: "unit sched_group" where
  "example_group = [sched_example OpType_ARITHMETIC 0 0 1, sched_example OpType_LOAD 1 0 2]"

definition example_idle :: "unit sched_in" where
  "example_idle = \<lparr>sn_alloc = None, sn_tag = None, sn_rename = None, sn_select = None, sn_insert = False\<rparr>"

definition example_sched :: "(nat \<times> unit sched_instr list, unit) sched" where
  "example_sched = \<lparr>sc_alloc_buf = None, sc_tag_buf = None, sc_rob_buf = (0, []), sc_select_buf = None\<rparr>"

text \<open>The group is accepted, and then moves one stage further in every cycle; only its first instruction finds a station.\<close>

definition example_inputs :: "unit sched_in list" where
  "example_inputs =
     [example_idle\<lparr>sn_alloc := Some (example_group, [5, 6])\<rparr>,
      example_idle\<lparr>sn_tag := Some \<lparr>to_tag = 0, to_tag_increment = False, to_commit_checkpoint = False\<rparr>\<rparr>,
      example_idle\<lparr>sn_rename := Some (\<lambda>i. Some (0, 0), [0, 1])\<rparr>,
      example_idle\<lparr>sn_select := Some [Some (0, 2), None]\<rparr>,
      example_idle\<lparr>sn_insert := True\<rparr>]"

definition example_stations :: "OpType set list" where
  "example_stations = [{OpType_ARITHMETIC}, {OpType_LOAD}]"

theorem scheduler_in_order_witness:
  "\<exists>acc disp s'. sched_run 2 example_stations (list_fifo 4) example_inputs example_sched = Some (acc, disp, s') \<and>
     map sched_static acc = map sched_static disp @ map sched_static (sched_pending (list_fifo 4) s') \<and> length disp = 1"
proof -
  have "map_option (\<lambda>(acc, disp, s'). length disp) (sched_run 2 example_stations (list_fifo 4) example_inputs example_sched) = Some 1"
    by (simp add: example_inputs_def sched_legal_def example_idle_def example_sched_def pipe_legal_def renamed_group_def list_fifo_def
      sched_cycle_def pipe_cycle_def select_peek_def example_group_def sched_example_def choice_legal_def example_stations_def
      select_count_def numeral_2_eq_2 less_Suc_eq nth_stages sched_dispatched_def)
  then obtain acc disp s' where run: "sched_run 2 example_stations (list_fifo 4) example_inputs example_sched = Some (acc, disp, s')"
    and len: "length disp = 1" by (auto simp: map_option_eq_Some)
  have "wide_fifo_spec (2 * 2) (list_fifo 4)" using list_fifo_spec [of 4] by simp
  moreover have "wf_valid (list_fifo 4) (sc_rob_buf example_sched)" "sched_pending (list_fifo 4) example_sched = []"
    by (simp_all add: list_fifo_def example_sched_def sched_pending_def)
  ultimately show ?thesis using scheduler_in_order [OF _ _ _ run] run len by blast
qed

definition example_zero_row :: "(nat, unit sched_instr) rs_row" where
  "example_zero_row = \<lparr>rp_s1 = 0, rp_s2 = 0, s1_val = 0, s2_val = 0, row_data = sched_example OpType_UNKNOWN 0 0 0, rec_full = False\<rparr>"

theorem instructions_dispatched_witness:
  "rs_insert_call first_mux first_mux [2, 2] example_zero_row False (\<lambda>_. True) (\<lambda>r. (7 :: nat, r = 0))
     (select_instrs [Some (0, 2), None] example_group) 0 =
   Some (2, rs_data_of False (\<lambda>_. True) (\<lambda>r. (7, r = 0)) (selected_instr (0, 2) (example_group ! 0)))"
proof -
  have legal: "choice_legal example_stations example_group [Some (0, 2), None]"
    by (simp add: choice_legal_def example_stations_def example_group_def sched_example_def less_Suc_eq numeral_2_eq_2)
  have count: "select_count [Some (0, 2), None] = 1" by (simp add: select_count_def)
  have "\<forall>i < length [Some (0, 2), None]. \<forall>j e. [Some (0 :: nat, 2 :: nat), None] ! i = Some (j, e) \<longrightarrow> e < 2 ^ ([2, 2] ! j)"
    by (simp add: less_Suc_eq)
  then show ?thesis
    using conjunct1 [OF conjunct2 [OF instructions_dispatched [OF legal first_mux_spec first_mux_spec, of "[2, 2]" example_zero_row False "\<lambda>_. True" "\<lambda>r. (7, r = 0)"]]]
    by (simp add: count)
qed

theorem instructions_renamed_witness:
  "si_rp_s1 (alloc_group example_config (list_fifo 4) (no_calls\<lparr>c_rename := rename_ports 2 (tag_instrs (tag_method_out (tagger_call (reg_allocate [5, 6] example_group)) (crat_init 3 () ())) (reg_allocate [5, 6] example_group)),
      c_commit_checkpoint := Some (renaming_commit (tag_instrs (tag_method_out (tagger_call (reg_allocate [5, 6] example_group)) (crat_init 3 () ())) (reg_allocate [5, 6] example_group)))\<rparr>)
    (crat_init 3 () ()) example_rob (tag_instrs (tag_method_out (tagger_call (reg_allocate [5, 6] example_group)) (crat_init 3 () ())) (reg_allocate [5, 6] example_group)) ! 1) = 5"
proof -
  let ?s = "crat_init 3 () ()"
  let ?out = "tag_method_out (tagger_call (reg_allocate [5, 6] example_group)) ?s"
  let ?t = "tag_instrs ?out (reg_allocate [5, 6] example_group)"
  let ?c = "no_calls\<lparr>c_rename := rename_ports 2 ?t, c_commit_checkpoint := Some (renaming_commit ?t)\<rparr>"
  have len: "example_group \<noteq> []" "length example_group \<le> frontend_superscalarity example_config" "length [5 :: nat, 6] = length example_group"
    by (simp_all add: example_group_def example_config_def)
  have calls: "c_rename ?c = rename_ports (frontend_superscalarity example_config) ?t" "c_commit_checkpoint ?c = Some (renaming_commit ?t)"
    by (simp_all add: example_config_def)
  have v: "True \<longleftrightarrow> commit_tag_valid (to_tag ?out) ?s" by (simp add: commit_tag_valid_def crat_init_def)
  have regs: "\<forall>x \<in> set example_group. si_rl_dst x < length (frat ?s) \<and> si_rl_s1 x < length (frat ?s) \<and> si_rl_s2 x < length (frat ?s)"
    by (simp add: example_group_def sched_example_def crat_init_def)
  have i: "1 < length example_group" by (simp add: example_group_def)
  have "producer example_group [5, 6] (frat ?s) 1 (si_rl_s1 (example_group ! 1)) = 5"
    by (simp add: producer_def example_group_def sched_example_def)
  then show ?thesis using conjunct1 [OF instructions_renamed [OF len refl refl calls v i regs, of "list_fifo 4" example_rob]] by simp
qed

end
