(* ===== verification/Tlb.thy ===== *)
theory Tlb
  imports Vmem Pmp
begin

text \<open>
  The translation look-aside buffers (\<^verbatim>\<open>priv/vmem/tlb.py\<close>): the matching logic of a set, the fully associative buffer with
  several ports, and the set associative buffer. A buffer stands between the address translator and a backing
  device and has the interface of one (\<^verbatim>\<open>priv/vmem/iface.py\<close>).
\<close>

section \<open>TLBCAM\<close>

record tlb_entry =
  te_valid :: bool
  te_asid :: nat
  te_size_class :: nat
  te_vpn :: nat
  te_ppn :: nat
  te_permissions :: permissions

definition no_permissions :: permissions where
  "no_permissions = \<lparr>perm_r = False, perm_w = False, perm_x = False, perm_u = False, perm_d = False, perm_g = False\<rparr>"

definition zero_entry :: tlb_entry where
  "zero_entry = \<lparr>te_valid = False, te_asid = 0, te_size_class = 0, te_vpn = 0, te_ppn = 0, te_permissions = no_permissions\<rparr>"

text \<open>The library functions: a multiplexer with priority, and the increment modulo a number.\<close>

record tlb_lib =
  tn_mux :: "tlb_entry one_hot_mux"
  tn_mod_incr :: "nat \<Rightarrow> nat \<Rightarrow> nat"

definition tlb_lib_spec :: "tlb_lib \<Rightarrow> bool" where
  "tlb_lib_spec E \<longleftrightarrow> priority_mux_spec (tn_mux E) \<and> (\<forall>x m. x < m \<longrightarrow> tn_mod_incr E x m = (if x = m - 1 then 0 else x + 1))"

definition asid_match :: "nat \<Rightarrow> tlb_entry \<Rightarrow> bool" where
  "asid_match asid e = (\<not> perm_g (te_permissions e) \<and> te_asid e = asid)"

definition addr_match :: "vmem_params \<Rightarrow> nat \<Rightarrow> tlb_entry \<Rightarrow> bool" where
  "addr_match p vpn e =
     (te_size_class e \<le> vp_max_tlb_size_class p \<and>
      (let match_bits = bits_per_page_table_level (vp_xlen p) * te_size_class e in drop_bit match_bits vpn = drop_bit match_bits (te_vpn e)))"

definition full_match :: "vmem_params \<Rightarrow> nat \<Rightarrow> nat \<Rightarrow> tlb_entry \<Rightarrow> bool" where
  "full_match p asid vpn e = (te_valid e \<and> addr_match p vpn e \<and> (asid_match asid e \<or> perm_g (te_permissions e)))"

definition matched_entry :: "tlb_lib \<Rightarrow> vmem_params \<Rightarrow> nat \<Rightarrow> nat \<Rightarrow> tlb_entry list \<Rightarrow> tlb_entry" where
  "matched_entry E p asid vpn ways = tn_mux E (map (\<lambda>e. (full_match p asid vpn e, e)) ways) zero_entry"

text \<open>The assignments of the two loops, the last one that applies wins.\<close>

definition replace_candidate :: "vmem_params \<Rightarrow> nat \<Rightarrow> nat \<Rightarrow> nat \<Rightarrow> tlb_entry list \<Rightarrow> nat" where
  "replace_candidate p asid vpn rr ways =
     (let c = fold (\<lambda>way c. if \<not> te_valid (ways ! way) then way else c) [0..<length ways] rr
      in fold (\<lambda>way c. if full_match p asid vpn (ways ! way) then way else c) [0..<length ways] c)"

section \<open>FullyAssociativeTLB\<close>

record sfence =
  sf_vaddr :: nat
  sf_asid :: nat
  sf_all_vaddrs :: bool
  sf_all_asids :: bool

text \<open>A port, with the buffer of its \<^verbatim>\<open>Forwarder\<close>: a value written passes through in the same cycle, or is kept until it is read.\<close>

record tlb_port =
  tp_slow_path :: bool
  tp_vpn_req :: nat
  tp_is_store_req :: bool
  tp_handling_refill :: bool
  tp_fwd :: "tlb_accept option"

text \<open>The semaphore with one token counts the refills in progress.\<close>

record fa_tlb =
  ft_entries :: "tlb_entry list"
  ft_rr :: nat
  ft_flush_queue :: "sfence list"
  ft_refill_free :: bool
  ft_ports :: "tlb_port list"

text \<open>
  The inputs of a cycle: for every port a request, whether the answer is accepted, the answer of the backing device to a refill,
  and whether it takes a new request; a fence, whether the flush is granted, and the current address space.
\<close>

record tlb_port_in =
  tr_request :: "(nat \<times> bool) option"
  tr_accept :: bool
  tr_response :: "tlb_accept option"
  tr_refill_granted :: bool

record tlb_in =
  tl_asid :: nat
  tl_ports :: "tlb_port_in list"
  tl_sfence :: "sfence option"
  tl_flush_granted :: bool

definition tlb_hit :: "tlb_lib \<Rightarrow> vmem_params \<Rightarrow> nat \<Rightarrow> nat \<Rightarrow> tlb_entry list \<Rightarrow> tlb_accept" where
  "tlb_hit E p asid vpn ways =
     (let e = matched_entry E p asid vpn ways
      in \<lparr>ta_result = TLB_HIT, ta_ppn = te_ppn e, ta_asid = asid, ta_permissions = te_permissions e, ta_size_class = te_size_class e\<rparr>)"

text \<open>\<^verbatim>\<open>supports_auto_a_d_management\<close> is false, so that the backing device is asked exactly on a miss.\<close>

definition ask_backing :: "vmem_params \<Rightarrow> nat \<Rightarrow> nat \<Rightarrow> tlb_entry list \<Rightarrow> bool" where
  "ask_backing p asid vpn ways = (\<not> list_ex (full_match p asid vpn) ways)"

text \<open>What a port does in a cycle.\<close>

datatype tlb_act =
  Act_none | Act_refill tlb_accept | Act_flush sfence | Act_miss nat bool | Act_hit tlb_accept | Act_ask | Act_resolve tlb_accept

definition port_act :: "tlb_lib \<Rightarrow> vmem_params \<Rightarrow> tlb_in \<Rightarrow> fa_tlb \<Rightarrow> nat \<Rightarrow> tlb_act" where
  "port_act E p inp s i =
     (let P = ft_ports s ! i; I = tl_ports inp ! i; asid = tl_asid inp
      in if tp_handling_refill P then
           (case tr_response I of None \<Rightarrow> Act_none | Some resp \<Rightarrow> if tp_fwd P = None then Act_refill resp else Act_none)
         else if ft_flush_queue s \<noteq> [] then
           if i = 0 \<and> tl_flush_granted inp \<and> ft_refill_free s then Act_flush (hd (ft_flush_queue s)) else Act_none
         else if \<not> tp_slow_path P then
           (case tr_request I of None \<Rightarrow> Act_none
            | Some (vpn, is_store) \<Rightarrow>
                if tp_fwd P \<noteq> None then Act_none
                else if ask_backing p asid vpn (ft_entries s) then Act_miss vpn is_store
                else Act_hit (tlb_hit E p asid vpn (ft_entries s)))
         else if ask_backing p asid (tp_vpn_req P) (ft_entries s) then
           if tr_refill_granted I \<and> ft_refill_free s then Act_ask else Act_none
         else if tp_fwd P = None then Act_resolve (tlb_hit E p asid (tp_vpn_req P) (ft_entries s)) else Act_none)"

definition refill_entry :: "nat \<Rightarrow> tlb_accept \<Rightarrow> tlb_entry" where
  "refill_entry vpn resp =
     \<lparr>te_valid = True, te_asid = ta_asid resp, te_size_class = ta_size_class resp, te_vpn = vpn, te_ppn = ta_ppn resp,
      te_permissions = ta_permissions resp\<rparr>"

text \<open>The entries a fence removes.\<close>

definition fence_covers :: "vmem_params \<Rightarrow> sfence \<Rightarrow> tlb_entry \<Rightarrow> bool" where
  "fence_covers p f e =
     ((sf_all_asids f \<or> asid_match (sf_asid f) e) \<and> (sf_all_vaddrs f \<or> addr_match p (take_bit (vp_max_tlb_vpn_bits p) (drop_bit PAGE_SIZE_LOG (sf_vaddr f))) e))"

definition act_writes :: "tlb_act \<Rightarrow> tlb_accept option" where
  "act_writes a = (case a of Act_refill resp \<Rightarrow> Some resp | Act_hit ret \<Rightarrow> Some ret | Act_resolve ret \<Rightarrow> Some ret | _ \<Rightarrow> None)"

text \<open>The register assignments of port \<open>i\<close>, from the state \<open>s\<close> of the cycle, on the next state \<open>u\<close>.\<close>

definition port_registers :: "tlb_act \<Rightarrow> tlb_port \<Rightarrow> tlb_port" where
  "port_registers a P =
     (case a of
        Act_refill resp \<Rightarrow> P\<lparr>tp_slow_path := False, tp_handling_refill := False\<rparr>
      | Act_miss vpn is_store \<Rightarrow> P\<lparr>tp_slow_path := True, tp_vpn_req := vpn, tp_is_store_req := is_store\<rparr>
      | Act_ask \<Rightarrow> P\<lparr>tp_handling_refill := True\<rparr>
      | Act_resolve ret \<Rightarrow> P\<lparr>tp_slow_path := False\<rparr>
      | _ \<Rightarrow> P)"

definition port_part :: "tlb_lib \<Rightarrow> vmem_params \<Rightarrow> tlb_in \<Rightarrow> fa_tlb \<Rightarrow> nat \<Rightarrow> fa_tlb \<Rightarrow> fa_tlb" where
  "port_part E p inp s i u =
     (let P = ft_ports s ! i; a = port_act E p inp s i;
          u = u\<lparr>ft_ports := (ft_ports u)[i := (port_registers a P)\<lparr>tp_fwd := fwd_next (act_writes a) (tr_accept (tl_ports inp ! i)) (tp_fwd P)\<rparr>]\<rparr>
      in case a of
           Act_refill resp \<Rightarrow>
             (let u = u\<lparr>ft_refill_free := True\<rparr>
              in if ta_result resp = TLB_HIT then
                   u\<lparr>ft_rr := tn_mod_incr E (ft_rr s) (length (ft_entries s)),
                     ft_entries := (ft_entries u)[replace_candidate p (ta_asid resp) (tp_vpn_req P) (ft_rr s) (ft_entries s) :=
                       refill_entry (tp_vpn_req P) resp]\<rparr>
                 else u)
         | Act_flush f \<Rightarrow>
             u\<lparr>ft_flush_queue := tl (ft_flush_queue s),
               ft_entries := map2 (\<lambda>old e. if fence_covers p f old then zero_entry else e) (ft_entries s) (ft_entries u)\<rparr>
         | Act_ask \<Rightarrow> u\<lparr>ft_refill_free := False\<rparr>
         | _ \<Rightarrow> u)"

definition fa_cycle :: "tlb_lib \<Rightarrow> vmem_params \<Rightarrow> tlb_in \<Rightarrow> fa_tlb \<Rightarrow> fa_tlb" where
  "fa_cycle E p inp s =
     (let u = fold (port_part E p inp s) [0..<length (ft_ports s)] s
      in case tl_sfence inp of None \<Rightarrow> u | Some f \<Rightarrow> u\<lparr>ft_flush_queue := ft_flush_queue u @ [f]\<rparr>)"

text \<open>What \<^verbatim>\<open>accept\<close> returns at port \<open>i\<close>, when it is called and there is an answer.\<close>

definition fa_answer :: "tlb_lib \<Rightarrow> vmem_params \<Rightarrow> tlb_in \<Rightarrow> fa_tlb \<Rightarrow> nat \<Rightarrow> tlb_accept option" where
  "fa_answer E p inp s i =
     (if tr_accept (tl_ports inp ! i)
      then (case tp_fwd (ft_ports s ! i) of None \<Rightarrow> act_writes (port_act E p inp s i) | Some d \<Rightarrow> Some d) else None)"

text \<open>The request taken at port \<open>i\<close>.\<close>

definition fa_taken :: "tlb_in \<Rightarrow> fa_tlb \<Rightarrow> nat \<Rightarrow> (nat \<times> bool) option" where
  "fa_taken inp s i =
     (let P = ft_ports s ! i
      in if \<not> tp_handling_refill P \<and> ft_flush_queue s = [] \<and> \<not> tp_slow_path P \<and> tp_fwd P = None then tr_request (tl_ports inp ! i) else None)"

text \<open>The semaphore admits one refill, and a queue of two fences has room for a new one.\<close>

definition fa_legal :: "tlb_in \<Rightarrow> fa_tlb \<Rightarrow> bool" where
  "fa_legal inp s \<longleftrightarrow> length (tl_ports inp) = length (ft_ports s) \<and>
     (\<forall>i j. i < length (ft_ports s) \<and> j < length (ft_ports s) \<and> tr_refill_granted (tl_ports inp ! i) \<and> tr_refill_granted (tl_ports inp ! j) \<longrightarrow> i = j) \<and>
     (tl_sfence inp \<noteq> None \<longrightarrow> length (ft_flush_queue s) < 2)"

definition fa_reset :: "nat \<Rightarrow> nat \<Rightarrow> fa_tlb" where
  "fa_reset entries ports =
     \<lparr>ft_entries = replicate entries zero_entry, ft_rr = 0, ft_flush_queue = [], ft_refill_free = True,
      ft_ports = replicate ports \<lparr>tp_slow_path = False, tp_vpn_req = 0, tp_is_store_req = False, tp_handling_refill = False, tp_fwd = None\<rparr>\<rparr>"

definition mk_FullyAssociativeTLB :: "int \<Rightarrow> int \<Rightarrow> py_error + fa_tlb" where
  "mk_FullyAssociativeTLB entries ports =
     (if entries \<le> 0 then Inl ValueError else if ports \<le> 0 then Inl ValueError else Inr (fa_reset (nat entries) (nat ports)))"

section \<open>Consistency with the page tables\<close>

text \<open>
  A world gives the result of the walk for every address space and page. Pages of one leaf share it, and a leaf
  marked as global belongs to all address spaces.
\<close>

type_synonym walk_world = "nat \<Rightarrow> nat \<Rightarrow> walk_end"

definition same_page :: "vmem_params \<Rightarrow> nat \<Rightarrow> nat \<Rightarrow> nat \<Rightarrow> bool" where
  "same_page p l v v' \<longleftrightarrow> drop_bit (bits_per_page_table_level (vp_xlen p) * l) v = drop_bit (bits_per_page_table_level (vp_xlen p) * l) v'"

definition world_ok :: "vmem_params \<Rightarrow> walk_world \<Rightarrow> bool" where
  "world_ok p W \<longleftrightarrow>
     (\<forall>a v v' l e. W a v = Walk_leaf l e \<and> same_page p l v v' \<longrightarrow> W a v' = Walk_leaf l e) \<and>
     (\<forall>a a' v l e. W a v = Walk_leaf l e \<and> pte_G e \<longrightarrow> W a' v = Walk_leaf l e) \<and>
     (\<forall>a v l e. W a v = Walk_leaf l e \<longrightarrow> l \<le> vp_max_tlb_size_class p)"

definition entry_consistent :: "vmem_params \<Rightarrow> walk_world \<Rightarrow> tlb_entry \<Rightarrow> bool" where
  "entry_consistent p W e \<longleftrightarrow> (te_valid e \<longrightarrow>
     (\<exists>l pt. W (te_asid e) (te_vpn e) = Walk_leaf l pt \<and> leaf_usable p False l pt \<and> te_size_class e = l \<and> te_ppn e = pte_ppn pt \<and>
        te_permissions e = pte_permissions pt))"

text \<open>
  What a buffer may answer: what the walk answers, or for a store to a page that is not dirty, the page with its permissions,
  which do not allow the store.
\<close>

definition tlb_answers :: "vmem_params \<Rightarrow> bool \<Rightarrow> walk_end \<Rightarrow> tlb_accept \<Rightarrow> bool" where
  "tlb_answers p is_store we d \<longleftrightarrow> walk_answers p is_store (ta_asid d) we d \<or> walk_answers p False (ta_asid d) we d"

lemma same_page_trans: "same_page p l v v' \<Longrightarrow> same_page p l v v'' \<Longrightarrow> same_page p l v' v''"
  by (simp add: same_page_def)

lemma page_walk_same_page:
  assumes "page_walk p pb pmp_r mem v level table = Walk_leaf l e" "same_page p l v v'"
  shows "page_walk p pb pmp_r mem v' level table = Walk_leaf l e"
proof -
  have index: "vpn_index p v k = vpn_index p v' k" if le: "l \<le> k" for k
  proof -
    obtain d where k: "k = l + d" using le_Suc_ex [OF le] by auto
    have "drop_bit (k * bits_per_page_table_level (vp_xlen p)) x =
        drop_bit (d * bits_per_page_table_level (vp_xlen p)) (drop_bit (bits_per_page_table_level (vp_xlen p) * l) x)" for x :: nat
      by (simp add: k algebra_simps)
    from this [of v] this [of v'] show ?thesis using assms(2) by (simp only: vpn_index_def same_page_def)
  qed
  show ?thesis
    using assms(1)
  proof (induction level arbitrary: table)
    case 0
    then have "l = 0" using page_walk_leaf(2) by fastforce
    then show ?case using 0 index [of 0] by (subst page_walk.simps, subst (asm) page_walk.simps) (auto simp: Let_def split: if_splits prod.splits)
  next
    case (Suc k)
    have "l \<le> Suc k" using page_walk_leaf(2) [OF Suc.prems] .
    then show ?case using Suc index [of "Suc k"]
      by (subst page_walk.simps, subst (asm) (2) page_walk.simps) (auto simp: Let_def split: if_splits prod.splits)
  qed
qed

text \<open>The world of page tables in memory, with the root table and mode of every address space.\<close>

definition walk_world_of :: "vmem_params \<Rightarrow> nat \<Rightarrow> (nat \<Rightarrow> bool) \<Rightarrow> (nat \<Rightarrow> bool \<times> nat) \<Rightarrow> (nat \<Rightarrow> satp_csr) \<Rightarrow> walk_world" where
  "walk_world_of p pb pmp_r mem spaces asid vpn =
     page_walk p pb pmp_r mem vpn (levels (satp_mode (spaces asid)) - 1) (satp_ppn (spaces asid) mod 2 ^ ppn_width pb)"

lemma walk_world_ok:
  assumes "mk_VirtualMemoryParameters xlen super asidlen schemes = Inr p"
    and "\<forall>a. satp_mode (spaces a) \<in> set (supported_non_bare_schemes p)"
    and "\<forall>a a' v l e. walk_world_of p pb pmp_r mem spaces a v = Walk_leaf l e \<and> pte_G e \<longrightarrow> walk_world_of p pb pmp_r mem spaces a' v = Walk_leaf l e"
  shows "world_ok p (walk_world_of p pb pmp_r mem spaces)"
proof -
  have "l \<le> vp_max_tlb_size_class p" if "walk_world_of p pb pmp_r mem spaces a v = Walk_leaf l e" for a v l e
    using page_walk_leaf(2) [OF that [unfolded walk_world_of_def]] mk_params_scheme(3) [OF assms(1) assms(2) [rule_format, of a]] by simp
  then show ?thesis
    using assms(3) page_walk_same_page unfolding world_ok_def walk_world_of_def by blast
qed

lemma entry_serves:
  assumes W: "world_ok p W" and e: "entry_consistent p W e" "full_match p asid vpn e"
  obtains l pt where "W asid vpn = Walk_leaf l pt" "leaf_usable p False l pt" "te_size_class e = l" "te_ppn e = pte_ppn pt"
    "te_permissions e = pte_permissions pt"
proof -
  from e obtain l pt where m: "W (te_asid e) (te_vpn e) = Walk_leaf l pt" "leaf_usable p False l pt" "te_size_class e = l" "te_ppn e = pte_ppn pt"
      "te_permissions e = pte_permissions pt" by (auto simp: entry_consistent_def full_match_def)
  have "same_page p l (te_vpn e) vpn" using e(2) m(3) by (simp add: full_match_def addr_match_def same_page_def Let_def)
  then have here: "W (te_asid e) vpn = Walk_leaf l pt" using W m(1) unfolding world_ok_def by blast
  have "W asid vpn = Walk_leaf l pt"
  proof (cases "te_asid e = asid")
    case False
    then have "pte_G pt" using e(2) m(5) by (auto simp: full_match_def asid_match_def pte_permissions_def)
    then show ?thesis using W here unfolding world_ok_def by blast
  next
    case True
    then show ?thesis using here by simp
  qed
  then show ?thesis using that m by blast
qed

lemma matched_entry_found:
  assumes "tlb_lib_spec E" "\<not> ask_backing p asid vpn ways"
  shows "matched_entry E p asid vpn ways \<in> set ways \<and> full_match p asid vpn (matched_entry E p asid vpn ways)"
proof -
  have "find fst (map (\<lambda>e. (full_match p asid vpn e, e)) ways) \<noteq> None"
    using assms(2) by (auto simp: ask_backing_def list_ex_iff find_None_iff)
  then obtain c where c: "find fst (map (\<lambda>e. (full_match p asid vpn e, e)) ways) = Some c" by blast
  then obtain i where "i < length ways" "full_match p asid vpn (ways ! i)" "c = (True, ways ! i)" by (auto simp: find_Some_iff)
  then show ?thesis using c assms(1) by (auto simp: matched_entry_def tlb_lib_spec_def priority_mux_spec_def)
qed

lemma hit_answers:
  assumes "world_ok p W" "tlb_lib_spec E" "\<forall>e \<in> set ways. entry_consistent p W e" "\<not> ask_backing p asid vpn ways"
  shows "tlb_answers p is_store (W asid vpn) (tlb_hit E p asid vpn ways) \<and> ta_asid (tlb_hit E p asid vpn ways) = asid"
proof -
  note m = matched_entry_found [OF assms(2,4)]
  obtain l pt where e: "W asid vpn = Walk_leaf l pt" "leaf_usable p False l pt" "te_size_class (matched_entry E p asid vpn ways) = l"
      "te_ppn (matched_entry E p asid vpn ways) = pte_ppn pt" "te_permissions (matched_entry E p asid vpn ways) = pte_permissions pt"
    by (rule entry_serves [OF assms(1) assms(3) [rule_format, OF conjunct1 [OF m]] conjunct2 [OF m]])
  then have "walk_answers p False asid (W asid vpn) (tlb_hit E p asid vpn ways)"
    by (simp add: walk_answers_def tlb_hit_def Let_def)
  then show ?thesis by (simp add: tlb_answers_def tlb_hit_def Let_def)
qed

text \<open>An answer of the buffer leads the translator to the same translation as that of the walk.\<close>

lemma tlb_translation:
  assumes tlb: "supported_non_bare_schemes p \<noteq> []" "\<not> fw_is_bare r" "\<not> fw_vpn_invalid r"
    and d: "tlb_answers p (fw_is_store r) we d" and mode: "fw_is_store r \<longrightarrow> tm = Translate_LSU"
    and level: "\<And>level e. we = Walk_leaf level e \<Longrightarrow> level \<le> vp_max_tlb_size_class p \<and> pte_ppn e < 2 ^ ppn_width pb"
  shows "translation_is p pb tm c (fw_vaddr r) (fw_is_store r) we (translate_respond p pb tm c r d)"
proof (cases "walk_answers p (fw_is_store r) (ta_asid d) we d")
  case True
  show ?thesis by (rule paged_translation [OF tlb True level])
next
  case False
  then have w: "walk_answers p False (ta_asid d) we d" using d by (simp add: tlb_answers_def)
  with False obtain l e where we: "we = Walk_leaf l e" "fw_is_store r" "\<not> pte_D e" "leaf_usable p False l e"
    by (auto simp: walk_answers_def leaf_usable_def split: walk_end.splits if_splits)
  have perms: "ta_permissions d = pte_permissions e" "ta_result d = TLB_HIT" using w we by (simp_all add: walk_answers_def)
  have "rwx_fault tm c (fw_is_store r) (ta_permissions d)" using we mode by (simp add: perms rwx_fault_def pte_permissions_def)
  then have "tx_page_fault (translate_respond p pb tm c r d) \<and> \<not> tx_access_fault (translate_respond p pb tm c r d)"
    using tlb perms by (simp add: translate_respond_def Let_def)
  then show ?thesis using we by (simp add: translation_is_def Let_def leaf_usable_def)
qed

section \<open>Invariants of the buffer\<close>

definition fa_inv :: "vmem_params \<Rightarrow> walk_world \<Rightarrow> fa_tlb \<Rightarrow> bool" where
  "fa_inv p W s \<longleftrightarrow> (\<forall>e \<in> set (ft_entries s). entry_consistent p W e) \<and>
     (\<forall>P \<in> set (ft_ports s). (tp_handling_refill P \<longrightarrow> tp_slow_path P) \<and> (tp_slow_path P \<longrightarrow> tp_fwd P = None)) \<and>
     (\<forall>i < length (ft_ports s). \<forall>j < length (ft_ports s). tp_handling_refill (ft_ports s ! i) \<and> tp_handling_refill (ft_ports s ! j) \<longrightarrow> i = j) \<and>
     (ft_refill_free s \<longleftrightarrow> (\<forall>P \<in> set (ft_ports s). \<not> tp_handling_refill P))"

text \<open>The answers of the backing device to refills are those of the walk.\<close>

definition backing_faithful :: "vmem_params \<Rightarrow> walk_world \<Rightarrow> tlb_in \<Rightarrow> fa_tlb \<Rightarrow> bool" where
  "backing_faithful p W inp s \<longleftrightarrow>
     (\<forall>i < length (ft_ports s). \<forall>resp. tp_handling_refill (ft_ports s ! i) \<and> tr_response (tl_ports inp ! i) = Some resp \<longrightarrow>
        walk_answers p (tp_is_store_req (ft_ports s ! i)) (ta_asid resp) (W (ta_asid resp) (tp_vpn_req (ft_ports s ! i))) resp)"

lemma port_part_ports [simp]:
  "ft_ports (port_part E p inp s i u) = (ft_ports u)[i := (port_registers (port_act E p inp s i) (ft_ports s ! i))
     \<lparr>tp_fwd := fwd_next (act_writes (port_act E p inp s i)) (tr_accept (tl_ports inp ! i)) (tp_fwd (ft_ports s ! i))\<rparr>]"
  by (simp add: port_part_def Let_def split: tlb_act.split)

lemma fa_cycle_ports:
  "ft_ports (fa_cycle E p inp s) = map (\<lambda>i. (port_registers (port_act E p inp s i) (ft_ports s ! i))
     \<lparr>tp_fwd := fwd_next (act_writes (port_act E p inp s i)) (tr_accept (tl_ports inp ! i)) (tp_fwd (ft_ports s ! i))\<rparr>) [0..<length (ft_ports s)]"
proof -
  have "k \<le> length (ft_ports s) \<Longrightarrow> length (ft_ports (fold (port_part E p inp s) [0..<k] s)) = length (ft_ports s) \<and>
      (\<forall>i < length (ft_ports s). ft_ports (fold (port_part E p inp s) [0..<k] s) ! i =
        (if i < k then (port_registers (port_act E p inp s i) (ft_ports s ! i))
           \<lparr>tp_fwd := fwd_next (act_writes (port_act E p inp s i)) (tr_accept (tl_ports inp ! i)) (tp_fwd (ft_ports s ! i))\<rparr>
         else ft_ports s ! i))" for k
    by (induction k) (auto simp: nth_list_update less_Suc_eq)
  from this [of "length (ft_ports s)"] show ?thesis
    by (intro nth_equalityI) (auto simp: fa_cycle_def Let_def split: option.splits)
qed

lemma refill_consistent:
  assumes "walk_answers p st (ta_asid resp) (W (ta_asid resp) vpn) resp" "ta_result resp = TLB_HIT"
  shows "entry_consistent p W (refill_entry vpn resp)"
  using assms
  by (auto simp: entry_consistent_def refill_entry_def walk_answers_def leaf_usable_def split: walk_end.splits if_splits)

lemma zero_consistent: "entry_consistent p W zero_entry"
  by (simp add: entry_consistent_def zero_entry_def)

lemma port_act_refill:
  "port_act E p inp s i = Act_refill resp \<Longrightarrow> tp_handling_refill (ft_ports s ! i) \<and> tr_response (tl_ports inp ! i) = Some resp"
  by (auto simp: port_act_def Let_def split: if_splits option.splits prod.splits)

lemma port_act_idle:
  "port_act E p inp s i = Act_ask \<Longrightarrow> \<not> tp_handling_refill (ft_ports s ! i) \<and> tp_slow_path (ft_ports s ! i) \<and> ft_refill_free s \<and>
     tr_refill_granted (tl_ports inp ! i)"
  "port_act E p inp s i = Act_flush f \<Longrightarrow> ft_refill_free s \<and> i = 0 \<and> ft_flush_queue s \<noteq> [] \<and> f = hd (ft_flush_queue s)"
  by (auto simp: port_act_def Let_def split: if_splits option.splits prod.splits)

lemma entries_port_part:
  assumes "\<forall>e \<in> set (ft_entries u). entry_consistent p W e" "backing_faithful p W inp s" "i < length (ft_ports s)"
  shows "\<forall>e \<in> set (ft_entries (port_part E p inp s i u)). entry_consistent p W e"
proof (cases "port_act E p inp s i")
  case (Act_refill resp)
  let ?vpn = "tp_vpn_req (ft_ports s ! i)"
  have "walk_answers p (tp_is_store_req (ft_ports s ! i)) (ta_asid resp) (W (ta_asid resp) ?vpn) resp"
    using assms(2,3) port_act_refill [OF Act_refill] by (auto simp: backing_faithful_def)
  note new = refill_consistent [where W = W, OF this]
  show ?thesis
    using assms(1) new set_update_subset_insert [of "ft_entries u" _ "refill_entry ?vpn resp"]
    by (auto simp: port_part_def Act_refill Let_def)
next
  case (Act_flush f)
  then show ?thesis
    using assms(1) zero_consistent by (auto simp: port_part_def Let_def set_zip)
qed (use assms(1) in \<open>simp_all add: port_part_def Let_def\<close>)

lemma entries_cycle:
  assumes "\<forall>e \<in> set (ft_entries s). entry_consistent p W e" "backing_faithful p W inp s"
  shows "\<forall>e \<in> set (ft_entries (fa_cycle E p inp s)). entry_consistent p W e"
proof -
  have "k \<le> length (ft_ports s) \<Longrightarrow> \<forall>e \<in> set (ft_entries (fold (port_part E p inp s) [0..<k] s)). entry_consistent p W e" for k
  proof (induction k)
    case (Suc k)
    then show ?case using entries_port_part [OF _ assms(2), of "fold (port_part E p inp s) [0..<k] s" k E] by simp
  qed (simp add: assms(1))
  from this [of "length (ft_ports s)"] show ?thesis by (simp add: fa_cycle_def Let_def split: option.split)
qed

definition port_ok :: "tlb_port \<Rightarrow> bool" where
  "port_ok P \<longleftrightarrow> (tp_handling_refill P \<longrightarrow> tp_slow_path P) \<and> (tp_slow_path P \<longrightarrow> tp_fwd P = None)"

definition port_next :: "tlb_lib \<Rightarrow> vmem_params \<Rightarrow> tlb_in \<Rightarrow> fa_tlb \<Rightarrow> nat \<Rightarrow> tlb_port" where
  "port_next E p inp s i = (port_registers (port_act E p inp s i) (ft_ports s ! i))
     \<lparr>tp_fwd := fwd_next (act_writes (port_act E p inp s i)) (tr_accept (tl_ports inp ! i)) (tp_fwd (ft_ports s ! i))\<rparr>"

lemma fa_inv_ports:
  "fa_inv p W s \<longleftrightarrow> (\<forall>e \<in> set (ft_entries s). entry_consistent p W e) \<and> (\<forall>i < length (ft_ports s). port_ok (ft_ports s ! i)) \<and>
     (\<forall>i < length (ft_ports s). \<forall>j < length (ft_ports s). tp_handling_refill (ft_ports s ! i) \<and> tp_handling_refill (ft_ports s ! j) \<longrightarrow> i = j) \<and>
     (ft_refill_free s \<longleftrightarrow> (\<forall>i < length (ft_ports s). \<not> tp_handling_refill (ft_ports s ! i)))"
  by (simp add: fa_inv_def port_ok_def all_set_conv_all_nth)

lemma port_act_cases:
  assumes "port_ok (ft_ports s ! i)"
  shows "case port_act E p inp s i of
      Act_none \<Rightarrow> True
    | Act_refill resp \<Rightarrow> tp_handling_refill (ft_ports s ! i) \<and> tr_response (tl_ports inp ! i) = Some resp
    | Act_flush f \<Rightarrow> ft_refill_free s \<and> \<not> tp_handling_refill (ft_ports s ! i)
    | Act_miss vpn st \<Rightarrow> \<not> tp_slow_path (ft_ports s ! i) \<and> tp_fwd (ft_ports s ! i) = None \<and> fa_taken inp s i = Some (vpn, st)
    | Act_hit d \<Rightarrow> \<not> tp_slow_path (ft_ports s ! i) \<and> tp_fwd (ft_ports s ! i) = None \<and>
        (\<exists>vpn st. fa_taken inp s i = Some (vpn, st) \<and> d = tlb_hit E p (tl_asid inp) vpn (ft_entries s) \<and> \<not> ask_backing p (tl_asid inp) vpn (ft_entries s))
    | Act_ask \<Rightarrow> tp_slow_path (ft_ports s ! i) \<and> \<not> tp_handling_refill (ft_ports s ! i) \<and> ft_refill_free s \<and> tr_refill_granted (tl_ports inp ! i)
    | Act_resolve d \<Rightarrow> tp_slow_path (ft_ports s ! i) \<and> \<not> tp_handling_refill (ft_ports s ! i) \<and>
        d = tlb_hit E p (tl_asid inp) (tp_vpn_req (ft_ports s ! i)) (ft_entries s) \<and> \<not> ask_backing p (tl_asid inp) (tp_vpn_req (ft_ports s ! i)) (ft_entries s)"
  using assms by (simp add: port_act_def fa_taken_def Let_def port_ok_def split: if_split option.split prod.split)

lemma taken_act:
  "fa_taken inp s i = Some r \<Longrightarrow> port_act E p inp s i \<noteq> Act_none \<and> port_act E p inp s i \<noteq> Act_flush f"
  by (auto simp: fa_taken_def port_act_def Let_def split: if_splits prod.splits)

lemma port_next_ok: "port_ok (ft_ports s ! i) \<Longrightarrow> port_ok (port_next E p inp s i)"
  using port_act_cases [where s = s and i = i and E = E and p = p and inp = inp]
  by (cases "port_act E p inp s i")
    (simp_all add: port_ok_def port_next_def port_registers_def act_writes_def fwd_next_def)

lemma port_next_handling:
  "tp_handling_refill (port_next E p inp s i) \<longleftrightarrow>
     (case port_act E p inp s i of Act_refill r \<Rightarrow> False | Act_ask \<Rightarrow> True | _ \<Rightarrow> tp_handling_refill (ft_ports s ! i))"
  by (cases "port_act E p inp s i") (simp_all add: port_next_def port_registers_def)

lemma refill_free_fold:
  assumes "\<And>i j r. i < n \<Longrightarrow> j < n \<Longrightarrow> port_act E p inp s i = Act_refill r \<Longrightarrow> port_act E p inp s j \<noteq> Act_ask" "k \<le> n"
  shows "ft_refill_free (fold (port_part E p inp s) [0..<k] s) \<longleftrightarrow>
    (\<exists>i<k. \<exists>r. port_act E p inp s i = Act_refill r) \<or> ft_refill_free s \<and> \<not> (\<exists>i<k. port_act E p inp s i = Act_ask)"
  using assms(2)
proof (induction k)
  case (Suc k)
  then have IH: "ft_refill_free (fold (port_part E p inp s) [0..<k] s) \<longleftrightarrow>
    (\<exists>i<k. \<exists>r. port_act E p inp s i = Act_refill r) \<or> ft_refill_free s \<and> \<not> (\<exists>i<k. port_act E p inp s i = Act_ask)" and k: "k < n" by simp_all
  have free: "ft_refill_free (port_part E p inp s k u) \<longleftrightarrow>
      (case port_act E p inp s k of Act_refill r \<Rightarrow> True | Act_ask \<Rightarrow> False | _ \<Rightarrow> ft_refill_free u)" for u
    by (cases "port_act E p inp s k") (simp_all add: port_part_def Let_def)
  show ?case
  proof (cases "port_act E p inp s k")
    case Act_ask
    then have "\<not> (\<exists>i<k. \<exists>r. port_act E p inp s i = Act_refill r)" using assms(1) k by (metis less_trans)
    then show ?thesis using Act_ask by (auto simp: free less_Suc_eq)
  qed (use IH in \<open>auto simp: free less_Suc_eq\<close>)
qed simp

lemma fa_inv_cycle:
  assumes inv: "fa_inv p W s" and faithful: "backing_faithful p W inp s" and legal: "fa_legal inp s"
  shows "fa_inv p W (fa_cycle E p inp s)"
proof -
  let ?n = "length (ft_ports s)" and ?act = "port_act E p inp s" and ?s = "fa_cycle E p inp s"
  note I = inv [unfolded fa_inv_ports]
  have ok: "i < ?n \<Longrightarrow> port_ok (ft_ports s ! i)" for i using I by blast
  have only: "i < ?n \<Longrightarrow> j < ?n \<Longrightarrow> tp_handling_refill (ft_ports s ! i) \<Longrightarrow> tp_handling_refill (ft_ports s ! j) \<Longrightarrow> i = j" for i j using I by blast
  have free: "ft_refill_free s \<longleftrightarrow> (\<forall>i<?n. \<not> tp_handling_refill (ft_ports s ! i))" using I by blast
  have ports: "length (ft_ports ?s) = ?n" "i < ?n \<Longrightarrow> ft_ports ?s ! i = port_next E p inp s i" for i
    by (simp_all add: fa_cycle_ports port_next_def)
  have refill: "tp_handling_refill (ft_ports s ! i)" if "?act i = Act_refill r" for i r using port_act_refill [OF that] by simp
  have ask: "ft_refill_free s \<and> tr_refill_granted (tl_ports inp ! i)" if "?act i = Act_ask" for i
    using port_act_idle(1) [OF that] by simp
  have excl: "i < ?n \<Longrightarrow> j < ?n \<Longrightarrow> ?act i = Act_refill r \<Longrightarrow> ?act j \<noteq> Act_ask" for i j r using refill ask free by blast
  have asks: "i < ?n \<Longrightarrow> j < ?n \<Longrightarrow> ?act i = Act_ask \<Longrightarrow> ?act j = Act_ask \<Longrightarrow> i = j" for i j
    using ask legal unfolding fa_legal_def by blast
  have next_handling: "tp_handling_refill (port_next E p inp s i) \<longleftrightarrow>
      ?act i = Act_ask \<or> tp_handling_refill (ft_ports s ! i) \<and> (\<forall>r. ?act i \<noteq> Act_refill r)" if "i < ?n" for i
    using port_act_cases [OF ok [OF that], where E = E and p = p and inp = inp] by (cases "?act i") (simp_all add: port_next_handling)
  have "ft_refill_free ?s \<longleftrightarrow> (\<exists>i<?n. \<exists>r. ?act i = Act_refill r) \<or> ft_refill_free s \<and> \<not> (\<exists>i<?n. ?act i = Act_ask)"
    using refill_free_fold [OF excl order_refl] by (simp add: fa_cycle_def Let_def split: option.split)
  also have "\<dots> \<longleftrightarrow> (\<forall>i<?n. \<not> tp_handling_refill (port_next E p inp s i))"
  proof (cases "\<exists>i<?n. \<exists>r. ?act i = Act_refill r")
    case True
    then obtain i r where i: "i < ?n" "?act i = Act_refill r" by blast
    have "\<not> tp_handling_refill (port_next E p inp s j)" if "j < ?n" for j
      using next_handling [OF that] only [OF i(1) that refill [OF i(2)]] i excl [OF i(1) that i(2)] by auto
    then show ?thesis using True by blast
  next
    case False
    then show ?thesis using next_handling free by blast
  qed
  finally have free': "ft_refill_free ?s \<longleftrightarrow> (\<forall>i<?n. \<not> tp_handling_refill (port_next E p inp s i))" .
  have only': "i = j" if "i < ?n" "j < ?n" "tp_handling_refill (port_next E p inp s i)" "tp_handling_refill (port_next E p inp s j)" for i j
    using that next_handling only asks ask free by metis
  have "\<forall>e \<in> set (ft_entries ?s). entry_consistent p W e" using entries_cycle [OF _ faithful] I by blast
  then show ?thesis
    using ports port_next_ok [OF ok] only' free' unfolding fa_inv_ports by simp
qed

section \<open>Answers\<close>

text \<open>A port with its outstanding request: it is looked up again or refilled, or its answer waits to be accepted.\<close>

definition port_rep :: "vmem_params \<Rightarrow> walk_world \<Rightarrow> tlb_port \<Rightarrow> (nat \<times> bool) option \<Rightarrow> bool" where
  "port_rep p W P req \<longleftrightarrow>
     (case req of
        None \<Rightarrow> \<not> tp_slow_path P \<and> tp_fwd P = None
      | Some (vpn, st) \<Rightarrow>
          if tp_slow_path P then tp_vpn_req P = vpn \<and> tp_is_store_req P = st
          else (\<exists>d. tp_fwd P = Some d \<and> tlb_answers p st (W (ta_asid d) vpn) d))"

lemma written_answer:
  assumes W: "world_ok p W" and E: "tlb_lib_spec E" and inv: "fa_inv p W s" and faithful: "backing_faithful p W inp s"
    and i: "i < length (ft_ports s)" and written: "act_writes (port_act E p inp s i) = Some d"
    and rep: "port_rep p W (ft_ports s ! i) req" and cur: "cur = (case req of None \<Rightarrow> fa_taken inp s i | Some r \<Rightarrow> Some r)"
  shows "\<exists>vpn st. cur = Some (vpn, st) \<and> tlb_answers p st (W (ta_asid d) vpn) d"
proof -
  have ok: "port_ok (ft_ports s ! i)" and entries: "\<forall>e \<in> set (ft_entries s). entry_consistent p W e"
    using inv i unfolding fa_inv_ports by blast+
  note cases = port_act_cases [OF ok, where E = E and p = p and inp = inp]
  note hit = hit_answers [OF W E entries]
  have slow: "req = Some (tp_vpn_req (ft_ports s ! i), tp_is_store_req (ft_ports s ! i))" if "tp_slow_path (ft_ports s ! i)"
    using rep that by (auto simp: port_rep_def split: option.splits)
  show ?thesis
  proof (cases "port_act E p inp s i")
    case (Act_refill resp)
    then have h: "tp_handling_refill (ft_ports s ! i)" "tr_response (tl_ports inp ! i) = Some resp" "d = resp"
      using cases written by (simp_all add: act_writes_def)
    then have "walk_answers p (tp_is_store_req (ft_ports s ! i)) (ta_asid d) (W (ta_asid d) (tp_vpn_req (ft_ports s ! i))) d"
      using faithful i unfolding backing_faithful_def by blast
    then show ?thesis using slow h(1) ok cur by (simp add: tlb_answers_def port_ok_def)
  next
    case (Act_hit ret)
    then obtain vpn st where t: "fa_taken inp s i = Some (vpn, st)" "d = tlb_hit E p (tl_asid inp) vpn (ft_entries s)"
        "\<not> ask_backing p (tl_asid inp) vpn (ft_entries s)" "\<not> tp_slow_path (ft_ports s ! i)" "tp_fwd (ft_ports s ! i) = None"
      using cases written by (auto simp: act_writes_def)
    then have "req = None" using rep by (auto simp: port_rep_def split: option.splits)
    then show ?thesis using hit [OF t(3), of st] t(1,2) cur by auto
  next
    case (Act_resolve ret)
    then have t: "tp_slow_path (ft_ports s ! i)" "d = tlb_hit E p (tl_asid inp) (tp_vpn_req (ft_ports s ! i)) (ft_entries s)"
        "\<not> ask_backing p (tl_asid inp) (tp_vpn_req (ft_ports s ! i)) (ft_entries s)"
      using cases written by (simp_all add: act_writes_def)
    then show ?thesis using hit [OF t(3), of "tp_is_store_req (ft_ports s ! i)"] slow cur by auto
  qed (use written in \<open>simp_all add: act_writes_def\<close>)
qed

lemma port_step:
  assumes W: "world_ok p W" and E: "tlb_lib_spec E" and inv: "fa_inv p W s" and faithful: "backing_faithful p W inp s"
    and i: "i < length (ft_ports s)" and rep: "port_rep p W (ft_ports s ! i) req"
    and cur: "cur = (case req of None \<Rightarrow> fa_taken inp s i | Some r \<Rightarrow> Some r)" and out: "out = fa_answer E p inp s i"
  shows "req \<noteq> None \<Longrightarrow> fa_taken inp s i = None"
    and "out = Some d \<Longrightarrow> \<exists>vpn st. cur = Some (vpn, st) \<and> tlb_answers p st (W (ta_asid d) vpn) d"
    and "port_rep p W (port_next E p inp s i) (if out = None then cur else None)"
proof -
  let ?P = "ft_ports s ! i" and ?a = "port_act E p inp s i"
  have ok: "port_ok ?P" using inv i unfolding fa_inv_ports by blast
  note cases = port_act_cases [OF ok, where E = E and p = p and inp = inp]
  note written = written_answer [OF W E inv faithful i _ rep cur]
  show "req \<noteq> None \<Longrightarrow> fa_taken inp s i = None"
    using rep ok by (auto simp: port_rep_def fa_taken_def Let_def port_ok_def split: if_splits)
  have kept: "\<exists>vpn st. cur = Some (vpn, st) \<and> tlb_answers p st (W (ta_asid d) vpn) d" if "tp_fwd ?P = Some d" for d
    using rep cur ok that by (auto simp: port_rep_def port_ok_def split: option.splits if_splits)
  show "out = Some d \<Longrightarrow> \<exists>vpn st. cur = Some (vpn, st) \<and> tlb_answers p st (W (ta_asid d) vpn) d"
    using kept written out by (auto simp: fa_answer_def split: if_splits option.splits)
  have fwd: "tp_fwd (port_next E p inp s i) = fwd_next (act_writes ?a) (tr_accept (tl_ports inp ! i)) (tp_fwd ?P)"
    by (simp add: port_next_def)
  have outs: "out = (if tr_accept (tl_ports inp ! i) then case tp_fwd ?P of None \<Rightarrow> act_writes ?a | Some d \<Rightarrow> Some d else None)"
    unfolding out by (simp add: fa_answer_def)
  show "port_rep p W (port_next E p inp s i) (if out = None then cur else None)"
  proof (cases "act_writes ?a = None \<and> tp_fwd ?P = None")
    case True
    then have none: "out = None" "tp_fwd (port_next E p inp s i) = None" by (simp_all add: outs fwd fwd_next_def)
    have "fa_taken inp s i = None" if "?a = Act_none \<or> (\<exists>f. ?a = Act_flush f)" using that taken_act by (metis not_None_eq)
    then show ?thesis
      using cases rep none True cur
      by (cases ?a) (auto simp: port_rep_def port_next_def port_registers_def act_writes_def fwd_next_def port_ok_def
        split: option.splits if_splits)
  next
    case False
    have slow: "\<not> tp_slow_path (port_next E p inp s i)"
      using False cases ok by (cases ?a) (auto simp: port_next_def port_registers_def act_writes_def port_ok_def fa_taken_def Let_def split: if_splits)
    show ?thesis
    proof (cases "tr_accept (tl_ports inp ! i)")
      case True
      then have "out \<noteq> None" "tp_fwd (port_next E p inp s i) = None" using False by (auto simp: outs fwd fwd_next_def split: option.splits)
      then show ?thesis using slow by (auto simp: port_rep_def)
    next
      case False
      obtain d where d: "tp_fwd (port_next E p inp s i) = Some d" "tp_fwd ?P = Some d \<or> act_writes ?a = Some d"
        using False \<open>\<not> (act_writes ?a = None \<and> tp_fwd ?P = None)\<close> by (cases "tp_fwd ?P") (auto simp: fwd fwd_next_def)
      then obtain vpn st where "cur = Some (vpn, st)" "tlb_answers p st (W (ta_asid d) vpn) d" using kept written by blast
      then show ?thesis using slow d False by (simp add: port_rep_def outs)
    qed
  qed
qed

section \<open>Runs\<close>

fun fa_run :: "tlb_lib \<Rightarrow> vmem_params \<Rightarrow> tlb_in list \<Rightarrow> fa_tlb \<Rightarrow> fa_tlb" where
  "fa_run E p [] s = s"
| "fa_run E p (inp # inps) s = fa_run E p inps (fa_cycle E p inp s)"

fun fa_run_ok :: "tlb_lib \<Rightarrow> vmem_params \<Rightarrow> walk_world \<Rightarrow> tlb_in list \<Rightarrow> fa_tlb \<Rightarrow> bool" where
  "fa_run_ok E p W [] s = True"
| "fa_run_ok E p W (inp # inps) s \<longleftrightarrow> fa_legal inp s \<and> backing_faithful p W inp s \<and> fa_run_ok E p W inps (fa_cycle E p inp s)"

text \<open>The requests taken and the answers given at a port.\<close>

fun fa_history :: "tlb_lib \<Rightarrow> vmem_params \<Rightarrow> nat \<Rightarrow> tlb_in list \<Rightarrow> fa_tlb \<Rightarrow> (nat \<times> bool) list \<times> tlb_accept list" where
  "fa_history E p i [] s = ([], [])"
| "fa_history E p i (inp # inps) s =
     (let (rs, ds) = fa_history E p i inps (fa_cycle E p inp s)
      in (opt_list (fa_taken inp s i) @ rs, opt_list (fa_answer E p inp s i) @ ds))"

lemma fa_history_answers:
  assumes W: "world_ok p W" and E: "tlb_lib_spec E" and "fa_inv p W s" "fa_run_ok E p W inps s" "i < length (ft_ports s)"
    and "port_rep p W (ft_ports s ! i) req" "fa_history E p i inps s = (rs, ds)"
  shows "fa_inv p W (fa_run E p inps s) \<and>
    (\<exists>pend matched. opt_list req @ rs = matched @ opt_list pend \<and>
      list_all2 (\<lambda>r d. tlb_answers p (snd r) (W (ta_asid d) (fst r)) d) matched ds)"
  using assms(3-)
proof (induction inps arbitrary: s req rs ds)
  case Nil
  then show ?case by (auto intro!: exI [of _ req])
next
  case (Cons inp inps)
  let ?s = "fa_cycle E p inp s"
  define cur where "cur = (case req of None \<Rightarrow> fa_taken inp s i | Some r \<Rightarrow> Some r)"
  define out where "out = fa_answer E p inp s i"
  obtain rs' ds' where rest: "fa_history E p i inps ?s = (rs', ds')" by (cases "fa_history E p i inps ?s")
  have legal: "fa_legal inp s" "backing_faithful p W inp s" "fa_run_ok E p W inps ?s" using Cons.prems(2) by simp_all
  note step = port_step [OF W E Cons.prems(1) legal(2) Cons.prems(3,4) cur_def out_def]
  have port: "i < length (ft_ports ?s)" "ft_ports ?s ! i = port_next E p inp s i"
    using Cons.prems(3) by (simp_all add: fa_cycle_ports port_next_def)
  note inv = fa_inv_cycle [OF Cons.prems(1) legal(2,1), of E]
  from Cons.IH [OF inv legal(3) port(1) _ rest, unfolded port(2), OF step(3)]
  obtain pend matched where fin: "fa_inv p W (fa_run E p inps ?s)"
    and m: "opt_list (if out = None then cur else None) @ rs' = matched @ opt_list pend"
      "list_all2 (\<lambda>r d. tlb_answers p (snd r) (W (ta_asid d) (fst r)) d) matched ds'" by blast
  have rs: "rs = opt_list (fa_taken inp s i) @ rs'" "ds = opt_list out @ ds'" using Cons.prems(5) rest by (simp_all add: out_def)
  have taken: "opt_list req @ opt_list (fa_taken inp s i) = opt_list cur" using step(1) by (cases req) (auto simp: cur_def)
  show ?case
  proof (cases out)
    case None
    then have "opt_list req @ rs = matched @ opt_list pend" using m(1) taken rs(1) by (simp flip: append_assoc)
    then show ?thesis using fin m(2) None rs(2) by auto
  next
    case (Some d)
    then obtain vpn st where cur: "cur = Some (vpn, st)" "tlb_answers p st (W (ta_asid d) vpn) d" using step(2) by blast
    then have "opt_list req @ rs = ((vpn, st) # matched) @ opt_list pend" using m(1) taken rs(1) Some by (simp flip: append_assoc)
    moreover have "list_all2 (\<lambda>r d. tlb_answers p (snd r) (W (ta_asid d) (fst r)) d) ((vpn, st) # matched) ds"
      using m(2) cur(2) Some rs(2) by simp
    ultimately have "opt_list req @ rs = ((vpn, st) # matched) @ opt_list pend \<and>
        list_all2 (\<lambda>r d. tlb_answers p (snd r) (W (ta_asid d) (fst r)) d) ((vpn, st) # matched) ds" by (rule conjI)
    then have "\<exists>pend matched. opt_list req @ rs = matched @ opt_list pend \<and>
        list_all2 (\<lambda>r d. tlb_answers p (snd r) (W (ta_asid d) (fst r)) d) matched ds" by blast
    then show ?thesis using fin by simp
  qed
qed

lemma fa_reset_inv: "fa_inv p W (fa_reset entries ports)"
  by (auto simp: fa_inv_def fa_reset_def zero_consistent)

lemma fa_reset_rep: "i < ports \<Longrightarrow> port_rep p W (ft_ports (fa_reset entries ports) ! i) None"
  by (simp add: fa_reset_def port_rep_def)

text \<open>
  C37. The buffer is transparent. Along every run from reset, with any interleaving of the ports, refills and fences, every port
  gives at most one answer to each of its requests, in order, and every answer is one that the walk of the page
  tables allows; the address translator turns it into the same translation or fault as the walk itself.
\<close>

theorem tlb_transparent:
  assumes "mk_VirtualMemoryParameters xlen super asidlen schemes = Inr p"
    and "\<forall>a. satp_mode (spaces a) \<in> set (supported_non_bare_schemes p)" "W = walk_world_of p pb pmp_r mem spaces"
    and "\<forall>a a' v l e. W a v = Walk_leaf l e \<and> pte_G e \<longrightarrow> W a' v = Walk_leaf l e"
    and "tlb_lib_spec E" "mk_FullyAssociativeTLB (int entries) (int ports) = Inr s" "fa_run_ok E p W inps s" "i < ports"
    and "fa_history E p i inps s = (rs, ds)"
  shows "length ds \<le> length rs \<and> length rs \<le> length ds + 1 \<and>
    (\<forall>k < length ds. \<forall>vpn st. rs ! k = (vpn, st) \<longrightarrow>
       tlb_answers p st (W (ta_asid (ds ! k)) vpn) (ds ! k) \<and>
       (\<forall>r tm c. \<not> fw_is_bare r \<and> \<not> fw_vpn_invalid r \<and> fw_is_store r = st \<and> (st \<longrightarrow> tm = Translate_LSU) \<longrightarrow>
          translation_is p pb tm c (fw_vaddr r) st (W (ta_asid (ds ! k)) vpn) (translate_respond p pb tm c r (ds ! k))))"
proof -
  have W: "world_ok p W" unfolding assms(3) by (rule walk_world_ok [OF assms(1,2) assms(4) [unfolded assms(3)]])
  have s: "s = fa_reset entries ports" using assms(6) by (simp add: mk_FullyAssociativeTLB_def split: if_splits)
  have "i < length (ft_ports s)" using assms(8) by (simp add: s fa_reset_def)
  from fa_history_answers [OF W assms(5) fa_reset_inv [of p W entries ports, folded s] assms(7) this
      fa_reset_rep [OF assms(8), of p W entries, folded s] assms(9)]
  obtain pend matched where m: "rs = matched @ opt_list pend" "list_all2 (\<lambda>r d. tlb_answers p (snd r) (W (ta_asid d) (fst r)) d) matched ds"
    by auto
  have len: "length matched = length ds" using m(2) by (rule list_all2_lengthD)
  have ans: "tlb_answers p st (W (ta_asid (ds ! k)) vpn) (ds ! k)" if "k < length ds" "rs ! k = (vpn, st)" for k vpn st
    using list_all2_nthD2 [OF m(2) that(1)] that len by (simp add: m(1) nth_append)
  have tlb: "supported_non_bare_schemes p \<noteq> []" using assms(2) by auto
  have level: "l \<le> vp_max_tlb_size_class p \<and> pte_ppn e < 2 ^ ppn_width pb" if "W a v = Walk_leaf l e" for a v l e
    using W page_walk_leaf(1) [OF that [unfolded assms(3) walk_world_of_def]] that unfolding world_ok_def by blast
  have "length (opt_list pend) \<le> 1" by (cases pend) simp_all
  moreover have "translation_is p pb tm c (fw_vaddr r) st (W (ta_asid (ds ! k)) vpn) (translate_respond p pb tm c r (ds ! k))"
    if k: "k < length ds" "rs ! k = (vpn, st)"
      and r: "\<not> fw_is_bare r" "\<not> fw_vpn_invalid r" "fw_is_store r = st" "st \<longrightarrow> tm = Translate_LSU" for k vpn st r tm c
  proof -
    have t: "tlb_answers p (fw_is_store r) (W (ta_asid (ds ! k)) vpn) (ds ! k)" using ans [OF k] r(3) by simp
    have u: "fw_is_store r \<longrightarrow> tm = Translate_LSU" using r(3,4) by simp
    show ?thesis using tlb_translation [OF tlb r(1,2) t u level, where c = c] r(3) by simp
  qed
  ultimately show ?thesis using ans len m(1) by auto
qed

section \<open>Fences\<close>

lemma flush_entries:
  assumes inv: "fa_inv p W s" and act: "port_act E p inp s 0 = Act_flush f" and "ft_ports s \<noteq> []"
  shows "ft_entries (fa_cycle E p inp s) = map (\<lambda>e. if fence_covers p f e then zero_entry else e) (ft_entries s)"
proof -
  have free: "ft_refill_free s" using port_act_idle(2) [OF act] by simp
  have other: "ft_entries (port_part E p inp s i u) = ft_entries u" if "0 < i" "i < length (ft_ports s)" for i u
  proof (cases "port_act E p inp s i")
    case (Act_refill r)
    then show ?thesis using port_act_refill [OF Act_refill] free inv that(2) unfolding fa_inv_ports by blast
  next
    case (Act_flush g)
    then show ?thesis using port_act_idle(2) [OF Act_flush] that by simp
  qed (simp_all add: port_part_def Let_def)
  have "k < length (ft_ports s) \<Longrightarrow> ft_entries (fold (port_part E p inp s) [0..<Suc k] s) =
      map (\<lambda>e. if fence_covers p f e then zero_entry else e) (ft_entries s)" for k
  proof (induction k)
    case 0
    show ?case by (simp add: port_part_def act Let_def zip_same_conv_map)
  next
    case (Suc k)
    then show ?case using other [of "Suc k"] by simp
  qed
  from this [of "length (ft_ports s) - 1"] show ?thesis
    using assms(3) by (simp add: fa_cycle_def Let_def split: option.split)
qed

lemma flush_queue_cycle:
  assumes "ft_flush_queue s = f # fs" "port_act E p inp s 0 = Act_flush f" "ft_ports s \<noteq> []"
  shows "ft_flush_queue (fa_cycle E p inp s) = fs @ opt_list (tl_sfence inp)"
proof -
  have other: "ft_flush_queue (port_part E p inp s i u) = ft_flush_queue u" if "0 < i" for i u
    using port_act_idle(2) [of E p inp s i] that by (cases "port_act E p inp s i") (simp_all add: port_part_def Let_def)
  have "ft_flush_queue (fold (port_part E p inp s) [0..<Suc k] s) = fs" for k
  proof (induction k)
    case 0
    show ?case by (simp add: port_part_def assms(1,2) Let_def)
  qed (use other in simp)
  from this [of "length (ft_ports s) - 1"] show ?thesis
    using assms(3) by (simp add: fa_cycle_def Let_def split: option.split)
qed

text \<open>
  C38. A fence takes effect. It is executed when no refill is in progress, and then exactly the entries it covers are
  removed: those of its address space that are not global, or of all, at its page or at all. So when software has
  changed only translations that the fence covers, the buffer agrees with the new page tables afterwards, and its
  answers are those of the new tables.
\<close>

theorem fence_takes_effect:
  assumes "world_ok p W" "fa_inv p W s" "fa_legal inp s"
    and "ft_ports s \<noteq> []" "ft_flush_queue s = f # fs" "tl_flush_granted inp" "ft_refill_free s"
    and "vpn = take_bit (vp_max_tlb_vpn_bits p) (drop_bit PAGE_SIZE_LOG (sf_vaddr f))"
    and "\<forall>a v l e. W a v = Walk_leaf l e \<and> W' a v \<noteq> W a v \<longrightarrow>
      (sf_all_asids f \<or> \<not> pte_G e \<and> a = sf_asid f) \<and> (sf_all_vaddrs f \<or> same_page p l v vpn)"
  shows "fa_inv p W' (fa_cycle E p inp s) \<and>
    ft_entries (fa_cycle E p inp s) = map (\<lambda>e. if (sf_all_asids f \<or> \<not> perm_g (te_permissions e) \<and> te_asid e = sf_asid f) \<and>
        (sf_all_vaddrs f \<or> te_size_class e \<le> vp_max_tlb_size_class p \<and> same_page p (te_size_class e) vpn (te_vpn e))
      then zero_entry else e) (ft_entries s) \<and>
    ft_flush_queue (fa_cycle E p inp s) = fs @ opt_list (tl_sfence inp)"
proof -
  note idle = assms(7) [unfolded conjunct2 [OF conjunct2 [OF conjunct2 [OF assms(2) [unfolded fa_inv_ports]]]]]
  then have act: "port_act E p inp s 0 = Act_flush f" using assms(4-7) by (simp add: port_act_def Let_def)
  note entries = flush_entries [OF assms(2) act assms(4)]
  have "backing_faithful p W inp s" using idle by (simp add: backing_faithful_def)
  note inv = fa_inv_cycle [OF assms(2) this assms(3), of E]
  have "entry_consistent p W' e" if e: "e \<in> set (ft_entries s)" "\<not> fence_covers p f e" for e
    unfolding entry_consistent_def
  proof
    assume "te_valid e"
    then obtain l pt where m: "W (te_asid e) (te_vpn e) = Walk_leaf l pt" "leaf_usable p False l pt" "te_size_class e = l" "te_ppn e = pte_ppn pt"
        "te_permissions e = pte_permissions pt"
      using assms(2) e(1) unfolding fa_inv_def entry_consistent_def by blast
    have l: "l \<le> vp_max_tlb_size_class p" using assms(1) m(1) unfolding world_ok_def by blast
    have "W' (te_asid e) (te_vpn e) = W (te_asid e) (te_vpn e)"
    proof (rule ccontr)
      assume "W' (te_asid e) (te_vpn e) \<noteq> W (te_asid e) (te_vpn e)"
      then have "(sf_all_asids f \<or> \<not> pte_G pt \<and> te_asid e = sf_asid f) \<and> (sf_all_vaddrs f \<or> same_page p l (te_vpn e) vpn)"
        using assms(9) m(1) by blast
      then have "fence_covers p f e"
        using m(3,5) l by (auto simp: fence_covers_def asid_match_def addr_match_def same_page_def pte_permissions_def Let_def assms(8))
      then show False using e(2) by blast
    qed
    then show "\<exists>l pt. W' (te_asid e) (te_vpn e) = Walk_leaf l pt \<and> leaf_usable p False l pt \<and> te_size_class e = l \<and> te_ppn e = pte_ppn pt \<and>
        te_permissions e = pte_permissions pt" using m by auto
  qed
  then have "\<forall>e \<in> set (ft_entries (fa_cycle E p inp s)). entry_consistent p W' e" unfolding entries by (auto simp: zero_consistent)
  then have "fa_inv p W' (fa_cycle E p inp s)" using inv unfolding fa_inv_def by blast
  moreover have covers: "fence_covers p f = (\<lambda>e. (sf_all_asids f \<or> \<not> perm_g (te_permissions e) \<and> te_asid e = sf_asid f) \<and>
      (sf_all_vaddrs f \<or> te_size_class e \<le> vp_max_tlb_size_class p \<and> same_page p (te_size_class e) vpn (te_vpn e)))"
    by (simp add: fun_eq_iff fence_covers_def asid_match_def addr_match_def same_page_def Let_def assms(8))
  note flush_queue_cycle [OF assms(5) act assms(4)]
  ultimately show ?thesis using entries unfolding covers by blast
qed

section \<open>Examples\<close>

definition example_tlb_lib :: tlb_lib where
  "example_tlb_lib = \<lparr>tn_mux = first_mux, tn_mod_incr = (\<lambda>x m. if x = m - 1 then 0 else x + 1)\<rparr>"

lemma example_tlb_lib_spec: "tlb_lib_spec example_tlb_lib"
  using first_mux_priority by (simp add: tlb_lib_spec_def example_tlb_lib_def)

definition example_leaf :: tlb_accept where
  "example_leaf = \<lparr>ta_result = TLB_HIT, ta_ppn = 3072, ta_asid = 5,
     ta_permissions = \<lparr>perm_r = True, perm_w = False, perm_x = False, perm_u = False, perm_d = False, perm_g = False\<rparr>, ta_size_class = 1\<rparr>"

definition port_idle :: tlb_port_in where
  "port_idle = \<lparr>tr_request = None, tr_accept = False, tr_response = None, tr_refill_granted = False\<rparr>"

definition one_port :: "tlb_port_in \<Rightarrow> tlb_in" where
  "one_port I = \<lparr>tl_asid = 5, tl_ports = [I], tl_sfence = None, tl_flush_granted = True\<rparr>"

text \<open>A request that misses and is filled with a superpage, and one that hits in the same superpage.\<close>

definition example_tlb_run :: "tlb_in list" where
  "example_tlb_run = map one_port
     [port_idle\<lparr>tr_request := Some (1, False)\<rparr>, port_idle\<lparr>tr_refill_granted := True\<rparr>,
      port_idle\<lparr>tr_response := Some example_leaf, tr_accept := True\<rparr>, port_idle\<lparr>tr_request := Some (2, False), tr_accept := True\<rparr>]"

lemma example_world:
  "walk_world_of sv32_example 34 (\<lambda>_. True) example_memory (\<lambda>_. example_satp) a v = Walk_leaf 1 (pte_view 32 (3072 * 1024 + 67))"
proof -
  have "levels (satp_mode example_satp) - 1 = 1" "satp_ppn example_satp mod 2 ^ ppn_width 34 = 1"
    using example_supported(2) by (simp_all add: example_satp_def ppn_width_def PAGE_SIZE_LOG_def)
  then show ?thesis by (simp only: walk_world_of_def example_walk)
qed

lemma example_leaf_walk: "walk_answers sv32_example False 5 (Walk_leaf 1 (pte_view 32 (3072 * 1024 + 67))) example_leaf"
  using example_usable by (simp add: walk_answers_def example_leaf_def pte_permissions_def example_pte [simplified])

lemmas fa_eval = fa_cycle_def port_part_def port_act_def fa_reset_def one_port_def port_idle_def ask_backing_def full_match_def
  zero_entry_def act_writes_def port_registers_def fwd_next_def Let_def fa_taken_def fa_answer_def

text \<open>The states of the run.\<close>

definition example_port :: "bool \<Rightarrow> bool \<Rightarrow> tlb_port" where
  "example_port slow handling = \<lparr>tp_slow_path = slow, tp_vpn_req = 1, tp_is_store_req = False, tp_handling_refill = handling, tp_fwd = None\<rparr>"

definition example_missed :: fa_tlb where
  "example_missed = (fa_reset 2 1)\<lparr>ft_ports := [example_port True False]\<rparr>"

definition example_asked :: fa_tlb where
  "example_asked = (fa_reset 2 1)\<lparr>ft_refill_free := False, ft_ports := [example_port True True]\<rparr>"

definition example_filled :: fa_tlb where
  "example_filled = (fa_reset 2 1)\<lparr>ft_entries := [zero_entry, refill_entry 1 example_leaf], ft_rr := 1, ft_ports := [example_port False False]\<rparr>"

lemmas example_tlb_eval = fa_eval upt_rec example_leaf_def refill_entry_def replace_candidate_def example_tlb_lib_def example_port_def
  example_missed_def example_asked_def example_filled_def

lemma example_hit:
  "tlb_hit example_tlb_lib sv32_example 5 2 (ft_entries example_filled) = example_leaf"
  "ask_backing sv32_example 5 2 (ft_entries example_filled) = False"
  by (simp_all add: tlb_hit_def Let_def matched_entry_def example_tlb_lib_def first_mux_def example_filled_def refill_entry_def
      example_leaf_def full_match_def addr_match_def asid_match_def zero_entry_def sv32_example_def bits_per_page_table_level_def
      ask_backing_def)

lemma example_tlb_steps:
  "fa_cycle example_tlb_lib sv32_example (one_port (port_idle\<lparr>tr_request := Some (1, False)\<rparr>)) (fa_reset 2 1) = example_missed"
  "fa_cycle example_tlb_lib sv32_example (one_port (port_idle\<lparr>tr_refill_granted := True\<rparr>)) example_missed = example_asked"
  "fa_cycle example_tlb_lib sv32_example (one_port (port_idle\<lparr>tr_response := Some example_leaf, tr_accept := True\<rparr>)) example_asked = example_filled"
  by (simp_all add: example_tlb_eval numeral_2_eq_2 numeral_eq_Suc)

lemma example_filled_act:
  "port_act example_tlb_lib sv32_example (one_port (port_idle\<lparr>tr_request := Some (2, False), tr_accept := True\<rparr>)) example_filled 0 =
     Act_hit example_leaf"
proof -
  have "ft_ports example_filled = [example_port False False]" "ft_flush_queue example_filled = []" by (simp_all add: example_filled_def fa_reset_def)
  then show ?thesis using example_hit by (simp add: port_act_def one_port_def port_idle_def example_port_def)
qed

lemma example_tlb_history:
  "fa_history example_tlb_lib sv32_example 0 example_tlb_run (fa_reset 2 1) = ([(1, False), (2, False)], [example_leaf, example_leaf])"
proof -
  let ?h = "\<lambda>I s. (fa_taken (one_port I) s 0, fa_answer example_tlb_lib sv32_example (one_port I) s 0)"
  have "?h (port_idle\<lparr>tr_request := Some (1, False)\<rparr>) (fa_reset 2 1) = (Some (1, False), None)"
    "?h (port_idle\<lparr>tr_refill_granted := True\<rparr>) example_missed = (None, None)"
    "?h (port_idle\<lparr>tr_response := Some example_leaf, tr_accept := True\<rparr>) example_asked = (None, Some example_leaf)"
    by (simp_all add: example_tlb_eval numeral_2_eq_2)
  moreover have "?h (port_idle\<lparr>tr_request := Some (2, False), tr_accept := True\<rparr>) example_filled = (Some (2, False), Some example_leaf)"
    unfolding fa_answer_def example_filled_act
    by (simp add: fa_taken_def Let_def one_port_def port_idle_def example_filled_def fa_reset_def example_port_def act_writes_def)
  ultimately show ?thesis by (simp add: example_tlb_run_def example_tlb_steps del: One_nat_def)
qed

lemma example_run_ok:
  assumes "W = walk_world_of sv32_example 34 (\<lambda>_. True) example_memory (\<lambda>_. example_satp)"
  shows "fa_run_ok example_tlb_lib sv32_example W example_tlb_run (fa_reset 2 1)"
proof -
  have ports: "ft_ports (fa_reset 2 1) = [\<lparr>tp_slow_path = False, tp_vpn_req = 0, tp_is_store_req = False, tp_handling_refill = False, tp_fwd = None\<rparr>]"
    "ft_ports example_missed = [example_port True False]" "ft_ports example_asked = [example_port True True]"
    "ft_ports example_filled = [example_port False False]"
    by (simp_all add: fa_reset_def example_missed_def example_asked_def example_filled_def)
  have leaf: "walk_answers sv32_example False (ta_asid example_leaf) (W (ta_asid example_leaf) 1) example_leaf"
    using example_leaf_walk by (simp add: assms example_world example_leaf_def)
  have "fa_legal (one_port I) s \<and> backing_faithful sv32_example W (one_port I) s"
    if "s \<in> {fa_reset 2 1, example_missed, example_asked, example_filled}" "tr_response I \<noteq> None \<longrightarrow> tr_response I = Some example_leaf" for I s
    using that leaf by (auto simp: fa_legal_def backing_faithful_def ports one_port_def example_port_def simp del: One_nat_def)
  then show ?thesis by (simp add: example_tlb_run_def example_tlb_steps port_idle_def [symmetric] del: One_nat_def) (simp add: port_idle_def)
qed

theorem tlb_transparent_witness:
  "ta_result example_leaf = TLB_HIT \<and> ta_ppn example_leaf = 3072 \<and>
   (\<exists>rs ds. fa_history example_tlb_lib sv32_example 0 example_tlb_run (fa_reset 2 1) = (rs, ds) \<and> length ds = 2 \<and> ds ! 1 = example_leaf \<and>
      tlb_answers sv32_example False (walk_world_of sv32_example 34 (\<lambda>_. True) example_memory (\<lambda>_. example_satp) 5 2) (ds ! 1))"
proof -
  let ?W = "walk_world_of sv32_example 34 (\<lambda>_. True) example_memory (\<lambda>_. example_satp)"
  have mode: "\<forall>a :: nat. satp_mode example_satp \<in> set (supported_non_bare_schemes sv32_example)"
    using example_supported(1) by (simp add: example_satp_def)
  have global: "\<forall>a a' v l e. ?W a v = Walk_leaf l e \<and> pte_G e \<longrightarrow> ?W a' v = Walk_leaf l e" by (simp add: example_world)
  have mk: "mk_FullyAssociativeTLB (int 2) (int 1) = Inr (fa_reset 2 1)" by (simp add: mk_FullyAssociativeTLB_def)
  note c = tlb_transparent [OF sv32_example_params mode refl global example_tlb_lib_spec mk example_run_ok [OF refl] zero_less_one example_tlb_history]
  have "tlb_answers sv32_example False (?W 5 2) example_leaf"
    using c [THEN conjunct2, THEN conjunct2, rule_format, of 1 2 False] by (simp add: example_leaf_def)
  then show ?thesis using example_tlb_history by (simp add: example_leaf_def)
qed

text \<open>The mapping of the page of the example is removed, and a fence for it follows.\<close>

definition example_fence :: sfence where
  "example_fence = \<lparr>sf_vaddr = 2 * PAGE_SIZE, sf_asid = 5, sf_all_vaddrs = False, sf_all_asids = False\<rparr>"

definition example_fenced :: fa_tlb where
  "example_fenced = example_filled\<lparr>ft_flush_queue := [example_fence]\<rparr>"

theorem fence_takes_effect_witness:
  "ft_entries (fa_cycle example_tlb_lib sv32_example (one_port port_idle) example_fenced) = [zero_entry, zero_entry] \<and>
   fa_inv sv32_example (\<lambda>_ _. Walk_page_fault) (fa_cycle example_tlb_lib sv32_example (one_port port_idle) example_fenced)"
proof -
  let ?leaf = "Walk_leaf 1 (pte_view 32 (3072 * 1024 + 67))"
  let ?W = "\<lambda>(a :: nat) v. if a = 5 \<and> same_page sv32_example 1 v 2 then ?leaf else Walk_page_fault"
  have page: "same_page sv32_example 1 1 2" by (simp add: same_page_def sv32_example_def bits_per_page_table_level_def)
  have world: "world_ok sv32_example ?W"
    using example_pte by (auto simp: world_ok_def same_page_def sv32_example_def split: if_splits)
  have entry: "entry_consistent sv32_example ?W (refill_entry 1 example_leaf)"
    using page example_usable by (simp add: entry_consistent_def refill_entry_def example_leaf_def pte_permissions_def example_pte [simplified])
  have inv: "fa_inv sv32_example ?W example_fenced"
    using entry zero_consistent [of sv32_example ?W]
    by (simp add: fa_inv_def example_fenced_def example_filled_def fa_reset_def example_port_def)
  have pre: "fa_legal (one_port port_idle) example_fenced" "ft_ports example_fenced \<noteq> []" "ft_flush_queue example_fenced = example_fence # []"
    "tl_flush_granted (one_port port_idle)" "ft_refill_free example_fenced"
    by (simp_all add: fa_legal_def one_port_def port_idle_def example_fenced_def example_filled_def fa_reset_def)
  have vpn: "2 = take_bit (vp_max_tlb_vpn_bits sv32_example) (drop_bit PAGE_SIZE_LOG (sf_vaddr example_fence))"
    by (simp add: sv32_example_def example_fence_def PAGE_SIZE_LOG_def PAGE_SIZE_def)
  have change: "\<forall>a v l e. ?W a v = Walk_leaf l e \<and> Walk_page_fault \<noteq> ?W a v \<longrightarrow>
      (sf_all_asids example_fence \<or> \<not> pte_G e \<and> a = sf_asid example_fence) \<and> (sf_all_vaddrs example_fence \<or> same_page sv32_example l v 2)"
    using example_pte by (auto simp: example_fence_def split: if_splits)
  note c = fence_takes_effect [where W' = "\<lambda>_ _. Walk_page_fault", OF world inv pre vpn change, of example_tlb_lib]
  have "same_page sv32_example 1 2 1" "vp_max_tlb_size_class sv32_example = 1" using page by (simp_all add: same_page_def sv32_example_def)
  then have entries: "map (\<lambda>e. if (sf_all_asids example_fence \<or> \<not> perm_g (te_permissions e) \<and> te_asid e = sf_asid example_fence) \<and>
        (sf_all_vaddrs example_fence \<or> te_size_class e \<le> vp_max_tlb_size_class sv32_example \<and> same_page sv32_example (te_size_class e) 2 (te_vpn e))
      then zero_entry else e) (ft_entries example_fenced) = [zero_entry, zero_entry]"
    by (simp add: example_fenced_def example_filled_def example_fence_def refill_entry_def example_leaf_def)
  show ?thesis using c unfolding entries by blast
qed

end
