(* ===== verification/Tlb_Set.thy ===== *)
theory Tlb_Set
  imports Tlb Isa
begin

text \<open>
  The set associative translation look-aside buffer (\<^verbatim>\<open>SetAssociativeTLB\<close> in \<^verbatim>\<open>priv/vmem/tlb.py\<close>). Its sets are in a memory that is
  read in the cycle before they are used; a request looks at one set per size of page. Its answers agree with the page tables as
  long as these do not change, a fence for everything empties it, and a fence for a page may leave a stale entry behind.
\<close>

section \<open>SetAssociativeTLB\<close>

datatype sa_fsm = Sa_IDLE | Sa_REFILL

record sa_params =
  sp_vmem :: vmem_params
  sp_sets :: nat
  sp_ways :: nat
  sp_set_index_bits :: nat

text \<open>The constructor's checks.\<close>

definition mk_SetAssociativeTLB :: "vmem_params \<Rightarrow> int \<Rightarrow> int \<Rightarrow> py_error + sa_params" where
  "mk_SetAssociativeTLB p entries ways =
     (if entries \<le> 0 then Inl ValueError else if ways \<le> 0 then Inl ValueError
      else if entries mod ways \<noteq> 0 then Inl ValueError
      else Inr \<lparr>sp_vmem = p, sp_sets = nat (entries div ways), sp_ways = nat ways, sp_set_index_bits = bit_length (nat (entries div ways) - 1)\<rparr>)"

text \<open>
  The registers, with the output registers of the read ports of the two memories. The memories are functions of the address. The
  class of a fence is one bit wider than its register, which is written again before a wrapped value would be used.
\<close>

record sa_tlb =
  sa_mem :: "nat \<Rightarrow> tlb_entry list"
  sa_rr_mem :: "nat \<Rightarrow> nat"
  sa_set_rd :: "tlb_entry list"
  sa_rr_rd :: nat
  sa_checked_asid :: nat
  sa_checked_vpn :: nat
  sa_flushing :: bool
  sa_refill_in_progress :: bool
  sa_pipe :: "(nat \<times> bool) option"
  sa_requested_class :: nat
  sa_state :: sa_fsm
  sa_refill_set_idx :: nat
  sa_refill_response :: tlb_accept
  sa_flush_vpn :: nat
  sa_flush_all_vaddrs :: bool
  sa_flush_all_asids :: bool
  sa_flush_set :: nat
  sa_flush_size_class :: nat
  sa_fwd :: "tlb_accept option"

record sa_in =
  sq_asid :: nat
  sq_request :: "(nat \<times> bool) option"
  sq_accept :: bool
  sq_backing_ready :: bool
  sq_response :: "tlb_accept option"
  sq_sfence :: "sfence option"

definition vpn_to_set_idx :: "sa_params \<Rightarrow> nat \<Rightarrow> nat \<Rightarrow> nat" where
  "vpn_to_set_idx c vpn cls =
     (let n = bits_per_page_table_level (vp_xlen (sp_vmem c)) in take_bit (sp_set_index_bits c) (take_bit n (drop_bit (n * cls) vpn)))"

text \<open>The transactions and methods that run in a cycle.\<close>

definition sa_sfence_runs :: "sa_in \<Rightarrow> sa_tlb \<Rightarrow> sfence option" where
  "sa_sfence_runs inp s = (if \<not> sa_flushing s \<and> sa_pipe s = None \<and> \<not> sa_refill_in_progress s then sq_sfence inp else None)"

definition sa_lookup_runs :: "sa_in \<Rightarrow> sa_tlb \<Rightarrow> bool" where
  "sa_lookup_runs inp s = (\<not> sa_refill_in_progress s \<and> sa_pipe s \<noteq> None \<and> sq_backing_ready inp \<and> sa_fwd s = None)"

definition sa_miss :: "sa_params \<Rightarrow> sa_tlb \<Rightarrow> bool" where
  "sa_miss c s = (\<not> list_ex (full_match (sp_vmem c) (sa_checked_asid s) (sa_checked_vpn s)) (sa_set_rd s))"

definition sa_asks :: "sa_params \<Rightarrow> sa_tlb \<Rightarrow> bool" where
  "sa_asks c s = (sa_miss c s \<and> sa_requested_class s = vp_max_tlb_size_class (sp_vmem c))"

definition sa_next_class :: "sa_params \<Rightarrow> sa_tlb \<Rightarrow> bool" where
  "sa_next_class c s = (sa_miss c s \<and> sa_requested_class s < vp_max_tlb_size_class (sp_vmem c))"

definition sa_resolves :: "sa_params \<Rightarrow> sa_in \<Rightarrow> sa_tlb \<Rightarrow> bool" where
  "sa_resolves c inp s = (sa_lookup_runs inp s \<and> \<not> sa_asks c s \<and> \<not> sa_next_class c s)"

definition sa_idle_runs :: "sa_in \<Rightarrow> sa_tlb \<Rightarrow> tlb_accept option" where
  "sa_idle_runs inp s = (if sa_state s = Sa_IDLE \<and> sa_pipe s \<noteq> None \<and> sa_fwd s = None then sq_response inp else None)"

definition sa_refill_runs :: "sa_tlb \<Rightarrow> bool" where
  "sa_refill_runs s = (sa_state s = Sa_REFILL \<and> sa_pipe s \<noteq> None \<and> sa_fwd s = None)"

text \<open>What is written to the forwarder, and whether the request pipe is read.\<close>

definition sa_hit :: "tlb_lib \<Rightarrow> sa_params \<Rightarrow> sa_in \<Rightarrow> sa_tlb \<Rightarrow> tlb_accept" where
  "sa_hit E c inp s = (tlb_hit E (sp_vmem c) (sa_checked_asid s) (sa_checked_vpn s) (sa_set_rd s))\<lparr>ta_asid := sq_asid inp\<rparr>"

definition sa_writes :: "tlb_lib \<Rightarrow> sa_params \<Rightarrow> sa_in \<Rightarrow> sa_tlb \<Rightarrow> tlb_accept option" where
  "sa_writes E c inp s =
     (if sa_resolves c inp s then Some (sa_hit E c inp s)
      else case sa_idle_runs inp s of
        Some resp \<Rightarrow> if ta_result resp = TLB_HIT then None else Some resp
      | None \<Rightarrow> if sa_refill_runs s then Some (sa_refill_response s) else None)"

definition sa_request_taken :: "tlb_lib \<Rightarrow> sa_params \<Rightarrow> sa_in \<Rightarrow> sa_tlb \<Rightarrow> (nat \<times> bool) option" where
  "sa_request_taken E c inp s =
     (if \<not> sa_flushing s \<and> sa_sfence_runs inp s = None \<and> (sa_pipe s = None \<or> sa_writes E c inp s \<noteq> None) then sq_request inp else None)"

text \<open>The set that the read port fetches; the last assignment to its address that applies wins.\<close>

definition sa_next_flush_set :: "sa_params \<Rightarrow> sa_tlb \<Rightarrow> nat" where
  "sa_next_flush_set c s =
     (if sa_flush_all_vaddrs s then (sa_flush_set s + 1) mod 2 ^ sp_set_index_bits c
      else vpn_to_set_idx c (sa_flush_vpn s) (sa_flush_size_class s + 1))"

definition sa_read_addr :: "tlb_lib \<Rightarrow> sa_params \<Rightarrow> sa_in \<Rightarrow> sa_tlb \<Rightarrow> nat option" where
  "sa_read_addr E c inp s =
     (if sa_flushing s then Some (sa_next_flush_set c s)
      else if sa_sfence_runs inp s \<noteq> None then Some (sa_flush_set s)
      else case (sa_idle_runs inp s, sa_pipe s) of
        (Some resp, Some (vpn, st)) \<Rightarrow> Some (vpn_to_set_idx c vpn (ta_size_class resp))
      | (_, pipe) \<Rightarrow>
          if sa_lookup_runs inp s \<and> sa_next_class c s then Some (vpn_to_set_idx c (fst (the pipe)) (sa_requested_class s + 1))
          else case sa_request_taken E c inp s of Some (vpn, st) \<Rightarrow> Some (vpn_to_set_idx c vpn 0) | None \<Rightarrow> None)"

text \<open>The set that is written.\<close>

definition sa_flush_data :: "sa_params \<Rightarrow> sa_tlb \<Rightarrow> tlb_entry list" where
  "sa_flush_data c s =
     map (\<lambda>e. if (sa_flush_all_asids s \<or> asid_match (sa_checked_asid s) e) \<and> (sa_flush_all_vaddrs s \<or> addr_match (sp_vmem c) (sa_checked_vpn s) e)
              then e\<lparr>te_valid := False\<rparr> else e) (sa_set_rd s)"

definition sa_refill_data :: "sa_params \<Rightarrow> sa_tlb \<Rightarrow> tlb_entry list" where
  "sa_refill_data c s =
     (sa_set_rd s)[replace_candidate (sp_vmem c) (sa_checked_asid s) (sa_checked_vpn s) (sa_rr_rd s) (sa_set_rd s) :=
       refill_entry (fst (the (sa_pipe s))) (sa_refill_response s)]"

definition sa_mem_next :: "sa_params \<Rightarrow> sa_tlb \<Rightarrow> nat \<Rightarrow> tlb_entry list" where
  "sa_mem_next c s =
     (if sa_flushing s then (sa_mem s)(sa_flush_set s := sa_flush_data c s)
      else if sa_refill_runs s \<and> ta_result (sa_refill_response s) = TLB_HIT then (sa_mem s)(sa_refill_set_idx s := sa_refill_data c s)
      else sa_mem s)"

definition sa_flush_done :: "sa_params \<Rightarrow> sa_tlb \<Rightarrow> bool" where
  "sa_flush_done c s =
     (if sa_flush_all_vaddrs s then sa_flush_set s = sp_sets c - 1 else sa_flush_size_class s = vp_max_tlb_size_class (sp_vmem c))"

text \<open>
  A cycle. An enabled read port fetches the old contents of its address. In a cycle in which the code does not drive the port, it has
  the initial values of its signals, address 0 and the enable value \<open>en_init\<close> of the hardware description library.
\<close>

definition read_port :: "bool \<Rightarrow> (nat \<Rightarrow> 'b) \<Rightarrow> nat option \<Rightarrow> 'b \<Rightarrow> 'b" where
  "read_port en_init mem addr out = (case addr of Some a \<Rightarrow> mem a | None \<Rightarrow> if en_init then mem 0 else out)"

definition sa_cycle :: "tlb_lib \<Rightarrow> sa_params \<Rightarrow> bool \<Rightarrow> sa_in \<Rightarrow> sa_tlb \<Rightarrow> sa_tlb" where
  "sa_cycle E c en_init inp s =
     (let request = sa_request_taken E c inp s; fence = sa_sfence_runs inp s; idle = sa_idle_runs inp s;
          lookup = sa_lookup_runs inp s; refill = sa_refill_runs s; written = sa_writes E c inp s;
          to_refill = (case idle of None \<Rightarrow> False | Some resp \<Rightarrow> ta_result resp = TLB_HIT)
      in s\<lparr>sa_mem := sa_mem_next c s,
           sa_rr_mem := (if refill \<and> ta_result (sa_refill_response s) = TLB_HIT
                         then (sa_rr_mem s)(sa_refill_set_idx s := tn_mod_incr E (sa_rr_rd s) (sp_ways c)) else sa_rr_mem s),
           sa_set_rd := read_port en_init (sa_mem s) (sa_read_addr E c inp s) (sa_set_rd s),
           sa_rr_rd := read_port en_init (sa_rr_mem s)
             (map_option (\<lambda>resp. vpn_to_set_idx c (fst (the (sa_pipe s))) (ta_size_class resp)) idle) (sa_rr_rd s),
           sa_checked_asid := (case fence of Some f \<Rightarrow> sf_asid f | None \<Rightarrow> if request \<noteq> None then sq_asid inp else sa_checked_asid s),
           sa_checked_vpn := (case fence of Some f \<Rightarrow> take_bit (vp_max_tlb_vpn_bits (sp_vmem c)) (drop_bit PAGE_SIZE_LOG (sf_vaddr f))
                              | None \<Rightarrow> case request of Some (vpn, st) \<Rightarrow> vpn | None \<Rightarrow> sa_checked_vpn s),
           sa_flushing := (fence \<noteq> None \<or> sa_flushing s \<and> \<not> sa_flush_done c s),
           sa_refill_in_progress := (if lookup \<and> sa_asks c s then True
                                     else if (idle \<noteq> None \<and> \<not> to_refill) \<or> refill then False else sa_refill_in_progress s),
           sa_pipe := (case request of Some r \<Rightarrow> Some r | None \<Rightarrow> if written \<noteq> None then None else sa_pipe s),
           sa_requested_class := (if lookup \<and> sa_next_class c s then sa_requested_class s + 1
                                  else if request \<noteq> None then 0 else sa_requested_class s),
           sa_state := (if to_refill then Sa_REFILL else if refill then Sa_IDLE else sa_state s),
           sa_refill_set_idx := (case idle of Some resp \<Rightarrow> vpn_to_set_idx c (fst (the (sa_pipe s))) (ta_size_class resp)
                                 | None \<Rightarrow> sa_refill_set_idx s),
           sa_refill_response := (case idle of Some resp \<Rightarrow> resp | None \<Rightarrow> sa_refill_response s),
           sa_flush_vpn := (case fence of Some f \<Rightarrow> take_bit (vp_max_tlb_vpn_bits (sp_vmem c)) (drop_bit PAGE_SIZE_LOG (sf_vaddr f)) | None \<Rightarrow> sa_flush_vpn s),
           sa_flush_all_vaddrs := (case fence of Some f \<Rightarrow> sf_all_vaddrs f | None \<Rightarrow> sa_flush_all_vaddrs s),
           sa_flush_all_asids := (case fence of Some f \<Rightarrow> sf_all_asids f | None \<Rightarrow> sa_flush_all_asids s),
           sa_flush_set := (case fence of
               Some f \<Rightarrow> if sf_all_vaddrs f then 0
                         else vpn_to_set_idx c (take_bit (vp_max_tlb_vpn_bits (sp_vmem c)) (drop_bit PAGE_SIZE_LOG (sf_vaddr f))) 0
             | None \<Rightarrow> if sa_flushing s then sa_next_flush_set c s else sa_flush_set s),
           sa_flush_size_class := (if fence \<noteq> None then 0
                                   else if sa_flushing s \<and> \<not> sa_flush_all_vaddrs s then sa_flush_size_class s + 1 else sa_flush_size_class s),
           sa_fwd := fwd_next written (sq_accept inp) (sa_fwd s)\<rparr>)"

definition sa_answer :: "tlb_lib \<Rightarrow> sa_params \<Rightarrow> sa_in \<Rightarrow> sa_tlb \<Rightarrow> tlb_accept option" where
  "sa_answer E c inp s =
     (if sq_accept inp then (case sa_fwd s of None \<Rightarrow> sa_writes E c inp s | Some d \<Rightarrow> Some d) else None)"

definition sa_reset :: "sa_params \<Rightarrow> sa_tlb" where
  "sa_reset c =
     \<lparr>sa_mem = (\<lambda>_. replicate (sp_ways c) zero_entry), sa_rr_mem = (\<lambda>_. 0), sa_set_rd = replicate (sp_ways c) zero_entry, sa_rr_rd = 0,
      sa_checked_asid = 0, sa_checked_vpn = 0, sa_flushing = True, sa_refill_in_progress = False, sa_pipe = None,
      sa_requested_class = 0, sa_state = Sa_IDLE, sa_refill_set_idx = 0, sa_refill_response = no_tlb_data,
      sa_flush_vpn = 0, sa_flush_all_vaddrs = True, sa_flush_all_asids = True, sa_flush_set = 0, sa_flush_size_class = 0, sa_fwd = None\<rparr>"

section \<open>Answers agree with the page tables\<close>

text \<open>The backing device answers the refill of the waiting request, and the address space stays the same.\<close>

definition sa_faithful :: "sa_params \<Rightarrow> walk_world \<Rightarrow> nat \<Rightarrow> sa_in \<Rightarrow> sa_tlb \<Rightarrow> bool" where
  "sa_faithful c W asid inp s \<longleftrightarrow> sq_asid inp = asid \<and>
     (\<forall>resp. sq_response inp = Some resp \<longrightarrow> sa_refill_in_progress s \<and>
        (\<forall>vpn st. sa_pipe s = Some (vpn, st) \<longrightarrow> walk_answers (sp_vmem c) st (ta_asid resp) (W (ta_asid resp) vpn) resp))"

definition sa_inv :: "sa_params \<Rightarrow> walk_world \<Rightarrow> nat \<Rightarrow> sa_tlb \<Rightarrow> bool" where
  "sa_inv c W asid s \<longleftrightarrow>
     (\<forall>i. \<forall>e \<in> set (sa_mem s i). entry_consistent (sp_vmem c) W e) \<and> (\<forall>e \<in> set (sa_set_rd s). entry_consistent (sp_vmem c) W e) \<and>
     (sa_flushing s \<longrightarrow> sa_pipe s = None) \<and> sa_requested_class s \<le> vp_max_tlb_size_class (sp_vmem c) \<and>
     (sa_state s = Sa_REFILL \<longrightarrow> sa_refill_in_progress s \<and> sa_pipe s \<noteq> None) \<and>
     (\<forall>vpn st. sa_pipe s = Some (vpn, st) \<longrightarrow> sa_checked_vpn s = vpn \<and> sa_checked_asid s = asid \<and>
        (sa_state s = Sa_REFILL \<longrightarrow> walk_answers (sp_vmem c) st (ta_asid (sa_refill_response s)) (W (ta_asid (sa_refill_response s)) vpn) (sa_refill_response s)))"

lemma invalid_consistent: "entry_consistent p W (e\<lparr>te_valid := False\<rparr>)"
  by (simp add: entry_consistent_def)

lemma sa_mem_consistent:
  assumes inv: "sa_inv c W asid s"
  shows "\<forall>e \<in> set (sa_mem_next c s i). entry_consistent (sp_vmem c) W e"
proof -
  let ?ok = "entry_consistent (sp_vmem c) W"
  have mem: "\<forall>e \<in> set (sa_mem s i). ?ok e" and rd: "\<forall>e \<in> set (sa_set_rd s). ?ok e" using inv unfolding sa_inv_def by blast+
  have flush: "\<forall>e \<in> set (sa_flush_data c s). ?ok e" using rd by (auto simp: sa_flush_data_def invalid_consistent)
  have refill: "\<forall>e \<in> set (sa_refill_data c s). ?ok e" if "sa_refill_runs s" "ta_result (sa_refill_response s) = TLB_HIT"
  proof -
    obtain vpn st where pipe: "sa_pipe s = Some (vpn, st)" "sa_state s = Sa_REFILL" using \<open>sa_refill_runs s\<close> by (auto simp: sa_refill_runs_def)
    then have "walk_answers (sp_vmem c) st (ta_asid (sa_refill_response s)) (W (ta_asid (sa_refill_response s)) vpn) (sa_refill_response s)"
      using inv unfolding sa_inv_def by blast
    note new = refill_consistent [where W = W, OF this \<open>ta_result (sa_refill_response s) = TLB_HIT\<close>]
    show ?thesis
      using rd new pipe(1) set_update_subset_insert [of "sa_set_rd s" _ "refill_entry vpn (sa_refill_response s)"]
      by (auto simp: sa_refill_data_def)
  qed
  show ?thesis using mem flush refill by (simp add: sa_mem_next_def)
qed

lemma sa_writes_pipe: "sa_inv c W asid s \<Longrightarrow> sa_writes E c inp s = Some d \<Longrightarrow> sa_pipe s \<noteq> None \<and> sa_fwd s = None"
  by (auto simp: sa_writes_def sa_resolves_def sa_lookup_runs_def sa_idle_runs_def sa_refill_runs_def split: if_splits option.splits)

lemma sa_idle_in_progress:
  assumes "sa_faithful c W asid inp s" "sa_idle_runs inp s = Some resp"
  shows "sa_refill_in_progress s \<and> sa_state s = Sa_IDLE \<and> sa_pipe s \<noteq> None \<and> sa_fwd s = None \<and> sq_response inp = Some resp"
  using assms by (auto simp: sa_idle_runs_def sa_faithful_def split: if_splits)

text \<open>A request is taken into the pipe only when no answer of the backing device is kept for the previous one.\<close>

lemma sa_taken_idle:
  assumes inv: "sa_inv c W asid s" and faithful: "sa_faithful c W asid inp s" and taken: "sa_request_taken E c inp s \<noteq> None"
  shows "sa_state (sa_cycle E c en_init inp s) = Sa_IDLE"
proof (cases "sa_pipe s")
  case None
  then show ?thesis
    using inv sa_fsm.exhaust by (auto simp: sa_cycle_def Let_def sa_idle_runs_def sa_refill_runs_def sa_inv_def)
next
  case (Some r)
  then have w: "sa_writes E c inp s \<noteq> None" using taken by (auto simp: sa_request_taken_def split: if_splits)
  show ?thesis
  proof (cases "sa_resolves c inp s")
    case True
    then have np: "\<not> sa_refill_in_progress s" by (simp add: sa_resolves_def sa_lookup_runs_def)
    then have idle: "sa_idle_runs inp s = None" using sa_idle_in_progress [OF faithful] by (cases "sa_idle_runs inp s") auto
    have "sa_state s = Sa_IDLE" using inv np by (cases "sa_state s") (simp_all add: sa_inv_def)
    then show ?thesis using idle by (simp add: sa_cycle_def Let_def sa_refill_runs_def)
  next
    case False
    then show ?thesis
      using w by (cases "sa_state s") (auto simp: sa_writes_def sa_cycle_def Let_def sa_refill_runs_def sa_idle_runs_def split: option.splits if_splits)
  qed
qed

lemma sa_inv_cycle:
  assumes inv: "sa_inv c W asid s" and faithful: "sa_faithful c W asid inp s"
  shows "sa_inv c W asid (sa_cycle E c en_init inp s)"
proof -
  let ?s = "sa_cycle E c en_init inp s" and ?ok = "entry_consistent (sp_vmem c) W"
  note I = inv [unfolded sa_inv_def]
  have entries: "\<forall>i. \<forall>e \<in> set (sa_mem ?s i). ?ok e" "\<forall>e \<in> set (sa_set_rd ?s). ?ok e"
    using sa_mem_consistent [OF inv] I by (simp_all add: sa_cycle_def Let_def read_port_def split: option.split)
  have flush: "sa_flushing ?s \<longrightarrow> sa_pipe ?s = None"
    using I by (auto simp: sa_cycle_def Let_def sa_request_taken_def sa_sfence_runs_def split: option.splits if_splits)
  have cls: "sa_requested_class ?s \<le> vp_max_tlb_size_class (sp_vmem c)"
    using I by (simp add: sa_cycle_def Let_def sa_next_class_def)
  have lookup: "\<not> sa_lookup_runs inp s" if "sa_state ?s = Sa_REFILL"
  proof (cases "sa_idle_runs inp s")
    case None
    then have "sa_state s = Sa_REFILL" using that by (auto simp: sa_cycle_def Let_def split: if_splits)
    then show ?thesis using I by (simp add: sa_lookup_runs_def)
  next
    case (Some resp)
    then show ?thesis using sa_idle_in_progress [OF faithful Some] by (simp add: sa_lookup_runs_def)
  qed
  have refill: "sa_refill_in_progress ?s \<and> sa_pipe ?s \<noteq> None" if st: "sa_state ?s = Sa_REFILL"
  proof (cases "sa_idle_runs inp s")
    case None
    then have s: "sa_state s = Sa_REFILL" "\<not> sa_refill_runs s" using st by (auto simp: sa_cycle_def Let_def split: if_splits)
    then have "sa_writes E c inp s = None" using lookup [OF st] None by (simp add: sa_writes_def sa_resolves_def)
    then show ?thesis using I s lookup [OF st] None by (simp add: sa_cycle_def Let_def split: option.split)
  next
    case (Some resp)
    note m = sa_idle_in_progress [OF faithful Some]
    then have hit: "ta_result resp = TLB_HIT" "\<not> sa_refill_runs s" using st Some by (auto simp: sa_cycle_def Let_def sa_refill_runs_def split: if_splits)
    then have "sa_writes E c inp s = None" using lookup [OF st] Some by (simp add: sa_writes_def sa_resolves_def)
    then show ?thesis using m hit lookup [OF st] Some by (simp add: sa_cycle_def Let_def split: option.split)
  qed
  have pipe: "sa_checked_vpn ?s = vpn \<and> sa_checked_asid ?s = asid \<and>
      (sa_state ?s = Sa_REFILL \<longrightarrow> walk_answers (sp_vmem c) st (ta_asid (sa_refill_response ?s)) (W (ta_asid (sa_refill_response ?s)) vpn) (sa_refill_response ?s))"
    if p: "sa_pipe ?s = Some (vpn, st)" for vpn st
  proof (cases "sa_request_taken E c inp s")
    case (Some r)
    then have "sa_state ?s \<noteq> Sa_REFILL" using sa_taken_idle [OF inv faithful, of E en_init] by simp
    moreover have "sa_sfence_runs inp s = None" using Some by (auto simp: sa_request_taken_def split: if_splits)
    ultimately show ?thesis using p Some faithful by (simp add: sa_cycle_def Let_def sa_faithful_def)
  next
    case None
    then have old: "sa_pipe s = Some (vpn, st)" "sa_writes E c inp s = None" using p by (auto simp: sa_cycle_def Let_def split: if_splits)
    then have "sa_sfence_runs inp s = None" by (simp add: sa_sfence_runs_def)
    then have "sa_checked_vpn ?s = vpn \<and> sa_checked_asid ?s = asid" using I old None by (simp add: sa_cycle_def Let_def)
    moreover have "walk_answers (sp_vmem c) st (ta_asid (sa_refill_response ?s)) (W (ta_asid (sa_refill_response ?s)) vpn) (sa_refill_response ?s)"
      if "sa_state ?s = Sa_REFILL"
    proof (cases "sa_idle_runs inp s")
      case None
      then have "sa_state s = Sa_REFILL" using that by (auto simp: sa_cycle_def Let_def split: if_splits)
      then show ?thesis using I old(1) None by (simp add: sa_cycle_def Let_def)
    next
      case (Some resp)
      then show ?thesis using sa_idle_in_progress [OF faithful Some] faithful old(1) by (simp add: sa_cycle_def Let_def sa_faithful_def)
    qed
    ultimately show ?thesis by blast
  qed
  show ?thesis unfolding sa_inv_def using entries flush cls refill pipe by blast
qed

text \<open>The requests without an answer: one kept in the forwarder with its answer, then the one in the pipe.\<close>

definition sa_rep :: "sa_params \<Rightarrow> walk_world \<Rightarrow> sa_tlb \<Rightarrow> (nat \<times> bool) list \<Rightarrow> bool" where
  "sa_rep c W s pend \<longleftrightarrow>
     (case sa_fwd s of None \<Rightarrow> pend = opt_list (sa_pipe s)
      | Some d \<Rightarrow> \<exists>vpn st. pend = (vpn, st) # opt_list (sa_pipe s) \<and> tlb_answers (sp_vmem c) st (W (ta_asid d) vpn) d)"

lemma sa_resolves_found:
  assumes "sa_inv c W asid s" "sa_resolves c inp s"
  shows "\<not> sa_miss c s"
  using assms by (auto simp: sa_resolves_def sa_asks_def sa_next_class_def sa_inv_def)

lemma sa_written_answer:
  assumes W: "world_ok (sp_vmem c) W" and E: "tlb_lib_spec E" and inv: "sa_inv c W asid s" and faithful: "sa_faithful c W asid inp s"
    and d: "sa_writes E c inp s = Some d" "sa_pipe s = Some (vpn, st)"
  shows "tlb_answers (sp_vmem c) st (W (ta_asid d) vpn) d"
proof (cases "sa_resolves c inp s")
  case True
  have checked: "sa_checked_vpn s = vpn" "sa_checked_asid s = asid" and rd: "\<forall>e \<in> set (sa_set_rd s). entry_consistent (sp_vmem c) W e"
    using inv d(2) unfolding sa_inv_def by blast+
  have "\<not> ask_backing (sp_vmem c) asid vpn (sa_set_rd s)"
    using sa_resolves_found [OF inv True] by (simp add: sa_miss_def ask_backing_def checked)
  note hit = hit_answers [OF W E rd this, of st]
  have "d = tlb_hit E (sp_vmem c) asid vpn (sa_set_rd s)"
    using True d(1) faithful by (simp add: sa_writes_def sa_hit_def checked sa_faithful_def tlb_hit_def Let_def)
  then show ?thesis using hit by simp
next
  case False
  show ?thesis
  proof (cases "sa_idle_runs inp s")
    case None
    then have "sa_refill_runs s" "d = sa_refill_response s" using False d(1) by (simp_all add: sa_writes_def split: if_splits)
    then show ?thesis using inv d(2) by (simp add: sa_inv_def sa_refill_runs_def tlb_answers_def)
  next
    case (Some resp)
    then have "d = resp" using False d(1) by (simp add: sa_writes_def split: if_splits)
    then show ?thesis using sa_idle_in_progress [OF faithful Some] faithful d(2) by (auto simp: sa_faithful_def tlb_answers_def)
  qed
qed

lemma sa_step:
  assumes W: "world_ok (sp_vmem c) W" and E: "tlb_lib_spec E" and inv: "sa_inv c W asid s" and faithful: "sa_faithful c W asid inp s"
    and rep: "sa_rep c W s pend"
  shows "case sa_answer E c inp s of
      None \<Rightarrow> sa_rep c W (sa_cycle E c en_init inp s) (pend @ opt_list (sa_request_taken E c inp s))
    | Some d \<Rightarrow> \<exists>vpn st rest. pend @ opt_list (sa_request_taken E c inp s) = (vpn, st) # rest \<and>
        tlb_answers (sp_vmem c) st (W (ta_asid d) vpn) d \<and> sa_rep c W (sa_cycle E c en_init inp s) rest"
proof -
  let ?s = "sa_cycle E c en_init inp s" and ?t = "sa_request_taken E c inp s"
  have fwd: "sa_fwd ?s = fwd_next (sa_writes E c inp s) (sq_accept inp) (sa_fwd s)" by (simp add: sa_cycle_def Let_def)
  have pipe: "sa_pipe ?s = (case ?t of Some r \<Rightarrow> Some r | None \<Rightarrow> if sa_writes E c inp s \<noteq> None then None else sa_pipe s)"
    by (simp add: sa_cycle_def Let_def)
  show ?thesis
  proof (cases "sa_writes E c inp s")
    case (Some d)
    obtain vpn st where p: "sa_pipe s = Some (vpn, st)" "sa_fwd s = None" using sa_writes_pipe [OF inv Some] by auto
    note ans = sa_written_answer [OF W E inv faithful Some p(1)]
    have pend: "pend = [(vpn, st)]" using rep p by (simp add: sa_rep_def)
    have "sa_pipe ?s = ?t" using Some by (simp add: pipe split: option.split)
    then show ?thesis using Some p ans pend by (simp add: sa_answer_def sa_rep_def fwd fwd_next_def)
  next
    case None
    then have "opt_list (sa_pipe ?s) = opt_list (sa_pipe s) @ opt_list ?t"
      by (auto simp: pipe sa_request_taken_def split: option.split if_splits)
    then show ?thesis using None rep by (auto simp: sa_answer_def sa_rep_def fwd fwd_next_def split: option.splits)
  qed
qed

fun sa_run :: "tlb_lib \<Rightarrow> sa_params \<Rightarrow> bool \<Rightarrow> sa_in list \<Rightarrow> sa_tlb \<Rightarrow> sa_tlb" where
  "sa_run E c en_init [] s = s"
| "sa_run E c en_init (inp # inps) s = sa_run E c en_init inps (sa_cycle E c en_init inp s)"

fun sa_run_faithful :: "tlb_lib \<Rightarrow> sa_params \<Rightarrow> bool \<Rightarrow> walk_world \<Rightarrow> nat \<Rightarrow> sa_in list \<Rightarrow> sa_tlb \<Rightarrow> bool" where
  "sa_run_faithful E c en_init W asid [] s = True"
| "sa_run_faithful E c en_init W asid (inp # inps) s \<longleftrightarrow>
     sa_faithful c W asid inp s \<and> sa_run_faithful E c en_init W asid inps (sa_cycle E c en_init inp s)"

fun sa_history :: "tlb_lib \<Rightarrow> sa_params \<Rightarrow> bool \<Rightarrow> sa_in list \<Rightarrow> sa_tlb \<Rightarrow> (nat \<times> bool) list \<times> tlb_accept list" where
  "sa_history E c en_init [] s = ([], [])"
| "sa_history E c en_init (inp # inps) s =
     (let (rs, ds) = sa_history E c en_init inps (sa_cycle E c en_init inp s)
      in (opt_list (sa_request_taken E c inp s) @ rs, opt_list (sa_answer E c inp s) @ ds))"

lemma sa_rep_length: "sa_rep c W s pend \<Longrightarrow> length pend \<le> 2"
  by (cases "sa_pipe s") (auto simp: sa_rep_def split: option.splits)

lemma sa_history_answers:
  assumes W: "world_ok (sp_vmem c) W" and E: "tlb_lib_spec E" and "sa_inv c W asid s" "sa_run_faithful E c en_init W asid inps s"
    and "sa_rep c W s pend" "sa_history E c en_init inps s = (rs, ds)"
  shows "\<exists>matched rest. pend @ rs = matched @ rest \<and> length rest \<le> 2 \<and>
      list_all2 (\<lambda>r d. tlb_answers (sp_vmem c) (snd r) (W (ta_asid d) (fst r)) d) matched ds"
  using assms(3-)
proof (induction inps arbitrary: s pend rs ds)
  case Nil
  then show ?case using sa_rep_length by (auto intro!: exI [of _ pend])
next
  case (Cons inp inps)
  let ?s = "sa_cycle E c en_init inp s" and ?t = "sa_request_taken E c inp s"
  let ?ok = "\<lambda>r d. tlb_answers (sp_vmem c) (snd r) (W (ta_asid d) (fst r)) d"
  obtain rs' ds' where rest: "sa_history E c en_init inps ?s = (rs', ds')" by (cases "sa_history E c en_init inps ?s")
  have f: "sa_faithful c W asid inp s" "sa_run_faithful E c en_init W asid inps ?s" using Cons.prems(2) by simp_all
  note inv = sa_inv_cycle [OF Cons.prems(1) f(1), of E en_init]
  note step = sa_step [OF W E Cons.prems(1) f(1) Cons.prems(3), of en_init]
  note IH = Cons.IH [OF inv f(2) _ rest]
  have rs: "rs = opt_list ?t @ rs'" "ds = opt_list (sa_answer E c inp s) @ ds'" using Cons.prems(4) rest by simp_all
  show ?case
  proof (cases "sa_answer E c inp s")
    case None
    then show ?thesis using IH [of "pend @ opt_list ?t"] step rs by simp
  next
    case (Some d)
    then obtain r left where m: "pend @ opt_list ?t = r # left" "?ok r d" "sa_rep c W ?s left" using step by auto
    from IH [OF m(3)] obtain matched last where l: "left @ rs' = matched @ last" "length last \<le> 2" "list_all2 ?ok matched ds'" by blast
    have "pend @ rs = (r # matched) @ last" using m(1) l(1) rs(1) by (metis append.assoc append_Cons)
    moreover have "list_all2 ?ok (r # matched) ds" using m(2) l(3) rs(2) Some by simp
    ultimately show ?thesis using l(2) by blast
  qed
qed

lemma sa_reset_inv: "sa_inv c W asid (sa_reset c)"
  by (simp add: sa_inv_def sa_reset_def zero_consistent)

text \<open>
  C39. The set associative buffer is transparent as well. Along every run from reset with fixed page tables and address space, with
  fences, refills and any number of stalls, it gives at most one answer to each request, in order, at most two requests wait, and every
  answer is one that the walk of the page tables allows. This holds whatever the memories return in the cycles in which the code
  does not drive their read ports.
\<close>

theorem set_tlb_transparent:
  assumes "world_ok p W" "tlb_lib_spec E" "mk_SetAssociativeTLB p entries ways = Inr c"
    and "sa_run_faithful E c en_init W asid inps (sa_reset c)" "sa_history E c en_init inps (sa_reset c) = (rs, ds)"
  shows "length ds \<le> length rs \<and> length rs \<le> length ds + 2 \<and>
    (\<forall>k < length ds. tlb_answers p (snd (rs ! k)) (W (ta_asid (ds ! k)) (fst (rs ! k))) (ds ! k))"
proof -
  have p: "sp_vmem c = p" using assms(3) by (auto simp: mk_SetAssociativeTLB_def split: if_splits)
  have rep: "sa_rep c W (sa_reset c) []" by (simp add: sa_rep_def sa_reset_def)
  obtain matched rest where m: "rs = matched @ rest" "length rest \<le> 2"
      "list_all2 (\<lambda>r d. tlb_answers p (snd r) (W (ta_asid d) (fst r)) d) matched ds"
    using sa_history_answers [OF _ assms(2) sa_reset_inv assms(4) rep assms(5)] assms(1) unfolding p by auto
  then have len: "length matched = length ds" by (simp add: list_all2_lengthD)
  have "tlb_answers p (snd (rs ! k)) (W (ta_asid (ds ! k)) (fst (rs ! k))) (ds ! k)" if "k < length ds" for k
    using list_all2_nthD2 [OF m(3) that] that len by (simp add: m(1) nth_append)
  then show ?thesis using m(1,2) len by simp
qed

section \<open>Fences\<close>

text \<open>A fence for everything in progress, with the sets below \<open>k\<close> emptied.\<close>

definition flushed_below :: "sa_params \<Rightarrow> nat \<Rightarrow> sa_tlb \<Rightarrow> bool" where
  "flushed_below c k s \<longleftrightarrow> sa_flush_all_vaddrs s \<and> sa_flush_all_asids s \<and> (sa_flushing s \<longleftrightarrow> k < sp_sets c) \<and>
     (k < sp_sets c \<longrightarrow> sa_flush_set s = k) \<and> (\<forall>i < k. \<forall>e \<in> set (sa_mem s i). \<not> te_valid e)"

lemma flushed_below_step:
  assumes "flushed_below c k s" "k < sp_sets c" "sp_set_index_bits c = bit_length (sp_sets c - 1)"
  shows "flushed_below c (Suc k) (sa_cycle E c en_init inp s)"
proof -
  have run: "sa_flushing s" "sa_flush_set s = k" "sa_flush_all_vaddrs s" "sa_flush_all_asids s" "\<forall>i < k. \<forall>e \<in> set (sa_mem s i). \<not> te_valid e"
    using assms(1,2) by (simp_all add: flushed_below_def)
  have none: "sa_sfence_runs inp s = None" using run(1) by (simp add: sa_sfence_runs_def)
  have "Suc k mod 2 ^ sp_set_index_bits c = Suc k" if "Suc k < sp_sets c"
    using that less_exp_bit_length [of "sp_sets c - 1"] assms(3) by simp
  moreover have "\<forall>e \<in> set (sa_flush_data c s). \<not> te_valid e" using run(3,4) by (auto simp: sa_flush_data_def)
  ultimately show ?thesis
    using run none assms(2)
    by (auto simp: flushed_below_def sa_cycle_def Let_def sa_mem_next_def sa_next_flush_set_def sa_flush_done_def less_Suc_eq)
qed

lemma flushed_below_run:
  assumes "flushed_below c k s" "k + length inps = sp_sets c" "sp_set_index_bits c = bit_length (sp_sets c - 1)"
  shows "flushed_below c (sp_sets c) (sa_run E c en_init inps s) \<and> fst (sa_history E c en_init inps s) = []"
  using assms(1,2)
proof (induction inps arbitrary: k s)
  case (Cons inp inps)
  then have "sa_request_taken E c inp s = None" by (auto simp: flushed_below_def sa_request_taken_def)
  then show ?case
    using Cons.IH [OF flushed_below_step [OF Cons.prems(1) _ assms(3)]] Cons.prems(2) by (simp add: case_prod_beta)
qed simp

lemma flushed_below_start:
  assumes "sa_sfence_runs inp s = Some f" "sf_all_vaddrs f" "sf_all_asids f" "0 < sp_sets c"
  shows "flushed_below c 0 (sa_cycle E c en_init inp s)" "sa_request_taken E c inp s = None"
  using assms by (auto simp: flushed_below_def sa_cycle_def Let_def sa_request_taken_def)

definition quiet_in :: sa_in where
  "quiet_in = \<lparr>sq_asid = 5, sq_request = None, sq_accept = False, sq_backing_ready = True, sq_response = None, sq_sfence = None\<rparr>"

definition page_fence :: "nat \<Rightarrow> sfence" where
  "page_fence vpn = \<lparr>sf_vaddr = vpn * PAGE_SIZE, sf_asid = 5, sf_all_vaddrs = False, sf_all_asids = False\<rparr>"

definition example_sets :: sa_params where
  "example_sets = \<lparr>sp_vmem = sv32_example, sp_sets = 4, sp_ways = 1, sp_set_index_bits = 2\<rparr>"

definition superpage_in_set_0 :: sa_tlb where
  "superpage_in_set_0 = (sa_reset example_sets)\<lparr>sa_flushing := False, sa_mem := (\<lambda>_. [zero_entry])(0 := [refill_entry 0 example_leaf])\<rparr>"

definition stale_run :: "sa_in list" where
  "stale_run = [quiet_in\<lparr>sq_sfence := Some (page_fence 1026)\<rparr>, quiet_in, quiet_in, quiet_in\<lparr>sq_sfence := Some (page_fence 0)\<rparr>, quiet_in, quiet_in,
     quiet_in\<lparr>sq_request := Some (2, False)\<rparr>, quiet_in\<lparr>sq_accept := True\<rparr>]"

text \<open>The states of the run: after the first fence, its two steps, the second fence, its two steps, and the request.\<close>

definition fencing :: "nat \<Rightarrow> nat \<Rightarrow> nat \<Rightarrow> tlb_entry list \<Rightarrow> sa_tlb \<Rightarrow> sa_tlb" where
  "fencing vpn cls idx rd s = s\<lparr>sa_set_rd := rd, sa_checked_asid := 5, sa_checked_vpn := vpn, sa_flushing := cls < 2, sa_flush_vpn := vpn,
     sa_flush_all_vaddrs := False, sa_flush_all_asids := False, sa_flush_set := idx, sa_flush_size_class := cls\<rparr>"

definition stale_mem :: "nat \<Rightarrow> nat \<Rightarrow> tlb_entry list" where
  "stale_mem k = (\<lambda>_. [zero_entry])(0 := [if k = 2 then (refill_entry 0 example_leaf)\<lparr>te_valid := False\<rparr> else refill_entry 0 example_leaf],
     2 := [if k = 0 then zero_entry else refill_entry 0 example_leaf])"

definition stale_state :: "nat \<Rightarrow> nat \<Rightarrow> nat \<Rightarrow> nat \<Rightarrow> tlb_entry list \<Rightarrow> sa_tlb" where
  "stale_state k vpn cls idx rd = fencing vpn cls idx rd ((sa_reset example_sets)\<lparr>sa_mem := stale_mem k\<rparr>)"

lemmas sa_eval = sa_cycle_def sa_mem_next_def sa_flush_data_def sa_flush_done_def sa_next_flush_set_def sa_read_addr_def sa_sfence_runs_def
  sa_request_taken_def sa_writes_def sa_resolves_def sa_lookup_runs_def sa_idle_runs_def sa_refill_runs_def read_port_def fwd_next_def Let_def
  quiet_in_def page_fence_def stale_state_def fencing_def stale_mem_def sa_reset_def example_sets_def superpage_in_set_0_def
  vpn_to_set_idx_def sv32_example_def bits_per_page_table_level_def PAGE_SIZE_def PAGE_SIZE_LOG_def refill_entry_def zero_entry_def
  example_leaf_def no_permissions_def asid_match_def addr_match_def

lemma stale_steps:
  "sa_cycle E example_sets en (quiet_in\<lparr>sq_sfence := Some (page_fence 1026)\<rparr>) superpage_in_set_0 = stale_state 0 1026 0 2 [refill_entry 0 example_leaf]"
  "sa_cycle E example_sets en quiet_in (stale_state 0 1026 0 2 [refill_entry 0 example_leaf]) = stale_state 1 1026 1 1 [zero_entry]"
  "sa_cycle E example_sets en quiet_in (stale_state 1 1026 1 1 [zero_entry]) = stale_state 1 1026 2 0 [refill_entry 0 example_leaf]"
  by (simp_all add: sa_eval fun_eq_iff)

lemma stale_steps_2:
  "sa_cycle E example_sets en (quiet_in\<lparr>sq_sfence := Some (page_fence 0)\<rparr>) (stale_state 1 1026 2 0 [refill_entry 0 example_leaf]) =
     stale_state 1 0 0 0 [refill_entry 0 example_leaf]"
  "sa_cycle E example_sets en quiet_in (stale_state 1 0 0 0 [refill_entry 0 example_leaf]) = stale_state 2 0 1 0 [refill_entry 0 example_leaf]"
  "sa_cycle E example_sets en quiet_in (stale_state 2 0 1 0 [refill_entry 0 example_leaf]) =
     stale_state 2 0 2 0 [(refill_entry 0 example_leaf)\<lparr>te_valid := False\<rparr>]"
  by (simp_all add: sa_eval fun_eq_iff)

lemma stale_lookup:
  "sa_cycle E example_sets en (quiet_in\<lparr>sq_request := Some (2, False)\<rparr>) (stale_state 2 0 2 0 [(refill_entry 0 example_leaf)\<lparr>te_valid := False\<rparr>]) =
     (stale_state 2 0 2 0 [refill_entry 0 example_leaf])\<lparr>sa_checked_vpn := 2, sa_pipe := Some (2, False)\<rparr>"
  by (simp add: sa_eval)

lemma stale_answer:
  "sa_answer example_tlb_lib example_sets (quiet_in\<lparr>sq_accept := True\<rparr>)
     ((stale_state 2 0 2 0 [refill_entry 0 example_leaf])\<lparr>sa_checked_vpn := 2, sa_pipe := Some (2, False)\<rparr>) = Some example_leaf"
  by (simp add: sa_answer_def sa_eval sa_asks_def sa_next_class_def sa_miss_def full_match_def sa_hit_def tlb_hit_def matched_entry_def
      example_tlb_lib_def first_mux_def)

lemma stale_requests:
  "sa_request_taken E example_sets (quiet_in\<lparr>sq_request := Some (2, False)\<rparr>) (stale_state 2 0 2 0 [(refill_entry 0 example_leaf)\<lparr>te_valid := False\<rparr>]) =
     Some (2, False)"
  "sq_request inp = None \<Longrightarrow> sa_request_taken E c inp s = None" "\<not> sq_accept inp \<Longrightarrow> sa_answer E c inp s = None"
  by (simp_all add: sa_request_taken_def sa_answer_def) (simp add: sa_eval)

lemma stale_history:
  "sa_history example_tlb_lib example_sets en stale_run superpage_in_set_0 = ([(2, False)], [example_leaf])"
proof -
  have quiet: "sq_request quiet_in = None" "\<not> sq_accept quiet_in" by (simp_all add: quiet_in_def)
  show ?thesis
    by (simp only: stale_run_def sa_history.simps stale_steps stale_steps_2 stale_lookup stale_answer stale_requests(1) prod.case Let_def)
      (simp add: stale_requests(2,3) quiet)
qed

text \<open>
  C40. A fence for everything empties the buffer, also the one after reset: it takes one cycle per set, no request is taken before it ends, and
  no set holds a valid entry then. A fence for a page does not do this for its page: its first cycle writes the set that was pointed to before
  the fence, so that an entry can be copied into the set of another page, where the fence for its own page does not find
  it. After the fences the buffer then answers with the translation that was removed.
\<close>

theorem set_tlb_fences:
  assumes "mk_SetAssociativeTLB p entries ways = Inr c" "length inps = sp_sets c"
    and "(s = sa_reset c \<and> s' = s) \<or> (sa_sfence_runs inp s = Some f \<and> sf_all_vaddrs f \<and> sf_all_asids f \<and> s' = sa_cycle E c en inp s)"
  shows "(let s'' = sa_run E c en inps s'
     in \<not> sa_flushing s'' \<and> (\<forall>i < sp_sets c. \<forall>e \<in> set (sa_mem s'' i). \<not> te_valid e)) \<and> fst (sa_history E c en inps s') = [] \<and>
    mk_SetAssociativeTLB sv32_example 4 1 = Inr example_sets \<and>
    (\<exists>old W. sa_inv example_sets W 5 old \<and> (\<forall>v. W 5 v \<noteq> Walk_page_fault \<longrightarrow> same_page sv32_example 1 v 0) \<and>
       sa_history example_tlb_lib example_sets en
         (map (\<lambda>f. quiet_in\<lparr>sq_sfence := f\<rparr>) [Some (page_fence 1026), None, None, Some (page_fence 0), None, None] @
          [quiet_in\<lparr>sq_request := Some (2, False)\<rparr>, quiet_in\<lparr>sq_accept := True\<rparr>]) old = ([(2, False)], [example_leaf]))"
proof -
  have c: "sp_set_index_bits c = bit_length (sp_sets c - 1)" "0 < sp_sets c"
    using assms(1) by (auto simp: mk_SetAssociativeTLB_def pos_imp_zdiv_pos_iff zdvd_imp_le mod_eq_0_iff_dvd split: if_splits)
  have start: "flushed_below c 0 s'" using assms(3) flushed_below_start(1) [OF _ _ _ c(2)] c(2)
    by (auto simp: flushed_below_def sa_reset_def)
  have run: "flushed_below c (sp_sets c) (sa_run E c en inps s')" "fst (sa_history E c en inps s') = []"
    using flushed_below_run [OF start _ c(1)] assms(2) by simp_all
  let ?W = "\<lambda>(a :: nat) v. if a = 5 \<and> same_page sv32_example 1 v 0 then Walk_leaf 1 (pte_view 32 (3072 * 1024 + 67)) else Walk_page_fault"
  have entry: "entry_consistent sv32_example ?W (refill_entry 0 example_leaf)"
    using example_usable by (simp add: entry_consistent_def refill_entry_def example_leaf_def pte_permissions_def same_page_def example_pte [simplified])
  have inv: "sa_inv example_sets ?W 5 superpage_in_set_0"
    using entry zero_consistent [of sv32_example ?W] by (simp add: sa_inv_def superpage_in_set_0_def sa_reset_def example_sets_def)
  have stale: "map (\<lambda>f. quiet_in\<lparr>sq_sfence := f\<rparr>) [Some (page_fence 1026), None, None, Some (page_fence 0), None, None] @
      [quiet_in\<lparr>sq_request := Some (2, False)\<rparr>, quiet_in\<lparr>sq_accept := True\<rparr>] = stale_run"
    by (simp add: stale_run_def quiet_in_def)
  have mk: "mk_SetAssociativeTLB sv32_example 4 1 = Inr example_sets"
    by (simp add: mk_SetAssociativeTLB_def example_sets_def bit_length.simps)
  have left: "\<exists>old W. sa_inv example_sets W 5 old \<and> (\<forall>v. W 5 v \<noteq> Walk_page_fault \<longrightarrow> same_page sv32_example 1 v 0) \<and>
      sa_history example_tlb_lib example_sets en stale_run old = ([(2, False)], [example_leaf])"
    by (rule exI [of _ superpage_in_set_0], rule exI [of _ ?W], intro conjI inv stale_history) simp
  show ?thesis unfolding stale using run left mk by (simp only: flushed_below_def Let_def simp_thms) simp
qed

section \<open>Examples\<close>

definition one_set :: sa_params where
  "one_set = \<lparr>sp_vmem = sv32_example, sp_sets = 1, sp_ways = 1, sp_set_index_bits = 0\<rparr>"

text \<open>The buffer with an entry, a page asked for, the size in question, and whether a refill is in progress or has an answer.\<close>

definition one_state :: "tlb_entry \<Rightarrow> nat \<Rightarrow> nat \<Rightarrow> bool \<Rightarrow> sa_fsm \<Rightarrow> sa_tlb" where
  "one_state e vpn cls progress st = (sa_reset one_set)\<lparr>sa_flushing := False, sa_mem := (\<lambda>_. [zero_entry])(0 := [e]), sa_set_rd := [e],
     sa_checked_asid := if vpn = 0 then 0 else 5, sa_checked_vpn := vpn, sa_pipe := if vpn = 0 then None else Some (vpn, False),
     sa_requested_class := cls, sa_refill_in_progress := progress, sa_state := st,
     sa_refill_response := if st = Sa_REFILL then example_leaf else no_tlb_data\<rparr>"

definition one_filled :: sa_tlb where
  "one_filled = (sa_reset one_set)\<lparr>sa_flushing := False, sa_mem := (\<lambda>_. [zero_entry])(0 := [refill_entry 1 example_leaf]),
     sa_checked_asid := 5, sa_checked_vpn := 1, sa_requested_class := 1, sa_refill_response := example_leaf\<rparr>"

definition one_hit :: sa_tlb where
  "one_hit = one_filled\<lparr>sa_checked_vpn := 2, sa_pipe := Some (2, False), sa_requested_class := 0, sa_set_rd := [refill_entry 1 example_leaf]\<rparr>"

lemmas one_eval = sa_eval one_set_def one_state_def one_filled_def one_hit_def sa_asks_def sa_next_class_def sa_miss_def full_match_def no_tlb_data_def
  sa_refill_data_def replace_candidate_def example_tlb_lib_def

definition one_run :: "sa_in list" where
  "one_run = [quiet_in, quiet_in\<lparr>sq_request := Some (1, False)\<rparr>, quiet_in, quiet_in, quiet_in\<lparr>sq_response := Some example_leaf\<rparr>,
     quiet_in\<lparr>sq_accept := True\<rparr>, quiet_in\<lparr>sq_request := Some (2, False)\<rparr>, quiet_in\<lparr>sq_accept := True\<rparr>]"

lemma one_steps:
  "sa_cycle example_tlb_lib one_set False quiet_in (sa_reset one_set) = one_state zero_entry 0 0 False Sa_IDLE"
  "sa_cycle example_tlb_lib one_set False (quiet_in\<lparr>sq_request := Some (1, False)\<rparr>) (one_state zero_entry 0 0 False Sa_IDLE) =
     one_state zero_entry 1 0 False Sa_IDLE"
  "sa_cycle example_tlb_lib one_set False quiet_in (one_state zero_entry 1 0 False Sa_IDLE) = one_state zero_entry 1 1 False Sa_IDLE"
  "sa_cycle example_tlb_lib one_set False quiet_in (one_state zero_entry 1 1 False Sa_IDLE) = one_state zero_entry 1 1 True Sa_IDLE"
  by (simp_all add: one_eval fun_eq_iff) blast

lemma one_steps_2:
  "sa_cycle example_tlb_lib one_set False (quiet_in\<lparr>sq_response := Some example_leaf\<rparr>) (one_state zero_entry 1 1 True Sa_IDLE) =
     one_state zero_entry 1 1 True Sa_REFILL"
  "sa_cycle example_tlb_lib one_set False (quiet_in\<lparr>sq_accept := True\<rparr>) (one_state zero_entry 1 1 True Sa_REFILL) = one_filled"
  "sa_cycle example_tlb_lib one_set False (quiet_in\<lparr>sq_request := Some (2, False)\<rparr>) one_filled = one_hit"
  by (simp_all add: one_eval fun_eq_iff) blast

lemma one_answers:
  "sa_answer example_tlb_lib one_set (quiet_in\<lparr>sq_accept := True\<rparr>) (one_state zero_entry 1 1 True Sa_REFILL) = Some example_leaf"
  "sa_answer example_tlb_lib one_set (quiet_in\<lparr>sq_accept := True\<rparr>) one_hit = Some example_leaf"
  "sa_request_taken example_tlb_lib one_set (quiet_in\<lparr>sq_request := Some (1, False)\<rparr>) (one_state zero_entry 0 0 False Sa_IDLE) = Some (1, False)"
  "sa_request_taken example_tlb_lib one_set (quiet_in\<lparr>sq_request := Some (2, False)\<rparr>) one_filled = Some (2, False)"
  by (simp_all add: sa_answer_def one_eval sa_hit_def tlb_hit_def matched_entry_def first_mux_def)

lemma one_history:
  "sa_history example_tlb_lib one_set False one_run (sa_reset one_set) = ([(1, False), (2, False)], [example_leaf, example_leaf])"
proof -
  have quiet: "sq_request quiet_in = None" "\<not> sq_accept quiet_in" by (simp_all add: quiet_in_def)
  show ?thesis
    by (simp only: one_run_def sa_history.simps one_steps one_steps_2 one_answers prod.case Let_def) (simp add: stale_requests(2,3) quiet)
qed

lemma one_faithful:
  assumes W: "W = walk_world_of sv32_example 34 (\<lambda>_. True) example_memory (\<lambda>_. example_satp)"
  shows "sa_run_faithful example_tlb_lib one_set False W 5 one_run (sa_reset one_set)"
proof -
  have quiet: "sa_faithful c W 5 (quiet_in\<lparr>sq_request := r\<rparr>) s" "sa_faithful c W 5 (quiet_in\<lparr>sq_accept := b\<rparr>) s" "sa_faithful c W 5 quiet_in s" for c r s b
    by (simp_all add: sa_faithful_def quiet_in_def)
  have "walk_answers sv32_example False (ta_asid example_leaf) (W (ta_asid example_leaf) 1) example_leaf"
    using example_leaf_walk by (simp add: W example_world example_leaf_def)
  then have "sa_faithful one_set W 5 (quiet_in\<lparr>sq_response := Some example_leaf\<rparr>) (one_state zero_entry 1 1 True Sa_IDLE)"
    by (simp add: sa_faithful_def quiet_in_def one_state_def one_set_def)
  then show ?thesis by (simp only: one_run_def sa_run_faithful.simps one_steps one_steps_2 quiet simp_thms)
qed

theorem set_tlb_transparent_witness:
  "ta_ppn example_leaf = 3072 \<and>
   (\<exists>ds. sa_history example_tlb_lib one_set False one_run (sa_reset one_set) = ([(1, False), (2, False)], ds) \<and> ds ! 1 = example_leaf \<and>
      tlb_answers sv32_example False (walk_world_of sv32_example 34 (\<lambda>_. True) example_memory (\<lambda>_. example_satp) 5 2) (ds ! 1))"
proof -
  let ?W = "walk_world_of sv32_example 34 (\<lambda>_. True) example_memory (\<lambda>_. example_satp)"
  have mode: "\<forall>a :: nat. satp_mode example_satp \<in> set (supported_non_bare_schemes sv32_example)"
    using example_supported(1) by (simp add: example_satp_def)
  have "world_ok sv32_example ?W"
    by (rule walk_world_ok [OF sv32_example_params mode]) (simp add: example_world)
  moreover have "mk_SetAssociativeTLB sv32_example 1 1 = Inr one_set"
    by (simp add: mk_SetAssociativeTLB_def one_set_def bit_length.simps)
  ultimately have "tlb_answers sv32_example False (?W 5 2) example_leaf"
    using set_tlb_transparent [OF _ example_tlb_lib_spec _ one_faithful [OF refl] one_history, of sv32_example 1 1]
    by (auto dest!: spec [of _ 1] simp: example_leaf_def)
  then show ?thesis using one_history by (simp add: example_leaf_def)
qed

theorem set_tlb_fences_witness:
  "(let s = sa_run example_tlb_lib example_sets True (replicate 4 quiet_in) (sa_reset example_sets)
    in \<not> sa_flushing s \<and> (\<forall>i < 4. \<forall>e \<in> set (sa_mem s i). \<not> te_valid e))"
proof -
  have "mk_SetAssociativeTLB sv32_example 4 1 = Inr example_sets"
    by (simp add: mk_SetAssociativeTLB_def example_sets_def bit_length.simps)
  moreover have "length (replicate 4 quiet_in) = sp_sets example_sets" "sp_sets example_sets = 4" by (simp_all add: example_sets_def)
  ultimately show ?thesis using set_tlb_fences [OF _ _ disjI1 [OF conjI [OF refl refl]], of sv32_example 4 1 example_sets "replicate 4 quiet_in"] by simp
qed

end
