(* ===== verification/Spec2Isabelle.thy ===== *)
theory Spec2Isabelle
  imports Isa_Consts Isa Instr_Encode Rvc Optypes Instr_Description Instr_Decoder Frontend_Decode
    Fu_Common Alu Shift_Unit Zb_Units Zbc Request_Unit Unsigned_Mul Mul_Unit Div_Unit Transactron Rob Rrat Register_File Crat Pmp
    Csr_Address Csr_Register Csr_Instances Csr_Unit Exception_Register Rs Interrupt_Controller
    Jump_Branch Lsu Vmem Retirement Scheduler Tlb Tlb_Set
begin

text \<open>
  Coreblocks is a generator of superscalar out-of-order RISC-V cores, written in Python with the hardware
  description library Amaranth and the transaction library Transactron. A Python class describes a module;
  its constructor runs when the core is generated, its method \<^verbatim>\<open>elaborate\<close> describes registers (\<^verbatim>\<open>m.d.sync\<close>),
  combinational logic (\<^verbatim>\<open>m.d.comb\<close>) and methods, which transactions of other modules call in a clock cycle.
  Instructions are fetched and decoded (\<^verbatim>\<open>frontend\<close>), renamed and placed in the reorder buffer and in
  reservation stations (\<^verbatim>\<open>scheduler\<close>, \<^verbatim>\<open>core_structs\<close>), executed out of order (\<^verbatim>\<open>func_blocks\<close>) and retired in
  order (\<^verbatim>\<open>backend\<close>); \<^verbatim>\<open>priv\<close> holds the control and status registers, traps, memory protection and virtual memory.

  \<^bold>\<open>How the code is modelled.\<close> Python code that runs at generation time becomes functions on Python values, with
  raised exceptions as values of a sum type. Combinational logic becomes a function of its inputs. A module with
  state becomes a record of its registers and a function \<open>..._cycle\<close> that takes the methods called in a
  clock cycle with their arguments and gives the next state, the assignments being applied in the order of the source (the
  last one wins); what a method returns is a function of the state before the cycle and of the calls. Readiness
  conditions and assertions are collected in predicates \<open>..._legal\<close> on the calls of a cycle. Signals have the width of the
  source: instruction words and operands are \<open>'a word\<close> or bit lists, indices are natural numbers with the reduction
  modulo the width written out. Library modules that are not in the repository (Transactron's \<^verbatim>\<open>WideFifo\<close>,
  \<^verbatim>\<open>MemoryBank\<close>, \<^verbatim>\<open>OneHotMux\<close>, Amaranth's helper functions) are parameters, records of their operations, with
  their documented behaviour as a predicate \<open>..._spec\<close>; concrete implementations in \<open>Transactron\<close> show that these
  predicates hold of something. Metrics, logging and tracing are left out everywhere.

  \<^bold>\<open>Architecture and decoding.\<close> \<open>Hw_Prelude\<close> has the shared lemmas on bit lists and words. \<open>Isa_Consts\<close>
  (\<^verbatim>\<open>arch/isa_consts.py\<close>) and \<open>Isa\<close> (\<^verbatim>\<open>arch/isa.py\<close>) hold the constants, the extensions and the construction of an instruction set; an
  accepted one is closed under implications and requirements. \<open>Instr_Encode\<close> (\<^verbatim>\<open>params/instr.py\<close>) encodes
  instructions; \<open>Rvc\<close> (\<^verbatim>\<open>frontend/decoder/rvc.py\<close>) expands compressed ones; \<open>Optypes\<close> (\<^verbatim>\<open>arch/optypes.py\<close>), \<open>Instr_Description\<close> and \<open>Instr_Decoder\<close>
  (\<^verbatim>\<open>frontend/decoder\<close>) are the operation types, the encoding table and the decoder. \<open>Frontend_Decode\<close> joins
  them: which expansions are accepted by the decoder, on every configuration for 32 bits; the decoder recognises exactly the supported
  encodings in any enumeration order; and what becomes of an encoded immediate in each format and at each width.

  \<^bold>\<open>Functional units\<close> (\<^verbatim>\<open>func_blocks/fu\<close>). \<open>Fu_Common\<close> is the operation decoder shared by the units; \<open>Alu\<close>, \<open>Shift_Unit\<close>,
  \<open>Zb_Units\<close> (\<^verbatim>\<open>zbs.py\<close>, \<^verbatim>\<open>zbkx.py\<close>) and \<open>Zbc\<close> compute the instructions of their tables. \<open>Request_Unit\<close> is the interface of a
  unit that answers requests in order over several cycles, a locale whose lemmas give the order of results and an
  answer within a bound; \<open>Unsigned_Mul\<close> (the multipliers), \<open>Mul_Unit\<close> and \<open>Div_Unit\<close> interpret it.

  \<^bold>\<open>Core structures\<close> (\<^verbatim>\<open>core_structs\<close>). \<open>Rob\<close>: the reorder buffer refines a list of instructions with completion
  status. \<open>Rrat\<close>, \<open>Crat\<close>: the retirement and the speculative alias table with checkpoints; several ports in a cycle equal
  the operations one after the other, rollbacks deactivate exactly the younger tags and restore the saved table.
  \<open>Register_File\<close>: reads with forwarding agree with an abstract register file.

  \<^bold>\<open>Scheduling, stations and retirement.\<close> \<open>Scheduler\<close> (\<^verbatim>\<open>scheduler/scheduler.py\<close>): the pipeline from decoded instructions to the
  stations, with register allocation, tagging, renaming, allocation in the reorder buffer, choice of a station and insertion; no
  instruction is lost or overtaken, and each is renamed as in sequential renaming. \<open>Rs\<close> (\<^verbatim>\<open>func_blocks/fu/common\<close>,
  \<^verbatim>\<open>scheduler/wakeup_select.py\<close>, \<^verbatim>\<open>backend/announcement.py\<close>): reservation stations, over the locale \<open>rs_allocator\<close> of what an
  allocator of rows promises; the station in order of allocation refines a queue, and what leaves it is derived from the ready lists and
  the wakeup logic. \<open>Exception_Register\<close> (\<^verbatim>\<open>priv/traps/exception.py\<close>) keeps the oldest exception, against an abstract list of the pending
  ones. \<open>Retirement\<close> (\<^verbatim>\<open>backend/retirement.py\<close>): the masks and the state machine of retirement agree with in-order execution, conserve
  physical registers, and guard side effects.

  \<^bold>\<open>Control transfer and memory.\<close> \<open>Jump_Branch\<close> (\<^verbatim>\<open>func_blocks/fu/jumpbranch.py\<close>) leaves the frontend at the architecture's next
  address. \<open>Lsu\<close> (\<^verbatim>\<open>func_blocks/fu/lsu\<close>) is the load/store unit as a step relation of its transactions, with the requester of the bus; its bus accesses
  are safe, and loads and stores act on bytes as prescribed, for a bus of 32 bits. \<open>Vmem\<close> (\<^verbatim>\<open>params/vmem_params.py\<close>, \<^verbatim>\<open>priv/vmem/walker.py\<close>,
  \<^verbatim>\<open>translation.py\<close>): the page table walker refines a recursive page walk, and the translator, over the locale
  \<open>backing_device\<close>, gives its outcome, with two exceptions stated in the theorem. \<open>Tlb\<close>, \<open>Tlb_Set\<close> (\<^verbatim>\<open>priv/vmem/tlb.py\<close>): the fully associative and the set associative
  buffer are transparent, and what their fences remove.

  \<^bold>\<open>Privileged architecture\<close> (\<^verbatim>\<open>priv\<close>). \<open>Pmp\<close>: the memory protection checker grants no more than the architecture and decides as that
  prescribes but for two cases stated in the theorem.
  \<open>Csr_Address\<close>, \<open>Csr_Register\<close>, \<open>Csr_Instances\<close>: the address table, the kinds of registers (locales \<open>csr_port\<close> and
  \<open>csr_shadow\<close> state what a CSR instruction does to the bits of a register and of a shadow of it) and the registers of machine and
  supervisor mode with their masks, filters and locks. \<open>Csr_Unit\<close> (\<^verbatim>\<open>func_blocks/csr/csr_unit.py\<close>): an instruction takes effect once, as
  prescribed, or traps. \<open>Interrupt_Controller\<close> (\<^verbatim>\<open>priv/traps/interrupt_controller.py\<close>): which interrupt is reported, the pending bits, and the
  status changes of trap entry and return.

  \<^bold>\<open>Departures.\<close> Where the code differs from the architecture the theorem says how: the decoder on RV32E and RV64 and for floating point
  loads and stores (\<open>Frontend_Decode\<close>), the privilege of accesses with MPRV and empty ranges (\<open>Pmp\<close>), pages larger than the
  physical address space and stale outputs of the backing device (\<open>Vmem\<close>), fences for pages (\<open>Tlb_Set\<close>), and small multiplier blocks
  (\<open>Unsigned_Mul\<close>).

  \<^bold>\<open>Bounds and fuel.\<close> Recursive hardware (the recursive multiplier) is a function with fuel, and its theorem
  shows for which parameters the generation ends; loops over ports are folds. Theorems on runs hold for runs of every length.
  Units that answer after several cycles have a bound in terms of their parameters, as do the walker (two granted cycles for each level) and the
  fence of the set associative buffer (one cycle for each set).

  \<^bold>\<open>Not modelled.\<close> Of the repository's own logic: instruction fetching, branch prediction and the fetch target queue
  (\<^verbatim>\<open>frontend/fetch\<close>, \<^verbatim>\<open>frontend/bpu\<close>, \<^verbatim>\<open>ftq.py\<close>), the instruction cache (\<^verbatim>\<open>cache\<close>), floating point (\<^verbatim>\<open>fu/fpu\<close>), the units for
  privileged instructions and explicit exceptions (\<^verbatim>\<open>fu/priv.py\<close>, \<^verbatim>\<open>fu/exception.py\<close>), atomic memory operations, the pipelined multiplier, the
  bus masters and adapters (\<^verbatim>\<open>peripherals\<close>) and the devices of \<^verbatim>\<open>socks\<close>. The manifest gives the reason for each. The assembly of
  the core from its parts, the generators of Verilog, the test benches and the simulation support are glue around the core.
\<close>

end
